(* ===== verification/Prelude.thy ===== *)
theory Prelude
  imports Main "HOL-Library.Word"
begin

text \<open>
  Shared vocabulary of the development.

  The kernel is compiled by \<^verbatim>\<open>bcc -0\<close>: \<open>int\<close>, \<open>unsigned int\<close> and pointers are
  16 bits wide, \<open>char\<close> is 8 bits and \<open>long\<close> is 32 bits.  This theory names those
  widths, the error values that a kernel operation can end in, a small state and
  error monad, and the word and list lemmas that the components share.
\<close>

section \<open>Machine types\<close>

type_synonym u8 = "8 word"
type_synonym u16 = "16 word"
type_synonym u32 = "32 word"

text \<open>A near pointer into the kernel segment; 0 is the null pointer.\<close>

type_synonym ptr = u16

section \<open>Theorem collections\<close>

named_theorems nat_of_word \<open>readings of word operations as natural numbers\<close>
named_theorems kernel_simps \<open>evaluation rules of the kernel monad\<close>
named_theorems preserves \<open>operations keep an invariant\<close>

section \<open>Errors\<close>

text \<open>
  \<open>Panic msg\<close> is a call of \<open>panic\<close> (\<open>do_panic\<close> disables interrupts and halts, so it
  does not come back).  \<open>BadPtr p\<close> is the use of a pointer that does not point to an
  object of the expected type, the null pointer included.  \<open>Hang\<close> is a loop that never
  gives control back.
\<close>

datatype kerror = Panic string | BadPtr ptr | Hang

section \<open>Operations on a state that may fail\<close>

type_synonym ('s, 'a) kmon = "'s \<Rightarrow> kerror + 'a \<times> 's"

definition retK :: "'a \<Rightarrow> ('s, 'a) kmon" where
  "retK a s = Inr (a, s)"

definition failK :: "kerror \<Rightarrow> ('s, 'a) kmon" where
  "failK e s = Inl e"

definition bindK :: "('s, 'a) kmon \<Rightarrow> ('a \<Rightarrow> ('s, 'b) kmon) \<Rightarrow> ('s, 'b) kmon" where
  "bindK m f s = (case m s of Inl e \<Rightarrow> Inl e | Inr (a, s') \<Rightarrow> f a s')"

definition thenK :: "('s, 'a) kmon \<Rightarrow> ('s, 'b) kmon \<Rightarrow> ('s, 'b) kmon" where
  "thenK m n = bindK m (\<lambda>_. n)"

definition getK :: "('s \<Rightarrow> 'a) \<Rightarrow> ('s, 'a) kmon" where
  "getK f s = Inr (f s, s)"

definition modifyK :: "('s \<Rightarrow> 's) \<Rightarrow> ('s, unit) kmon" where
  "modifyK f s = Inr ((), f s)"

definition whenK :: "bool \<Rightarrow> ('s, unit) kmon \<Rightarrow> ('s, unit) kmon" where
  "whenK b m = (if b then m else retK ())"

definition lookupK :: "('s \<Rightarrow> ptr \<Rightarrow> 'a option) \<Rightarrow> ptr \<Rightarrow> ('s, 'a) kmon" where
  "lookupK f p s = (case f s p of None \<Rightarrow> Inl (BadPtr p) | Some a \<Rightarrow> Inr (a, s))"

text \<open>A loop whose divergence is \<open>None\<close>, as an operation.\<close>

definition runK :: "('s \<Rightarrow> (kerror + 's) option) \<Rightarrow> ('s, unit) kmon" where
  "runK f s = (case f s of None \<Rightarrow> Inl Hang | Some (Inl e) \<Rightarrow> Inl e | Some (Inr s') \<Rightarrow> Inr ((), s'))"

lemma retK_apply [kernel_simps]: "retK a s = Inr (a, s)"
  by (simp add: retK_def)

lemma failK_apply [kernel_simps]: "failK e s = Inl e"
  by (simp add: failK_def)

lemma getK_apply [kernel_simps]: "getK f s = Inr (f s, s)"
  by (simp add: getK_def)

lemma modifyK_apply [kernel_simps]: "modifyK f s = Inr ((), f s)"
  by (simp add: modifyK_def)

lemma bindK_Inr [kernel_simps]: "m s = Inr (a, s') \<Longrightarrow> bindK m f s = f a s'"
  by (simp add: bindK_def)

lemma bindK_Inl [kernel_simps]: "m s = Inl e \<Longrightarrow> bindK m f s = Inl e"
  by (simp add: bindK_def)

lemma bindK_eq_Inr:
  "bindK m f s = Inr (b, t) \<longleftrightarrow> (\<exists>a s'. m s = Inr (a, s') \<and> f a s' = Inr (b, t))"
  by (auto simp: bindK_def split: sum.splits)

lemma thenK_eq_Inr:
  "thenK m n s = Inr (b, t) \<longleftrightarrow> (\<exists>a s'. m s = Inr (a, s') \<and> n s' = Inr (b, t))"
  by (simp add: thenK_def bindK_eq_Inr)

lemma bindK_InrE [elim]:
  assumes "bindK m f s = Inr (b, t)"
  obtains a s' where "m s = Inr (a, s')" and "f a s' = Inr (b, t)"
  using assms by (auto simp: bindK_eq_Inr)

lemma thenK_Inr [kernel_simps]: "m s = Inr (a, s') \<Longrightarrow> thenK m n s = n s'"
  by (simp add: thenK_def bindK_Inr)

lemma thenK_Inl [kernel_simps]: "m s = Inl e \<Longrightarrow> thenK m n s = Inl e"
  by (simp add: thenK_def bindK_Inl)

lemma whenK_simps [kernel_simps]: "whenK True m = m" "whenK False m = retK ()"
  by (simp_all add: whenK_def)

lemma lookupK_Some [kernel_simps]: "f s p = Some a \<Longrightarrow> lookupK f p s = Inr (a, s)"
  by (simp add: lookupK_def)

lemma lookupK_None [kernel_simps]: "f s p = None \<Longrightarrow> lookupK f p s = Inl (BadPtr p)"
  by (simp add: lookupK_def)

lemma lookupK_eq_Inr: "lookupK f p s = Inr (a, t) \<longleftrightarrow> f s p = Some a \<and> t = s"
  by (auto simp: lookupK_def split: option.splits)

lemmas kmon_defs = retK_def failK_def bindK_def thenK_def getK_def modifyK_def
  whenK_def lookupK_def

section \<open>16-bit words as natural numbers\<close>

lemma unat_of_nat_16: "k < 65536 \<Longrightarrow> unat (of_nat k :: u16) = k"
  by (simp add: unat_of_nat take_bit_eq_mod)

lemma unat_lt_65536: "unat (a :: u16) < 65536"
  using unsigned_less [of a, where ?'a = nat] by simp

lemma unat_le_65535: "unat (a :: u16) \<le> 65535"
  using unat_lt_65536 [of a] by linarith

lemma unat_add16 [nat_of_word]: "unat (a + b :: u16) = (unat a + unat b) mod 65536"
  by (simp add: unat_word_ariths)

lemma unat_mult16 [nat_of_word]: "unat (a * b :: u16) = (unat a * unat b) mod 65536"
  by (simp add: unat_word_ariths)

lemma unat_sub16_le: "unat b \<le> unat a \<Longrightarrow> unat (a - b :: u16) = unat a - unat b"
  by (simp add: unat_sub word_le_nat_alt)

lemma unat_sub16: "unat (a - b :: u16) = (unat a + 65536 - unat b) mod 65536"
proof (cases "unat b \<le> unat a")
  case True
  then have "unat a + 65536 - unat b = (unat a - unat b) + 65536" by simp
  moreover have "unat a - unat b < 65536"
    using unat_lt_65536 [of a] by linarith
  ultimately have "(unat a + 65536 - unat b) mod 65536 = unat a - unat b"
    by (simp only: mod_add_self2 mod_less)
  then show ?thesis
    by (simp only: unat_sub16_le [OF True])
next
  case False
  then show ?thesis
    using unat_lt_65536 [of b] by (simp add: unat_sub_if' word_le_nat_alt)
qed

lemma less16_iff [nat_of_word]: "(a :: u16) < b \<longleftrightarrow> unat a < unat b"
  by (rule word_less_nat_alt)

lemma le16_iff [nat_of_word]: "(a :: u16) \<le> b \<longleftrightarrow> unat a \<le> unat b"
  by (rule word_le_nat_alt)

lemma unat_div16 [nat_of_word]: "unat (a div b :: u16) = unat a div unat b"
  by (rule unat_div)

lemma unat_mod16 [nat_of_word]: "unat (a mod b :: u16) = unat a mod unat b"
  by (rule unat_mod)

lemma unat_minus_1_16 [simp]: "unat (- 1 :: u16) = 65535"
  by (simp add: unsigned_minus_1_eq_mask mask_eq_exp_minus_1)

text \<open>Unsigned addition wraps exactly when the sum is below one of the summands.\<close>

lemma mod_65536_sum:
  "x < 65536 \<Longrightarrow> y < 65536 \<Longrightarrow> (x + y) mod 65536 = (if x + y < 65536 then x + y else x + y - 65536)"
  for x y :: nat
  by (simp add: le_mod_geq)

lemma unat_add16_if:
  "unat (a + b :: u16) = (if unat a + unat b < 65536 then unat a + unat b else unat a + unat b - 65536)"
  unfolding unat_add16 by (rule mod_65536_sum [OF unat_lt_65536 unat_lt_65536])

lemma unat_add16_small: "unat a + unat b < 65536 \<Longrightarrow> unat (a + b :: u16) = unat a + unat b"
  by (simp only: unat_add16_if if_True)

lemma add16_carry: "(a + t :: u16) < t \<longleftrightarrow> 65536 \<le> unat a + unat t"
  using unat_lt_65536 [of a] unfolding less16_iff unat_add16_if by auto

lemma add16_split:
  "unat (a + t :: u16) + 65536 * (if a + t < t then 1 else 0) = unat a + unat t"
  unfolding add16_carry unat_add16_if by simp

section \<open>Lists\<close>

lemma find_SomeD: "find P xs = Some x \<Longrightarrow> x \<in> set xs \<and> P x"
  by (auto simp: find_Some_iff)

lemma sum_list_update_nat:
  "i < length xs \<Longrightarrow> sum_list (xs[i := x]) + xs ! i = sum_list xs + (x :: nat)"
  by (induction xs arbitrary: i) (auto split: nat.splits)

lemma sum_list_take_Suc_nth:
  "i < length xs \<Longrightarrow> sum_list (take (Suc i) xs) = sum_list (take i xs) + (xs ! i :: nat)"
  by (simp add: take_Suc_conv_app_nth)

lemma sum_list_take_mono:
  "i \<le> j \<Longrightarrow> sum_list (take i xs) \<le> sum_list (take j (xs :: nat list))"
proof -
  assume "i \<le> j"
  then have "take j xs = take i xs @ take (j - i) (drop i xs)"
    by (metis le_add_diff_inverse take_add)
  then show ?thesis by simp
qed

lemma sum_list_take_le: "sum_list (take i xs) \<le> sum_list (xs :: nat list)"
proof -
  have "sum_list xs = sum_list (take i xs) + sum_list (drop i xs)"
    by (metis append_take_drop_id sum_list_append)
  then show ?thesis by simp
qed

lemma sum_lessThan_add:
  "(\<Sum>i < m + n. f i) = (\<Sum>i < m. f i) + (\<Sum>i < n. f (i + m))"
  for f :: "nat \<Rightarrow> nat"
  by (induction n) (simp_all add: add.commute add.left_commute)

end
