(* ===== verification/Machine.thy ===== *)
theory Machine
  imports Prelude
begin

text \<open>
  The machine below the kernel: real-mode memory addressed by segment and offset
  (\<^verbatim>\<open>kernel/mem.c\<close> and the \<^verbatim>\<open>rep movs/stos\<close> routines of \<^verbatim>\<open>kernel/string.c\<close>) and the
  I/O ports (\<^verbatim>\<open>kernel/io.c\<close>, \<^verbatim>\<open>kernel/char/serial.c\<close>).

  Memory is a function from physical addresses to bytes.  Offsets are 16-bit and wrap inside
  their segment, as the index registers of the 8086 do.  The devices are a parameter of the
  model: \<open>port_in n p\<close> is what the \<open>n\<close>-th read of a port returns when it reads port \<open>p\<close>;
  \<open>port_out\<close> records the writes to ports, oldest first.
\<close>

unbundle bit_operations_syntax

record machine =
  mem :: "nat \<Rightarrow> u8"
  port_in :: "nat \<Rightarrow> u16 \<Rightarrow> u8"
  port_reads :: nat
  port_out :: "(u16 \<times> u8) list"

section \<open>Memory\<close>

definition linear :: "u16 \<Rightarrow> u16 \<Rightarrow> nat" where
  "linear seg off = 16 * unat seg + unat off"

definition lo8 :: "u16 \<Rightarrow> u8" where
  "lo8 w = ucast w"

definition hi8 :: "u16 \<Rightarrow> u8" where
  "hi8 w = ucast (drop_bit 8 w)"

definition word_of_bytes :: "u8 \<Rightarrow> u8 \<Rightarrow> u16" where
  "word_of_bytes lo hi = ucast lo OR push_bit 8 (ucast hi)"

definition poke :: "u16 \<Rightarrow> u16 \<Rightarrow> u8 \<Rightarrow> 'z machine_scheme \<Rightarrow> 'z machine_scheme" where
  "poke seg off val s = s\<lparr>mem := (mem s)(linear seg off := val)\<rparr>"

definition pokew :: "u16 \<Rightarrow> u16 \<Rightarrow> u16 \<Rightarrow> 'z machine_scheme \<Rightarrow> 'z machine_scheme" where
  "pokew seg off val s =
     s\<lparr>mem := (mem s)(linear seg off := lo8 val, linear seg (off + 1) := hi8 val)\<rparr>"

definition peek :: "u16 \<Rightarrow> u16 \<Rightarrow> 'z machine_scheme \<Rightarrow> u8" where
  "peek seg off s = mem s (linear seg off)"

definition peekw :: "u16 \<Rightarrow> u16 \<Rightarrow> 'z machine_scheme \<Rightarrow> u16" where
  "peekw seg off s = word_of_bytes (mem s (linear seg off)) (mem s (linear seg (off + 1)))"

text \<open>The string instructions, byte by byte and upwards; the count register is unsigned.\<close>

fun movsb :: "nat \<Rightarrow> u16 \<Rightarrow> u16 \<Rightarrow> u16 \<Rightarrow> u16 \<Rightarrow> (nat \<Rightarrow> u8) \<Rightarrow> (nat \<Rightarrow> u8)" where
  "movsb 0 di si es ds m = m"
| "movsb (Suc cx) di si es ds m =
     movsb cx (di + 1) (si + 1) es ds (m(linear es di := m (linear ds si)))"

definition farmemcpy ::
  "u16 \<Rightarrow> u16 \<Rightarrow> u16 \<Rightarrow> u16 \<Rightarrow> u16 \<Rightarrow> 'z machine_scheme \<Rightarrow> 'z machine_scheme" where
  "farmemcpy dest src count destseg srcseg s =
     s\<lparr>mem := movsb (unat count) dest src destseg srcseg (mem s)\<rparr>"

definition memcpy :: "u16 \<Rightarrow> u16 \<Rightarrow> u16 \<Rightarrow> 'z machine_scheme \<Rightarrow> 'z machine_scheme" where
  "memcpy dest src count = farmemcpy dest src count 0x0050 0x0050"

fun stosb :: "nat \<Rightarrow> u16 \<Rightarrow> u8 \<Rightarrow> u16 \<Rightarrow> (nat \<Rightarrow> u8) \<Rightarrow> (nat \<Rightarrow> u8)" where
  "stosb 0 di al es m = m"
| "stosb (Suc cx) di al es m = stosb cx (di + 1) al es (m(linear es di := al))"

definition farmemset :: "u16 \<Rightarrow> u16 \<Rightarrow> u16 \<Rightarrow> u16 \<Rightarrow> 'z machine_scheme \<Rightarrow> 'z machine_scheme" where
  "farmemset dest val count seg s =
     s\<lparr>mem := stosb (unat count) dest (lo8 val) seg (mem s)\<rparr>"

definition memset :: "u16 \<Rightarrow> u16 \<Rightarrow> u16 \<Rightarrow> 'z machine_scheme \<Rightarrow> 'z machine_scheme" where
  "memset dest val count = farmemset dest val count 0x0050"

fun stosw :: "nat \<Rightarrow> u16 \<Rightarrow> u16 \<Rightarrow> u16 \<Rightarrow> (nat \<Rightarrow> u8) \<Rightarrow> (nat \<Rightarrow> u8)" where
  "stosw 0 di ax es m = m"
| "stosw (Suc cx) di ax es m =
     stosw cx (di + 2) ax es (m(linear es di := lo8 ax, linear es (di + 1) := hi8 ax))"

definition farmemsetw :: "u16 \<Rightarrow> u16 \<Rightarrow> u16 \<Rightarrow> u16 \<Rightarrow> 'z machine_scheme \<Rightarrow> 'z machine_scheme" where
  "farmemsetw dest val count seg s =
     s\<lparr>mem := stosw (unat count) dest val seg (mem s)\<rparr>"

text \<open>Reading and writing runs of bytes; the specification side of the copies.\<close>

definition bytes_at :: "u16 \<Rightarrow> u16 \<Rightarrow> nat \<Rightarrow> (nat \<Rightarrow> u8) \<Rightarrow> u8 list" where
  "bytes_at seg off n m = map (\<lambda>i. m (linear seg (off + of_nat i))) [0..<n]"

fun store_bytes :: "u16 \<Rightarrow> u16 \<Rightarrow> u8 list \<Rightarrow> (nat \<Rightarrow> u8) \<Rightarrow> (nat \<Rightarrow> u8)" where
  "store_bytes seg off [] m = m"
| "store_bytes seg off (b # bs) m = store_bytes seg (off + 1) bs (m(linear seg off := b))"

section \<open>Ports\<close>

definition inb :: "u16 \<Rightarrow> 'z machine_scheme \<Rightarrow> u8 \<times> 'z machine_scheme" where
  "inb port s = (port_in s (port_reads s) port, s\<lparr>port_reads := Suc (port_reads s)\<rparr>)"

definition outb :: "u16 \<Rightarrow> u8 \<Rightarrow> 'z machine_scheme \<Rightarrow> 'z machine_scheme" where
  "outb port val s = s\<lparr>port_out := port_out s @ [(port, val)]\<rparr>"

text \<open>
  The serial line.  \<open>write_serial\<close> polls the line status until the transmitter is empty; it
  returns \<open>None\<close> when the device never reports that.
\<close>

definition COM1 :: u16 where
  "COM1 = 0x3f8"

definition init_serial :: "'z machine_scheme \<Rightarrow> 'z machine_scheme" where
  "init_serial s =
     outb (COM1 + 2) 0 (outb (COM1 + 1) 0 (outb COM1 1 (outb (COM1 + 3) 3 (outb (COM1 + 1) 0 s))))"

definition is_transmit_empty :: "'z machine_scheme \<Rightarrow> bool \<times> 'z machine_scheme" where
  "is_transmit_empty s = (let (v, s) = inb (COM1 + 5) s in (v AND 0x20 \<noteq> 0, s))"

partial_function (option) wait_transmit :: "'z machine_scheme \<Rightarrow> 'z machine_scheme option" where
  "wait_transmit s = (case is_transmit_empty s of (e, s) \<Rightarrow> if e then Some s else wait_transmit s)"

definition write_serial :: "u8 \<Rightarrow> 'z machine_scheme \<Rightarrow> 'z machine_scheme option" where
  "write_serial a s = map_option (outb COM1 a) (wait_transmit s)"

section \<open>Bytes and words\<close>

lemma word_of_bytes_lo_hi [simp]: "word_of_bytes (lo8 w) (hi8 w) = w"
  unfolding word_of_bytes_def lo8_def hi8_def
  by (intro bit_word_eqI) (auto simp: bit_simps)

lemma lo8_word_of_bytes [simp]: "lo8 (word_of_bytes lo hi) = lo"
  unfolding word_of_bytes_def lo8_def
  by (intro bit_word_eqI) (auto simp: bit_simps)

lemma hi8_word_of_bytes [simp]: "hi8 (word_of_bytes lo hi) = hi"
  unfolding word_of_bytes_def hi8_def
  by (intro bit_word_eqI) (auto simp: bit_simps dest: bit_imp_le_length)

lemma linear_inject: "linear seg a = linear seg b \<longleftrightarrow> a = b"
  by (simp add: linear_def word_unat_eq_iff)

lemma off_neq_Suc [simp]: "off + 1 \<noteq> (off :: u16)"
  by simp

text \<open>A word written to memory is read back, in every segment and at every offset.\<close>

lemma peekw_pokew: "peekw seg off (pokew seg off v s) = v"
  by (simp add: peekw_def pokew_def linear_inject)

lemma peekw_pokew_other:
  assumes "off' \<noteq> off" and "off' \<noteq> off + 1" and "off' + 1 \<noteq> off"
  shows "peekw seg off' (pokew seg off v s) = peekw seg off' s"
  using assms by (simp add: peekw_def pokew_def linear_inject)

lemma peek_poke: "peek seg off (poke seg off v s) = v"
  by (simp add: peek_def poke_def)

section \<open>Far copies\<close>

lemma add_of_nat_Suc: "(off :: u16) + 1 + of_nat i = off + of_nat (Suc i)"
  by (simp add: algebra_simps)

lemma of_nat_0_16: "0 < n \<Longrightarrow> n < 65536 \<Longrightarrow> of_nat n \<noteq> (0 :: u16)"
  by (simp add: word_unat_eq_iff unat_of_nat take_bit_eq_mod)

lemma movsb_other:
  "(\<And>i. i < n \<Longrightarrow> a \<noteq> linear es (di + of_nat i)) \<Longrightarrow> movsb n di si es ds m a = m a"
proof (induction n arbitrary: di si m)
  case 0
  then show ?case by simp
next
  case (Suc n)
  have "movsb n (di + 1) (si + 1) es ds (m(linear es di := m (linear ds si))) a
      = (m(linear es di := m (linear ds si))) a"
    using Suc.prems [of "Suc _"] by (intro Suc.IH) (simp add: add_of_nat_Suc del: of_nat_Suc)
  moreover have "a \<noteq> linear es di" using Suc.prems [of 0] by simp
  ultimately show ?case by simp
qed

lemma of_nat_16_inj: "i < 65536 \<Longrightarrow> j < 65536 \<Longrightarrow> (of_nat i :: u16) = of_nat j \<longleftrightarrow> i = j"
  by (simp add: word_of_nat_eq_iff take_bit_eq_mod)

lemma movsb_copied:
  assumes "n \<le> 65536" and "i < n"
    and "\<And>i j. i < n \<Longrightarrow> j < n \<Longrightarrow> linear es (di + of_nat i) \<noteq> linear ds (si + of_nat j)"
  shows "movsb n di si es ds m (linear es (di + of_nat i)) = m (linear ds (si + of_nat i))"
  using assms
proof (induction n arbitrary: i di si m)
  case 0
  then show ?case by simp
next
  case (Suc n)
  let ?m = "m(linear es di := m (linear ds si))"
  show ?case
  proof (cases i)
    case 0
    have "movsb n (di + 1) (si + 1) es ds ?m (linear es di) = ?m (linear es di)"
    proof (rule movsb_other)
      fix k assume "k < n"
      then have "(of_nat (Suc k) :: u16) \<noteq> of_nat 0"
        using Suc.prems(1) by (subst of_nat_16_inj) auto
      then show "linear es di \<noteq> linear es (di + 1 + of_nat k)"
        by (simp only: add_of_nat_Suc linear_inject) simp
    qed
    then show ?thesis using 0 by simp
  next
    case (Suc j)
    have sep: "linear es (di + 1 + of_nat a) \<noteq> linear ds (si + 1 + of_nat b)"
      if "a < n" "b < n" for a b
      using Suc.prems(3) [of "Suc a" "Suc b"] that by (simp add: add_of_nat_Suc del: of_nat_Suc)
    have "movsb n (di + 1) (si + 1) es ds ?m (linear es (di + 1 + of_nat j))
        = ?m (linear ds (si + 1 + of_nat j))"
      using Suc Suc.prems sep by (intro Suc.IH) auto
    moreover have "linear ds (si + 1 + of_nat j) \<noteq> linear es di"
      using Suc.prems(3) [of 0 "Suc j"] Suc.prems(2) Suc by (simp only: add_of_nat_Suc) simp
    ultimately show ?thesis
      using Suc by (simp add: add_of_nat_Suc del: of_nat_Suc)
  qed
qed

text \<open>
  When the two runs do not overlap, \<open>farmemcpy\<close> makes the destination equal to the
  source, and no byte outside the destination changes.
\<close>

theorem farmemcpy_copies:
  assumes "\<And>i j. i < unat count \<Longrightarrow> j < unat count \<Longrightarrow>
      linear destseg (dest + of_nat i) \<noteq> linear srcseg (src + of_nat j)"
  shows "bytes_at destseg dest (unat count) (mem (farmemcpy dest src count destseg srcseg s))
      = bytes_at srcseg src (unat count) (mem s)
    \<and> (\<forall>a. (\<forall>i < unat count. a \<noteq> linear destseg (dest + of_nat i)) \<longrightarrow>
        mem (farmemcpy dest src count destseg srcseg s) a = mem s a)"
proof -
  have "unat count \<le> 65536" using unat_lt_65536 [of count] by simp
  then show ?thesis
    using assms by (auto simp: bytes_at_def farmemcpy_def intro!: movsb_copied movsb_other)
qed

lemma linear_segments_apart:
  "linear 0x1050 a \<noteq> linear 0x2050 b"
  using unat_lt_65536 [of a] unat_lt_65536 [of b] by (simp add: linear_def)

theorem farmemcpy_copies_witness:
  "bytes_at 0x2050 0 3 (mem (farmemcpy 0 0x10 3 0x2050 0x1050 s)) = bytes_at 0x1050 0x10 3 (mem s)"
proof -
  have "linear 0x2050 (0 + of_nat i) \<noteq> linear 0x1050 (0x10 + of_nat j)" for i j
    by (rule linear_segments_apart [symmetric])
  then show ?thesis
    using farmemcpy_copies [where count = 3 and destseg = "0x2050" and dest = 0
        and srcseg = "0x1050" and src = "0x10" and s = s] by simp
qed

section \<open>Runs of bytes\<close>

lemma bytes_at_length [simp]: "length (bytes_at seg off n m) = n"
  by (simp add: bytes_at_def)

lemma bytes_at_0 [simp]: "bytes_at seg off 0 m = []"
  by (simp add: bytes_at_def)

lemma bytes_at_Suc: "bytes_at seg off (Suc n) m = m (linear seg off) # bytes_at seg (off + 1) n m"
  by (simp add: bytes_at_def upt_conv_Cons map_Suc_upt [symmetric] add_of_nat_Suc
      del: upt_Suc of_nat_Suc)

lemma bytes_at_add:
  "bytes_at seg off (m + n) f = bytes_at seg off m f @ bytes_at seg (off + of_nat m) n f"
  by (induction m arbitrary: off) (simp_all add: bytes_at_Suc add_of_nat_Suc del: of_nat_Suc)

lemma bytes_at_split:
  "m \<le> n \<Longrightarrow> bytes_at seg off n f = bytes_at seg off m f @ bytes_at seg (off + of_nat m) (n - m) f"
  using bytes_at_add [of seg off m "n - m" f] by simp

lemma store_bytes_other:
  "(\<And>i. i < length bs \<Longrightarrow> a \<noteq> linear seg (off + of_nat i)) \<Longrightarrow> store_bytes seg off bs m a = m a"
proof (induction bs arbitrary: off m)
  case Nil
  then show ?case by simp
next
  case (Cons b bs)
  have "store_bytes seg (off + 1) bs (m(linear seg off := b)) a = (m(linear seg off := b)) a"
    using Cons.prems [of "Suc _"]
    by (intro Cons.IH) (simp add: add_of_nat_Suc del: of_nat_Suc)
  moreover have "a \<noteq> linear seg off" using Cons.prems [of 0] by simp
  ultimately show ?case by simp
qed

lemma bytes_at_store_bytes:
  "length bs \<le> 65536 \<Longrightarrow> bytes_at seg off (length bs) (store_bytes seg off bs m) = bs"
proof (induction bs arbitrary: off m)
  case Nil
  then show ?case by simp
next
  case (Cons b bs)
  have "store_bytes seg (off + 1) bs (m(linear seg off := b)) (linear seg off)
      = (m(linear seg off := b)) (linear seg off)"
  proof (rule store_bytes_other)
    fix i assume "i < length bs"
    then have "(of_nat (Suc i) :: u16) \<noteq> of_nat 0"
      using Cons.prems by (subst of_nat_16_inj) auto
    then show "linear seg off \<noteq> linear seg (off + 1 + of_nat i)"
      by (simp only: add_of_nat_Suc linear_inject) simp
  qed
  then show ?case
    using Cons by (simp add: bytes_at_Suc)
qed

section \<open>What a string instruction leaves at an offset\<close>

lemma unat_diff_Suc: "unat (d :: u16) < Suc n \<longleftrightarrow> d = 0 \<or> unat (d - 1) < n"
proof (cases "d = 0")
  case False
  then have "1 \<le> unat d" by (simp add: Suc_le_eq unat_gt_0)
  then show ?thesis using False by (simp add: unat_sub16_le) arith
qed simp

lemma stosb_at:
  "stosb n di al es m (linear es off) = (if unat (off - di) < n then al else m (linear es off))"
proof (induction n arbitrary: di m)
  case (Suc n)
  then show ?case
    using unat_diff_Suc [of "off - di" n] by (simp add: linear_inject diff_diff_eq)
qed simp

lemma movsb_at:
  assumes "\<And>i j. i < n \<Longrightarrow> j < n \<Longrightarrow> linear es (di + of_nat i) \<noteq> linear ds (si + of_nat j)"
    and "n \<le> 65536"
  shows "movsb n di si es ds m (linear es off) =
    (if unat (off - di) < n then m (linear ds (si + (off - di))) else m (linear es off))"
proof (cases "unat (off - di) < n")
  case True
  then show ?thesis
    using movsb_copied [of n "unat (off - di)" es di ds si m] assms by simp
next
  case False
  have "linear es off \<noteq> linear es (di + of_nat i)" if "i < n" for i
    using False that assms(2) by (auto simp: linear_inject unat_of_nat take_bit_eq_mod)
  then show ?thesis using False movsb_other [of n "linear es off" es di] by simp
qed

lemma movsb_far:
  assumes "\<And>i. i < n \<Longrightarrow> linear seg off \<noteq> linear es (di + of_nat i)"
  shows "movsb n di si es ds m (linear seg off) = m (linear seg off)"
  using movsb_other [OF assms] .

text \<open>A copy to lower addresses of the same segment may overlap its source.\<close>

lemma movsb_down:
  assumes "0 < unat k" and "unat k + n < 65536"
  shows "movsb n di (di + k) es es m (linear es off) =
    (if unat (off - di) < n then m (linear es (off + k)) else m (linear es off))"
  using assms(2)
proof (induction n arbitrary: di m)
  case (Suc n)
  define m' where "m' = m(linear es di := m (linear es (di + k)))"
  have step: "movsb (Suc n) di (di + k) es es m (linear es off)
      = (if unat (off - di - 1) < n then m' (linear es (off + k)) else m' (linear es off))"
  proof -
    have "di + k + 1 = di + 1 + k" "off - (di + 1) = off - di - 1" by simp_all
    then show ?thesis
      using Suc.IH [of "di + 1" m'] Suc.prems by (simp only: movsb.simps m'_def [symmetric])
  qed
  have src: "m' (linear es (off + k)) = m (linear es (off + k))" if "unat (off - di - 1) < n"
  proof -
    let ?j = "off - di - 1"
    have "unat ?j + unat (1 + k) < 65536" using that Suc.prems assms(1) by (simp add: unat_add16_small)
    then have "unat (?j + (1 + k)) = unat ?j + unat (1 + k)" by (rule unat_add16_small)
    then have "?j + (1 + k) \<noteq> 0"
      using Suc.prems assms(1) by (auto simp: unat_add16_small)
    then have "off + k \<noteq> di" by (auto simp: algebra_simps)
    then show ?thesis by (simp add: m'_def linear_inject)
  qed
  have dst: "m' (linear es off) = (if off = di then m (linear es (off + k)) else m (linear es off))"
    by (simp add: m'_def linear_inject)
  show ?case
    unfolding step using src dst unat_diff_Suc [of "off - di" n] by auto
qed simp

lemma unat_diff_2:
  "2 \<le> unat (d :: u16) \<Longrightarrow> unat (d - 2) = unat d - 2"
  by (simp add: unat_sub16_le)

lemma stosb_outside: "(\<And>off. a \<noteq> linear es off) \<Longrightarrow> stosb n di al es m a = m a"
  by (induction n arbitrary: di m) simp_all

lemma stosw_outside: "(\<And>off. a \<noteq> linear es off) \<Longrightarrow> stosw n di ax es m a = m a"
  by (induction n arbitrary: di m) simp_all

lemma stosw_at:
  "n < 32768 \<Longrightarrow> stosw n di ax es m (linear es off) =
    (if unat (off - di) < 2 * n then (if even (unat (off - di)) then lo8 ax else hi8 ax)
     else m (linear es off))"
proof (induction n arbitrary: di m)
  case (Suc n)
  let ?m = "m(linear es di := lo8 ax, linear es (di + 1) := hi8 ax)" and ?d = "off - di"
  have step: "stosw (Suc n) di ax es m (linear es off) =
    (if unat (?d - 2) < 2 * n then (if even (unat (?d - 2)) then lo8 ax else hi8 ax)
     else ?m (linear es off))"
  proof -
    have "off - (di + 2) = ?d - 2" by simp
    then show ?thesis by (simp only: stosw.simps Suc.IH [OF Suc_lessD [OF Suc.prems]])
  qed
  consider "unat ?d = 0" | "unat ?d = 1" | "2 \<le> unat ?d" by linarith
  then show ?case
  proof cases
    case 1
    then have "off = di" by (simp add: unat_eq_0)
    then show ?thesis unfolding step using Suc.prems by (simp add: linear_inject)
  next
    case 2
    then have "?d = 1" by (simp add: word_unat_eq_iff)
    then have "off = di + 1" by (simp add: diff_eq_eq)
    then show ?thesis unfolding step using Suc.prems by (simp add: linear_inject)
  next
    case 3
    then have "off \<noteq> di" "off \<noteq> di + 1" by auto
    then have "?m (linear es off) = m (linear es off)" by (simp add: linear_inject)
    then show ?thesis unfolding step using 3 unat_diff_2 [OF 3] by auto
  qed
qed simp

text \<open>Words in the kernel segment.\<close>

definition put_word :: "u16 \<Rightarrow> u16 \<Rightarrow> (nat \<Rightarrow> u8) \<Rightarrow> nat \<Rightarrow> u8" where
  "put_word off v m = m(linear 0x0050 off := lo8 v, linear 0x0050 (off + 1) := hi8 v)"

definition get_word :: "u16 \<Rightarrow> (nat \<Rightarrow> u8) \<Rightarrow> u16" where
  "get_word off m = word_of_bytes (m (linear 0x0050 off)) (m (linear 0x0050 (off + 1)))"

lemma get_put_word [simp]: "get_word off (put_word off v m) = v"
  by (simp add: get_word_def put_word_def linear_inject)

lemma get_put_word_other:
  assumes "off - off' \<notin> {0, 1, -1}"
  shows "get_word off (put_word off' v m) = get_word off m"
proof -
  have "off \<noteq> off'" "off \<noteq> off' + 1" "off + 1 \<noteq> off'"
    using assms by (auto simp: algebra_simps eq_diff_eq)
  then show ?thesis by (simp add: get_word_def put_word_def linear_inject)
qed

lemma get_put_word_apart:
  assumes "unat off + 2 \<le> unat off' \<or> unat off' + 2 \<le> unat off"
    and "unat off < 65535" and "unat off' < 65535"
  shows "get_word off (put_word off' v m) = get_word off m"
proof -
  have "unat (off + 1) = unat off + 1" "unat (off' + 1) = unat off' + 1"
    using assms(2,3) by (simp_all add: unat_add16_small)
  then have "off \<noteq> off'" "off \<noteq> off' + 1" "off + 1 \<noteq> off'" using assms(1) by auto
  then show ?thesis by (simp add: get_word_def put_word_def linear_inject)
qed

lemma peekw_get_word: "peekw 0x0050 off s = get_word off (mem s)"
  by (simp add: peekw_def get_word_def)

lemma pokew_put_word: "pokew 0x0050 off v s = s\<lparr>mem := put_word off v (mem s)\<rparr>"
  by (simp add: pokew_def put_word_def)

end
