(* ===== verification/Malloc.thy ===== *)
theory Malloc
  imports Machine
begin

text \<open>
  The kernel heap, \<^verbatim>\<open>kernel/malloc.c\<close>.  The pool is cut into six zones of equally sized
  blocks; one bitmap says which blocks are in use.  \<open>malloc\<close> takes the first free block at or
  after the first zone whose blocks are large enough.

  Block numbers are natural numbers: \<open>malloc_init\<close> panics above 8000 blocks, so the 16-bit
  counters of the code never wrap.  Addresses and sizes are 16-bit words.  The condition of a
  loop that runs off the end of the zone table reads one entry past it before it tests the
  index; the value read cannot change the outcome, and the model tests the index only.
\<close>

unbundle bit_operations_syntax

section \<open>State\<close>

record size_block =
  sb_size :: u16
  sb_count :: u16
  sb_expand :: u16

record heap = machine +
  used_bytes :: u16
  total_bytes :: u16
  total_blocks :: nat
  pool_start :: ptr
  zones :: "size_block list"
  bitmap :: "u8 list"

definition KERNEL_STACK_WORDS :: nat where
  "KERNEL_STACK_WORDS = 2048"

definition initial_zones :: "size_block list" where
  "initial_zones =
     [\<lparr>sb_size = 4, sb_count = 0, sb_expand = 1\<rparr>,
      \<lparr>sb_size = 8, sb_count = 0, sb_expand = 1\<rparr>,
      \<lparr>sb_size = 18, sb_count = 0, sb_expand = 3\<rparr>,
      \<lparr>sb_size = 38, sb_count = 0, sb_expand = 1\<rparr>,
      \<lparr>sb_size = 512, sb_count = 8, sb_expand = 0\<rparr>,
      \<lparr>sb_size = 4096, sb_count = 5, sb_expand = 0\<rparr>]"

definition BITMAP_SIZE :: nat where
  "BITMAP_SIZE = 1000"

section \<open>Allocation\<close>

definition bit_mask :: "nat \<Rightarrow> u8" where
  "bit_mask block = drop_bit (block mod 8) 0x80"

definition block_used :: "u8 list \<Rightarrow> nat \<Rightarrow> bool" where
  "block_used bm block \<longleftrightarrow> bm ! (block div 8) AND bit_mask block \<noteq> 0"

fun first_block :: "size_block list \<Rightarrow> u16 \<Rightarrow> nat" where
  "first_block [] sz = 0"
| "first_block (z # zs) sz =
     (if sb_size z < sz then unat (sb_count z) + first_block zs sz else 0)"

function skip_full_bytes :: "u8 list \<Rightarrow> nat \<Rightarrow> nat \<Rightarrow> nat" where
  "skip_full_bytes bm nblocks block =
     (if bm ! (block div 8) = 0xff \<and> block < nblocks
      then skip_full_bytes bm nblocks (8 * ((block + 8) div 8)) else block)"
  by pat_completeness auto
termination
  by (relation "measure (\<lambda>(bm, nblocks, block). nblocks - block)") auto

function next_free :: "u8 list \<Rightarrow> nat \<Rightarrow> nat \<Rightarrow> nat" where
  "next_free bm nblocks block =
     (if block < nblocks \<and> block_used bm block then next_free bm nblocks (Suc block) else block)"
  by pat_completeness auto
termination
  by (relation "measure (\<lambda>(bm, nblocks, block). nblocks - block)") auto

declare skip_full_bytes.simps [simp del] next_free.simps [simp del]

text \<open>The address of a block, and the size of the zone in which the search stopped.\<close>

fun block_address :: "size_block list \<Rightarrow> nat \<Rightarrow> nat \<Rightarrow> u16 \<Rightarrow> u16 \<times> u16 option" where
  "block_address [] j block address = (address, None)"
| "block_address (z # zs) j block address =
     (if j + unat (sb_count z) \<le> block
      then block_address zs (j + unat (sb_count z)) block (address + sb_count z * sb_size z)
      else (address + sb_size z * of_nat (block - j), Some (sb_size z)))"

definition malloc :: "u16 \<Rightarrow> ('z heap_scheme, ptr) kmon" where
  "malloc sz s =
     (let block = first_block (zones s) sz;
          block = skip_full_bytes (bitmap s) (total_blocks s) block;
          block = next_free (bitmap s) (total_blocks s) block
      in if block < total_blocks s then
           (case block_address (zones s) 0 block (pool_start s) of
              (address, Some zsize) \<Rightarrow>
                Inr (address,
                  s\<lparr>bitmap := (bitmap s)[block div 8 := bitmap s ! (block div 8) OR bit_mask block],
                    used_bytes := used_bytes s + zsize\<rparr>)
            | (address, None) \<Rightarrow> Inl (BadPtr address))
         else Inl (Panic ''out of mem''))"

section \<open>Release\<close>

fun free_locate :: "size_block list \<Rightarrow> u16 \<Rightarrow> nat \<Rightarrow> (nat \<times> u16) option" where
  "free_locate [] address block = None"
| "free_locate (z # zs) address block =
     (if address \<ge> sb_count z * sb_size z
      then free_locate zs (address - sb_count z * sb_size z) (block + unat (sb_count z))
      else Some (block + unat (address div sb_size z), sb_size z))"

definition free :: "ptr \<Rightarrow> ('z heap_scheme, unit) kmon" where
  "free block s =
     (case free_locate (zones s) (block - pool_start s) 0 of
        None \<Rightarrow> Inl (Panic ''invalid free'')
      | Some (b, zsize) \<Rightarrow>
          Inr ((), s\<lparr>bitmap := (bitmap s)[b div 8 := bitmap s ! (b div 8) XOR bit_mask b],
                     used_bytes := used_bytes s - zsize\<rparr>))"

definition realloc :: "ptr \<Rightarrow> u16 \<Rightarrow> ('z heap_scheme, ptr) kmon" where
  "realloc block new_size =
     bindK (malloc new_size) (\<lambda>new_block.
       if new_block \<noteq> 0
       then thenK (modifyK (memcpy new_block block new_size))
              (thenK (free block) (retK new_block))
       else retK new_block)"

section \<open>Initialisation\<close>

definition zone_expand :: "size_block \<Rightarrow> size_block" where
  "zone_expand z = z\<lparr>sb_count := sb_count z + sb_expand z\<rparr>"

text \<open>The two growth loops; \<open>None\<close> is a loop that never ends.\<close>

partial_function (option) grow_zones ::
  "u16 \<Rightarrow> u16 \<Rightarrow> size_block list \<Rightarrow> u16 \<Rightarrow> (size_block list \<times> u16) option" where
  "grow_zones pool_size increment zs allocated =
     (if allocated + increment \<le> pool_size
      then grow_zones pool_size increment (map zone_expand zs) (allocated + increment)
      else Some (zs, allocated))"

definition zone0_inc :: "size_block list \<Rightarrow> size_block list" where
  "zone0_inc zs = zs[0 := (zs ! 0)\<lparr>sb_count := sb_count (zs ! 0) + 1\<rparr>]"

partial_function (option) grow_first ::
  "u16 \<Rightarrow> size_block list \<Rightarrow> u16 \<Rightarrow> (size_block list \<times> u16) option" where
  "grow_first pool_size zs allocated =
     (if allocated + sb_size (zs ! 0) \<le> pool_size
      then grow_first pool_size (zone0_inc zs) (allocated + sb_size (zs ! 0))
      else Some (zs, allocated))"

definition malloc_init :: "ptr \<Rightarrow> ptr \<Rightarrow> ('z heap_scheme, unit) kmon" where
  "malloc_init start pool_end s =
     (let pool_size = pool_end - start;
          allocated = sum_list (map (\<lambda>z. sb_size z * sb_count z) (zones s));
          increment = sum_list (map (\<lambda>z. sb_size z * sb_expand z) (zones s))
      in case grow_zones pool_size increment (zones s) allocated of
           None \<Rightarrow> Inl Hang
         | Some (zs, allocated) \<Rightarrow>
             (case grow_first pool_size zs allocated of
                None \<Rightarrow> Inl Hang
              | Some (zs, allocated) \<Rightarrow>
                  let nblocks = sum_list (map (\<lambda>z. unat (sb_count z)) zs)
                  in if nblocks > BITMAP_SIZE * 8 then Inl (Panic ''malloc bitmap'')
                     else Inr ((), s\<lparr>pool_start := start, zones := zs, total_blocks := nblocks,
                                     bitmap := replicate BITMAP_SIZE 0,
                                     used_bytes := 0, total_bytes := allocated\<rparr>)))"

section \<open>Block geometry\<close>

text \<open>Offset in the pool and size of a block, as natural numbers.\<close>

fun block_loc :: "size_block list \<Rightarrow> nat \<Rightarrow> nat \<times> nat" where
  "block_loc [] b = (0, 0)"
| "block_loc (z # zs) b =
     (if b < unat (sb_count z) then (b * unat (sb_size z), unat (sb_size z))
      else (case block_loc zs (b - unat (sb_count z)) of
              (off, k) \<Rightarrow> (unat (sb_count z) * unat (sb_size z) + off, k)))"

definition block_off :: "size_block list \<Rightarrow> nat \<Rightarrow> nat" where
  "block_off zs b = fst (block_loc zs b)"

definition block_size :: "size_block list \<Rightarrow> nat \<Rightarrow> nat" where
  "block_size zs b = snd (block_loc zs b)"

definition zone_blocks :: "size_block list \<Rightarrow> nat" where
  "zone_blocks zs = sum_list (map (\<lambda>z. unat (sb_count z)) zs)"

definition zone_bytes :: "size_block list \<Rightarrow> nat" where
  "zone_bytes zs = sum_list (map (\<lambda>z. unat (sb_count z) * unat (sb_size z)) zs)"

lemma zone_sums [simp]:
  "zone_blocks [] = 0" "zone_blocks (z # zs) = unat (sb_count z) + zone_blocks zs"
  "zone_bytes [] = 0" "zone_bytes (z # zs) = unat (sb_count z) * unat (sb_size z) + zone_bytes zs"
  by (simp_all add: zone_blocks_def zone_bytes_def)

lemma block_off_Cons [simp]:
  "block_off (z # zs) b = (if b < unat (sb_count z) then b * unat (sb_size z)
     else unat (sb_count z) * unat (sb_size z) + block_off zs (b - unat (sb_count z)))"
  by (simp add: block_off_def split: prod.splits)

lemma block_size_Cons [simp]:
  "block_size (z # zs) b = (if b < unat (sb_count z) then unat (sb_size z)
     else block_size zs (b - unat (sb_count z)))"
  by (simp add: block_size_def split: prod.splits)

lemma block_end_le: "b < zone_blocks zs \<Longrightarrow> block_off zs b + block_size zs b \<le> zone_bytes zs"
proof (induction zs arbitrary: b)
  case Nil
  then show ?case by simp
next
  case (Cons z zs)
  show ?case
  proof (cases "b < unat (sb_count z)")
    case True
    then have "(b + 1) * unat (sb_size z) \<le> unat (sb_count z) * unat (sb_size z)"
      by (intro mult_le_mono1) simp
    with True show ?thesis by (simp add: algebra_simps)
  next
    case False
    then show ?thesis
      using Cons.IH [of "b - unat (sb_count z)"] Cons.prems by simp
  qed
qed

text \<open>Blocks follow one another without overlap.\<close>

lemma block_order:
  "b < b' \<Longrightarrow> b' < zone_blocks zs \<Longrightarrow> block_off zs b + block_size zs b \<le> block_off zs b'"
proof (induction zs arbitrary: b b')
  case Nil
  then show ?case by simp
next
  case (Cons z zs)
  let ?n = "unat (sb_count z)" and ?k = "unat (sb_size z)"
  consider "b' < ?n" | "b < ?n" "?n \<le> b'" | "?n \<le> b" by linarith
  then show ?case
  proof cases
    case 1
    have "(b + 1) * ?k \<le> b' * ?k" using Cons.prems(1) by (intro mult_le_mono1) simp
    with 1 Cons.prems show ?thesis by (simp add: algebra_simps)
  next
    case 2
    have "(b + 1) * ?k \<le> ?n * ?k" using 2 by (intro mult_le_mono1) simp
    with 2 show ?thesis by (simp add: algebra_simps)
  next
    case 3
    then show ?thesis
      using Cons.IH [of "b - ?n" "b' - ?n"] Cons.prems by simp
  qed
qed

lemma block_off_less:
  "b < zone_blocks zs \<Longrightarrow> 0 < block_size zs b \<Longrightarrow> block_off zs b < zone_bytes zs"
  using block_end_le [of b zs] by linarith

lemma block_size_zone: "b < zone_blocks zs \<Longrightarrow> \<exists>z \<in> set zs. block_size zs b = unat (sb_size z)"
proof (induction zs arbitrary: b)
  case Nil
  then show ?case by simp
next
  case (Cons z zs)
  then show ?case
    using Cons.IH [of "b - unat (sb_count z)"] by (cases "b < unat (sb_count z)") auto
qed

text \<open>What \<open>malloc\<close> computes for a block is its place in the pool.\<close>

lemma block_address_loc:
  "j \<le> b \<Longrightarrow> b - j < zone_blocks zs \<Longrightarrow>
   block_address zs j b a = (a + of_nat (block_off zs (b - j)), Some (of_nat (block_size zs (b - j))))"
proof (induction zs arbitrary: j a)
  case Nil
  then show ?case by simp
next
  case (Cons z zs)
  show ?case
  proof (cases "j + unat (sb_count z) \<le> b")
    case True
    then have "b - (j + unat (sb_count z)) = b - j - unat (sb_count z)"
      and "\<not> b - j < unat (sb_count z)" by linarith+
    then show ?thesis
      using Cons.IH [of "j + unat (sb_count z)"] Cons.prems True
      by (simp add: algebra_simps)
  next
    case False
    then have "b - j < unat (sb_count z)" using Cons.prems(1) by linarith
    then show ?thesis using False Cons.prems by (simp add: algebra_simps)
  qed
qed

text \<open>\<open>free\<close> finds the block again from its offset.\<close>

lemma free_locate_loc:
  assumes "zone_bytes zs < 65536" and "b < zone_blocks zs"
    and "\<forall>z \<in> set zs. 0 < sb_size z"
  shows "free_locate zs (of_nat (block_off zs b)) j
    = Some (j + b, of_nat (block_size zs b))"
  using assms
proof (induction zs arbitrary: b j)
  case Nil
  then show ?case by simp
next
  case (Cons z zs)
  let ?n = "unat (sb_count z)" and ?k = "unat (sb_size z)"
  have prod: "unat (sb_count z * sb_size z) = ?n * ?k"
    using Cons.prems(1) by (simp add: unat_mult16)
  have k: "0 < ?k" using Cons.prems(3) by (simp add: word_gt_0 unat_gt_0)
  show ?case
  proof (cases "b < ?n")
    case True
    then have lt: "b * ?k < ?n * ?k" using k by simp
    then have "b * ?k < 65536" using Cons.prems(1) unfolding zone_sums by linarith
    then have u: "unat (of_nat (b * ?k) :: u16) = b * ?k"
      by (simp only: unat_of_nat) simp
    have "unat (of_nat (b * ?k) div sb_size z) = b"
      using k by (simp only: unat_div16 u) simp
    then show ?thesis
      using True lt by (simp add: le16_iff prod u del: of_nat_mult)
  next
    case False
    let ?off = "block_off zs (b - ?n)"
    have sz: "0 < block_size zs (b - ?n)"
    proof -
      have "b - ?n < zone_blocks zs" using Cons.prems(2) False by simp
      then obtain z' where "z' \<in> set zs" "block_size zs (b - ?n) = unat (sb_size z')"
        using block_size_zone by blast
      then show ?thesis using Cons.prems(3) by (simp add: unat_gt_0 word_gt_0)
    qed
    have "?off < zone_bytes zs"
      using Cons.prems False sz by (intro block_off_less) simp_all
    then have u: "unat (of_nat (?n * ?k + ?off) :: u16) = ?n * ?k + ?off"
      using Cons.prems(1) by (simp only: unat_of_nat) simp
    have "of_nat (?n * ?k + ?off) - sb_count z * sb_size z = (of_nat ?off :: u16)"
      by simp
    then show ?thesis
      using False Cons.IH [of "b - ?n" "j + ?n"] Cons.prems
      by (simp add: le16_iff prod u del: of_nat_mult of_nat_add)
  qed
qed

section \<open>The invariant\<close>

definition heap_sizes :: "u16 list" where
  "heap_sizes = [4, 8, 18, 38, 512, 4096]"

text \<open>
  The pool lies below 64 KB and does not start at 0, so that no block has the null address;
  the bitmap covers all blocks; \<open>used_bytes\<close> is the sum of the sizes of the used blocks.
\<close>

definition used_sum :: "size_block list \<Rightarrow> u8 list \<Rightarrow> nat \<Rightarrow> nat" where
  "used_sum zs bm n = (\<Sum>b | b < n \<and> block_used bm b. block_size zs b)"

definition heap_inv :: "'z heap_scheme \<Rightarrow> bool" where
  "heap_inv s \<longleftrightarrow>
     map sb_size (zones s) = heap_sizes
     \<and> total_blocks s = zone_blocks (zones s)
     \<and> total_blocks s \<le> 8 * BITMAP_SIZE
     \<and> length (bitmap s) = BITMAP_SIZE
     \<and> 0 < pool_start s
     \<and> unat (pool_start s) + zone_bytes (zones s) < 65536
     \<and> unat (used_bytes s) = used_sum (zones s) (bitmap s) (total_blocks s)"

lemma heap_invD:
  assumes "heap_inv s"
  shows "map sb_size (zones s) = heap_sizes"
    and "total_blocks s = zone_blocks (zones s)"
    and "total_blocks s \<le> 8 * BITMAP_SIZE"
    and "length (bitmap s) = BITMAP_SIZE"
    and "0 < pool_start s"
    and "unat (pool_start s) + zone_bytes (zones s) < 65536"
    and "unat (used_bytes s) = used_sum (zones s) (bitmap s) (total_blocks s)"
  using assms by (simp_all add: heap_inv_def)

lemma heap_sizes_pos: "map sb_size zs = heap_sizes \<Longrightarrow> \<forall>z \<in> set zs. 0 < sb_size z"
proof -
  assume "map sb_size zs = heap_sizes"
  then have "sb_size ` set zs = set heap_sizes" by (metis set_map)
  then have "sb_size z \<in> set heap_sizes" if "z \<in> set zs" for z using that by blast
  moreover have "\<forall>k \<in> set heap_sizes. 0 < k" by (simp add: heap_sizes_def)
  ultimately show ?thesis by blast
qed

lemma heap_block_size_pos: "heap_inv s \<Longrightarrow> b < total_blocks s \<Longrightarrow> 0 < block_size (zones s) b"
  using block_size_zone [of b "zones s"] heap_sizes_pos [of "zones s"]
  by (auto simp: heap_inv_def word_gt_0 unat_gt_0)

section \<open>Bits of the bitmap\<close>

lemma bit_mask_eq: "bit_mask b = push_bit (7 - b mod 8) 1"
proof -
  have "b mod 8 \<in> {0, 1, 2, 3, 4, 5, 6, 7}"
    using mod_less_divisor [of 8 b] by (simp only: insert_iff empty_iff) linarith
  then show ?thesis
    unfolding bit_mask_def by (elim insertE emptyE) (simp_all only:, simp_all)
qed

lemma bit_mask_bit: "bit (bit_mask b) i \<longleftrightarrow> i = 7 - b mod 8"
  unfolding bit_mask_eq by (auto simp: bit_simps)

lemma block_used_bit: "block_used bm b \<longleftrightarrow> bit (bm ! (b div 8)) (7 - b mod 8)"
proof -
  have "bm ! (b div 8) AND bit_mask b \<noteq> 0 \<longleftrightarrow>
      (\<exists>i < 8. bit (bm ! (b div 8)) i \<and> bit (bit_mask b) i)"
    by (auto simp: bit_eq_iff bit_and_iff)
  then show ?thesis
    by (auto simp: block_used_def bit_mask_bit)
qed

lemma same_byte_bit: "b div 8 = b' div 8 \<Longrightarrow> 7 - b mod 8 = 7 - b' mod 8 \<Longrightarrow> b = (b' :: nat)"
proof -
  assume "b div 8 = b' div 8" "7 - b mod 8 = 7 - b' mod 8"
  then have "b mod 8 = b' mod 8"
    using mod_less_divisor [of 8 b] mod_less_divisor [of 8 b'] by linarith
  with \<open>b div 8 = b' div 8\<close> show ?thesis by (metis div_mult_mod_eq)
qed

lemma block_used_set:
  assumes "b div 8 < length bm"
  shows "block_used (bm[b div 8 := bm ! (b div 8) OR bit_mask b]) b'
    \<longleftrightarrow> b' = b \<or> block_used bm b'"
  using assms
  by (cases "b' div 8 = b div 8")
    (auto simp: block_used_bit bit_or_iff bit_mask_bit dest: same_byte_bit)

lemma block_used_flip:
  assumes "b div 8 < length bm"
  shows "block_used (bm[b div 8 := bm ! (b div 8) XOR bit_mask b]) b'
    \<longleftrightarrow> (if b' = b then \<not> block_used bm b else block_used bm b')"
  using assms
  by (cases "b' div 8 = b div 8")
    (auto simp: block_used_bit bit_xor_iff bit_mask_bit dest: same_byte_bit)

lemma full_byte_used: "bm ! (b div 8) = 0xff \<Longrightarrow> block_used bm b"
proof -
  assume "bm ! (b div 8) = 0xff"
  moreover have "(0xff :: u8) = mask 8" by (simp add: mask_eq_exp_minus_1)
  moreover have "bit (mask 8 :: u8) (7 - b mod 8)" by (simp only: bit_mask_iff) simp
  ultimately show ?thesis
    by (simp only: block_used_bit)
qed

text \<open>The search: the first free block from a starting point on.\<close>

lemma skip_full_bytes_spec:
  "block \<le> skip_full_bytes bm n block
   \<and> (\<forall>b. block \<le> b \<and> b < skip_full_bytes bm n block \<longrightarrow> block_used bm b)"
proof (induction bm n block rule: skip_full_bytes.induct)
  case (1 bm n block)
  show ?case
  proof (cases "bm ! (block div 8) = 0xff \<and> block < n")
    case False
    then have "skip_full_bytes bm n block = block"
      by (subst skip_full_bytes.simps) auto
    then show ?thesis by auto
  next
    case True
    let ?next = "8 * ((block + 8) div 8)"
    have byte: "block_used bm b" if "block \<le> b" "b < ?next" for b
    proof -
      have "8 * (block div 8) \<le> b" using that(1) times_div_less_eq_dividend [of 8 block] by linarith
      moreover have "b < 8 * Suc (block div 8)" using that(2) by (simp add: div_add_self2)
      ultimately have "b div 8 = block div 8" by (rule div_nat_eqI)
      with True show ?thesis by (intro full_byte_used) simp
    qed
    have le: "block \<le> ?next" by linarith
    have eq: "skip_full_bytes bm n block = skip_full_bytes bm n ?next"
      using True by (subst skip_full_bytes.simps) simp
    show ?thesis
      unfolding eq
    proof (intro conjI allI impI)
      show "block \<le> skip_full_bytes bm n ?next"
        using "1.IH" [OF True] le by linarith
      fix b assume "block \<le> b \<and> b < skip_full_bytes bm n ?next"
      then show "block_used bm b"
        using "1.IH" [OF True] byte by (cases "b < ?next") auto
    qed
  qed
qed

lemma next_free_spec:
  "block \<le> next_free bm n block
   \<and> (\<forall>b. block \<le> b \<and> b < next_free bm n block \<longrightarrow> block_used bm b)
   \<and> (next_free bm n block < n \<longrightarrow> \<not> block_used bm (next_free bm n block))"
proof (induction bm n block rule: next_free.induct)
  case (1 bm n block)
  show ?case
  proof (cases "block < n \<and> block_used bm block")
    case False
    then show ?thesis by (auto simp: next_free.simps [of bm n block])
  next
    case True
    then have "next_free bm n block = next_free bm n (Suc block)"
      by (subst next_free.simps) simp
    moreover have "block \<le> b \<longleftrightarrow> b = block \<or> Suc block \<le> b" for b by linarith
    ultimately show ?thesis
      using "1.IH" [OF True] True by (metis Suc_leD)
  qed
qed

section \<open>The functional behaviour of \<open>malloc\<close> and \<open>free\<close>\<close>

definition block_addr :: "'z heap_scheme \<Rightarrow> nat \<Rightarrow> ptr" where
  "block_addr s b = pool_start s + of_nat (block_off (zones s) b)"

definition search_block :: "'z heap_scheme \<Rightarrow> u16 \<Rightarrow> nat" where
  "search_block s n = next_free (bitmap s) (total_blocks s)
     (skip_full_bytes (bitmap s) (total_blocks s) (first_block (zones s) n))"

definition take_block :: "nat \<Rightarrow> 'z heap_scheme \<Rightarrow> 'z heap_scheme" where
  "take_block b s =
     s\<lparr>bitmap := (bitmap s)[b div 8 := bitmap s ! (b div 8) OR bit_mask b],
       used_bytes := used_bytes s + of_nat (block_size (zones s) b)\<rparr>"

definition flip_block :: "nat \<Rightarrow> 'z heap_scheme \<Rightarrow> 'z heap_scheme" where
  "flip_block b s =
     s\<lparr>bitmap := (bitmap s)[b div 8 := bitmap s ! (b div 8) XOR bit_mask b],
       used_bytes := used_bytes s - of_nat (block_size (zones s) b)\<rparr>"

abbreviation used_block :: "'z heap_scheme \<Rightarrow> nat \<Rightarrow> bool" where
  "used_block s b \<equiv> block_used (bitmap s) b"

lemma heap_inv_off:
  "heap_inv s \<Longrightarrow> b < total_blocks s \<Longrightarrow>
   unat (block_addr s b) = unat (pool_start s) + block_off (zones s) b"
proof -
  assume inv: "heap_inv s" and b: "b < total_blocks s"
  have "block_off (zones s) b \<le> zone_bytes (zones s)"
    using block_end_le [of b "zones s"] b heap_invD(2) [OF inv] by simp
  then have "unat (pool_start s) + block_off (zones s) b < 65536"
    using heap_invD(6) [OF inv] by linarith
  then show ?thesis
    by (simp add: block_addr_def unat_add16 unat_of_nat)
qed

lemma malloc_eq:
  assumes "heap_inv s"
  shows "malloc n s =
    (if search_block s n < total_blocks s
     then Inr (block_addr s (search_block s n), take_block (search_block s n) s)
     else Inl (Panic ''out of mem''))"
proof (cases "search_block s n < total_blocks s")
  case True
  then have "block_address (zones s) 0 (search_block s n) (pool_start s)
      = (block_addr s (search_block s n), Some (of_nat (block_size (zones s) (search_block s n))))"
    using block_address_loc [of 0 "search_block s n" "zones s"] heap_invD(2) [OF assms]
    by (simp add: block_addr_def)
  with True show ?thesis
    by (simp add: malloc_def Let_def search_block_def take_block_def)
next
  case False
  then show ?thesis by (simp add: malloc_def Let_def search_block_def)
qed

lemma heap_sizes_sorted: "map sb_size zs = heap_sizes \<Longrightarrow> sorted (map sb_size zs)"
  by (simp add: heap_sizes_def)

lemma first_block_large:
  "sorted (map sb_size zs) \<Longrightarrow> first_block zs n \<le> b \<Longrightarrow> b < zone_blocks zs \<Longrightarrow>
   unat n \<le> block_size zs b"
proof (induction zs arbitrary: b)
  case Nil
  then show ?case by simp
next
  case (Cons z zs)
  show ?case
  proof (cases "sb_size z < n")
    case True
    then show ?thesis
      using Cons.IH [of "b - unat (sb_count z)"] Cons.prems by simp
  next
    case False
    then have n: "n \<le> sb_size z" by simp
    obtain z' where "z' \<in> set (z # zs)" "block_size (z # zs) b = unat (sb_size z')"
      using block_size_zone [OF Cons.prems(3)] by blast
    moreover from this have "sb_size z \<le> sb_size z'"
      using Cons.prems(1) by auto
    ultimately show ?thesis using n by (simp add: le16_iff del: block_size_Cons)
  qed
qed

lemma first_block_small: "b < first_block zs n \<Longrightarrow> block_size zs b < unat n"
proof (induction zs arbitrary: b)
  case Nil
  then show ?case by simp
next
  case (Cons z zs)
  then show ?case
    using Cons.IH [of "b - unat (sb_count z)"] by (auto simp: less16_iff split: if_splits)
qed

lemma search_block_spec:
  shows "first_block (zones s) n \<le> search_block s n"
    and "\<And>b. first_block (zones s) n \<le> b \<Longrightarrow> b < search_block s n \<Longrightarrow> used_block s b"
    and "search_block s n < total_blocks s \<Longrightarrow> \<not> used_block s (search_block s n)"
proof -
  let ?f = "first_block (zones s) n"
  let ?k = "skip_full_bytes (bitmap s) (total_blocks s) ?f"
  have 1: "?f \<le> ?k" "\<And>b. ?f \<le> b \<Longrightarrow> b < ?k \<Longrightarrow> used_block s b"
    using skip_full_bytes_spec by blast+
  have 2: "?k \<le> search_block s n" "\<And>b. ?k \<le> b \<Longrightarrow> b < search_block s n \<Longrightarrow> used_block s b"
    "search_block s n < total_blocks s \<Longrightarrow> \<not> used_block s (search_block s n)"
    using next_free_spec unfolding search_block_def by blast+
  show "?f \<le> search_block s n" using 1 2 by linarith
  show "\<And>b. ?f \<le> b \<Longrightarrow> b < search_block s n \<Longrightarrow> used_block s b"
    using 1 2 by (meson not_le_imp_less)
  show "search_block s n < total_blocks s \<Longrightarrow> \<not> used_block s (search_block s n)" by (rule 2)
qed

lemma sum_block_size: "(\<Sum>b < zone_blocks zs. block_size zs b) = zone_bytes zs"
proof (induction zs)
  case Nil
  then show ?case by simp
next
  case (Cons z zs)
  then show ?case by (simp add: sum_lessThan_add)
qed

lemma used_sum_le: "used_sum zs bm (zone_blocks zs) \<le> zone_bytes zs"
proof -
  have "used_sum zs bm (zone_blocks zs) \<le> (\<Sum>b < zone_blocks zs. block_size zs b)"
    unfolding used_sum_def by (rule sum_mono2) auto
  then show ?thesis by (simp add: sum_block_size)
qed

lemma used_sum_insert:
  assumes "b < n" and "\<not> block_used bm b" and "\<And>b'. block_used bm' b' \<longleftrightarrow> b' = b \<or> block_used bm b'"
  shows "used_sum zs bm' n = used_sum zs bm n + block_size zs b"
proof -
  have "{b'. b' < n \<and> block_used bm' b'} = insert b {b'. b' < n \<and> block_used bm b'}"
    using assms by auto
  then show ?thesis using assms(2) by (simp add: used_sum_def)
qed

lemma heap_block_byte: "heap_inv s \<Longrightarrow> b < total_blocks s \<Longrightarrow> b div 8 < length (bitmap s)"
  using heap_invD(3,4) [of s] by (simp add: div_less_iff_less_mult)

lemma take_block_used:
  "heap_inv s \<Longrightarrow> b < total_blocks s \<Longrightarrow> used_block (take_block b s) b' \<longleftrightarrow> b' = b \<or> used_block s b'"
  by (simp add: take_block_def block_used_set heap_block_byte)

lemma flip_block_used:
  "heap_inv s \<Longrightarrow> b < total_blocks s \<Longrightarrow>
   used_block (flip_block b s) b' \<longleftrightarrow> (if b' = b then \<not> used_block s b else used_block s b')"
  by (simp add: flip_block_def block_used_flip heap_block_byte)

lemma used_bytes_fits:
  assumes "heap_inv s" shows "used_sum (zones s) bm (total_blocks s) < 65536"
  using used_sum_le [of "zones s" bm] heap_invD(6) [OF assms]
  unfolding heap_invD(2) [OF assms] by linarith

lemma take_block_inv:
  assumes "heap_inv s" and "b < total_blocks s" and "\<not> used_block s b"
  shows "heap_inv (take_block b s)"
proof -
  let ?bm = "bitmap (take_block b s)"
  have "used_sum (zones s) ?bm (total_blocks s)
      = used_sum (zones s) (bitmap s) (total_blocks s) + block_size (zones s) b"
    using assms(2,3) take_block_used [OF assms(1,2)] by (rule used_sum_insert)
  then have "unat (used_bytes s + of_nat (block_size (zones s) b))
      = used_sum (zones s) ?bm (total_blocks s)"
    using used_bytes_fits [OF assms(1), of ?bm] heap_invD(7) [OF assms(1)]
    by (simp add: unat_add16 unat_of_nat mod_add_right_eq)
  then show ?thesis
    using assms(1) by (simp add: heap_inv_def take_block_def)
qed

lemma flip_block_inv:
  assumes "heap_inv s" and "b < total_blocks s" and "used_block s b"
  shows "heap_inv (flip_block b s)"
proof -
  let ?bm = "bitmap (flip_block b s)" and ?k = "block_size (zones s) b"
  have sum: "used_sum (zones s) (bitmap s) (total_blocks s)
      = used_sum (zones s) ?bm (total_blocks s) + ?k"
    using flip_block_used [OF assms(1,2)] assms(2,3) by (intro used_sum_insert) auto
  then have "?k < 65536" using used_bytes_fits [OF assms(1), of "bitmap s"] by linarith
  then have k: "unat (of_nat ?k :: u16) = ?k" by (simp add: unat_of_nat)
  have "unat (used_bytes s - of_nat ?k) = used_sum (zones s) ?bm (total_blocks s)"
    using sum heap_invD(7) [OF assms(1)] k by (simp add: unat_sub16_le)
  then show ?thesis
    using assms(1) by (simp add: heap_inv_def flip_block_def)
qed

lemma free_eq:
  assumes "heap_inv s" and "b < total_blocks s"
  shows "free (block_addr s b) s = Inr ((), flip_block b s)"
proof -
  have "free_locate (zones s) (of_nat (block_off (zones s) b)) 0
      = Some (b, of_nat (block_size (zones s) b))"
    using free_locate_loc [of "zones s" b 0] heap_invD(2,6) [OF assms(1)] assms(2)
      heap_sizes_pos [OF heap_invD(1) [OF assms(1)]] by simp
  then show ?thesis
    by (simp add: free_def block_addr_def flip_block_def)
qed

lemma block_addr_inject:
  assumes "heap_inv s" and "b < total_blocks s" and "b' < total_blocks s"
    and "block_addr s b = block_addr s b'"
  shows "b = b'"
proof (rule ccontr)
  have off: "block_off (zones s) b = block_off (zones s) b'"
    using assms heap_inv_off [OF assms(1,2)] heap_inv_off [OF assms(1,3)] by simp
  have pos: "0 < block_size (zones s) b" "0 < block_size (zones s) b'"
    using assms heap_block_size_pos by blast+
  assume "b \<noteq> b'"
  then consider "b < b'" | "b' < b" by linarith
  then show False
    using block_order [of b b' "zones s"] block_order [of b' b "zones s"] off pos assms(2,3)
      heap_invD(2) [OF assms(1)]
    by cases auto
qed

text \<open>
  C1: a successful \<open>malloc\<close> hands out the first free block at or after the first zone that is
  large enough: the block was free, has at least the requested size, is the only block whose
  state changes, and the heap invariant still holds.
\<close>

theorem malloc_first_fit:
  assumes "heap_inv s" and "malloc n s = Inr (p, s')"
  shows "\<exists>b < total_blocks s. p = block_addr s b \<and> unat n \<le> block_size (zones s) b
    \<and> \<not> used_block s b
    \<and> (\<forall>b' < b. unat n \<le> block_size (zones s) b' \<longrightarrow> used_block s b')
    \<and> (\<forall>b'. used_block s' b' \<longleftrightarrow> b' = b \<or> used_block s b')
    \<and> heap_inv s'"
proof -
  let ?b = "search_block s n"
  note inv = heap_invD [OF assms(1)]
  have b: "?b < total_blocks s" "p = block_addr s ?b" "s' = take_block ?b s"
    using assms by (auto simp: malloc_eq split: if_splits)
  note found = search_block_spec [of s n]
  have "unat n \<le> block_size (zones s) ?b"
    using first_block_large [OF heap_sizes_sorted [OF inv(1)] found(1)] b inv by simp
  moreover have "used_block s b'" if "b' < ?b" "unat n \<le> block_size (zones s) b'" for b'
    using found(2) [of b'] first_block_small [of b' "zones s" n] that by (meson not_le_imp_less not_less)
  ultimately show ?thesis
    using b found(3) take_block_used [OF assms(1) b(1)] take_block_inv [OF assms(1) b(1)]
    by blast
qed

text \<open>
  \<open>malloc\<close> panics with "out of mem" exactly when every block of at least the requested
  size is in use; otherwise it returns a block.
\<close>

theorem malloc_fails_iff:
  assumes "heap_inv s"
  shows "(malloc n s = Inl (Panic ''out of mem'')
      \<longleftrightarrow> (\<forall>b < total_blocks s. unat n \<le> block_size (zones s) b \<longrightarrow> used_block s b))
    \<and> (malloc n s \<noteq> Inl (Panic ''out of mem'') \<longrightarrow> (\<exists>p s'. malloc n s = Inr (p, s')))"
proof -
  let ?b = "search_block s n"
  note found = search_block_spec [of s n]
  have large: "unat n \<le> block_size (zones s) ?b" if "?b < total_blocks s"
    using first_block_large [OF heap_sizes_sorted [OF heap_invD(1) [OF assms]] found(1)]
      that heap_invD(2) [OF assms] by simp
  have "(\<forall>b < total_blocks s. unat n \<le> block_size (zones s) b \<longrightarrow> used_block s b)
      \<longleftrightarrow> \<not> ?b < total_blocks s"
  proof
    assume "\<not> ?b < total_blocks s"
    then show "\<forall>b < total_blocks s. unat n \<le> block_size (zones s) b \<longrightarrow> used_block s b"
      using found(2) first_block_small [of _ "zones s" n] by (meson less_le_trans not_le_imp_less not_less)
  qed (use large found(3) in blast)
  then show ?thesis
    by (auto simp: malloc_eq [OF assms])
qed

text \<open>
  \<open>free\<close> of a block's address flips the block's bit and no other.  A used block becomes
  free and the heap invariant holds; a block that was free already becomes used, so a second
  \<open>free\<close> of an address takes the block out of circulation.
\<close>

theorem free_flips:
  assumes "heap_inv s" and "b < total_blocks s"
  shows "\<exists>s'. free (block_addr s b) s = Inr ((), s')
    \<and> (\<forall>b'. used_block s' b' \<longleftrightarrow> (if b' = b then \<not> used_block s b else used_block s b'))
    \<and> (used_block s b \<longrightarrow> heap_inv s')"
  using assms by (auto simp: free_eq flip_block_used flip_block_inv)

text \<open>Freeing what was just allocated restores the heap.\<close>

lemma list_set_xor:
  assumes "b div 8 < length bm" and "\<not> block_used bm b"
  shows "(bm[b div 8 := bm ! (b div 8) OR bit_mask b])
      [b div 8 := (bm[b div 8 := bm ! (b div 8) OR bit_mask b]) ! (b div 8) XOR bit_mask b] = bm"
proof -
  have "(bm ! (b div 8) OR bit_mask b) XOR bit_mask b = bm ! (b div 8)"
    using assms(2)
    by (intro bit_word_eqI) (auto simp: bit_simps bit_mask_bit block_used_bit)
  then show ?thesis using assms(1) by (simp add: list_update_same_conv)
qed

lemma free_malloc_restores:
  assumes "heap_inv s" and "malloc n s = Inr (p, s')"
  shows "free p s' = Inr ((), s)"
proof -
  let ?b = "search_block s n"
  have b: "?b < total_blocks s" "p = block_addr s ?b" "s' = take_block ?b s"
    using assms by (auto simp: malloc_eq split: if_splits)
  have unused: "\<not> used_block s ?b" using search_block_spec(3) [OF b(1)] .
  have same: "total_blocks s' = total_blocks s" "block_addr s' ?b = block_addr s ?b"
    by (simp_all add: b(3) take_block_def block_addr_def)
  have "free p s' = Inr ((), flip_block ?b s')"
    using free_eq [of s' ?b] take_block_inv [OF assms(1) b(1) unused] b same by simp
  also have "flip_block ?b s' = s"
    using list_set_xor [OF heap_block_byte [OF assms(1) b(1)] unused]
    by (simp add: b(3) flip_block_def take_block_def)
  finally show ?thesis .
qed

text \<open>
  C3: freeing the address that \<open>malloc\<close> has just returned gives back exactly the heap from
  before, bitmap and accounting included.
\<close>

theorem free_malloc_roundtrip:
  assumes "heap_inv s" and "malloc n s = Inr (p, s')"
  shows "free p s' = Inr ((), s)"
  using assms by (rule free_malloc_restores)

text \<open>An address outside the pool is rejected.\<close>

lemma free_locate_None:
  "zone_bytes zs < 65536 \<Longrightarrow> zone_bytes zs \<le> unat a \<Longrightarrow> free_locate zs a j = None"
proof (induction zs arbitrary: a j)
  case Nil
  then show ?case by simp
next
  case (Cons z zs)
  have prod: "unat (sb_count z * sb_size z) = unat (sb_count z) * unat (sb_size z)"
    using Cons.prems(1) by (simp add: unat_mult16)
  then have le: "unat (sb_count z * sb_size z) \<le> unat a"
    using Cons.prems(2) by simp
  have "zone_bytes zs \<le> unat (a - sb_count z * sb_size z)"
    using Cons.prems(2) prod by (simp add: unat_sub16_le [OF le])
  then show ?case
    using Cons.IH Cons.prems(1) le by (simp add: le16_iff)
qed

text \<open>
  \<open>free\<close> of an address outside the pool, the null pointer included, panics.
\<close>

theorem free_outside_panics:
  assumes "heap_inv s"
    and "unat p < unat (pool_start s) \<or> unat (pool_start s) + zone_bytes (zones s) \<le> unat p"
  shows "free p s = Inl (Panic ''invalid free'')"
proof -
  have "zone_bytes (zones s) \<le> unat (p - pool_start s)"
  proof (cases "unat p < unat (pool_start s)")
    case True
    then have "unat (p - pool_start s) = unat p + 65536 - unat (pool_start s)"
      using unat_lt_65536 [of "pool_start s"] by (simp add: unat_sub16)
    then show ?thesis using heap_invD(6) [OF assms(1)] by simp
  next
    case False
    then show ?thesis using assms(2) by (simp add: unat_sub16_le)
  qed
  then show ?thesis
    using free_locate_None heap_invD(6) [OF assms(1)] by (simp add: free_def)
qed

section \<open>The heap as seen by its clients\<close>

text \<open>The ranges of memory in use: address and length of every used block.\<close>

definition live :: "'z heap_scheme \<Rightarrow> (nat \<times> nat) set" where
  "live s = (\<lambda>b. (unat (block_addr s b), block_size (zones s) b)) `
     {b. b < total_blocks s \<and> used_block s b}"

definition apart :: "nat \<times> nat \<Rightarrow> nat \<times> nat \<Rightarrow> bool" where
  "apart r q \<longleftrightarrow> fst r + snd r \<le> fst q \<or> fst q + snd q \<le> fst r"

text \<open>
  The contract of an allocator: an allocation is a fresh non-null range of at least the size
  asked for, ranges in use never overlap, and a range in use can be given back.
\<close>

locale allocator =
  fixes alloc :: "u16 \<Rightarrow> 's \<Rightarrow> kerror + ptr \<times> 's"
    and release :: "ptr \<Rightarrow> 's \<Rightarrow> kerror + unit \<times> 's"
    and ok :: "'s \<Rightarrow> bool"
    and ranges :: "'s \<Rightarrow> (nat \<times> nat) set"
  assumes alloc_fresh: "ok s \<Longrightarrow> alloc n s = Inr (p, s') \<Longrightarrow>
      ok s' \<and> p \<noteq> 0 \<and> (\<exists>k. unat n \<le> k \<and> (unat p, k) \<notin> ranges s
        \<and> ranges s' = insert (unat p, k) (ranges s))"
    and ranges_apart: "ok s \<Longrightarrow> r \<in> ranges s \<Longrightarrow> q \<in> ranges s \<Longrightarrow> r \<noteq> q \<Longrightarrow> apart r q"
    and ranges_pos: "ok s \<Longrightarrow> r \<in> ranges s \<Longrightarrow> 0 < snd r"
    and release_range: "ok s \<Longrightarrow> (unat p, k) \<in> ranges s \<Longrightarrow>
      \<exists>s'. release p s = Inr ((), s') \<and> ok s' \<and> ranges s' = ranges s - {(unat p, k)}"
begin

lemma alloc_ok: "ok s \<Longrightarrow> alloc n s = Inr (p, s') \<Longrightarrow> ok s'"
  and alloc_nonnull: "ok s \<Longrightarrow> alloc n s = Inr (p, s') \<Longrightarrow> p \<noteq> 0"
  using alloc_fresh by blast+

text \<open>A new allocation overlaps nothing that was in use before.\<close>

lemma alloc_apart:
  assumes "ok s" and "alloc n s = Inr (p, s')" and "r \<in> ranges s"
  shows "\<exists>k \<ge> unat n. (unat p, k) \<in> ranges s' \<and> apart (unat p, k) r"
proof -
  obtain k where k: "unat n \<le> k" "(unat p, k) \<notin> ranges s"
    "ranges s' = insert (unat p, k) (ranges s)" and ok': "ok s'"
    using alloc_fresh [OF assms(1,2)] by blast
  then have "apart (unat p, k) r"
    using assms(3) by (intro ranges_apart [OF ok']) auto
  with k show ?thesis by auto
qed

lemma alloc_keeps: "ok s \<Longrightarrow> alloc n s = Inr (p, s') \<Longrightarrow> ranges s \<subseteq> ranges s'"
  using alloc_fresh [of s n p s'] by auto

lemma alloc_address_fresh:
  assumes "ok s" and "alloc n s = Inr (p, s')" and "(unat q, k) \<in> ranges s"
  shows "p \<noteq> q"
proof
  assume "p = q"
  obtain l where l: "(unat p, l) \<in> ranges s'" "apart (unat p, l) (unat q, k)"
    using alloc_apart [OF assms] by blast
  moreover have "0 < l" "0 < k"
    using ranges_pos [OF alloc_ok [OF assms(1,2)] l(1)] ranges_pos [OF assms(1,3)] by simp_all
  ultimately show False using \<open>p = q\<close> by (simp add: apart_def)
qed

lemma alloc_release:
  assumes "ok s" and "alloc n s = Inr (p, s')"
  shows "\<exists>s''. release p s' = Inr ((), s'') \<and> ok s'' \<and> ranges s'' = ranges s"
proof -
  obtain k where k: "(unat p, k) \<notin> ranges s" "ranges s' = insert (unat p, k) (ranges s)"
    and ok': "ok s'"
    using alloc_fresh [OF assms] by blast
  then show ?thesis using release_range [OF ok', of p k] by auto
qed

text \<open>The address of a range determines it.\<close>

lemma ranges_unique:
  assumes "ok s" and "(a, k) \<in> ranges s" and "(a, l) \<in> ranges s"
  shows "k = l"
proof (rule ccontr)
  assume "k \<noteq> l"
  then have "apart (a, k) (a, l)" using ranges_apart [OF assms] by simp
  then show False using ranges_pos [OF assms(1,2)] ranges_pos [OF assms(1,3)] by (simp add: apart_def)
qed

lemma release_address:
  assumes "ok s" and "(unat p, k) \<in> ranges s"
  shows "\<exists>s'. release p s = Inr ((), s') \<and> ok s' \<and> ranges s' = {r \<in> ranges s. fst r \<noteq> unat p}"
proof -
  have "r = (unat p, k) \<longleftrightarrow> fst r = unat p" if "r \<in> ranges s" for r
    using ranges_unique [OF assms(1,2), of "snd r"] that by (cases r) auto
  then have "ranges s - {(unat p, k)} = {r \<in> ranges s. fst r \<noteq> unat p}" by blast
  then show ?thesis using release_range [OF assms] by simp
qed

end

text \<open>The kernel heap provides the contract.\<close>

lemma malloc_range:
  assumes inv: "heap_inv s" and m: "malloc n s = Inr (p, s')"
  shows "heap_inv s' \<and> p \<noteq> 0 \<and> (\<exists>k\<ge>unat n. (unat p, k) \<notin> live s \<and> live s' = insert (unat p, k) (live s))"
proof -
  let ?b = "search_block s n"
  have b: "?b < total_blocks s" "p = block_addr s ?b" "s' = take_block ?b s"
    using inv m by (auto simp: malloc_eq split: if_splits)
  have unused: "\<not> used_block s ?b" using search_block_spec(3) [OF b(1)] .
  have size: "unat n \<le> block_size (zones s) ?b"
    using first_block_large [OF heap_sizes_sorted [OF heap_invD(1) [OF inv]] search_block_spec(1)]
      b(1) heap_invD(2) [OF inv] by simp
  have fresh: "(unat p, block_size (zones s) ?b) \<notin> live s"
    using block_addr_inject [OF inv] b unused by (auto simp: live_def word_unat_eq_iff)
  have same: "zones s' = zones s" "total_blocks s' = total_blocks s"
    "\<And>b. block_addr s' b = block_addr s b"
    by (simp_all add: b(3) take_block_def block_addr_def)
  have "{b'. b' < total_blocks s \<and> used_block s' b'}
      = insert ?b {b'. b' < total_blocks s \<and> used_block s b'}"
    using b take_block_used [OF inv b(1)] by auto
  then have "live s' = insert (unat p, block_size (zones s) ?b) (live s)"
    by (simp add: live_def same b(2))
  moreover have "p \<noteq> 0"
    using heap_inv_off [OF inv b(1)] heap_invD(5) [OF inv] b(2)
    by (auto simp: word_gt_0 unat_0_iff)
  moreover have "heap_inv s'" using take_block_inv [OF inv b(1) unused] b(3) by simp
  ultimately show ?thesis using size fresh by blast
qed

lemma live_apart:
  assumes inv: "heap_inv s" and r: "r \<in> live s" and q: "q \<in> live s" and ne: "r \<noteq> q"
  shows "apart r q"
proof -
  obtain b b' where b: "b < total_blocks s" "r = (unat (block_addr s b), block_size (zones s) b)"
    and b': "b' < total_blocks s" "q = (unat (block_addr s b'), block_size (zones s) b')"
    using r q by (auto simp: live_def)
  with ne have "b \<noteq> b'" by auto
  then show ?thesis
    using block_order [of b b' "zones s"] block_order [of b' b "zones s"] b b'
      heap_invD(2) [OF inv] heap_inv_off [OF inv b(1)] heap_inv_off [OF inv b'(1)]
    by (auto simp: apart_def nat_neq_iff)
qed

lemma free_range:
  assumes inv: "heap_inv s" and r: "(unat p, k) \<in> live s"
  shows "\<exists>s'. free p s = Inr ((), s') \<and> heap_inv s' \<and> live s' = live s - {(unat p, k)}"
proof -
  obtain b where b: "b < total_blocks s" "p = block_addr s b" "used_block s b"
    "k = block_size (zones s) b"
    using r by (auto simp: live_def word_unat_eq_iff)
  let ?s = "flip_block b s"
  have same: "zones ?s = zones s" "total_blocks ?s = total_blocks s"
    "\<And>b'. block_addr ?s b' = block_addr s b'"
    by (simp_all add: flip_block_def block_addr_def)
  have "{b'. b' < total_blocks s \<and> used_block ?s b'}
      = {b'. b' < total_blocks s \<and> used_block s b'} - {b}"
    using b flip_block_used [OF inv b(1)] by auto
  moreover let ?f = "\<lambda>b. (unat (block_addr s b), block_size (zones s) b)"
  have "inj_on ?f {b. b < total_blocks s}"
    using block_addr_inject [OF inv] by (auto simp: inj_on_def word_unat_eq_iff)
  then have "?f ` ({b'. b' < total_blocks s \<and> used_block s b'} - {b})
      = ?f ` {b'. b' < total_blocks s \<and> used_block s b'} - ?f ` {b}"
    by (rule inj_on_image_set_diff) (use b(1) in auto)
  ultimately have "live ?s = live s - {(unat p, k)}"
    using b(2,4) by (simp add: live_def same)
  then show ?thesis using free_eq [OF inv b(1)] flip_block_inv [OF inv b(1,3)] b(2) by auto
qed

interpretation heap_alloc: allocator malloc free heap_inv live
proof unfold_locales
  show "0 < snd r" if "heap_inv s" "r \<in> live s" for s :: "'a heap_scheme" and r
    using that heap_block_size_pos by (auto simp: live_def)
qed (rule malloc_range live_apart free_range; assumption)+

lemma live_bounded: "heap_inv s \<Longrightarrow> r \<in> live s \<Longrightarrow> 0 < fst r \<and> fst r + snd r < 65536"
proof -
  assume inv: "heap_inv s" and "r \<in> live s"
  then obtain b where b: "b < total_blocks s" "r = (unat (block_addr s b), block_size (zones s) b)"
    by (auto simp: live_def)
  have "block_off (zones s) b + block_size (zones s) b \<le> zone_bytes (zones s)"
    using block_end_le [of b "zones s"] b(1) heap_invD(2) [OF inv] by simp
  then show ?thesis
    using b heap_inv_off [OF inv b(1)] heap_invD(6) [OF inv] heap_invD(5) [OF inv]
    by (auto simp: word_gt_0 unat_gt_0)
qed

text \<open>What the operations leave alone.\<close>

lemma live_in_pool:
  assumes "heap_inv s" and "r \<in> live s"
  shows "unat (pool_start s) \<le> fst r \<and> fst r + snd r \<le> unat (pool_start s) + zone_bytes (zones s)"
proof -
  obtain b where b: "b < total_blocks s" "r = (unat (block_addr s b), block_size (zones s) b)"
    using assms(2) by (auto simp: live_def)
  have "block_off (zones s) b + block_size (zones s) b \<le> zone_bytes (zones s)"
    using block_end_le [of b "zones s"] b(1) heap_invD(2) [OF assms(1)] by simp
  then show ?thesis using b heap_inv_off [OF assms(1) b(1)] by auto
qed

text \<open>
  An address of the kernel segment that no allocation touches: it lies in a block that is in use,
  or outside the pool.
\<close>

definition reserved :: "'z heap_scheme \<Rightarrow> nat \<Rightarrow> bool" where
  "reserved s a \<longleftrightarrow> (\<exists>r \<in> live s. fst r \<le> a \<and> a < fst r + snd r)
     \<or> a < unat (pool_start s) \<or> unat (pool_start s) + zone_bytes (zones s) \<le> a"

lemma malloc_frame:
  "malloc n s = Inr (p, s') \<Longrightarrow> \<exists>bm u. s' = s\<lparr>bitmap := bm, used_bytes := u\<rparr>"
  by (auto simp: malloc_def Let_def split: if_splits option.splits prod.splits)

lemma free_frame:
  "free p s = Inr ((), s') \<Longrightarrow> \<exists>bm u. s' = s\<lparr>bitmap := bm, used_bytes := u\<rparr>"
  by (auto simp: free_def split: option.splits)

lemma malloc_reserved_block:
  assumes "heap_inv s" and "malloc n s = Inr (p, s')" and "reserved s a"
    and k: "live s' = insert (unat p, k) (live s)"
  shows "\<not> (unat p \<le> a \<and> a < unat p + k)"
proof -
  have inv: "heap_inv s'" by (rule heap_alloc.alloc_ok [OF assms(1,2)])
  obtain bm u where s': "s' = s\<lparr>bitmap := bm, used_bytes := u\<rparr>" using malloc_frame [OF assms(2)] by blast
  have "apart (unat p, k) r" if r: "r \<in> live s" for r
  proof -
    obtain l where "(unat p, l) \<in> live s'" "apart (unat p, l) r"
      using heap_alloc.alloc_apart [OF assms(1,2) r] by blast
    then show ?thesis using heap_alloc.ranges_unique [OF inv, of "unat p" l k] k by auto
  qed
  moreover have "unat (pool_start s) \<le> unat p \<and> unat p + k \<le> unat (pool_start s) + zone_bytes (zones s)"
    using live_in_pool [OF inv, of "(unat p, k)"] k by (simp add: s')
  ultimately show ?thesis using assms(3) unfolding reserved_def apart_def by fastforce
qed

lemma malloc_reserved:
  assumes "heap_inv s" and "malloc n s = Inr (p, s')" and "reserved s a"
  shows "\<not> (unat p \<le> a \<and> a < unat p + unat n)" and "reserved s' a"
proof -
  obtain k where k: "unat n \<le> k" "live s' = insert (unat p, k) (live s)"
    using heap_alloc.alloc_fresh [OF assms(1,2)] by blast
  obtain bm u where s': "s' = s\<lparr>bitmap := bm, used_bytes := u\<rparr>" using malloc_frame [OF assms(2)] by blast
  show "\<not> (unat p \<le> a \<and> a < unat p + unat n)" using malloc_reserved_block [OF assms k(2)] k(1) by linarith
  show "reserved s' a" using assms(3) k(2) unfolding reserved_def by (auto simp: s')
qed

lemma heap_inv_mem [simp]: "heap_inv (mem_update f s) = heap_inv s"
  by (simp add: heap_inv_def)

lemma live_mem [simp]: "live (mem_update f s) = live s"
  by (simp add: live_def block_addr_def)

text \<open>
  C2: a block that \<open>malloc\<close> returns overlaps no block that is in use, and is at least as large
  as requested.
\<close>

theorem malloc_apart:
  assumes "heap_inv s" and "malloc n s = Inr (p, s')" and "r \<in> live s"
  shows "\<exists>k \<ge> unat n. (unat p, k) \<in> live s' \<and> apart (unat p, k) r"
  using assms by (rule heap_alloc.alloc_apart)

section \<open>Initialisation\<close>

lemma zone_bytes_ge: "z \<in> set zs \<Longrightarrow> unat (sb_count z) * unat (sb_size z) \<le> zone_bytes zs"
  by (induction zs) auto

definition zones_ok :: "size_block list \<Rightarrow> bool" where
  "zones_ok zs \<longleftrightarrow> map sb_size zs = heap_sizes \<and> map sb_expand zs = [1, 1, 3, 1, 0, 0]"

lemma zones_ok_cases:
  assumes "zones_ok zs"
  obtains c0 c1 c2 c3 c4 c5 where
    "zs = [\<lparr>sb_size = 4, sb_count = c0, sb_expand = 1\<rparr>, \<lparr>sb_size = 8, sb_count = c1, sb_expand = 1\<rparr>,
      \<lparr>sb_size = 18, sb_count = c2, sb_expand = 3\<rparr>, \<lparr>sb_size = 38, sb_count = c3, sb_expand = 1\<rparr>,
      \<lparr>sb_size = 512, sb_count = c4, sb_expand = 0\<rparr>,
      \<lparr>sb_size = 4096, sb_count = c5, sb_expand = 0\<rparr>]"
proof -
  have "length zs = 6"
    using assms by (auto simp: zones_ok_def heap_sizes_def dest: map_eq_imp_length_eq)
  then obtain z0 z1 z2 z3 z4 z5 where zs: "zs = [z0, z1, z2, z3, z4, z5]"
    by (auto simp: numeral_eq_Suc length_Suc_conv)
  show ?thesis
    by (rule that [of "sb_count z0" "sb_count z1" "sb_count z2" "sb_count z3" "sb_count z4"
          "sb_count z5"])
      (use assms in \<open>simp add: zs zones_ok_def heap_sizes_def\<close>)
qed

lemma zones_ok_expand:
  assumes "zones_ok zs" and "zone_bytes zs \<le> 0xf000"
  shows "zones_ok (map zone_expand zs) \<and> zone_bytes (map zone_expand zs) = zone_bytes zs + 104
    \<and> zone_blocks (map zone_expand zs) = zone_blocks zs + 6"
proof -
  obtain c0 c1 c2 c3 c4 c5 where zs:
    "zs = [\<lparr>sb_size = 4, sb_count = c0, sb_expand = 1\<rparr>, \<lparr>sb_size = 8, sb_count = c1, sb_expand = 1\<rparr>,
      \<lparr>sb_size = 18, sb_count = c2, sb_expand = 3\<rparr>, \<lparr>sb_size = 38, sb_count = c3, sb_expand = 1\<rparr>,
      \<lparr>sb_size = 512, sb_count = c4, sb_expand = 0\<rparr>,
      \<lparr>sb_size = 4096, sb_count = c5, sb_expand = 0\<rparr>]"
    using assms(1) by (rule zones_ok_cases)
  have "unat c0 * 4 + unat c1 * 8 + unat c2 * 18 + unat c3 * 38 \<le> 0xf000"
    using assms(2) by (simp add: zs)
  then have "unat c0 < 65530" "unat c1 < 65530" "unat c2 < 65530" "unat c3 < 65530" by linarith+
  then have "unat (c0 + 1) = unat c0 + 1" "unat (c1 + 1) = unat c1 + 1"
    "unat (c2 + 3) = unat c2 + 3" "unat (c3 + 1) = unat c3 + 1"
    by (simp_all add: unat_add16_small)
  then show ?thesis
    by (simp add: zs zones_ok_def heap_sizes_def zone_expand_def)
qed

lemma zones_ok_inc:
  assumes "zones_ok zs" and "zone_bytes zs \<le> 0xf000"
  shows "zones_ok (zone0_inc zs) \<and> zone_bytes (zone0_inc zs) = zone_bytes zs + 4
    \<and> zone_blocks (zone0_inc zs) = zone_blocks zs + 1"
proof -
  obtain c0 c1 c2 c3 c4 c5 where zs:
    "zs = [\<lparr>sb_size = 4, sb_count = c0, sb_expand = 1\<rparr>, \<lparr>sb_size = 8, sb_count = c1, sb_expand = 1\<rparr>,
      \<lparr>sb_size = 18, sb_count = c2, sb_expand = 3\<rparr>, \<lparr>sb_size = 38, sb_count = c3, sb_expand = 1\<rparr>,
      \<lparr>sb_size = 512, sb_count = c4, sb_expand = 0\<rparr>,
      \<lparr>sb_size = 4096, sb_count = c5, sb_expand = 0\<rparr>]"
    using assms(1) by (rule zones_ok_cases)
  have "unat c0 * 4 \<le> 0xf000" using assms(2) by (simp add: zs)
  then have "unat (c0 + 1) = unat c0 + 1" by (simp add: unat_add16_small)
  then show ?thesis
    by (simp add: zs zones_ok_def heap_sizes_def zone0_inc_def)
qed

lemma zones_ok_sb0: "zones_ok zs \<Longrightarrow> sb_size (zs ! 0) = 4"
  by (elim zones_ok_cases) simp

lemma grow_zones_returns:
  assumes "zones_ok zs" and "unat allocated = zone_bytes zs" and "zone_bytes zs \<le> unat pool"
    and "unat pool \<le> 0xf000" and "104 * zone_blocks zs \<le> 6 * zone_bytes zs"
  shows "\<exists>zs' a'. grow_zones pool 104 zs allocated = Some (zs', a') \<and> zones_ok zs'
    \<and> unat a' = zone_bytes zs' \<and> zone_bytes zs' \<le> unat pool \<and> unat pool < zone_bytes zs' + 104
    \<and> 104 * zone_blocks zs' \<le> 6 * zone_bytes zs'"
  using assms
proof (induction "unat pool - zone_bytes zs" arbitrary: zs allocated rule: less_induct)
  case less
  have sum: "unat (allocated + 104) = zone_bytes zs + 104"
    using less.prems(2-4) by (simp add: unat_add16_small)
  show ?case
  proof (cases "allocated + 104 \<le> pool")
    case False
    then show ?thesis
      using less.prems sum by (simp add: grow_zones.simps [of pool] le16_iff)
  next
    case True
    have "zone_bytes zs \<le> 0xf000" using less.prems by simp
    then have e: "zones_ok (map zone_expand zs)" "zone_bytes (map zone_expand zs) = zone_bytes zs + 104"
      "zone_blocks (map zone_expand zs) = zone_blocks zs + 6"
      using zones_ok_expand [OF less.prems(1)] by blast+
    have "zone_bytes zs + 104 \<le> unat pool" using True sum by (simp add: le16_iff)
    then have "unat pool - zone_bytes (map zone_expand zs) < unat pool - zone_bytes zs"
      unfolding e(2) by linarith
    from less.hyps [OF this, of "allocated + 104"] show ?thesis
      using True sum e less.prems \<open>zone_bytes zs + 104 \<le> unat pool\<close>
      by (simp add: grow_zones.simps [of pool 104 zs allocated])
  qed
qed

lemma grow_first_returns:
  assumes "zones_ok zs" and "unat allocated = zone_bytes zs" and "zone_bytes zs \<le> unat pool"
    and "unat pool \<le> 0xf000"
  shows "\<exists>zs' a'. grow_first pool zs allocated = Some (zs', a') \<and> zones_ok zs'
    \<and> unat a' = zone_bytes zs' \<and> zone_bytes zs' \<le> unat pool \<and> unat pool < zone_bytes zs' + 4
    \<and> zone_blocks zs' + zone_bytes zs \<le> zone_blocks zs + zone_bytes zs'"
  using assms
proof (induction "unat pool - zone_bytes zs" arbitrary: zs allocated rule: less_induct)
  case less
  have sum: "unat (allocated + 4) = zone_bytes zs + 4"
    using less.prems(2-4) by (simp add: unat_add16_small)
  have unroll: "grow_first pool zs allocated =
      (if allocated + 4 \<le> pool then grow_first pool (zone0_inc zs) (allocated + 4)
       else Some (zs, allocated))"
    by (subst grow_first.simps) (simp only: zones_ok_sb0 [OF less.prems(1)])
  show ?case
  proof (cases "allocated + 4 \<le> pool")
    case False
    then show ?thesis
      using less.prems sum by (simp add: unroll le16_iff)
  next
    case True
    have "zone_bytes zs \<le> 0xf000" using less.prems by simp
    then have e: "zones_ok (zone0_inc zs)" "zone_bytes (zone0_inc zs) = zone_bytes zs + 4"
      "zone_blocks (zone0_inc zs) = zone_blocks zs + 1"
      using zones_ok_inc [OF less.prems(1)] by blast+
    have le: "zone_bytes zs + 4 \<le> unat pool" using True sum by (simp add: le16_iff)
    then have "unat pool - zone_bytes (zone0_inc zs) < unat pool - zone_bytes zs"
      unfolding e(2) by linarith
    from less.hyps [OF this, of "allocated + 4"] show ?thesis
      using True sum e less.prems le by (fastforce simp: unroll)
  qed
qed

text \<open>
  C4: on the boot-time zone table and a pool of at most 60 KB that holds the fixed zones,
  \<open>malloc_init\<close> terminates and establishes the heap invariant with every block free; the zones
  stay inside the pool and leave less than 4 bytes of it unused.
\<close>

theorem malloc_init_establishes:
  assumes "zones s = initial_zones" and "0 < start" and "unat pool_end \<le> 0xf000"
    and "unat start + 24576 \<le> unat pool_end"
  shows "\<exists>s'. malloc_init start pool_end s = Inr ((), s') \<and> heap_inv s' \<and> live s' = {}
    \<and> pool_start s' = start \<and> unat (total_bytes s') = zone_bytes (zones s')
    \<and> unat start + zone_bytes (zones s') \<le> unat pool_end
    \<and> unat pool_end < unat start + zone_bytes (zones s') + 4"
proof -
  let ?pool = "pool_end - start"
  have pool: "unat ?pool = unat pool_end - unat start"
    using assms(4) by (simp add: unat_sub16_le)
  then have le: "24576 \<le> unat ?pool" "unat ?pool \<le> 0xf000"
    using assms(3,4) by linarith+
  have z0: "zones_ok initial_zones" "zone_bytes initial_zones = 24576" "zone_blocks initial_zones = 13"
    by (simp_all add: zones_ok_def heap_sizes_def initial_zones_def)
  have sums: "sum_list (map (\<lambda>z. sb_size z * sb_count z) initial_zones) = 24576"
    "sum_list (map (\<lambda>z. sb_size z * sb_expand z) initial_zones) = 104"
    by (simp_all add: initial_zones_def)
  obtain zs1 a1 where g1: "grow_zones ?pool 104 initial_zones 24576 = Some (zs1, a1)" "zones_ok zs1"
    "unat a1 = zone_bytes zs1" "zone_bytes zs1 \<le> unat ?pool" "unat ?pool < zone_bytes zs1 + 104"
    "104 * zone_blocks zs1 \<le> 6 * zone_bytes zs1"
    using grow_zones_returns [of initial_zones 24576 ?pool] z0 le by auto
  obtain zs2 a2 where g2: "grow_first ?pool zs1 a1 = Some (zs2, a2)" "zones_ok zs2"
    "unat a2 = zone_bytes zs2" "zone_bytes zs2 \<le> unat ?pool" "unat ?pool < zone_bytes zs2 + 4"
    "zone_blocks zs2 + zone_bytes zs1 \<le> zone_blocks zs1 + zone_bytes zs2"
    using grow_first_returns [OF g1(2-4)] le by auto
  have blocks: "zone_blocks zs2 \<le> 8000"
    using g1 g2 pool assms(3) by linarith
  let ?s = "s\<lparr>pool_start := start, zones := zs2, total_blocks := zone_blocks zs2,
     bitmap := replicate BITMAP_SIZE 0, used_bytes := 0, total_bytes := a2\<rparr>"
  have run: "malloc_init start pool_end s = Inr ((), ?s)"
    using blocks
    by (simp add: malloc_init_def assms(1) sums g1(1) g2(1) Let_def BITMAP_SIZE_def zone_blocks_def)
  have unused: "\<not> block_used (replicate BITMAP_SIZE 0) b" if "b < zone_blocks zs2" for b
    using that blocks by (simp add: block_used_def BITMAP_SIZE_def div_less_iff_less_mult)
  then have none: "{b. b < zone_blocks zs2 \<and> block_used (replicate BITMAP_SIZE 0) b} = {}"
    by auto
  then have "used_sum zs2 (replicate BITMAP_SIZE 0) (zone_blocks zs2) = 0"
    by (simp only: used_sum_def none sum.empty)
  then have "heap_inv ?s"
    using g2 pool assms(2-4) blocks by (simp add: heap_inv_def zones_ok_def BITMAP_SIZE_def)
  moreover have "live ?s = {}" using none by (simp add: live_def)
  ultimately show ?thesis
    using run g2 pool assms(4) by auto
qed

text \<open>A pool smaller than the fixed zones is not noticed: the heap runs past its end.\<close>

lemma malloc_init_small_pool:
  assumes "zones s = initial_zones" and "unat (pool_end - start) < 24576"
  shows "\<exists>s'. malloc_init start pool_end s = Inr ((), s') \<and> zone_bytes (zones s') = 24576"
proof -
  have sums: "sum_list (map (\<lambda>z. sb_size z * sb_count z) initial_zones) = 24576"
    "sum_list (map (\<lambda>z. sb_size z * sb_expand z) initial_zones) = 104"
    "initial_zones ! 0 = \<lparr>sb_size = 4, sb_count = 0, sb_expand = 1\<rparr>"
    by (simp_all add: initial_zones_def)
  have small: "\<not> 24680 \<le> pool_end - start" "\<not> 24580 \<le> pool_end - start"
    using assms(2) by (simp_all add: le16_iff)
  have "zone_blocks initial_zones = 13" "zone_bytes initial_zones = 24576"
    by (simp_all add: initial_zones_def)
  then show ?thesis
    using small
    by (simp add: malloc_init_def assms(1) sums grow_zones.simps grow_first.simps Let_def
        BITMAP_SIZE_def zone_blocks_def [symmetric])
qed

section \<open>A concrete heap\<close>

text \<open>The heap with only the fixed zones, all blocks free; the properties are applied to it.\<close>

definition demo_heap :: heap where
  "demo_heap = \<lparr>mem = \<lambda>_. 0, port_in = \<lambda>_ _. 0, port_reads = 0, port_out = [],
     used_bytes = 0, total_bytes = 24576, total_blocks = 13, pool_start = 0x1000,
     zones = initial_zones, bitmap = replicate BITMAP_SIZE 0\<rparr>"

lemma demo_unused: "b < 13 \<Longrightarrow> \<not> used_block demo_heap b"
  by (simp add: demo_heap_def block_used_def BITMAP_SIZE_def div_less_iff_less_mult)

lemma demo_heap_inv: "heap_inv demo_heap"
proof -
  have none: "{b. b < 13 \<and> used_block demo_heap b} = {}"
    using demo_unused by blast
  have "used_sum (zones demo_heap) (bitmap demo_heap) 13 = 0"
    by (simp only: used_sum_def none sum.empty)
  then show ?thesis
    by (simp add: heap_inv_def demo_heap_def heap_sizes_def initial_zones_def BITMAP_SIZE_def)
qed

lemma demo_search: "search_block demo_heap 12 = 0"
proof -
  have "first_block (zones demo_heap) 12 = 0" "skip_full_bytes (bitmap demo_heap) 13 0 = 0"
    by (simp_all add: demo_heap_def initial_zones_def skip_full_bytes.simps BITMAP_SIZE_def)
  moreover have "next_free (bitmap demo_heap) 13 0 = 0"
    using demo_unused [of 0] by (subst next_free.simps) simp
  moreover have "total_blocks demo_heap = 13" by (simp add: demo_heap_def)
  ultimately show ?thesis by (simp add: search_block_def)
qed

lemma demo_malloc: "malloc 12 demo_heap = Inr (0x1000, take_block 0 demo_heap)"
  using malloc_eq [OF demo_heap_inv, of 12]
  by (simp add: demo_search) (simp add: demo_heap_def block_addr_def initial_zones_def)

theorem malloc_first_fit_witness:
  "\<exists>b < 13. 0x1000 = block_addr demo_heap b \<and> 12 \<le> block_size initial_zones b
    \<and> used_block (take_block 0 demo_heap) b"
  using malloc_first_fit [OF demo_heap_inv demo_malloc] by (auto simp: demo_heap_def)

lemma demo_used: "used_block (take_block 0 demo_heap) 0" "\<not> used_block (take_block 0 demo_heap) 1"
  using take_block_used [OF demo_heap_inv, of 0] demo_unused [of 1] by (auto simp: demo_heap_def)

lemma demo_heap_inv2: "heap_inv (take_block 0 demo_heap)"
  using take_block_inv [OF demo_heap_inv, of 0] demo_unused [of 0] by (simp add: demo_heap_def)

lemma demo_search2: "search_block (take_block 0 demo_heap) 12 = 1"
proof -
  let ?s = "take_block 0 demo_heap"
  have "first_block (zones ?s) 12 = 0" "skip_full_bytes (bitmap ?s) 13 0 = 0"
    by (simp_all add: take_block_def demo_heap_def initial_zones_def skip_full_bytes.simps BITMAP_SIZE_def
        bit_mask_def)
  moreover have "next_free (bitmap ?s) 13 0 = 1"
    using demo_used by (subst next_free.simps, subst next_free.simps) simp
  moreover have "total_blocks ?s = 13" by (simp add: take_block_def demo_heap_def)
  ultimately show ?thesis by (simp add: search_block_def)
qed

lemma demo_malloc2:
  "malloc 12 (take_block 0 demo_heap) = Inr (0x1200, take_block 1 (take_block 0 demo_heap))"
  using malloc_eq [OF demo_heap_inv2, of 12] demo_search2
  by (simp add: take_block_def demo_heap_def block_addr_def initial_zones_def)

lemma demo_live: "(0x1000, 512) \<in> live (take_block 0 demo_heap)"
proof -
  let ?s = "take_block 0 demo_heap"
  have "unat (block_addr ?s 0) = 0x1000" "block_size (zones ?s) 0 = 512" "0 < total_blocks ?s"
    by (simp_all add: take_block_def demo_heap_def block_addr_def initial_zones_def block_size_def)
  then show ?thesis using demo_used unfolding live_def by (intro image_eqI [of _ _ 0]) auto
qed

theorem malloc_apart_witness:
  "\<exists>k \<ge> 12. (0x1200, k) \<in> live (take_block 1 (take_block 0 demo_heap)) \<and> apart (0x1200, k) (0x1000, 512)"
  using malloc_apart [OF demo_heap_inv2 demo_malloc2 demo_live] by simp

theorem malloc_fails_iff_witness:
  "malloc 5000 demo_heap = Inl (Panic ''out of mem'')"
proof -
  have "\<not> (5000 :: nat) \<le> block_size (zones demo_heap) b" if "b < total_blocks demo_heap" for b
    using block_size_zone [of b "zones demo_heap"] that heap_invD(2) [OF demo_heap_inv]
    by (auto simp: demo_heap_def initial_zones_def)
  then show ?thesis
    using malloc_fails_iff [OF demo_heap_inv, of 5000] by auto
qed

theorem free_flips_witness:
  "\<exists>s'. free 0x1000 demo_heap = Inr ((), s') \<and> used_block s' 0"
proof -
  have "block_addr demo_heap 0 = 0x1000" "0 < total_blocks demo_heap"
    by (simp_all add: demo_heap_def block_addr_def initial_zones_def)
  then show ?thesis
    using free_flips [OF demo_heap_inv, of 0] demo_unused [of 0] by auto
qed

theorem free_malloc_roundtrip_witness:
  "free 0x1000 (take_block 0 demo_heap) = Inr ((), demo_heap)"
  by (rule free_malloc_roundtrip [OF demo_heap_inv demo_malloc])

theorem free_outside_panics_witness:
  "free 0 demo_heap = Inl (Panic ''invalid free'')"
  by (rule free_outside_panics [OF demo_heap_inv]) (simp add: demo_heap_def)

theorem malloc_init_establishes_witness:
  "\<exists>s'. malloc_init 0x5000 0xf000 demo_heap = Inr ((), s') \<and> heap_inv s' \<and> live s' = {}"
  using malloc_init_establishes [of demo_heap "0x5000" "0xf000"] by (auto simp: demo_heap_def)

end
