(* ===== verification/CString.thy ===== *)
theory CString
  imports Prelude
begin

text \<open>
  The string functions of \<^verbatim>\<open>kernel/string.c\<close>.  A \<open>char*\<close> is the list of the bytes from
  the pointer on, with a zero byte after the last one; \<open>deref\<close> reads the byte it points to
  and \<open>tl\<close> advances it.  \<open>cstr\<close> is the string it denotes, the bytes before the first zero.

  Whether a plain \<open>char\<close> is signed is the compiler's choice, so the comparisons take the
  promotion of \<open>char\<close> to \<open>int\<close> as an argument; what they are used for, the test for
  equality, does not depend on it.
\<close>

section \<open>Characters\<close>

definition deref :: "u8 list \<Rightarrow> u8" where
  "deref s = (case s of [] \<Rightarrow> 0 | c # _ \<Rightarrow> c)"

definition cstr :: "u8 list \<Rightarrow> u8 list" where
  "cstr s = takeWhile (\<lambda>c. c \<noteq> 0) s"

definition char_int :: "bool \<Rightarrow> u8 \<Rightarrow> int" where
  "char_int is_signed c = (if is_signed then sint c else uint c)"

definition isdigit :: "u8 \<Rightarrow> bool" where
  "isdigit x = (x \<ge> 0x30 \<and> x \<le> 0x39)"

definition isupper :: "u8 \<Rightarrow> bool" where
  "isupper x = (x \<ge> 0x41 \<and> x \<le> 0x5a)"

definition islower :: "u8 \<Rightarrow> bool" where
  "islower x = (x \<ge> 0x61 \<and> x \<le> 0x7a)"

definition isspace :: "u8 \<Rightarrow> bool" where
  "isspace x = (x = 0x20 \<or> x = 0x09 \<or> (x \<ge> 0x0a \<and> x \<le> 0x0d))"

definition toupper :: "u8 \<Rightarrow> u8" where
  "toupper c = (if islower c then c - 32 else c)"

definition tolower :: "u8 \<Rightarrow> u8" where
  "tolower c = (if isupper c then c + 32 else c)"

section \<open>String functions\<close>

function strcmp_loop :: "(u8 \<Rightarrow> int) \<Rightarrow> u8 list \<Rightarrow> u8 list \<Rightarrow> int" where
  "strcmp_loop ci str1 str2 =
     (if deref str1 \<noteq> 0 \<or> deref str2 \<noteq> 0 then
        if deref str1 \<noteq> deref str2 then ci (deref str1) - ci (deref str2)
        else strcmp_loop ci (tl str1) (tl str2)
      else 0)"
  by pat_completeness auto
termination
  by (relation "measure (\<lambda>(_, s, t). length s + length t)")
    (auto simp: deref_def split: list.splits)

declare strcmp_loop.simps [simp del]

definition sign_of :: "int \<Rightarrow> int" where
  "sign_of dist = (if dist > 0 then 1 else if dist < 0 then -1 else 0)"

definition strcmp :: "(u8 \<Rightarrow> int) \<Rightarrow> u8 list \<Rightarrow> u8 list \<Rightarrow> int" where
  "strcmp ci str1 str2 = sign_of (strcmp_loop ci str1 str2)"

fun memcmp_loop :: "(u8 \<Rightarrow> int) \<Rightarrow> u8 list \<Rightarrow> u8 list \<Rightarrow> nat \<Rightarrow> int" where
  "memcmp_loop ci str1 str2 0 = 0"
| "memcmp_loop ci str1 str2 (Suc count) =
     (if deref str1 \<noteq> deref str2 then ci (deref str1) - ci (deref str2)
      else memcmp_loop ci (tl str1) (tl str2) count)"

definition memcmp :: "(u8 \<Rightarrow> int) \<Rightarrow> u8 list \<Rightarrow> u8 list \<Rightarrow> nat \<Rightarrow> int" where
  "memcmp ci str1 str2 count = sign_of (memcmp_loop ci str1 str2 count)"

text \<open>\<open>strcpy\<close> yields the bytes written at \<open>dest\<close> and how far \<open>dest\<close> was advanced.\<close>

function strcpy_loop :: "u8 list \<Rightarrow> u8 list" where
  "strcpy_loop src = (if deref src \<noteq> 0 then deref src # strcpy_loop (tl src) else [0])"
  by pat_completeness auto
termination
  by (relation "measure length") (auto simp: deref_def split: list.splits)

declare strcpy_loop.simps [simp del]

definition strcpy :: "u8 list \<Rightarrow> u8 list \<times> nat" where
  "strcpy src = (let written = strcpy_loop src in (written, length written - 1))"

function strlen_loop :: "u8 list \<Rightarrow> u16 \<Rightarrow> u16" where
  "strlen_loop str len = (if deref str \<noteq> 0 then strlen_loop (tl str) (len + 1) else len)"
  by pat_completeness auto
termination
  by (relation "measure (\<lambda>(s, _). length s)") (auto simp: deref_def split: list.splits)

declare strlen_loop.simps [simp del]

definition strlen :: "u8 list \<Rightarrow> u16" where
  "strlen str = strlen_loop str 0"

text \<open>
  \<open>atoi\<close> keeps a value, a state flag and a sign; the sign is not initialised, so it is a
  parameter here (\<open>neg\<close>), and only matters once a character has set it.
\<close>

function atoi_loop :: "u8 list \<Rightarrow> u16 \<Rightarrow> bool \<Rightarrow> u16 \<Rightarrow> u16 \<times> u16" where
  "atoi_loop str value state neg =
     (if deref str = 0 then (value, neg)
      else
        let c = deref str;
            start = (\<not> isspace c \<or> \<not> state);
            neg = (if start then if c = 0x2d then -1 else 1 else neg);
            state = (if start then True else state)
        in if state then
             if isdigit c then atoi_loop (tl str) (value * 10 + (ucast c - 0x30)) state neg
             else (value, neg)
           else atoi_loop (tl str) value state neg)"
  by pat_completeness auto
termination
  by (relation "measure (\<lambda>(s, _). length s)") (auto simp: deref_def split: list.splits)

declare atoi_loop.simps [simp del]

definition atoi :: "u16 \<Rightarrow> u8 list \<Rightarrow> u16" where
  "atoi neg str = (let (value, neg) = atoi_loop str 0 False neg in value * neg)"

section \<open>Strings as their bytes\<close>

lemma deref_simps [simp]: "deref [] = 0" "deref (c # s) = c"
  by (simp_all add: deref_def)

lemma cstr_unfold: "cstr s = (if deref s \<noteq> 0 then deref s # cstr (tl s) else [])"
  by (cases s) (simp_all add: cstr_def)

lemma cstr_no_zero: "0 \<notin> set s \<Longrightarrow> cstr s = s"
  by (simp add: cstr_def takeWhile_eq_all_conv) auto

lemma cstr_idem [simp]: "cstr (cstr s) = cstr s"
  by (rule cstr_no_zero) (auto simp: cstr_def dest: set_takeWhileD)

lemma cstr_nul [simp]: "cstr (s @ [0]) = cstr s"
  by (induction s) (simp_all add: cstr_def)

text \<open>
  What a client of \<open>strcmp\<close> and \<open>memcmp\<close> needs of the promotion of characters: different
  characters have different values.
\<close>

locale char_promotion =
  fixes ci :: "u8 \<Rightarrow> int"
  assumes promote_inject: "ci a = ci b \<longleftrightarrow> a = b"
begin

lemma strcmp_loop_0: "strcmp_loop ci s t = 0 \<longleftrightarrow> cstr s = cstr t"
proof (induction "length s + length t" arbitrary: s t rule: less_induct)
  case less
  show ?case
  proof (cases "deref s \<noteq> 0 \<and> deref s = deref t")
    case True
    then have "length (tl s) + length (tl t) < length s + length t"
      by (cases s) auto
    then have "strcmp_loop ci (tl s) (tl t) = 0 \<longleftrightarrow> cstr (tl s) = cstr (tl t)"
      by (rule less)
    then show ?thesis
      using True by (simp add: strcmp_loop.simps [of ci s t] cstr_unfold [of s] cstr_unfold [of t])
  next
    case False
    then show ?thesis
      by (auto simp: strcmp_loop.simps [of ci s t] cstr_unfold [of s] cstr_unfold [of t]
          promote_inject)
  qed
qed

lemma strcmp_eq_0: "strcmp ci s t = 0 \<longleftrightarrow> cstr s = cstr t"
  by (auto simp: strcmp_def sign_of_def simp flip: strcmp_loop_0)

lemma strcmp_refl: "strcmp ci s s = 0"
  by (simp add: strcmp_eq_0)

lemma strcmp_loop_antisym: "strcmp_loop ci t s = - strcmp_loop ci s t"
proof (induction "length s + length t" arbitrary: s t rule: less_induct)
  case less
  show ?case
  proof (cases "deref s \<noteq> 0 \<and> deref s = deref t")
    case True
    then have "length (tl s) + length (tl t) < length s + length t"
      by (cases s) auto
    then have "strcmp_loop ci (tl t) (tl s) = - strcmp_loop ci (tl s) (tl t)"
      by (rule less)
    then show ?thesis
      using True by (simp add: strcmp_loop.simps [of ci s t] strcmp_loop.simps [of ci t s])
  next
    case False
    then show ?thesis
      by (auto simp: strcmp_loop.simps [of ci s t] strcmp_loop.simps [of ci t s])
  qed
qed

lemma strcmp_antisym: "strcmp ci t s = - strcmp ci s t"
  by (simp add: strcmp_def sign_of_def strcmp_loop_antisym [of t s])

lemma memcmp_loop_0:
  "n \<le> length s \<Longrightarrow> n \<le> length t \<Longrightarrow> memcmp_loop ci s t n = 0 \<longleftrightarrow> take n s = take n t"
proof (induction n arbitrary: s t)
  case 0
  then show ?case by simp
next
  case (Suc n)
  then obtain a s' b t' where "s = a # s'" "t = b # t'"
    by (cases s; cases t) auto
  with Suc show ?case by (simp add: promote_inject)
qed

lemma memcmp_eq_0:
  "n \<le> length s \<Longrightarrow> n \<le> length t \<Longrightarrow> memcmp ci s t n = 0 \<longleftrightarrow> take n s = take n t"
  by (auto simp: memcmp_def sign_of_def simp flip: memcmp_loop_0)

end

text \<open>Both promotions a compiler may choose satisfy the law.\<close>

interpretation promo: char_promotion "char_int is_signed"
  for is_signed
  by unfold_locales (auto simp: char_int_def intro: signed_word_eqI unsigned_word_eqI)

text \<open>
  \<open>strcmp\<close> returns 0 exactly for equal strings, whether plain \<open>char\<close> is signed or not;
  exchanging the arguments negates its result.
\<close>

theorem strcmp_correct:
  "(strcmp (char_int b) s t = 0 \<longleftrightarrow> cstr s = cstr t)
   \<and> strcmp (char_int b) t s = - strcmp (char_int b) s t"
  by (simp add: promo.strcmp_eq_0 promo.strcmp_antisym [of b t s])

lemma strcpy_loop_cstr: "strcpy_loop src = cstr src @ [0]"
  by (induction src rule: strcpy_loop.induct)
    (auto simp: strcpy_loop.simps [of src for src] cstr_unfold [of src for src])

lemma strlen_loop_length: "strlen_loop s n = n + of_nat (length (cstr s))"
proof (induction s n rule: strlen_loop.induct)
  case (1 s n)
  then show ?case
    by (auto simp: strlen_loop.simps [of s n] cstr_unfold [of s])
qed

lemma strlen_eq: "strlen s = of_nat (length (cstr s))"
  by (simp add: strlen_def strlen_loop_length)

text \<open>
  \<open>strcpy\<close> writes the string and its terminator, \<open>strlen\<close> bytes and one more, and the
  copy compares equal to the original.
\<close>

theorem strcpy_roundtrip:
  "fst (strcpy src) = cstr src @ [0]
   \<and> of_nat (length (fst (strcpy src))) = strlen src + 1
   \<and> snd (strcpy src) = length (cstr src)
   \<and> strcmp (char_int b) (fst (strcpy src)) src = 0"
  by (simp add: strcpy_def strcpy_loop_cstr strlen_eq promo.strcmp_eq_0)

section \<open>Numbers in decimal\<close>

definition digits_value :: "u8 list \<Rightarrow> u16" where
  "digits_value ds = foldl (\<lambda>v c. v * 10 + (ucast c - 0x30)) 0 ds"

lemma isdigit_not_space: "isdigit c \<Longrightarrow> \<not> isspace c"
  by (auto simp: isdigit_def isspace_def word_le_nat_alt)

lemma isdigit_facts: "isdigit c \<Longrightarrow> c \<noteq> 0 \<and> c \<noteq> 0x2d"
  by (auto simp: isdigit_def)

lemma atoi_loop_digits:
  "\<exists>neg'. atoi_loop s v state neg =
       (foldl (\<lambda>v c. v * 10 + (ucast c - 0x30)) v (takeWhile isdigit s), neg')
     \<and> (deref (dropWhile isdigit s) = 0x2d \<longrightarrow> neg' = -1)
     \<and> (deref (dropWhile isdigit s) \<noteq> 0x2d \<and> (takeWhile isdigit s \<noteq> [] \<or> neg = 1) \<longrightarrow> neg' = 1)"
proof (induction s arbitrary: v state neg)
  case Nil
  then show ?case by (simp add: atoi_loop.simps [of "[]"])
next
  case (Cons c s)
  show ?case
  proof (cases "isdigit c")
    case True
    then have "atoi_loop (c # s) v state neg = atoi_loop s (v * 10 + (ucast c - 0x30)) True 1"
      using isdigit_facts [OF True] isdigit_not_space [OF True]
      by (simp add: atoi_loop.simps [of "c # s"] Let_def)
    then show ?thesis
      using Cons [of "v * 10 + (ucast c - 0x30)" True 1] True by auto
  next
    case False
    have "\<not> isspace 0x2d" by (simp add: isspace_def)
    then show ?thesis
      using False by (cases "c = 0") (auto simp: atoi_loop.simps [of "c # s"] atoi_loop.simps [of "0 # s"] Let_def)
  qed
qed

text \<open>
  \<open>atoi\<close> yields the value of the leading digits (modulo \<open>2 ^ 16\<close>), whatever the
  uninitialised sign holds; the number is negated when a minus sign \<^emph>\<open>follows\<close> the digits,
  and a leading minus sign or blank makes the result 0.
\<close>

lemma atoi_value:
  "atoi neg s = (if deref (dropWhile isdigit s) = 0x2d then - digits_value (takeWhile isdigit s)
     else digits_value (takeWhile isdigit s))"
proof -
  obtain neg' where loop: "atoi_loop s 0 False neg = (digits_value (takeWhile isdigit s), neg')"
    and neg: "deref (dropWhile isdigit s) = 0x2d \<longrightarrow> neg' = -1"
      "deref (dropWhile isdigit s) \<noteq> 0x2d \<and> takeWhile isdigit s \<noteq> [] \<longrightarrow> neg' = 1"
    using atoi_loop_digits [of s 0 False neg] unfolding digits_value_def by blast
  have "takeWhile isdigit s = [] \<Longrightarrow> digits_value (takeWhile isdigit s) = 0"
    by (simp add: digits_value_def)
  then show ?thesis
    using neg by (cases "takeWhile isdigit s = []") (auto simp: atoi_def loop)
qed

lemma atoi_leading_minus: "atoi neg [0x2d, 0x35] = 0"
  by (simp add: atoi_value digits_value_def isdigit_def)

lemma atoi_trailing_minus: "atoi neg [0x35, 0x2d] = -5"
  by (simp add: atoi_value digits_value_def isdigit_def)

section \<open>Case conversion\<close>

lemma toupper_tolower: "isupper c \<Longrightarrow> toupper (tolower c) = c"
proof -
  assume c: "isupper c"
  then have "unat (c + 32) = unat c + 32"
    by (simp add: isupper_def word_le_nat_alt unat_word_ariths)
  with c show ?thesis
    by (simp add: tolower_def toupper_def isupper_def islower_def word_le_nat_alt)
qed

lemma toupper_idem: "toupper (toupper c) = toupper c"
proof (cases "islower c")
  case True
  then have "unat (c - 32) = unat c - 32"
    by (simp add: islower_def word_le_nat_alt unat_sub)
  with True show ?thesis
    by (auto simp: toupper_def islower_def word_le_nat_alt)
qed (simp add: toupper_def)

lemma toupper_tolower_idem: "toupper (tolower c) = toupper c"
proof (cases "isupper c")
  case True
  then have "\<not> islower c"
    by (auto simp: isupper_def islower_def word_le_nat_alt)
  with True show ?thesis
    by (simp add: toupper_tolower) (simp add: toupper_def)
qed (simp add: tolower_def)

lemma toupper_not_lower: "\<not> islower (toupper c)"
  using toupper_idem [of c] by (auto simp: toupper_def split: if_splits)

end
