(* ===== verification/Task.thy ===== *)
theory Task
  imports Malloc CString
begin

text \<open>
  Tasks, \<^verbatim>\<open>kernel/task.c\<close>: memory segments, the scheduler and its context switch,
  sleeping and waking, the handle table of a task, \<open>fork\<close> and \<open>exec\<close>.

  A \<open>struct Task\<close> is a record in the typed heap \<open>task_at\<close>, reached through its address; the
  handle tables and the kernel stacks that the structure points to are arrays, and live in the
  byte memory of the kernel segment \<open>0x0050\<close>, where \<open>memset\<close>, \<open>memcpy\<close> and the context switch
  work on them.  \<open>task_exit\<close> needs the file system and is in \<open>Syscall\<close>.

  The registers are those at the entry of \<open>switch_task\<close>; what the compiler keeps in them and
  pushes around a call is not modelled.  \<open>hlt n\<close>, a parameter, is what the interrupt handlers
  do to the state while the scheduler waits for the \<open>n\<close>-th time.
\<close>

unbundle bit_operations_syntax

section \<open>State\<close>

datatype task_state = RUNNING | SLEEPING | WAKEN_BEFORE_SLEEP | EXITED

record task =
  t_user_sp :: u16
  t_stack_top :: u16
  t_segment :: u16
  t_state :: task_state
  t_kernel_sp :: u16
  t_stack :: ptr
  t_handles :: ptr
  t_handle_count :: u8
  t_waiting_for_exit :: ptr
  t_next :: ptr

record tasks = heap +
  task_list :: ptr
  current_task :: ptr
  segment_bitmap :: u8
  task_at :: "ptr \<Rightarrow> task option"
  cpu_sp :: u16
  cpu_bp :: u16
  cpu_ax :: u16
  cpu_si :: u16
  cpu_di :: u16

definition KERNEL_STACK_GUARD :: u16 where
  "KERNEL_STACK_GUARD = 0xafee"

definition get_task :: "ptr \<Rightarrow> ('z tasks_scheme, task) kmon" where
  "get_task = lookupK task_at"

definition upd_task :: "ptr \<Rightarrow> (task \<Rightarrow> task) \<Rightarrow> ('z tasks_scheme, unit) kmon" where
  "upd_task p f = bindK (get_task p) (\<lambda>t. modifyK (\<lambda>s. s\<lparr>task_at := (task_at s)(p \<mapsto> f t)\<rparr>))"

section \<open>Segments\<close>

definition segment_bit :: "nat \<Rightarrow> u8" where
  "segment_bit i = drop_bit i 0x80"

fun allocate_from :: "nat \<Rightarrow> nat \<Rightarrow> u16 \<Rightarrow> u8 \<Rightarrow> u16 \<times> u8" where
  "allocate_from 0 i segment bits = (0, bits)"
| "allocate_from (Suc n) i segment bits =
     (if bits AND segment_bit i = 0 then (segment, bits OR segment_bit i)
      else allocate_from n (Suc i) (segment + 0x1000) bits)"

definition allocate_segment :: "('z tasks_scheme, u16) kmon" where
  "allocate_segment s =
     (case allocate_from 8 0 0x1050 (segment_bitmap s) of
        (segment, bits) \<Rightarrow> Inr (segment, s\<lparr>segment_bitmap := bits\<rparr>))"

definition free_segment :: "u16 \<Rightarrow> 'z tasks_scheme \<Rightarrow> 'z tasks_scheme" where
  "free_segment segment s =
     s\<lparr>segment_bitmap := segment_bitmap s AND NOT (segment_bit (unat ((segment - 0x1050) div 0x1000)))\<rparr>"

section \<open>Context switch\<close>

definition pushw :: "u16 \<Rightarrow> 'z tasks_scheme \<Rightarrow> 'z tasks_scheme" where
  "pushw v s = (let sp = cpu_sp s - 2 in pokew 0x0050 sp v (s\<lparr>cpu_sp := sp\<rparr>))"

definition topw :: "'z tasks_scheme \<Rightarrow> u16" where
  "topw s = peekw 0x0050 (cpu_sp s) s"

definition dropw :: "'z tasks_scheme \<Rightarrow> 'z tasks_scheme" where
  "dropw s = s\<lparr>cpu_sp := cpu_sp s + 2\<rparr>"

definition save_regs :: "'z tasks_scheme \<Rightarrow> 'z tasks_scheme" where
  "save_regs s = pushw (cpu_di s) (pushw (cpu_si s) (pushw (cpu_ax s) (pushw (cpu_bp s) s)))"

definition restore_regs :: "'z tasks_scheme \<Rightarrow> 'z tasks_scheme" where
  "restore_regs s =
     (let s = dropw (s\<lparr>cpu_di := topw s\<rparr>);
          s = dropw (s\<lparr>cpu_si := topw s\<rparr>);
          s = dropw (s\<lparr>cpu_ax := topw s\<rparr>)
      in dropw (s\<lparr>cpu_bp := topw s\<rparr>))"

text \<open>
  \<open>switch_task\<close> up to its \<open>ret\<close>: afterwards the stack pointer is at the return address of the
  task switched to.
\<close>

definition switch_task :: "ptr \<Rightarrow> ptr \<Rightarrow> ('z tasks_scheme, unit) kmon" where
  "switch_task old_task new_task =
     thenK (modifyK save_regs)
       (bindK (get_task new_task) (\<lambda>new.
          bindK (getK cpu_sp) (\<lambda>sp.
            thenK (modifyK (\<lambda>s. s\<lparr>current_task := new_task, cpu_sp := t_kernel_sp new\<rparr>))
              (thenK (upd_task old_task (\<lambda>t. t\<lparr>t_kernel_sp := sp\<rparr>))
                 (modifyK restore_regs)))))"

section \<open>Scheduler\<close>

text \<open>
  The loop of \<open>task_schedule\<close>: \<open>None\<close> is a search that never ends.  \<open>looped\<close> is a 16-bit
  \<open>int\<close> and wraps.
\<close>

partial_function (option) schedule_pick ::
  "(nat \<Rightarrow> 'z tasks_scheme \<Rightarrow> 'z tasks_scheme) \<Rightarrow> ptr \<Rightarrow> bool \<Rightarrow> u16 \<Rightarrow> nat \<Rightarrow> 'z tasks_scheme
    \<Rightarrow> (kerror + ptr \<times> 'z tasks_scheme) option" where
  "schedule_pick hlt cur seen looped n s =
     (case task_at s cur of
        None \<Rightarrow> Some (Inl (BadPtr cur))
      | Some t \<Rightarrow>
          (let wrap = (t_next t = 0);
               new = (if wrap then task_list s else t_next t);
               looped = (if wrap then looped + 1 else looped)
           in case task_at s new of
                None \<Rightarrow> Some (Inl (BadPtr new))
              | Some t' \<Rightarrow>
                  (let seen = (seen \<or> t_state t' \<noteq> EXITED) in
                   if t_state t' = RUNNING then Some (Inr (new, s))
                   else if seen \<and> 2 < sint looped
                   then schedule_pick hlt new seen looped (Suc n) (hlt n s)
                   else if seen \<or> sint looped < 2
                   then schedule_pick hlt new seen looped n s
                   else Some (Inl (Panic ''No tasks to run.'')))))"

definition task_schedule ::
  "(nat \<Rightarrow> 'z tasks_scheme \<Rightarrow> 'z tasks_scheme) \<Rightarrow> ('z tasks_scheme, unit) kmon" where
  "task_schedule hlt s =
     (case schedule_pick hlt (current_task s) False 0 0 s of
        None \<Rightarrow> Inl Hang
      | Some (Inl e) \<Rightarrow> Inl e
      | Some (Inr (new, s')) \<Rightarrow>
          if new \<noteq> current_task s then switch_task (current_task s) new s' else Inr ((), s'))"

definition task_sleep ::
  "(nat \<Rightarrow> 'z tasks_scheme \<Rightarrow> 'z tasks_scheme) \<Rightarrow> ptr \<Rightarrow> ('z tasks_scheme, unit) kmon" where
  "task_sleep hlt p =
     bindK (get_task p) (\<lambda>t.
       if t_state t = SLEEPING then failK (Panic ''SLEEPING SLEEPING'')
       else thenK
         (if t_state t = WAKEN_BEFORE_SLEEP then upd_task p (\<lambda>t. t\<lparr>t_state := RUNNING\<rparr>)
          else if t_state t = RUNNING then upd_task p (\<lambda>t. t\<lparr>t_state := SLEEPING\<rparr>)
          else retK ())
         (task_schedule hlt))"

definition task_wakeup :: "ptr \<Rightarrow> ('z tasks_scheme, unit) kmon" where
  "task_wakeup p =
     bindK (get_task p) (\<lambda>t.
       case t_state t of
         WAKEN_BEFORE_SLEEP \<Rightarrow> failK (Panic ''second wakeup'')
       | RUNNING \<Rightarrow> upd_task p (\<lambda>t. t\<lparr>t_state := WAKEN_BEFORE_SLEEP\<rparr>)
       | SLEEPING \<Rightarrow> upd_task p (\<lambda>t. t\<lparr>t_state := RUNNING\<rparr>)
       | EXITED \<Rightarrow> failK (Panic ''wakeup on exited''))"

section \<open>New tasks\<close>

definition SIZEOF_TASK :: u16 where
  "SIZEOF_TASK = 20"

fun pokews :: "u16 \<Rightarrow> (u16 \<times> u16) list \<Rightarrow> 'z machine_scheme \<Rightarrow> 'z machine_scheme" where
  "pokews seg [] s = s"
| "pokews seg ((off, v) # ovs) s = pokews seg ovs (pokew seg off v s)"

definition task_add :: "u16 \<Rightarrow> ('z tasks_scheme, ptr) kmon" where
  "task_add segment =
     bindK (malloc SIZEOF_TASK) (\<lambda>p.
     bindK (malloc (2 * of_nat KERNEL_STACK_WORDS)) (\<lambda>stk.
       if p = 0 \<or> stk = 0 \<or> segment = 0 then failK (Panic ''Task alloc failed!'')
       else
         thenK (modifyK (pokews segment
            [(0xfffe, 0x0200), (0xfffc, segment), (0xfffa, 0), (0xfff8, 0xbeef), (0xfff6, 0),
             (0xfff4, 0), (0xfff2, 0), (0xfff0, 0), (0xffee, 0), (0xffec, 0), (0xffea, 0)]))
        (thenK (modifyK (farmemsetw stk 0 (of_nat KERNEL_STACK_WORDS) 0x0050))
        (thenK (modifyK (pokew 0x0050 stk KERNEL_STACK_GUARD))
        (thenK (modifyK (\<lambda>s.
              let top = stk + 2 * (of_nat KERNEL_STACK_WORDS - 1);
                  t = \<lparr>t_user_sp = 0xffea, t_stack_top = top, t_segment = segment,
                       t_state = RUNNING, t_kernel_sp = top, t_stack = stk, t_handles = 0,
                       t_handle_count = 0, t_waiting_for_exit = 0,
                       t_next = (if task_list s = 0 then 0 else task_list s)\<rparr>
              in s\<lparr>task_at := (task_at s)(p \<mapsto> t), task_list := p,
                   current_task := (if task_list s = 0 then p else current_task s)\<rparr>))
         (retK p))))))"

definition task_new :: "('z tasks_scheme, ptr) kmon" where
  "task_new = bindK allocate_segment task_add"

definition task_init :: "('z tasks_scheme, unit) kmon" where
  "task_init = thenK (bindK allocate_segment task_add) (retK ())"

definition task_check_kernel_stack :: "('z tasks_scheme, unit) kmon" where
  "task_check_kernel_stack s =
     (if current_task s = 0 then Inr ((), s)
      else bindK (get_task (current_task s)) (\<lambda>t s.
             if peekw 0x0050 (t_stack t) s \<noteq> KERNEL_STACK_GUARD
             then Inl (Panic ''Kernel stack guard trashed!'') else Inr ((), s)) s)"

section \<open>User registers and memory\<close>

text \<open>Offsets of the registers that \<open>kernel_enter\<close> saves on the user stack.\<close>

definition rBP :: u16 where "rBP = 0"
definition rDI :: u16 where "rDI = 2"
definition rSI :: u16 where "rSI = 4"
definition rDX :: u16 where "rDX = 6"
definition rCX :: u16 where "rCX = 8"
definition rBX :: u16 where "rBX = 10"
definition rAX :: u16 where "rAX = 12"
definition rCS :: u16 where "rCS = 18"

definition task_get_register :: "ptr \<Rightarrow> u16 \<Rightarrow> ('z tasks_scheme, u16) kmon" where
  "task_get_register p reg =
     bindK (get_task p) (\<lambda>t. getK (peekw (t_segment t) (t_user_sp t + reg)))"

definition task_set_register :: "ptr \<Rightarrow> u16 \<Rightarrow> u16 \<Rightarrow> ('z tasks_scheme, unit) kmon" where
  "task_set_register p reg v =
     bindK (get_task p) (\<lambda>t. modifyK (pokew (t_segment t) (t_user_sp t + reg) v))"

definition task_set_memory :: "ptr \<Rightarrow> u16 \<Rightarrow> ptr \<Rightarrow> u16 \<Rightarrow> ('z tasks_scheme, unit) kmon" where
  "task_set_memory p addr src count =
     bindK (get_task p) (\<lambda>t. modifyK (farmemcpy addr src count (t_segment t) 0x0050))"

definition task_get_memory :: "ptr \<Rightarrow> u16 \<Rightarrow> ptr \<Rightarrow> u16 \<Rightarrow> ('z tasks_scheme, unit) kmon" where
  "task_get_memory p addr dst count =
     bindK (get_task p) (\<lambda>t. modifyK (farmemcpy dst addr count 0x0050 (t_segment t)))"

section \<open>Handle tables\<close>

definition SIZEOF_TASK_HANDLE :: u16 where
  "SIZEOF_TASK_HANDLE = 2"

definition slot_addr :: "ptr \<Rightarrow> u16 \<Rightarrow> u16" where
  "slot_addr table i = table + SIZEOF_TASK_HANDLE * i"

definition slot :: "'z machine_scheme \<Rightarrow> ptr \<Rightarrow> u16 \<Rightarrow> ptr" where
  "slot s table i = peekw 0x0050 (slot_addr table i) s"

definition set_slot :: "ptr \<Rightarrow> u16 \<Rightarrow> ptr \<Rightarrow> 'z machine_scheme \<Rightarrow> 'z machine_scheme" where
  "set_slot table i h = pokew 0x0050 (slot_addr table i) h"

fun free_slot :: "'z machine_scheme \<Rightarrow> ptr \<Rightarrow> u16 \<Rightarrow> nat \<Rightarrow> u16 option" where
  "free_slot s table i 0 = None"
| "free_slot s table i (Suc n) =
     (if slot s table i = 0 then Some i else free_slot s table (i + 1) n)"

definition task_add_handle :: "ptr \<Rightarrow> ptr \<Rightarrow> ('z tasks_scheme, u16) kmon" where
  "task_add_handle p h =
     bindK (get_task p) (\<lambda>t.
     bindK (getK (\<lambda>s. free_slot s (t_handles t) 0 (unat (t_handle_count t)))) (\<lambda>found.
       case found of
         Some i \<Rightarrow> thenK (modifyK (set_slot (t_handles t) i h)) (retK (i + 1))
       | None \<Rightarrow>
           (let count = ucast (t_handle_count t); new_count = count + 5 in
            bindK (malloc (SIZEOF_TASK_HANDLE * new_count)) (\<lambda>new_table.
              if new_table = 0 then retK 0
              else
                thenK (modifyK (memset new_table 0 (SIZEOF_TASK_HANDLE * new_count)))
               (thenK (whenK (t_handles t \<noteq> 0)
                   (thenK (modifyK (memcpy new_table (t_handles t) (SIZEOF_TASK_HANDLE * count)))
                      (free (t_handles t))))
               (thenK (upd_task p (\<lambda>t. t\<lparr>t_handles := new_table\<rparr>))
               (thenK (modifyK (set_slot new_table count h))
               (thenK (upd_task p (\<lambda>t. t\<lparr>t_handle_count := ucast new_count\<rparr>))
                  (retK (count + 1))))))))))"

definition task_remove_handle :: "ptr \<Rightarrow> u16 \<Rightarrow> ('z tasks_scheme, unit) kmon" where
  "task_remove_handle p i =
     bindK (get_task p) (\<lambda>t.
       whenK (i - 1 < ucast (t_handle_count t)) (modifyK (set_slot (t_handles t) (i - 1) 0)))"

definition task_get_handle :: "ptr \<Rightarrow> u16 \<Rightarrow> ('z tasks_scheme, ptr) kmon" where
  "task_get_handle p i =
     bindK (get_task p) (\<lambda>t.
       if i - 1 < ucast (t_handle_count t) then getK (\<lambda>s. slot s (t_handles t) (i - 1)) else retK 0)"

section \<open>Searching, fork and exec\<close>

partial_function (option) segment_search ::
  "(ptr \<Rightarrow> task option) \<Rightarrow> u16 \<Rightarrow> ptr \<Rightarrow> (kerror + ptr) option" where
  "segment_search m segment p =
     (if p = 0 then Some (Inr 0)
      else case m p of
        None \<Rightarrow> Some (Inl (BadPtr p))
      | Some t \<Rightarrow> if t_segment t = segment then Some (Inr p) else segment_search m segment (t_next t))"

definition segment_to_task :: "u16 \<Rightarrow> ('z tasks_scheme, ptr) kmon" where
  "segment_to_task segment s =
     (case segment_search (task_at s) segment (task_list s) of
        None \<Rightarrow> Inl Hang
      | Some (Inl e) \<Rightarrow> Inl e
      | Some (Inr p) \<Rightarrow> Inr (p, s))"

text \<open>\<open>kernel_exit\<close> is the address of the label of that name in \<^verbatim>\<open>kernel/gate.s\<close>.\<close>

definition fork_stack :: "u16 \<Rightarrow> ptr \<Rightarrow> (u16 \<times> u16) list" where
  "fork_stack kernel_exit stk = (let words = of_nat KERNEL_STACK_WORDS in
     [(stk + 2 * (words - 1), kernel_exit), (stk + 2 * (words - 2), 0), (stk + 2 * (words - 3), 0),
      (stk + 2 * (words - 4), 0), (stk + 2 * (words - 5), 0), (stk, KERNEL_STACK_GUARD)])"

definition fork_child :: "task \<Rightarrow> u16 \<Rightarrow> ptr \<Rightarrow> ptr \<Rightarrow> task" where
  "fork_child parent segment stk nxt = (let words = of_nat KERNEL_STACK_WORDS in
     parent\<lparr>t_segment := segment, t_stack := stk, t_kernel_sp := stk + 2 * (words - 5),
       t_stack_top := stk + 2 * words, t_handle_count := 0, t_handles := 0,
       t_waiting_for_exit := 0, t_next := nxt\<rparr>)"

definition fork :: "u16 \<Rightarrow> ('z tasks_scheme, u16) kmon" where
  "fork kernel_exit =
     bindK (malloc SIZEOF_TASK) (\<lambda>p.
     bindK (malloc (2 * of_nat KERNEL_STACK_WORDS)) (\<lambda>stk.
     bindK allocate_segment (\<lambda>segment.
       if p = 0 \<or> stk = 0 \<or> segment = 0 then failK (Panic ''Task alloc failed!'')
       else
         bindK (getK current_task) (\<lambda>cur.
         bindK (get_task cur) (\<lambda>parent.
           thenK (modifyK (farmemcpy 0 0 0x8000 segment (t_segment parent)))
          (thenK (modifyK (farmemcpy 0x8000 0x8000 0x8000 segment (t_segment parent)))
          (thenK (modifyK (farmemsetw stk 0 (of_nat KERNEL_STACK_WORDS) 0x0050))
          (thenK (modifyK (pokews 0x0050 (fork_stack kernel_exit stk)))
          (thenK (modifyK (pokews segment
             [(t_user_sp parent + 18, segment), (t_user_sp parent + 12, 0)]))
          (thenK (modifyK (\<lambda>s. s\<lparr>
               task_at := (task_at s)(p \<mapsto> fork_child parent segment stk (task_list s)),
               task_list := p\<rparr>))
             (retK segment)))))))))))"

text \<open>
  \<open>exec\<close> pokes the parameter string, terminator first, downwards from offset \<open>0xffff\<close>, then
  the argument count and the frame that \<open>kernel_exit\<close> pops.  The parameter is a kernel string;
  its length is kept in an \<open>int\<close>, so that nothing is copied when it is 32768 or more.
\<close>

fun poke_down :: "u16 \<Rightarrow> u16 \<Rightarrow> u8 list \<Rightarrow> 'z machine_scheme \<Rightarrow> 'z machine_scheme" where
  "poke_down seg sp [] s = s"
| "poke_down seg sp (c # cs) s = poke_down seg (sp - 1) cs (poke seg sp c s)"

definition exec_words :: "u16 \<Rightarrow> u16 \<Rightarrow> (u16 \<times> u16) list" where
  "exec_words seg sp = (let usp = sp - 2 in
     [(sp, 1), (usp, 0x0200), (usp - 2, seg), (usp - 4, 0), (usp - 6, 0xbeef), (usp - 8, 0),
      (usp - 10, 0), (usp - 12, 0), (usp - 14, 0), (usp - 16, 0), (usp - 18, 0), (usp - 20, 0)])"

definition exec :: "u8 list \<Rightarrow> ('z tasks_scheme, unit) kmon" where
  "exec param =
     bindK (getK current_task) (\<lambda>cur.
     bindK (get_task cur) (\<lambda>t.
       let cs = (if length (cstr param) < 32768 then cstr param @ [0] else []);
           sp = 0xffff - of_nat (length cs) - 1
       in thenK (modifyK (poke_down (t_segment t) 0xffff (rev cs)))
         (thenK (modifyK (pokews (t_segment t) (exec_words (t_segment t) sp)))
            (upd_task cur (\<lambda>t. t\<lparr>t_user_sp := sp - 2 - 20\<rparr>)))))"

section \<open>Access to tasks\<close>

lemma get_task_Some [kernel_simps]: "task_at s p = Some t \<Longrightarrow> get_task p s = Inr (t, s)"
  by (simp add: get_task_def lookupK_def)

lemma get_task_eq_Inr: "get_task p s = Inr (t, s') \<longleftrightarrow> task_at s p = Some t \<and> s' = s"
  by (auto simp: get_task_def lookupK_eq_Inr)

lemma upd_task_Some [kernel_simps]:
  "task_at s p = Some t \<Longrightarrow> upd_task p f s = Inr ((), s\<lparr>task_at := (task_at s)(p \<mapsto> f t)\<rparr>)"
  by (simp add: upd_task_def kernel_simps)

section \<open>Memory segments\<close>

definition segment_used :: "u8 \<Rightarrow> nat \<Rightarrow> bool" where
  "segment_used bits i \<longleftrightarrow> bits AND segment_bit i \<noteq> 0"

definition segment_of :: "nat \<Rightarrow> u16" where
  "segment_of i = 0x1050 + 0x1000 * of_nat i"

lemma less_8_cases: "i < 8 \<Longrightarrow> i \<in> {0, 1, 2, 3, 4, 5, 6, 7 :: nat}"
  by auto

lemma bit_segment_bit: "i < 8 \<Longrightarrow> bit (segment_bit i) k \<longleftrightarrow> k = 7 - i"
  by (drule less_8_cases) (auto simp: segment_bit_def bit_simps bit_numeral_rec split: nat.splits)

lemma segment_used_bit:
  assumes "i < 8"
  shows "segment_used bits i \<longleftrightarrow> bit bits (7 - i)"
proof -
  have "bits AND segment_bit i = 0 \<longleftrightarrow> (\<forall>k. \<not> bit (bits AND segment_bit i) k)"
    by (metis bit_word_eqI bit_0_eq bot_apply bot_bool_def)
  then show ?thesis using assms by (auto simp: segment_used_def bit_and_iff bit_segment_bit)
qed

lemma segment_used_or:
  assumes "i < 8" and "j < 8"
  shows "segment_used (bits OR segment_bit i) j \<longleftrightarrow> segment_used bits j \<or> j = i"
  using assms by (auto simp: segment_used_bit bit_or_iff bit_segment_bit)

lemma segment_used_free:
  assumes "i < 8" and "j < 8"
  shows "segment_used (bits AND NOT (segment_bit i)) j \<longleftrightarrow> segment_used bits j \<and> j \<noteq> i"
  using assms by (auto simp: segment_used_bit bit_and_iff bit_not_iff bit_segment_bit)

lemma allocate_from_spec:
  "allocate_from n i (segment_of i) bits =
     (case find (\<lambda>k. \<not> segment_used bits k) [i..<i + n] of
        None \<Rightarrow> (0, bits) | Some k \<Rightarrow> (segment_of k, bits OR segment_bit k))"
proof (induction n arbitrary: i)
  case 0
  then show ?case by simp
next
  case (Suc n)
  have "segment_of i + 0x1000 = segment_of (Suc i)"
    by (simp add: segment_of_def algebra_simps)
  then show ?case
    using Suc [of "Suc i"] by (simp add: upt_conv_Cons segment_used_def del: upt_Suc)
qed

lemma segment_index: "i < 8 \<Longrightarrow> unat ((segment_of i - 0x1050) div 0x1000) = i"
  by (drule less_8_cases) (auto simp: segment_of_def unat_div16)

lemma allocate_segment_eq:
  "allocate_segment s =
     (case find (\<lambda>k. \<not> segment_used (segment_bitmap s) k) [0..<8] of
        None \<Rightarrow> Inr (0, s)
      | Some k \<Rightarrow> Inr (segment_of k, s\<lparr>segment_bitmap := segment_bitmap s OR segment_bit k\<rparr>))"
  using allocate_from_spec [of 8 0 "segment_bitmap s"]
  by (auto simp: allocate_segment_def segment_of_def simp del: upt_Suc split: option.splits)

lemma find_SomeE:
  "find P [0..<n] = Some k \<Longrightarrow> k < n \<and> P k \<and> (\<forall>j < k. \<not> P j)"
  by (auto simp: find_Some_iff)

text \<open>
  \<open>allocate_segment\<close> hands out the first unused one of the eight task segments and marks that
  one only; when all are in use it returns 0 and changes nothing.
\<close>

theorem allocate_segment_first:
  "\<exists>segment s'. allocate_segment s = Inr (segment, s') \<and>
     (if \<exists>i < 8. \<not> segment_used (segment_bitmap s) i
      then \<exists>i < 8. \<not> segment_used (segment_bitmap s) i
        \<and> (\<forall>j < i. segment_used (segment_bitmap s) j) \<and> segment = segment_of i
        \<and> (\<forall>j < 8. segment_used (segment_bitmap s') j \<longleftrightarrow> segment_used (segment_bitmap s) j \<or> j = i)
      else segment = 0 \<and> s' = s)"
proof (cases "find (\<lambda>k. \<not> segment_used (segment_bitmap s) k) [0..<8]")
  case None
  then have full: "\<not> (\<exists>i < 8. \<not> segment_used (segment_bitmap s) i)"
    by (auto simp: find_None_iff)
  show ?thesis by (simp only: if_not_P [OF full]) (simp add: allocate_segment_eq None)
next
  case (Some i)
  note i = find_SomeE [OF Some]
  then show ?thesis
    using Some by (auto simp: allocate_segment_eq segment_used_or intro!: exI [of _ i])
qed

text \<open>
  Giving a segment back right after it was allocated restores the table of segments.\<close>

theorem free_allocate_segment:
  assumes "allocate_segment s = Inr (segment, s')" and "segment \<noteq> 0"
  shows "free_segment segment s' = s"
proof -
  obtain i where i: "find (\<lambda>k. \<not> segment_used (segment_bitmap s) k) [0..<8] = Some i"
    and s': "segment = segment_of i" "s' = s\<lparr>segment_bitmap := segment_bitmap s OR segment_bit i\<rparr>"
    using assms by (auto simp: allocate_segment_eq split: option.splits)
  have "i < 8" "\<not> bit (segment_bitmap s) (7 - i)"
    using find_SomeE [OF i] segment_used_bit by auto
  then have "(segment_bitmap s OR segment_bit i) AND NOT (segment_bit i) = segment_bitmap s"
    by (intro bit_word_eqI) (auto simp: bit_simps bit_segment_bit)
  then show ?thesis by (simp add: free_segment_def s' segment_index \<open>i < 8\<close>)
qed

section \<open>The scheduler\<close>

text \<open>\<open>chain m p ps\<close>: the task list that starts at \<open>p\<close> visits exactly \<open>ps\<close>.\<close>

fun chain :: "(ptr \<Rightarrow> task option) \<Rightarrow> ptr \<Rightarrow> ptr list \<Rightarrow> bool" where
  "chain m p [] = (p = 0)"
| "chain m p (q # qs) = (p = q \<and> q \<noteq> 0 \<and> (case m q of None \<Rightarrow> False | Some t \<Rightarrow> chain m (t_next t) qs))"

definition in_state :: "'z tasks_scheme \<Rightarrow> task_state \<Rightarrow> ptr \<Rightarrow> bool" where
  "in_state s st p \<longleftrightarrow> (case task_at s p of None \<Rightarrow> False | Some t \<Rightarrow> t_state t = st)"

lemma chain_append:
  "chain m p (xs @ q # ys) \<Longrightarrow> \<exists>t. m q = Some t \<and> q \<noteq> 0 \<and> chain m (t_next t) ys"
  by (induction xs arbitrary: p) (auto split: option.splits)

lemma chain_mapped: "chain m p ps \<Longrightarrow> q \<in> set ps \<Longrightarrow> \<exists>t. m q = Some t"
  using chain_append [of m p _ q] by (auto simp: in_set_conv_decomp)

lemma chain_head: "chain m p (q # qs) \<Longrightarrow> p = q"
  by simp

lemma chain_next_nonzero: "chain m p (q # qs) \<Longrightarrow> p \<noteq> 0"
  by simp

text \<open>
  One step of the search, to the next task of the list: before the list has ended twice there
  is no waiting.
\<close>

lemma schedule_pick_step:
  assumes "task_at s cur = Some t"
    and "new = (if t_next t = 0 then task_list s else t_next t)"
    and "looped' = (if t_next t = 0 then looped + 1 else looped)"
    and "task_at s new = Some t'" and "sint looped' < 2"
  shows "schedule_pick hlt cur seen looped n s =
     (if t_state t' = RUNNING then Some (Inr (new, s))
      else schedule_pick hlt new (seen \<or> t_state t' \<noteq> EXITED) looped' n s)"
  using assms by (subst schedule_pick.simps) (auto simp: Let_def)

lemma schedule_pick_found:
  assumes "task_at s cur = Some t" and "chain (task_at s) (t_next t) (xs @ r # ys)"
    and "\<forall>q \<in> set xs. \<not> in_state s RUNNING q" and "in_state s RUNNING r" and "sint looped < 2"
  shows "schedule_pick hlt cur seen looped n s = Some (Inr (r, s))"
  using assms
proof (induction xs arbitrary: cur t seen)
  case Nil
  then obtain t' where "task_at s r = Some t'" "t_state t' = RUNNING" "t_next t = r" "r \<noteq> 0"
    by (auto simp: in_state_def split: option.splits)
  then show ?case using schedule_pick_step [OF Nil.prems(1) refl refl] Nil.prems by simp
next
  case (Cons q xs)
  then obtain t' where t': "task_at s q = Some t'" "t_next t = q" "q \<noteq> 0" "t_state t' \<noteq> RUNNING"
    "chain (task_at s) (t_next t') (xs @ r # ys)"
    by (auto simp: in_state_def split: option.splits)
  then have "schedule_pick hlt cur seen looped n s =
      schedule_pick hlt q (seen \<or> t_state t' \<noteq> EXITED) looped n s"
    using schedule_pick_step [OF Cons.prems(1) refl refl] Cons.prems by simp
  also have "\<dots> = Some (Inr (r, s))"
    using Cons t' by (intro Cons.IH) auto
  finally show ?case .
qed

lemma schedule_pick_end:
  assumes "task_at s cur = Some t" and "chain (task_at s) (t_next t) xs"
    and "\<forall>q \<in> set xs. \<not> in_state s RUNNING q" and "sint looped < 2"
  shows "\<exists>seen' cur' t'. task_at s cur' = Some t' \<and> t_next t' = 0
    \<and> (seen' \<longleftrightarrow> seen \<or> (\<exists>q \<in> set xs. \<not> in_state s EXITED q))
    \<and> schedule_pick hlt cur seen looped n s = schedule_pick hlt cur' seen' looped n s"
  using assms
proof (induction xs arbitrary: cur t seen)
  case Nil
  then show ?case by (intro exI [of _ seen]) auto
next
  case (Cons q xs)
  then obtain t' where t': "task_at s q = Some t'" "t_next t = q" "q \<noteq> 0" "t_state t' \<noteq> RUNNING"
    "chain (task_at s) (t_next t') xs"
    by (auto simp: in_state_def split: option.splits)
  let ?seen = "seen \<or> t_state t' \<noteq> EXITED"
  have "schedule_pick hlt cur seen looped n s = schedule_pick hlt q ?seen looped n s"
    using schedule_pick_step [OF Cons.prems(1) refl refl] Cons.prems t' by simp
  moreover have "?seen \<or> (\<exists>q \<in> set xs. \<not> in_state s EXITED q)
      \<longleftrightarrow> seen \<or> (\<exists>q \<in> set (q # xs). \<not> in_state s EXITED q)"
    using t' by (auto simp: in_state_def)
  ultimately show ?case
    using Cons.IH [of q t' ?seen] t' Cons.prems by simp
qed

lemma sint_1_16 [simp]: "sint (1 :: u16) = 1" "sint (2 :: u16) = 2"
  by simp_all

text \<open>The order in which the scheduler tries the tasks: from the successor of the current one.\<close>

lemma schedule_pick_order:
  assumes "chain (task_at s) (task_list s) (xs @ p # ys)"
    and "find (in_state s RUNNING) (ys @ xs @ [p]) = Some r"
  shows "schedule_pick hlt p seen 0 n s = Some (Inr (r, s))"
proof -
  obtain t where t: "task_at s p = Some t" "chain (task_at s) (t_next t) ys"
    using chain_append [OF assms(1)] by auto
  obtain i where i: "i < length (ys @ xs @ [p])" "r = (ys @ xs @ [p]) ! i" "in_state s RUNNING r"
    "\<forall>j < i. \<not> in_state s RUNNING ((ys @ xs @ [p]) ! j)"
    using assms(2) by (auto simp: find_Some_iff)
  have run: "\<forall>q \<in> set (take i (ys @ xs @ [p])). \<not> in_state s RUNNING q"
    using i by (auto simp: in_set_conv_nth simp del: take_append)
  show ?thesis
  proof (cases "i < length ys")
    case True
    then have "chain (task_at s) (t_next t) (take i ys @ r # drop (Suc i) ys)"
      using t(2) i(2) by (simp add: nth_append id_take_nth_drop [symmetric])
    then show ?thesis
      using run True i by (intro schedule_pick_found [OF t(1)]) auto
  next
    case False
    then have none: "\<forall>q \<in> set ys. \<not> in_state s RUNNING q" using run by auto
    obtain seen' cur' t' where c: "task_at s cur' = Some t'" "t_next t' = 0"
      "schedule_pick hlt p seen 0 n s = schedule_pick hlt cur' seen' 0 n s"
      using schedule_pick_end [OF t none, of 0 seen hlt n] by auto
    let ?zs = "xs @ p # ys" and ?j = "i - length ys"
    have j: "?j < length ?zs" "r = ?zs ! ?j"
      using False i by (auto simp: nth_append nth_Cons' split: if_splits)
    have before: "\<forall>q \<in> set (take ?j ?zs). \<not> in_state s RUNNING q"
      using run False i(1) by (auto simp: take_Cons' split: if_splits)
    have split: "chain (task_at s) (task_list s) (take ?j ?zs @ r # drop (Suc ?j) ?zs)"
      using assms(1) j by (metis id_take_nth_drop)
    show ?thesis
    proof (cases "take ?j ?zs")
      case Nil
      then obtain t'' where "task_at s r = Some t''" "t_state t'' = RUNNING" "task_list s = r"
        using split i(3) by (auto simp: in_state_def split: option.splits)
      then show ?thesis using c schedule_pick_step [OF c(1) refl refl] by simp
    next
      case (Cons q qs)
      then obtain t'' where q: "task_at s q = Some t''" "task_list s = q" "t_state t'' \<noteq> RUNNING"
        "chain (task_at s) (t_next t'') (qs @ r # drop (Suc ?j) ?zs)"
        using split before by (auto simp: in_state_def split: option.splits)
      then have "schedule_pick hlt cur' seen' 0 n s =
          schedule_pick hlt q (seen' \<or> t_state t'' \<noteq> EXITED) 1 n s"
        using schedule_pick_step [OF c(1) refl refl] c by simp
      also have "\<dots> = Some (Inr (r, s))"
        using before [unfolded Cons] i(3) by (intro schedule_pick_found [OF q(1,4)]) auto
      finally show ?thesis using c by simp
    qed
  qed
qed

text \<open>
  C5: \<open>task_schedule\<close> is round robin: it switches to the first task that is \<open>RUNNING\<close> in the
  order of the task list, starting behind the current task and wrapping around, and it keeps
  the current task if that is the only one.  It never waits when there is such a task.
\<close>

theorem task_schedule_round_robin:
  assumes "chain (task_at s) (task_list s) (xs @ p # ys)" and "current_task s = p"
    and "find (in_state s RUNNING) (ys @ xs @ [p]) = Some r"
  shows "task_schedule hlt s = (if r = p then Inr ((), s) else switch_task p r s)"
  using schedule_pick_order [OF assms(1,3)] assms(2) by (simp add: task_schedule_def)

text \<open>
  When every task has exited, \<open>task_schedule\<close> panics after it has seen the list twice, and
  does not wait.
\<close>

theorem task_schedule_all_exited:
  assumes "chain (task_at s) (task_list s) (xs @ p # ys)" and "current_task s = p"
    and "\<forall>q \<in> set (xs @ p # ys). in_state s EXITED q"
  shows "task_schedule hlt s = Inl (Panic ''No tasks to run.'')"
proof -
  let ?zs = "xs @ p # ys"
  have idle: "\<forall>q \<in> set ?zs. \<not> in_state s RUNNING q"
    using assms(3) by (auto simp: in_state_def split: option.splits)
  obtain t where t: "task_at s p = Some t" "chain (task_at s) (t_next t) ys"
    using chain_append [OF assms(1)] by auto
  obtain c t' where c: "task_at s c = Some t'" "t_next t' = 0"
    "schedule_pick hlt p False 0 0 s = schedule_pick hlt c False 0 0 s"
    using schedule_pick_end [OF t, of 0 False hlt 0] idle assms(3) by auto
  obtain q qs where zs: "?zs = q # qs" by (cases ?zs) auto
  obtain u where u: "task_at s q = Some u" "task_list s = q" "chain (task_at s) (t_next u) qs"
    "t_state u = EXITED"
    using assms(1,3) unfolding zs by (auto simp: in_state_def split: option.splits)
  have "\<forall>q' \<in> set qs. \<not> in_state s RUNNING q' \<and> in_state s EXITED q'"
    using idle assms(3) unfolding zs by auto
  then obtain d t'' where d: "task_at s d = Some t''" "t_next t'' = 0"
    "schedule_pick hlt q False 1 0 s = schedule_pick hlt d False 1 0 s"
    using schedule_pick_end [OF u(1,3), of 1 False hlt 0] by auto
  have "schedule_pick hlt p False 0 0 s = schedule_pick hlt q False 1 0 s"
    using c u schedule_pick_step [OF c(1) refl refl] by simp
  moreover have "schedule_pick hlt d False 1 0 s = Some (Inl (Panic ''No tasks to run.''))"
    using d u by (subst schedule_pick.simps) simp
  ultimately have "schedule_pick hlt p False 0 0 s = Some (Inl (Panic ''No tasks to run.''))"
    using d(3) by (simp only:)
  then show ?thesis using assms(2) by (simp add: task_schedule_def)
qed

text \<open>With nothing to run and no interrupt to change that, the search goes on for ever.\<close>

lemma schedule_pick_stuck:
  assumes "schedule_pick hlt cur seen looped n s = Some y"
  shows "seen \<longrightarrow> cur \<in> P \<longrightarrow> task_list s \<in> P \<longrightarrow> (\<forall>n. hlt n s = s) \<longrightarrow>
    (\<forall>q \<in> P. \<exists>t. task_at s q = Some t \<and> t_state t \<noteq> RUNNING \<and> (t_next t = 0 \<or> t_next t \<in> P)) \<longrightarrow>
    False"
proof (rule schedule_pick.raw_induct [OF _ assms], intro impI)
  fix sp hlt cur seen looped n and s :: "'a tasks_scheme" and y
  let ?P = "\<lambda>s. \<forall>q \<in> P. \<exists>t. task_at s q = Some t \<and> t_state t \<noteq> RUNNING \<and> (t_next t = 0 \<or> t_next t \<in> P)"
  assume IH: "\<And>hlt cur seen looped n s y. sp hlt cur seen looped n s = Some y \<Longrightarrow>
      seen \<longrightarrow> cur \<in> P \<longrightarrow> task_list s \<in> P \<longrightarrow> (\<forall>n. hlt n s = s) \<longrightarrow> ?P s \<longrightarrow> False"
    and run: "(case task_at s cur of None \<Rightarrow> Some (Inl (BadPtr cur))
      | Some t \<Rightarrow> let wrap = t_next t = 0; new = if wrap then task_list s else t_next t;
            looped = if wrap then looped + 1 else looped
          in case task_at s new of None \<Rightarrow> Some (Inl (BadPtr new))
             | Some t' \<Rightarrow> let seen = seen \<or> t_state t' \<noteq> EXITED
                 in if t_state t' = RUNNING then Some (Inr (new, s))
                    else if seen \<and> 2 < sint looped then sp hlt new seen looped (Suc n) (hlt n s)
                    else if seen \<or> sint looped < 2 then sp hlt new seen looped n s
                    else Some (Inl (Panic ''No tasks to run.''))) = Some y"
    and seen and P: "cur \<in> P" "task_list s \<in> P" "\<forall>n. hlt n s = s" "?P s"
  obtain t where t: "task_at s cur = Some t" "t_next t = 0 \<or> t_next t \<in> P" using P by blast
  let ?new = "if t_next t = 0 then task_list s else t_next t"
  let ?looped = "if t_next t = 0 then looped + 1 else looped"
  have new: "?new \<in> P" using t P by auto
  then obtain t' where t': "task_at s ?new = Some t'" "t_state t' \<noteq> RUNNING" using P(4) by blast
  have "\<exists>n'. sp hlt ?new True ?looped n' s = Some y"
    using run t(1) t' \<open>seen\<close> P(3) by (auto simp: Let_def split: if_splits)
  then show False using IH new P by blast
qed

text \<open>The scheduler never switches to a task that is not \<open>RUNNING\<close>.\<close>

lemma schedule_pick_running:
  assumes "schedule_pick hlt cur seen looped n s = Some y"
  shows "case y of Inl e \<Rightarrow> True | Inr (r, s') \<Rightarrow> in_state s' RUNNING r"
  by (rule schedule_pick.raw_induct [OF _ assms])
    (auto simp: Let_def in_state_def split: option.splits if_splits)

section \<open>Sleeping and waking\<close>

text \<open>
  C6: no wakeup is lost.  A wakeup that comes before the task sleeps turns the sleep into a
  plain call of the scheduler from the unchanged state, and a wakeup that comes after it undoes
  it: the state is the one before the sleep, with the task \<open>RUNNING\<close>.
\<close>

theorem wakeup_not_lost:
  assumes "task_at s p = Some t" and "t_state t = RUNNING"
  shows "thenK (task_wakeup p) (task_sleep hlt p) s = task_schedule hlt s
    \<and> (\<exists>asleep. task_sleep hlt p s = task_schedule hlt asleep
        \<and> in_state asleep SLEEPING p \<and> task_wakeup p asleep = Inr ((), s))"
proof
  have "t\<lparr>t_state := RUNNING\<rparr> = t" using assms(2) by (cases t) simp
  then have same: "s\<lparr>task_at := (task_at s)(p \<mapsto> t\<lparr>t_state := RUNNING\<rparr>)\<rparr> = s"
    using assms(1) by (simp add: fun_upd_idem)
  let ?upd = "\<lambda>st. s\<lparr>task_at := (task_at s)(p \<mapsto> t\<lparr>t_state := st\<rparr>)\<rparr>"
  have "task_wakeup p s = Inr ((), ?upd WAKEN_BEFORE_SLEEP)"
    using assms by (simp add: task_wakeup_def kernel_simps)
  moreover have "task_sleep hlt p (?upd WAKEN_BEFORE_SLEEP) = task_schedule hlt (?upd RUNNING)"
    by (simp add: task_sleep_def kernel_simps)
  ultimately show "thenK (task_wakeup p) (task_sleep hlt p) s = task_schedule hlt s"
    by (simp only: same thenK_Inr)
  have "task_sleep hlt p s = task_schedule hlt (?upd SLEEPING)"
    using assms by (simp add: task_sleep_def kernel_simps)
  moreover have "in_state (?upd SLEEPING) SLEEPING p" by (simp add: in_state_def)
  moreover have "task_wakeup p (?upd SLEEPING) = Inr ((), ?upd RUNNING)"
    by (simp add: task_wakeup_def kernel_simps)
  ultimately show "\<exists>asleep. task_sleep hlt p s = task_schedule hlt asleep
      \<and> in_state asleep SLEEPING p \<and> task_wakeup p asleep = Inr ((), s)"
    unfolding same by blast
qed

text \<open>
  The four states as an event-driven machine: \<open>Wake\<close> is a successful \<open>task_wakeup\<close>, \<open>Sleep\<close> the
  state change of \<open>task_sleep\<close>.
\<close>

datatype task_event = Sleep | Wake

inductive task_step :: "task_state \<Rightarrow> task_event \<Rightarrow> task_state \<Rightarrow> bool" where
  wake_running: "task_step RUNNING Wake WAKEN_BEFORE_SLEEP"
| wake_sleeping: "task_step SLEEPING Wake RUNNING"
| sleep_running: "task_step RUNNING Sleep SLEEPING"
| sleep_waken: "task_step WAKEN_BEFORE_SLEEP Sleep RUNNING"
| sleep_exited: "task_step EXITED Sleep EXITED"

inductive_cases task_step_WakeE: "task_step st Wake st'"
inductive_simps task_step_simps: "task_step st ev st'"

lemma task_wakeup_step:
  assumes "task_at s p = Some t"
  shows "task_wakeup p s = Inr ((), s') \<longleftrightarrow>
    (\<exists>st. task_step (t_state t) Wake st \<and> s' = s\<lparr>task_at := (task_at s)(p \<mapsto> t\<lparr>t_state := st\<rparr>)\<rparr>)"
  using assms
  by (cases "t_state t") (auto simp: task_wakeup_def kernel_simps task_step_simps)

lemma task_sleep_step:
  assumes "task_at s p = Some t" and "task_step (t_state t) Sleep st"
  shows "task_sleep hlt p s = task_schedule hlt (s\<lparr>task_at := (task_at s)(p \<mapsto> t\<lparr>t_state := st\<rparr>)\<rparr>)"
  using assms(2)
proof cases
  case sleep_exited
  then have "t\<lparr>t_state := EXITED\<rparr> = t" by (cases t) simp
  then show ?thesis
    using assms(1) sleep_exited by (simp add: task_sleep_def kernel_simps fun_upd_idem)
qed (use assms(1) in \<open>simp_all add: task_sleep_def kernel_simps\<close>)

text \<open>
  Along any run of events the wakeups and the sleeps of a task that has not exited balance up to
  one: this is the counting argument behind the panics of \<open>task_wakeup\<close> and \<open>task_sleep\<close>.
\<close>

inductive task_run :: "task_state \<Rightarrow> task_event list \<Rightarrow> task_state \<Rightarrow> bool" where
  run_Nil: "task_run st [] st"
| run_Cons: "task_step st ev st' \<Longrightarrow> task_run st' evs st'' \<Longrightarrow> task_run st (ev # evs) st''"

definition credit :: "task_state \<Rightarrow> int" where
  "credit st = (case st of SLEEPING \<Rightarrow> -1 | WAKEN_BEFORE_SLEEP \<Rightarrow> 1 | _ \<Rightarrow> 0)"

text \<open>
  In every run of events from \<open>RUNNING\<close> the number of wakeups minus the number of sleeps is
  -1, 0 or 1 and determines the state, so that a task is asleep exactly when it has slept once
  more than it was woken.
\<close>

theorem task_run_balance:
  assumes "task_run RUNNING evs st"
  shows "int (count_list evs Wake) - int (count_list evs Sleep) = credit st \<and> st \<noteq> EXITED"
proof -
  have "task_run st0 evs st \<Longrightarrow> st0 \<noteq> EXITED \<Longrightarrow>
      credit st0 + int (count_list evs Wake) - int (count_list evs Sleep) = credit st \<and> st \<noteq> EXITED"
    for st0
    by (induction rule: task_run.induct) (auto simp: task_step_simps credit_def)
  from this [OF assms] show ?thesis by (simp add: credit_def)
qed

theorem task_run_balance_witness:
  "int (count_list [Wake, Sleep, Sleep] Wake) - int (count_list [Wake, Sleep, Sleep] Sleep) = credit SLEEPING"
proof -
  have "task_run RUNNING [Wake, Sleep, Sleep] SLEEPING"
    by (auto intro!: task_run.intros task_step.intros)
  then show ?thesis using task_run_balance by blast
qed

section \<open>The context switch\<close>

lemma save_regs_fields [simp]:
  "cpu_sp (save_regs s) = cpu_sp s - 8"
  "task_at (save_regs s) = task_at s"
  "current_task (save_regs s) = current_task s"
  by (simp_all add: save_regs_def pushw_def pokew_def Let_def)

lemma restore_regs_eq:
  "restore_regs s = s\<lparr>cpu_di := peekw 0x0050 (cpu_sp s) s, cpu_si := peekw 0x0050 (cpu_sp s + 2) s,
     cpu_ax := peekw 0x0050 (cpu_sp s + 4) s, cpu_bp := peekw 0x0050 (cpu_sp s + 6) s,
     cpu_sp := cpu_sp s + 8\<rparr>"
  by (simp add: restore_regs_def dropw_def topw_def peekw_def Let_def add.assoc)

lemma linear_off_eq: "linear seg (sp + a) = linear seg (sp + b) \<longleftrightarrow> a = b"
  by (simp add: linear_inject)

lemma save_regs_mem:
  "mem (save_regs s) = (let sp = cpu_sp s in
     put_word (sp - 8) (cpu_di s) (put_word (sp - 6) (cpu_si s)
       (put_word (sp - 4) (cpu_ax s) (put_word (sp - 2) (cpu_bp s) (mem s)))))"
  by (simp add: save_regs_def pushw_def pokew_def put_word_def Let_def)

lemma save_regs_frame:
  "get_word (cpu_sp s - 8) (mem (save_regs s)) = cpu_di s"
  "get_word (cpu_sp s - 6) (mem (save_regs s)) = cpu_si s"
  "get_word (cpu_sp s - 4) (mem (save_regs s)) = cpu_ax s"
  "get_word (cpu_sp s - 2) (mem (save_regs s)) = cpu_bp s"
  by (simp_all add: save_regs_mem Let_def get_put_word_other)

lemma save_regs_other:
  assumes "off \<notin> {cpu_sp s - 8, cpu_sp s - 7, cpu_sp s - 6, cpu_sp s - 5, cpu_sp s - 4, cpu_sp s - 3,
    cpu_sp s - 2, cpu_sp s - 1}"
  shows "mem (save_regs s) (linear 0x0050 off) = mem s (linear 0x0050 off)"
proof -
  have "cpu_sp s - 8 + 1 = cpu_sp s - 7" "cpu_sp s - 6 + 1 = cpu_sp s - 5"
    "cpu_sp s - 4 + 1 = cpu_sp s - 3" "cpu_sp s - 2 + 1 = cpu_sp s - 1" by simp_all
  then show ?thesis using assms by (simp add: save_regs_mem put_word_def Let_def linear_inject)
qed

lemma switch_task_eq:
  assumes "task_at s p = Some a" and "task_at s q = Some b"
  shows "switch_task p q s = Inr ((), restore_regs ((save_regs s)\<lparr>current_task := q,
    cpu_sp := t_kernel_sp b, task_at := (task_at s)(p \<mapsto> a\<lparr>t_kernel_sp := cpu_sp s - 8\<rparr>)\<rparr>))"
  using assms by (simp add: switch_task_def kernel_simps)

lemma switch_task_mapped:
  "switch_task p q s = Inr ((), s') \<Longrightarrow> \<exists>a b. task_at s p = Some a \<and> task_at s q = Some b"
  by (auto simp: switch_task_def bindK_eq_Inr thenK_eq_Inr modifyK_def getK_def get_task_eq_Inr
      upd_task_def)

text \<open>The bytes in which \<open>switch_task\<close> saves the registers of a task whose stack pointer is \<open>sp\<close>.\<close>

definition frame :: "u16 \<Rightarrow> u16 set" where
  "frame sp = {sp - 8, sp - 7, sp - 6, sp - 5, sp - 4, sp - 3, sp - 2, sp - 1}"

lemma get_word_frame:
  assumes "\<And>off. off \<in> frame sp \<Longrightarrow> m (linear 0x0050 off) = m' (linear 0x0050 off)"
    and "k \<in> {8, 6, 4, 2}"
  shows "get_word (sp - k) m = get_word (sp - k) m'"
proof -
  have "sp - 8 + 1 = sp - 7" "sp - 6 + 1 = sp - 5" "sp - 4 + 1 = sp - 3" "sp - 2 + 1 = sp - 1"
    by simp_all
  then show ?thesis
    using assms(2) by (auto simp: get_word_def frame_def assms(1))
qed

text \<open>
  C7: a task that is switched away from and later switched back to finds its registers and its
  stack pointer as they were, provided that in between nobody wrote into the eight bytes of its
  saved frame or into its task structure.
\<close>

theorem switch_task_roundtrip:
  assumes "switch_task p q s = Inr ((), s1)" and "switch_task q p s2 = Inr ((), s3)"
    and "map_option t_kernel_sp (task_at s2 p) = map_option t_kernel_sp (task_at s1 p)" and "p \<noteq> q"
    and "\<forall>off \<in> frame (cpu_sp s). mem s2 (linear 0x0050 off) = mem s1 (linear 0x0050 off)"
    and "frame (cpu_sp s) \<inter> frame (cpu_sp s2) = {}"
  shows "current_task s3 = p \<and> cpu_sp s3 = cpu_sp s \<and> cpu_bp s3 = cpu_bp s \<and> cpu_ax s3 = cpu_ax s
    \<and> cpu_si s3 = cpu_si s \<and> cpu_di s3 = cpu_di s"
proof -
  obtain a b where ab: "task_at s p = Some a" "task_at s q = Some b"
    using switch_task_mapped [OF assms(1)] by blast
  obtain a' b' where ab': "task_at s2 p = Some a'" "task_at s2 q = Some b'"
    using switch_task_mapped [OF assms(2)] by blast
  have s1: "task_at s1 p = Some (a\<lparr>t_kernel_sp := cpu_sp s - 8\<rparr>)" "mem s1 = mem (save_regs s)"
    using assms(1) switch_task_eq [OF ab] by (auto simp: restore_regs_eq)
  then have sp: "t_kernel_sp a' = cpu_sp s - 8" using assms(3) ab' by simp
  have "mem (save_regs s2) (linear 0x0050 off) = mem (save_regs s) (linear 0x0050 off)"
    if "off \<in> frame (cpu_sp s)" for off
    using that assms(5,6) s1(2) by (subst save_regs_other) (auto simp: frame_def [of "cpu_sp s2"])
  note kept = get_word_frame [where m = "mem (save_regs s2)" and m' = "mem (save_regs s)"
      and sp = "cpu_sp s", OF this]
  have "get_word (cpu_sp s - 8) (mem (save_regs s2)) = cpu_di s"
    "get_word (cpu_sp s - 6) (mem (save_regs s2)) = cpu_si s"
    "get_word (cpu_sp s - 4) (mem (save_regs s2)) = cpu_ax s"
    "get_word (cpu_sp s - 2) (mem (save_regs s2)) = cpu_bp s"
    by (simp_all add: kept save_regs_frame)
  moreover have "s3 = restore_regs ((save_regs s2)\<lparr>current_task := p, cpu_sp := cpu_sp s - 8,
      task_at := (task_at s2)(q \<mapsto> b'\<lparr>t_kernel_sp := cpu_sp s2 - 8\<rparr>)\<rparr>)"
    using assms(2) switch_task_eq [OF ab'(2,1)] sp by simp
  ultimately show ?thesis by (simp add: restore_regs_eq peekw_get_word)
qed

definition idle_task :: "u16 \<Rightarrow> ptr \<Rightarrow> task" where
  "idle_task sp nxt = \<lparr>t_user_sp = 0xffea, t_stack_top = sp, t_segment = 0x1050, t_state = RUNNING,
     t_kernel_sp = sp, t_stack = 0x2000, t_handles = 0, t_handle_count = 0, t_waiting_for_exit = 0,
     t_next = nxt\<rparr>"

definition two_tasks :: tasks where
  "two_tasks = \<lparr>mem = \<lambda>_. 0, port_in = \<lambda>_ _. 0, port_reads = 0, port_out = [], used_bytes = 0,
     total_bytes = 0, total_blocks = 13, pool_start = 0x1000, zones = initial_zones,
     bitmap = replicate BITMAP_SIZE 0, task_list = 0x100, current_task = 0x100, segment_bitmap = 0xc0,
     task_at = [0x100 \<mapsto> idle_task 0x3000 0x200, 0x200 \<mapsto> idle_task 0x4000 0],
     cpu_sp = 0x3000, cpu_bp = 1, cpu_ax = 2, cpu_si = 3, cpu_di = 4\<rparr>"

theorem switch_task_roundtrip_witness:
  "\<exists>s1 s3. switch_task 0x100 0x200 two_tasks = Inr ((), s1) \<and> switch_task 0x200 0x100 s1 = Inr ((), s3)
    \<and> current_task s3 = 0x100 \<and> cpu_sp s3 = 0x3000 \<and> cpu_bp s3 = 1 \<and> cpu_di s3 = 4"
proof -
  have m: "task_at two_tasks 0x100 = Some (idle_task 0x3000 0x200)"
    "task_at two_tasks 0x200 = Some (idle_task 0x4000 0)"
    and sp: "cpu_sp two_tasks = 0x3000"
    by (simp_all add: two_tasks_def)
  obtain s1 where s1: "switch_task 0x100 0x200 two_tasks = Inr ((), s1)"
    "task_at s1 0x100 = Some ((idle_task 0x3000 0x200)\<lparr>t_kernel_sp := 0x2ff8\<rparr>)"
    "task_at s1 0x200 = Some (idle_task 0x4000 0)" "cpu_sp s1 = 0x4008"
    using switch_task_eq [OF m] m sp by (simp add: restore_regs_eq idle_task_def)
  obtain s3 where s3: "switch_task 0x200 0x100 s1 = Inr ((), s3)"
    using switch_task_eq [OF s1(3,2)] by blast
  have "frame (cpu_sp two_tasks) \<inter> frame (cpu_sp s1) = {}"
    by (simp add: frame_def sp s1(4))
  from switch_task_roundtrip [OF s1(1) s3 refl _ _ this]
  show ?thesis using s1 s3 by (auto simp: two_tasks_def)
qed

theorem wakeup_not_lost_witness:
  "thenK (task_wakeup 0x100) (task_sleep (\<lambda>_ s. s) 0x100) two_tasks = task_schedule (\<lambda>_ s. s) two_tasks"
  using wakeup_not_lost [of two_tasks "0x100" "idle_task 0x3000 0x200" "\<lambda>_ s. s"]
  by (simp add: two_tasks_def idle_task_def)

theorem task_schedule_round_robin_witness:
  "task_schedule (\<lambda>_ s. s) two_tasks = switch_task 0x100 0x200 two_tasks"
proof -
  have "chain (task_at two_tasks) (task_list two_tasks) ([] @ 0x100 # [0x200])"
    "current_task two_tasks = 0x100"
    "find (in_state two_tasks RUNNING) ([0x200] @ [] @ [0x100]) = Some 0x200"
    by (simp_all add: two_tasks_def idle_task_def in_state_def)
  from task_schedule_round_robin [OF this, of "\<lambda>_ s. s"] show ?thesis by simp
qed

theorem task_schedule_all_exited_witness:
  "task_schedule (\<lambda>_ s. s) (two_tasks\<lparr>task_at := [0x100 \<mapsto> (idle_task 0x3000 0)\<lparr>t_state := EXITED\<rparr>]\<rparr>)
    = Inl (Panic ''No tasks to run.'')"
  by (rule task_schedule_all_exited [of _ "[]" "0x100" "[]"])
    (simp_all add: two_tasks_def idle_task_def in_state_def)

theorem free_allocate_segment_witness:
  "\<exists>s'. allocate_segment two_tasks = Inr (0x3050, s') \<and> free_segment 0x3050 s' = two_tasks"
proof -
  have "find (\<lambda>k. \<not> segment_used 0xc0 k) [0..<8] = Some 2"
    by (simp add: upt_conv_Cons segment_used_def segment_bit_def)
  then have "allocate_segment two_tasks = Inr (0x3050, two_tasks\<lparr>segment_bitmap := 0xe0\<rparr>)"
    by (simp add: allocate_segment_eq two_tasks_def segment_of_def segment_bit_def)
  from free_allocate_segment [OF this] this show ?thesis by simp
qed

end
