(* ===== verification/Mutex.thy ===== *)
theory Mutex
  imports Task
begin

text \<open>
  The lock of \<^verbatim>\<open>kernel/mutex.c\<close>: the test-and-set under \<open>cli\<close>, the loop around it, and the
  interleavings of the tasks that use one mutex.
\<close>

section \<open>The operations\<close>

text \<open>
  One pass of the loop with interrupts disabled: the new value and whether the lock was taken.
  The mutex is a word of the kernel segment.
\<close>

definition try_acquire :: "ptr \<Rightarrow> 'z machine_scheme \<Rightarrow> bool \<times> 'z machine_scheme" where
  "try_acquire m s =
     (if peekw 0x0050 m s = 0 then (True, pokew 0x0050 m 1 s) else (False, s))"

text \<open>
  \<open>lock\<close> gives the processor away after each failed attempt.  \<open>None\<close> is a lock that is never
  taken.
\<close>

partial_function (option) lock_loop ::
  "(nat \<Rightarrow> 'z tasks_scheme \<Rightarrow> 'z tasks_scheme) \<Rightarrow> ptr \<Rightarrow> 'z tasks_scheme \<Rightarrow> (kerror + 'z tasks_scheme) option" where
  "lock_loop hlt m s =
     (case try_acquire m s of (acquired, s1) \<Rightarrow>
        if acquired then Some (Inr s1)
        else (case task_schedule hlt s1 of
                Inl e \<Rightarrow> Some (Inl e) | Inr (_, s2) \<Rightarrow> lock_loop hlt m s2))"

definition lock :: "(nat \<Rightarrow> 'z tasks_scheme \<Rightarrow> 'z tasks_scheme) \<Rightarrow> ptr \<Rightarrow> ('z tasks_scheme, unit) kmon" where
  "lock hlt m = runK (lock_loop hlt m)"

definition unlock :: "ptr \<Rightarrow> 'z machine_scheme \<Rightarrow> 'z machine_scheme" where
  "unlock m = pokew 0x0050 m 0"

lemma try_acquire_free:
  "peekw 0x0050 m s = 0 \<Longrightarrow> try_acquire m s = (True, pokew 0x0050 m 1 s)"
  and try_acquire_taken: "peekw 0x0050 m s \<noteq> 0 \<Longrightarrow> try_acquire m s = (False, s)"
  by (simp_all add: try_acquire_def)

section \<open>Interleavings\<close>

text \<open>
  What a task is doing with the mutex.  A step is one atomic action of one task: starting to
  lock, one pass of the loop (interrupts are off between the test and the set), or unlocking.
\<close>

datatype lock_pc = Outside | Trying | Inside

type_synonym 'z lock_config = "'z machine_scheme \<times> (nat \<Rightarrow> lock_pc)"

inductive mutex_step :: "ptr \<Rightarrow> 'z lock_config \<Rightarrow> 'z lock_config \<Rightarrow> bool" for m where
  start: "pc t = Outside \<Longrightarrow> mutex_step m (s, pc) (s, pc(t := Trying))"
| acquire: "pc t = Trying \<Longrightarrow> try_acquire m s = (True, s') \<Longrightarrow> mutex_step m (s, pc) (s', pc(t := Inside))"
| spin: "pc t = Trying \<Longrightarrow> try_acquire m s = (False, s') \<Longrightarrow> mutex_step m (s, pc) (s', pc)"
| release: "pc t = Inside \<Longrightarrow> mutex_step m (s, pc) (unlock m s, pc(t := Outside))"

inductive_cases mutex_stepE: "mutex_step m (s, pc) c'"

inductive mutex_reach :: "ptr \<Rightarrow> 'z lock_config \<Rightarrow> 'z lock_config \<Rightarrow> bool" for m where
  init: "mutex_reach m c c"
| step: "mutex_reach m c c' \<Longrightarrow> mutex_step m c' c'' \<Longrightarrow> mutex_reach m c c''"

definition mutex_inv :: "ptr \<Rightarrow> 'z lock_config \<Rightarrow> bool" where
  "mutex_inv m c \<longleftrightarrow>
     (peekw 0x0050 m (fst c) = 0 \<longrightarrow> (\<forall>t. snd c t \<noteq> Inside))
     \<and> (\<forall>t u. snd c t = Inside \<longrightarrow> snd c u = Inside \<longrightarrow> t = u)"

lemma mutex_inv_step: "mutex_step m c c' \<Longrightarrow> mutex_inv m c \<Longrightarrow> mutex_inv m c'"
proof (induction rule: mutex_step.induct)
  case (start pc t s)
  then show ?case by (auto simp: mutex_inv_def)
next
  case (acquire pc t s s')
  then have "peekw 0x0050 m s = 0" "s' = pokew 0x0050 m 1 s"
    by (auto simp: try_acquire_def split: if_splits)
  then show ?case using acquire by (auto simp: mutex_inv_def peekw_pokew)
next
  case (spin pc t s s')
  then show ?case by (auto simp: try_acquire_def split: if_splits)
next
  case (release pc t s)
  then show ?case by (auto simp: mutex_inv_def unlock_def peekw_pokew)
qed

text \<open>
  C14: at no time are two tasks inside the critical section of one mutex, whatever the order in
  which the tasks run, when all start outside; and while a task is inside, the mutex is set.
\<close>

theorem mutual_exclusion:
  assumes "mutex_reach m (s0, \<lambda>_. Outside) (s, pc)" and "pc t = Inside" and "pc u = Inside"
  shows "t = u \<and> peekw 0x0050 m s \<noteq> 0"
proof -
  have "mutex_reach m c c' \<Longrightarrow> mutex_inv m c \<Longrightarrow> mutex_inv m c'" for c c' :: "'a lock_config"
    by (induction rule: mutex_reach.induct) (auto intro: mutex_inv_step)
  moreover have "mutex_inv m (s0, \<lambda>_. Outside)" by (simp add: mutex_inv_def)
  ultimately have "mutex_inv m (s, pc)" using assms(1) by blast
  then show ?thesis using assms(2,3) by (auto simp: mutex_inv_def)
qed

lemma two_tasks_free: "peekw 0x0050 0x80 two_tasks = 0"
  by (simp add: peekw_def two_tasks_def word_of_bytes_def)

theorem mutual_exclusion_witness:
  "\<exists>s pc. mutex_reach 0x80 (two_tasks, \<lambda>_. Outside) (s, pc) \<and> pc 1 = Inside \<and> pc 2 = Trying
    \<and> peekw 0x0050 0x80 s \<noteq> 0"
proof -
  let ?s = "pokew 0x0050 0x80 1 two_tasks"
  have "mutex_reach 0x80 (two_tasks, \<lambda>_. Outside) (two_tasks, (\<lambda>_. Outside)(1 := Trying))"
    by (rule mutex_reach.step [OF mutex_reach.init]) (rule mutex_step.start; simp)
  then have "mutex_reach 0x80 (two_tasks, \<lambda>_. Outside) (?s, (\<lambda>_. Outside)(1 := Trying, 1 := Inside))"
    by (rule mutex_reach.step) (rule mutex_step.acquire; simp add: try_acquire_free two_tasks_free)
  then have "mutex_reach 0x80 (two_tasks, \<lambda>_. Outside)
      (?s, (\<lambda>_. Outside)(1 := Trying, 1 := Inside, 2 := Trying))"
    by (rule mutex_reach.step) (rule mutex_step.start; simp)
  note r = this
  have "peekw 0x0050 0x80 ?s \<noteq> 0"
    using mutual_exclusion [OF r, of 1 1] by simp
  with r show ?thesis by (intro exI [of _ ?s] exI conjI) (assumption | simp)+
qed

section \<open>Taking the lock\<close>

text \<open>
  \<open>lock\<close> on a free mutex takes it at once, without giving the processor away, and \<open>unlock\<close>
  restores the memory cell.
\<close>

theorem lock_free_mutex:
  assumes "peekw 0x0050 m s = 0"
  shows "lock hlt m s = Inr ((), pokew 0x0050 m 1 s)
    \<and> peekw 0x0050 m (pokew 0x0050 m 1 s) = 1
    \<and> peekw 0x0050 m (unlock m (pokew 0x0050 m 1 s)) = 0"
  unfolding lock_def runK_def
  using assms by (subst lock_loop.simps) (simp add: try_acquire_free unlock_def peekw_pokew)

theorem lock_free_mutex_witness:
  "lock hlt 0x80 two_tasks = Inr ((), pokew 0x0050 0x80 1 two_tasks)"
  using lock_free_mutex [OF two_tasks_free] by blast

text \<open>
  With interrupts off a task that holds the mutex and locks it again waits for itself: when it is
  the only task that can run, \<open>lock\<close> never returns.
\<close>

lemma lock_again_hangs:
  assumes "lock_loop hlt m s = Some y" and "peekw 0x0050 m s \<noteq> 0"
    and "task_schedule hlt s = Inr ((), s)"
  shows False
proof -
  have "peekw 0x0050 m s \<noteq> 0 \<longrightarrow> task_schedule hlt s = Inr ((), s) \<longrightarrow> False"
    by (rule lock_loop.raw_induct [OF _ assms(1)]) (auto simp: try_acquire_def)
  then show False using assms(2,3) by blast
qed

end
