(* ===== verification/Printf.thy ===== *)
theory Printf
  imports Machine CString
begin

text \<open>
  Formatted output, \<^verbatim>\<open>kernel/printf.c\<close> (\<^verbatim>\<open>init/printf.c\<close> has the same formatting code).  The
  functions that call \<open>putch\<close> for each character are modelled by the list of the characters, in
  order; \<open>emit\<close> sends such a list to a \<open>putch\<close>.

  The variable arguments are bytes of the stack: \<open>args\<close> gives the byte at an address and \<open>ap\<close>
  is the argument pointer.  \<open>str_at\<close> is the memory that a \<open>char*\<close> points to.
\<close>

section \<open>Devices\<close>

definition debug_putch :: "u8 \<Rightarrow> 'z machine_scheme \<Rightarrow> 'z machine_scheme option" where
  "debug_putch c s = map_option (outb 0xE9 c) (write_serial c s)"

definition putch ::
  "(u8 \<Rightarrow> 'z machine_scheme \<Rightarrow> 'z machine_scheme) \<Rightarrow> u8 \<Rightarrow> 'z machine_scheme \<Rightarrow> 'z machine_scheme option" where
  "putch putch_func c s = map_option (putch_func c \<circ> outb 0xE9 c) (write_serial c s)"

text \<open>The output function before the screen is set up: \<open>index\<close> is its static variable.\<close>

definition prel_putch :: "u16 \<Rightarrow> u8 \<Rightarrow> 'z machine_scheme \<Rightarrow> u16 \<times> 'z machine_scheme" where
  "prel_putch index c s = (index + 2, poke 0xb800 (index + 1) 0x0f (poke 0xb800 index c s))"

fun emit :: "(u8 \<Rightarrow> 's \<Rightarrow> 's option) \<Rightarrow> u8 list \<Rightarrow> 's \<Rightarrow> 's option" where
  "emit f [] s = Some s"
| "emit f (c # cs) s = (case f c s of None \<Rightarrow> None | Some s \<Rightarrow> emit f cs s)"

section \<open>Numbers and strings\<close>

text \<open>Character codes.\<close>

definition ch :: "char \<Rightarrow> u8" where
  "ch c = of_nat (of_char c)"

text \<open>\<open>digits\<close> is the string of hexadecimal digits, and \<open>puts\<close> stops at the terminator.\<close>

definition digits :: "u8 list" where
  "digits = map ch ''0123456789abcdef''"

definition puts :: "u8 list \<Rightarrow> u8 list" where
  "puts str = cstr str"

fun putfill :: "nat \<Rightarrow> u8 \<Rightarrow> u8 list" where
  "putfill 0 fillchar = []"
| "putfill (Suc totalnums) fillchar = putfill totalnums fillchar @ [fillchar]"

lemma unat_div_less: "\<not> base < 2 \<Longrightarrow> n div base \<noteq> 0 \<Longrightarrow> unat (n div base :: u16) < unat n"
proof -
  assume a: "\<not> base < 2" "n div base \<noteq> 0"
  then have "2 \<le> unat base" by (simp add: less16_iff)
  moreover have "0 < unat n" using a(2) by (cases "n = 0") (auto simp: unat_gt_0)
  ultimately show ?thesis by (simp add: unat_div16)
qed

text \<open>
  Bases below 2, for which the recursion would not end, are never passed.
\<close>

function putuint :: "u16 \<Rightarrow> u16 \<Rightarrow> nat \<Rightarrow> u8 \<Rightarrow> u8 list" where
  "putuint n base totalnums fillchar =
     (if base < 2 then []
      else
        (let totalnums = (if totalnums > 0 then totalnums - 1 else totalnums)
         in (if n div base \<noteq> 0 then putuint (n div base) base totalnums fillchar
             else putfill totalnums fillchar)
            @ [digits ! unat (n mod base)]))"
  by auto

termination
  by (relation "measure (\<lambda>(n, _). unat n)") (auto dest: unat_div_less)

declare putuint.simps [simp del]

section \<open>Formats\<close>

definition va_int :: "(u16 \<Rightarrow> u8) \<Rightarrow> u16 \<Rightarrow> u16" where
  "va_int args ap = word_of_bytes (args ap) (args (ap + 1))"

text \<open>One conversion: the characters it prints and the new argument pointer.\<close>

definition conversion ::
  "(u16 \<Rightarrow> u8 list) \<Rightarrow> (u16 \<Rightarrow> u8) \<Rightarrow> u8 \<Rightarrow> u16 \<Rightarrow> u8 list \<times> u16" where
  "conversion str_at args c ap =
     (if c = ch (CHR ''d'') then (putuint (va_int args ap) 10 0 (ch (CHR '' '')), ap + 2)
      else if c = ch (CHR ''s'') then (puts (str_at (va_int args ap)), ap + 2)
      else if c = ch (CHR ''b'') then (putuint (va_int args ap) 2 8 (ch (CHR ''0'')), ap + 2)
      else if c = ch (CHR ''c'') then ([args ap], ap + 1)
      else if c = ch (CHR ''h'') then (putuint (va_int args ap) 16 4 (ch (CHR '' '')), ap + 2)
      else if c = ch (CHR ''x'') then (putuint (va_int args ap) 16 4 (ch (CHR ''0'')), ap + 2)
      else if c = ch (CHR ''a'') then (putuint (va_int args ap) 16 2 (ch (CHR ''0'')), ap + 2)
      else if c = ch (CHR ''%'') then ([ch (CHR ''%'')], ap)
      else ([], ap))"

fun vprintf :: "(u16 \<Rightarrow> u8 list) \<Rightarrow> (u16 \<Rightarrow> u8) \<Rightarrow> u16 \<Rightarrow> u8 list \<Rightarrow> u8 list" where
  "vprintf str_at args ap [] = []"
| "vprintf str_at args ap [c] = (if c = 0 \<or> c = ch (CHR ''%'') then [] else [c])"
| "vprintf str_at args ap (c # d # fmt) =
     (if c = 0 then []
      else if c = ch (CHR ''%'') then
        (if d = 0 then []
         else (case conversion str_at args d ap of (out, ap) \<Rightarrow> out @ vprintf str_at args ap fmt))
      else c # vprintf str_at args ap (d # fmt))"

definition debug_printf ::
  "(u16 \<Rightarrow> u8 list) \<Rightarrow> (u16 \<Rightarrow> u8) \<Rightarrow> u16 \<Rightarrow> u8 list \<Rightarrow> 'z machine_scheme \<Rightarrow> 'z machine_scheme option" where
  "debug_printf str_at args ap fmt = emit debug_putch (vprintf str_at args ap fmt)"

definition printf ::
  "(u8 \<Rightarrow> 'z machine_scheme \<Rightarrow> 'z machine_scheme) \<Rightarrow> (u16 \<Rightarrow> u8 list) \<Rightarrow> (u16 \<Rightarrow> u8) \<Rightarrow> u16 \<Rightarrow> u8 list
    \<Rightarrow> 'z machine_scheme \<Rightarrow> 'z machine_scheme option" where
  "printf putch_func str_at args ap fmt = emit (putch putch_func) (vprintf str_at args ap fmt)"

section \<open>Digits\<close>

definition digit_of :: "u8 \<Rightarrow> nat" where
  "digit_of c = (if c \<ge> 0x61 then unat c - 0x57 else unat c - 0x30)"

definition number_of :: "nat \<Rightarrow> u8 list \<Rightarrow> nat" where
  "number_of base = foldl (\<lambda>a c. a * base + digit_of c) 0"

lemma number_of_snoc: "number_of base (cs @ [c]) = number_of base cs * base + digit_of c"
  by (simp add: number_of_def)

lemma number_of_Nil [simp]: "number_of base [] = 0"
  by (simp add: number_of_def)

lemma digit_of_digits: "k < 16 \<Longrightarrow> digit_of (digits ! k) = k"
proof -
  assume "k < 16"
  then consider "k < 8" | "k - 8 < 8" "k = k - 8 + 8" by linarith
  then show ?thesis
  proof cases
    case 1
    then have "k \<in> {0, 1, 2, 3, 4, 5, 6, 7}" by auto
    then show ?thesis by (auto simp: digits_def digit_of_def ch_def)
  next
    case 2
    then have "k - 8 \<in> {0, 1, 2, 3, 4, 5, 6, 7}" by auto
    then have "k \<in> {8, 9, 10, 11, 12, 13, 14, 15}" using 2(2) by auto
    then show ?thesis by (auto simp: digits_def digit_of_def ch_def)
  qed
qed

lemma putfill_replicate: "putfill n c = replicate n c"
  by (induction n) (simp_all add: replicate_append_same)

lemma number_of_zeros: "number_of base (replicate n 0x30) = 0"
  by (induction n) (simp_all add: number_of_snoc digit_of_def replicate_append_same [symmetric])

text \<open>All digits but the last, with a unit of width used up, and then the last.\<close>

lemma putuint_unfold:
  "2 \<le> base \<Longrightarrow> putuint n base w f =
     (if n div base \<noteq> 0 then putuint (n div base) base (w - 1) f else putfill (w - 1) f)
     @ [digits ! unat (n mod base)]"
  by (subst putuint.simps) (auto simp: Let_def not_less)

lemma digit_last:
  fixes n base :: u16
  assumes "2 \<le> base" and "base \<le> 16"
  shows "digit_of (digits ! unat (n mod base)) = unat n mod unat base"
    and "unat (n mod base) < 16"
proof -
  have b: "2 \<le> unat base" "unat base \<le> 16" using assms by (simp_all add: le16_iff)
  have "unat n mod unat base < unat base" using b(1) by (intro mod_less_divisor) simp
  with b(2) have less: "unat (n mod base) < 16" unfolding unat_mod16 by linarith
  then show "unat (n mod base) < 16" .
  from less show "digit_of (digits ! unat (n mod base)) = unat n mod unat base"
    by (simp add: digit_of_digits unat_mod16)
qed

lemma putuint_number:
  assumes "2 \<le> base" and "base \<le> 16"
  shows "number_of (unat base) (putuint n base w 0x30) = unat n"
proof (induction "unat n" arbitrary: n w rule: less_induct)
  case less
  show ?case
  proof (cases "n div base = 0")
    case True
    then have "unat n div unat base = 0" by (metis unat_div16 unat_0)
    then have "unat n mod unat base = unat n"
      using div_mult_mod_eq [of "unat n" "unat base"] by simp
    then show ?thesis
      using True digit_last(1) [OF assms, of n]
      by (simp add: putuint_unfold [OF assms(1), of n] number_of_snoc putfill_replicate number_of_zeros)
  next
    case False
    then have "unat (n div base) < unat n"
      using assms(1) by (intro unat_div_less) (auto simp: not_less)
    then have "number_of (unat base) (putuint (n div base) base (w - 1) 0x30) = unat n div unat base"
      using less by (simp add: unat_div16)
    then show ?thesis
      using False digit_last(1) [OF assms, of n]
      by (simp add: putuint_unfold [OF assms(1), of n] number_of_snoc)
  qed
qed

lemma putuint_length:
  assumes "2 \<le> base" and "base \<le> 16"
  shows "w \<le> length (putuint n base w f)"
proof (induction "unat n" arbitrary: n w rule: less_induct)
  case less
  show ?case
  proof (cases "n div base = 0")
    case False
    then have "unat (n div base) < unat n"
      using assms(1) by (intro unat_div_less) (auto simp: not_less)
    from less [OF this, of "w - 1"] show ?thesis
      using False by (simp add: putuint_unfold [OF assms(1), of n])
  qed (simp add: putuint_unfold [OF assms(1), of n] putfill_replicate)
qed

text \<open>
  The number that \<open>putuint\<close> prints, in any of the bases it is used with and padded with
  zeros to any width, reads back as the number printed, and is at least as wide as asked for.
\<close>

theorem putuint_value:
  assumes "2 \<le> base" and "base \<le> 16"
  shows "number_of (unat base) (putuint n base w 0x30) = unat n \<and> w \<le> length (putuint n base w 0x30)"
  using putuint_number [OF assms] putuint_length [OF assms] by blast

theorem putuint_value_witness: "number_of 16 (putuint 0xbeef 16 4 0x30) = 0xbeef"
  using putuint_value [of 16 "0xbeef" 4] by simp

section \<open>Decimal numbers and \<open>atoi\<close>\<close>

lemma isdigit_digits: "k < 10 \<Longrightarrow> isdigit (digits ! k) \<and> (ucast (digits ! k) - 0x30 :: u16) = of_nat k"
proof -
  assume "k < 10"
  then have "k \<in> {0, 1, 2, 3, 4, 5, 6, 7, 8, 9}" by auto
  then show ?thesis by (auto simp: digits_def ch_def isdigit_def)
qed

lemma putuint_decimal:
  "(\<forall>c \<in> set (putuint n 10 0 f). isdigit c) \<and> digits_value (putuint n 10 0 f) = n"
proof (induction "unat n" arbitrary: n rule: less_induct)
  case less
  have m: "unat (n mod 10) < 10" by (simp add: unat_mod16)
  have "(of_nat (unat (n mod 10)) :: u16) = n mod 10" by simp
  note last = isdigit_digits [OF m, unfolded this]
  show ?case
  proof (cases "n div 10 = 0")
    case True
    then have "n mod 10 = n" using div_mult_mod_eq [of n 10] by simp
    then show ?thesis
      using True last by (simp add: putuint_unfold [of 10 n] digits_value_def)
  next
    case False
    then have "unat (n div 10) < unat n" by (intro unat_div_less) auto
    from less [OF this] show ?thesis
      using False last div_mult_mod_eq [of n 10]
      by (simp add: putuint_unfold [of 10 n] digits_value_def)
  qed
qed

text \<open>
  C17: printing with \<open>%d\<close> and reading with \<open>atoi\<close> are inverse: \<open>atoi\<close> of the characters that
  \<open>vprintf\<close> produces for \<open>"%d"\<close> is the argument, for every 16-bit number.
\<close>

theorem atoi_printf_roundtrip:
  "atoi neg (vprintf str_at args ap [ch (CHR ''%''), ch (CHR ''d''), 0] @ [0]) = va_int args ap"
proof -
  let ?out = "putuint (va_int args ap) 10 0 (ch (CHR '' ''))"
  have "vprintf str_at args ap [ch (CHR ''%''), ch (CHR ''d''), 0] = ?out"
    by (simp add: conversion_def ch_def)
  moreover have "takeWhile isdigit (?out @ [0]) = ?out" "dropWhile isdigit (?out @ [0]) = [0]"
    using putuint_decimal [of "va_int args ap"] by (simp_all add: isdigit_def)
  ultimately show ?thesis
    using putuint_decimal [of "va_int args ap"] by (simp add: atoi_value)
qed

text \<open>
  A character argument takes one byte of the list, although the caller pushes a word for it: the
  number that follows is read from the high byte of the character and the low byte of the number.
\<close>

lemma printf_char_misaligns:
  assumes "va_int args ap = 0x41" and "va_int args (ap + 2) = 7"
  shows "vprintf str_at args ap [ch (CHR ''%''), ch (CHR ''c''), ch (CHR ''%''), ch (CHR ''d''), 0]
    = 0x41 # putuint 0x700 10 0 (ch (CHR '' ''))"
proof -
  have "args ap = lo8 0x41" "args (ap + 1) = hi8 0x41" "args (ap + 2) = lo8 7"
    using assms lo8_word_of_bytes hi8_word_of_bytes by (metis va_int_def)+
  then have "args ap = 0x41" "va_int args (ap + 1) = 0x700"
    by (simp_all add: va_int_def lo8_def hi8_def word_of_bytes_def add.assoc)
  then show ?thesis by (simp add: conversion_def ch_def)
qed

text \<open>
  Text without a percent sign is printed as it stands, up to its terminator.
\<close>

theorem vprintf_plain:
  assumes "ch (CHR ''%'') \<notin> set (cstr fmt)"
  shows "vprintf str_at args ap fmt = cstr fmt"
  using assms by (induction str_at args ap fmt rule: vprintf.induct) (auto simp: cstr_def)

theorem vprintf_plain_witness: "vprintf str_at args ap [0x6f, 0x6b, 0, 0x21] = [0x6f, 0x6b]"
  using vprintf_plain [of "[0x6f, 0x6b, 0, 0x21]" str_at args ap] by (simp add: cstr_def ch_def)

end
