(* ===== verification/Panic.thy ===== *)
theory Panic
  imports Printf
begin

text \<open>
  \<^verbatim>\<open>kernel/panic.c\<close>: what \<open>do_panic\<close> leaves on the devices before it halts with interrupts disabled.
  The backtrace behind the halt is not reached.  The operations of the other theories end with
  the error \<open>Panic\<close> where they call it.
\<close>

definition panic_format :: "u8 list" where
  "panic_format = map ch (''Panic on line %d of '' @ [CHR 0x22] @ ''%s'' @ [CHR 0x22] @ '': %s'' @ [CHR 0x0a])"

text \<open>The arguments of the format lie on the stack in the order of the call.\<close>

definition panic_args :: "u16 list \<Rightarrow> u16 \<Rightarrow> u8" where
  "panic_args ws k = (let w = ws ! (unat k div 2) in if even (unat k) then lo8 w else hi8 w)"

fun panic_colour :: "nat \<Rightarrow> nat \<Rightarrow> 'z machine_scheme \<Rightarrow> 'z machine_scheme" where
  "panic_colour i 0 s = s"
| "panic_colour i (Suc n) s = panic_colour (Suc i) n (poke 0xb800 (of_nat (i * 2 + 1)) 0x1f s)"

definition do_panic ::
  "(u8 \<Rightarrow> 'z machine_scheme \<Rightarrow> 'z machine_scheme) \<Rightarrow> (u16 \<Rightarrow> u8 list) \<Rightarrow> u16 \<Rightarrow> u16 \<Rightarrow> u16
     \<Rightarrow> 'z machine_scheme \<Rightarrow> 'z machine_scheme option" where
  "do_panic putch_func str_at str file line s =
     map_option (panic_colour 0 (80 * 50)) (printf putch_func str_at (panic_args [line, file, str]) 0 panic_format s)"

text \<open>The message, and the colour of the screen.\<close>

lemma panic_message:
  "vprintf str_at (panic_args [line, file, str]) 0 panic_format =
    map ch ''Panic on line '' @ putuint line 10 0 (ch (CHR '' '')) @ map ch '' of '' @ [0x22] @ puts (str_at file)
      @ [0x22] @ map ch '': '' @ puts (str_at str) @ [0x0a]"
  by (simp add: panic_format_def ch_def conversion_def va_int_def panic_args_def Let_def)


lemma panic_colour_at:
  "i + n \<le> 4000 \<Longrightarrow> mem (panic_colour i n s) (linear 0xb800 off) =
    (if odd (unat off) \<and> unat off div 2 \<in> {i..<i + n} then 0x1f else mem s (linear 0xb800 off))"
proof (induction n arbitrary: i s)
  case (Suc n)
  have u: "unat (of_nat (i * 2 + 1) :: u16) = i * 2 + 1" using Suc.prems by (intro unat_of_nat_16) simp
  have eq: "linear 0xb800 off = linear 0xb800 (of_nat (i * 2 + 1)) \<longleftrightarrow> odd (unat off) \<and> unat off div 2 = i"
  proof -
    have "off = of_nat (i * 2 + 1) \<longleftrightarrow> unat off = i * 2 + 1" by (metis u word_unat_eq_iff)
    also have "\<dots> \<longleftrightarrow> odd (unat off) \<and> unat off div 2 = i" by presburger
    finally show ?thesis by (simp only: linear_inject)
  qed
  have "mem (poke 0xb800 (of_nat (i * 2 + 1)) 0x1f s) (linear 0xb800 off)
      = (if odd (unat off) \<and> unat off div 2 = i then 0x1f else mem s (linear 0xb800 off))"
    using eq by (simp add: poke_def del: of_nat_add of_nat_mult)
  then show ?case using Suc.IH [of "Suc i"] Suc.prems by (auto simp del: of_nat_add of_nat_mult)
qed simp

text \<open>A panic shows its message and then turns every cell of the screen white on blue; the characters stay.\<close>

lemma do_panic_screen:
  assumes "do_panic putch_func str_at str file line s = Some s'"
    and "printf putch_func str_at (panic_args [line, file, str]) 0 panic_format s = Some s1" and "unat off < 8000"
  shows "mem s' (linear 0xb800 off) = (if odd (unat off) then 0x1f else mem s1 (linear 0xb800 off))"
  using assms by (auto simp: do_panic_def panic_colour_at)

end
