(* ===== verification/Handles.thy ===== *)
theory Handles
  imports Task
begin

text \<open>
  The handle table of a task (\<^verbatim>\<open>task_add_handle\<close>, \<^verbatim>\<open>task_get_handle\<close> and
  \<^verbatim>\<open>task_remove_handle\<close> of \<^verbatim>\<open>kernel/task.c\<close>): the array in memory refines a list of handles, and the
  operations meet the contract \<open>handle_table\<close> that the system calls rely on.
\<close>

section \<open>The table as a list\<close>

definition slots :: "'z machine_scheme \<Rightarrow> ptr \<Rightarrow> nat \<Rightarrow> ptr list" where
  "slots s table n = map (\<lambda>i. slot s table (of_nat i)) [0..<n]"

definition handle_list :: "'z machine_scheme \<Rightarrow> task \<Rightarrow> ptr list" where
  "handle_list s t = slots s (t_handles t) (unat (t_handle_count t))"

text \<open>The table lies in an allocated block that is large enough.\<close>

definition table_ok :: "'z tasks_scheme \<Rightarrow> task \<Rightarrow> bool" where
  "table_ok s t \<longleftrightarrow> heap_inv s \<and>
     (if t_handles t = 0 then t_handle_count t = 0
      else \<exists>k. (unat (t_handles t), k) \<in> live s \<and> 2 * unat (t_handle_count t) \<le> k)"

text \<open>What adding a handle means for the list.\<close>

fun put_handle :: "ptr \<Rightarrow> ptr list \<Rightarrow> ptr list" where
  "put_handle h [] = [h, 0, 0, 0, 0]"
| "put_handle h (x # xs) = (if x = 0 then h # xs else x # put_handle h xs)"

fun put_index :: "ptr list \<Rightarrow> nat" where
  "put_index [] = 0"
| "put_index (x # xs) = (if x = 0 then 0 else Suc (put_index xs))"

lemma put_handle_full: "0 \<notin> set xs \<Longrightarrow> put_handle h xs = xs @ [h, 0, 0, 0, 0] \<and> put_index xs = length xs"
  by (induction xs) auto

lemma put_handle_free:
  "0 \<in> set xs \<Longrightarrow> put_handle h xs = xs[put_index xs := h] \<and> put_index xs < length xs
    \<and> xs ! put_index xs = 0"
  by (induction xs) auto

lemma put_index_le: "put_index xs \<le> length xs"
  by (induction xs) auto

lemma put_handle_nth: "put_handle h xs ! put_index xs = h"
  by (induction xs) auto

lemma put_handle_length: "length xs \<le> length (put_handle h xs)"
  by (induction xs) auto

lemma put_index_less: "put_index xs < length (put_handle h xs)"
  by (induction xs) auto

section \<open>Slots in memory\<close>

lemma slots_length [simp]: "length (slots s table n) = n"
  by (simp add: slots_def)

lemma slots_nth: "i < n \<Longrightarrow> slots s table n ! i = slot s table (of_nat i)"
  by (simp add: slots_def)

lemma slots_Suc: "slots s table (Suc n) = slots s table n @ [slot s table (of_nat n)]"
  by (simp add: slots_def)

lemma slots_cong:
  "(\<And>i. i < n \<Longrightarrow> slot s table (of_nat i) = slot s' table' (of_nat i)) \<Longrightarrow>
    slots s table n = slots s' table' n"
  by (simp add: slots_def)

lemma slot_get_word: "slot s table i = get_word (slot_addr table i) (mem s)"
  by (simp add: slot_def peekw_get_word)

lemma unat_slot_addr:
  "unat table + 2 * i < 65536 \<Longrightarrow> unat (slot_addr table (of_nat i)) = unat table + 2 * i"
  by (simp add: slot_addr_def SIZEOF_TASK_HANDLE_def unat_add16 unat_mult16 unat_of_nat take_bit_eq_mod)

lemma slots_set_slot:
  assumes "i < n" and "unat table + 2 * n < 65536"
  shows "slots (set_slot table (of_nat i) h s) table n = (slots s table n)[i := h]"
proof (rule nth_equalityI)
  fix j assume "j < length (slots (set_slot table (of_nat i) h s) table n)"
  then have j: "j < n" by simp
  show "slots (set_slot table (of_nat i) h s) table n ! j = (slots s table n)[i := h] ! j"
  proof (cases "i = j")
    case True
    then show ?thesis using j by (simp add: slots_nth set_slot_def slot_get_word pokew_put_word)
  next
    case False
    then have "get_word (slot_addr table (of_nat j)) (put_word (slot_addr table (of_nat i)) h (mem s))
        = get_word (slot_addr table (of_nat j)) (mem s)"
      using j assms by (intro get_put_word_apart) (auto simp: unat_slot_addr)
    then show ?thesis
      using j False by (simp add: slots_nth set_slot_def slot_get_word pokew_put_word)
  qed
qed simp

lemma of_nat_Suc_16: "(of_nat i :: u16) + 1 = of_nat (Suc i)"
  by simp

lemma free_slot_slots:
  "free_slot s table (of_nat i) n =
     (let xs = map (\<lambda>j. slot s table (of_nat j)) [i..<i + n]
      in if 0 \<in> set xs then Some (of_nat (i + put_index xs)) else None)"
proof (induction n arbitrary: i)
  case (Suc n)
  have "[i..<i + Suc n] = i # [Suc i..<Suc i + n]" by (simp add: upt_conv_Cons del: upt_Suc)
  then show ?case
    using Suc [of "Suc i"]
    by (simp add: Let_def of_nat_Suc_16 del: upt_Suc of_nat_Suc of_nat_add)
qed simp

lemma free_slot_eq:
  "free_slot s table 0 n =
     (if 0 \<in> set (slots s table n) then Some (of_nat (put_index (slots s table n))) else None)"
  using free_slot_slots [of s table 0 n] by (simp add: slots_def Let_def)

text \<open>A fresh table: zeroed, then the old table copied to its start.\<close>

lemma unat_table_bytes: "n < 32768 \<Longrightarrow> unat (SIZEOF_TASK_HANDLE * of_nat n) = 2 * n"
  by (simp add: SIZEOF_TASK_HANDLE_def unat_mult16 unat_of_nat take_bit_eq_mod)

lemma unat_diff_outside:
  assumes "unat off < unat (d :: u16) \<or> unat d + n \<le> unat off" and "unat d + n \<le> 65536"
  shows "\<not> unat (off - d) < n"
proof (cases "unat off < unat d")
  case True
  then show ?thesis using assms(2) unat_lt_65536 [of d] by (simp add: unat_sub16)
next
  case False
  then show ?thesis using assms(1) by (simp add: unat_sub16_le)
qed

lemma slots_memset_other:
  assumes "apart (unat new, 2 * n) (unat old, 2 * c)"
    and "unat new + 2 * n < 65536" and "unat old + 2 * c < 65536"
  shows "slots (memset new 0 (SIZEOF_TASK_HANDLE * of_nat n) s) old c = slots s old c"
proof (rule slots_cong)
  fix i assume i: "i < c"
  let ?off = "slot_addr old (of_nat i)"
  have u: "unat ?off = unat old + 2 * i" using i assms by (intro unat_slot_addr) simp
  then have "unat (?off + 1) = unat old + 2 * i + 1"
    using i assms by (simp add: unat_add16_small)
  then have "\<not> unat (?off - new) < 2 * n" "\<not> unat (?off + 1 - new) < 2 * n"
    using u i assms(1,2) unfolding apart_def by (intro unat_diff_outside; auto)+
  then show "slot (memset new 0 (SIZEOF_TASK_HANDLE * of_nat n) s) old (of_nat i) = slot s old (of_nat i)"
    using assms by (simp add: slot_get_word get_word_def memset_def farmemset_def stosb_at unat_table_bytes)
qed

lemma slots_memset:
  assumes "unat table + 2 * n < 65536"
  shows "slots (memset table 0 (SIZEOF_TASK_HANDLE * of_nat n) s) table n = replicate n 0"
proof (rule nth_equalityI)
  fix i assume "i < length (slots (memset table 0 (SIZEOF_TASK_HANDLE * of_nat n) s) table n)"
  then have i: "i < n" by simp
  let ?off = "slot_addr table (of_nat i)"
  have u: "unat ?off = unat table + 2 * i" using i assms by (intro unat_slot_addr) simp
  then have "unat (?off - table) = 2 * i" by (simp add: unat_sub16_le)
  moreover have "unat (?off + 1 - table) = 2 * i + 1"
    using u i assms by (simp add: unat_sub16_le unat_add16_small)
  moreover have "unat (SIZEOF_TASK_HANDLE * of_nat n) = 2 * n"
    using assms by (simp add: SIZEOF_TASK_HANDLE_def unat_mult16 unat_of_nat take_bit_eq_mod)
  ultimately show "slots (memset table 0 (SIZEOF_TASK_HANDLE * of_nat n) s) table n ! i = replicate n 0 ! i"
    using i by (simp add: slots_nth slot_get_word get_word_def memset_def farmemset_def stosb_at
        lo8_def word_of_bytes_def)
qed simp

lemma slots_memcpy:
  assumes "apart (unat new, 2 * n) (unat old, 2 * c)" and "c \<le> n"
    and "unat new + 2 * n < 65536" and "unat old + 2 * c < 65536"
  shows "slots (memcpy new old (SIZEOF_TASK_HANDLE * of_nat c) s) new n
    = slots s old c @ drop c (slots s new n)"
proof -
  have c: "unat (SIZEOF_TASK_HANDLE * of_nat c) = 2 * c"
    using assms by (simp add: SIZEOF_TASK_HANDLE_def unat_mult16 unat_of_nat take_bit_eq_mod)
  have sep: "linear 0x0050 (new + of_nat i) \<noteq> linear 0x0050 (old + of_nat j)" if "i < 2 * c" "j < 2 * c" for i j
  proof -
    have "unat (new + of_nat i) = unat new + i" "unat (old + of_nat j) = unat old + j"
      using that assms by (simp_all add: unat_add16 unat_of_nat take_bit_eq_mod)
    then show ?thesis using that assms(1,2) by (auto simp: linear_inject apart_def)
  qed
  note at = movsb_at [where n = "2 * c" and es = "0x0050" and ds = "0x0050" and di = new and si = old,
      OF sep]
  show ?thesis
  proof (rule nth_equalityI)
    fix i assume "i < length (slots (memcpy new old (SIZEOF_TASK_HANDLE * of_nat c) s) new n)"
    then have i: "i < n" by simp
    let ?off = "slot_addr new (of_nat i)"
    have u: "unat ?off = unat new + 2 * i" using i assms by (intro unat_slot_addr) simp
    then have d: "unat (?off - new) = 2 * i" "unat (?off + 1 - new) = 2 * i + 1"
      using i assms by (simp_all add: unat_sub16_le unat_add16_small)
    have o: "old + (?off - new) = slot_addr old (of_nat i)"
      "old + (?off + 1 - new) = slot_addr old (of_nat i) + 1"
      by (simp_all add: slot_addr_def algebra_simps)
    show "slots (memcpy new old (SIZEOF_TASK_HANDLE * of_nat c) s) new n ! i
        = (slots s old c @ drop c (slots s new n)) ! i"
      using i assms(3,4)
      by (auto simp: slots_nth nth_append slot_get_word get_word_def memcpy_def farmemcpy_def c at d o
          split: if_splits)
  qed (use assms(2) in simp)
qed

section \<open>The operations on the list\<close>

lemma heap_inv_task_at [simp]: "heap_inv (task_at_update f s) = heap_inv s"
  by (simp add: heap_inv_def)

lemma live_task_at [simp]: "live (task_at_update f s) = live s"
  by (simp add: live_def block_addr_def)

lemma heap_inv_set_slot [simp]: "heap_inv (set_slot table i h s) = heap_inv s"
  by (simp add: set_slot_def pokew_put_word)

lemma live_set_slot [simp]: "live (set_slot table i h s) = live s"
  by (simp add: set_slot_def pokew_put_word)

lemma task_at_set_slot [simp]: "task_at (set_slot table i h s) = task_at s"
  by (simp add: set_slot_def pokew_put_word)

lemma slots_task_at [simp]: "slots (task_at_update f s) = slots s"
  by (intro ext) (simp add: slots_def slot_get_word)

lemma slots_mem: "mem s = mem s' \<Longrightarrow> slots s = slots s'"
  by (intro ext) (simp add: slots_def slot_get_word)

lemma table_ok_bounds:
  assumes "table_ok s t"
  shows "unat (t_handles t) + 2 * unat (t_handle_count t) < 65536"
proof (cases "t_handles t = 0")
  case True
  then show ?thesis using assms by (simp add: table_ok_def)
next
  case False
  then obtain k where "(unat (t_handles t), k) \<in> live s" "2 * unat (t_handle_count t) \<le> k" "heap_inv s"
    using assms by (auto simp: table_ok_def)
  then show ?thesis using live_bounded [of s "(unat (t_handles t), k)"] by simp
qed

text \<open>A free slot is filled in place.\<close>

lemma task_add_handle_reuse:
  assumes "task_at s p = Some t" and "table_ok s t" and "0 \<in> set (handle_list s t)"
  shows "\<exists>s'. task_add_handle p h s = Inr (of_nat (put_index (handle_list s t)) + 1, s')
    \<and> task_at s' = task_at s \<and> table_ok s' t \<and> handle_list s' t = put_handle h (handle_list s t)"
proof -
  let ?i = "put_index (handle_list s t)"
  have i: "?i < unat (t_handle_count t)"
    and put: "put_handle h (handle_list s t) = (handle_list s t)[?i := h]"
    using put_handle_free [OF assms(3), of h] by (simp_all add: handle_list_def)
  have "slots (set_slot (t_handles t) (of_nat ?i) h s) (t_handles t) (unat (t_handle_count t))
      = (slots s (t_handles t) (unat (t_handle_count t)))[?i := h]"
    using i table_ok_bounds [OF assms(2)] by (rule slots_set_slot)
  then show ?thesis
    using assms put
    by (simp add: task_add_handle_def kernel_simps free_slot_eq handle_list_def table_ok_def)
qed

lemma ucast_count: "(ucast (c :: u8) :: u16) = of_nat (unat c)"
  by simp

lemma ucast_count_5: "(ucast (ucast (c :: u8) + 5 :: u16) :: u8) = c + 5"
  by (simp add: word_unat_eq_iff unat_word_ariths unsigned_ucast_eq take_bit_eq_mod mod_simps
      mod_mod_cancel)

lemma heap_inv_memset [simp]: "heap_inv (memset d v c s) = heap_inv s"
  and heap_inv_memcpy [simp]: "heap_inv (memcpy d r c s) = heap_inv s"
  and live_memset [simp]: "live (memset d v c s) = live s"
  and live_memcpy [simp]: "live (memcpy d r c s) = live s"
  and task_at_memset [simp]: "task_at (memset d v c s') = task_at s'"
  and task_at_memcpy [simp]: "task_at (memcpy d r c s') = task_at s'"
  by (simp_all add: memset_def farmemset_def memcpy_def farmemcpy_def)

text \<open>What the function does with the old table once the new block \<open>new\<close> is zeroed.\<close>

abbreviation move_table :: "task \<Rightarrow> ptr \<Rightarrow> ('z tasks_scheme, unit) kmon" where
  "move_table t new \<equiv> whenK (t_handles t \<noteq> 0)
     (thenK (modifyK (memcpy new (t_handles t) (SIZEOF_TASK_HANDLE * of_nat (unat (t_handle_count t))))) (free (t_handles t)))"

text \<open>The new block is big enough, inside the address space and all zero.\<close>

lemma grown_block:
  assumes inv: "heap_inv s" and new: "malloc (SIZEOF_TASK_HANDLE * of_nat n) s = Inr (new, s1)" and few: "n \<le> 255"
  obtains k where "2 * n \<le> k" "live s1 = insert (unat new, k) (live s)" "heap_inv s1" "new \<noteq> 0"
    "unat new + 2 * n < 65536" "slots (memset new 0 (SIZEOF_TASK_HANDLE * of_nat n) s1) new n = replicate n 0"
proof -
  have n: "unat (SIZEOF_TASK_HANDLE * of_nat n) = 2 * n" by (rule unat_table_bytes) (use few in simp)
  obtain k where k: "2 * n \<le> k" "live s1 = insert (unat new, k) (live s)" "heap_inv s1" "new \<noteq> 0"
    using heap_alloc.alloc_fresh [OF inv new] n by auto
  moreover have "unat new + 2 * n < 65536" using live_bounded [OF k(3), of "(unat new, k)"] k by simp
  ultimately show ?thesis using slots_memset that by blast
qed

text \<open>The old table stands before the zero entries of the new one, and its block is free.\<close>

lemma moved_table:
  assumes ok: "table_ok s t" and set: "t_handles t \<noteq> 0" and n: "n = unat (t_handle_count t) + 5" "n \<le> 255"
    and new: "malloc (SIZEOF_TASK_HANDLE * of_nat n) s = Inr (new, s1)"
    and z: "z = memset new 0 (SIZEOF_TASK_HANDLE * of_nat n) s1"
    and k: "2 * n \<le> k" "live s1 = insert (unat new, k) (live s)" "heap_inv s1" "unat new + 2 * n < 65536"
    and zeros: "slots z new n = replicate n 0"
  shows "\<exists>c. move_table t new z = Inr ((), c) \<and> heap_inv c \<and> (unat new, k) \<in> live c
    \<and> task_at c = task_at s \<and> slots c new n = handle_list s t @ replicate 5 0"
proof -
  let ?c = "unat (t_handle_count t)" and ?old = "t_handles t"
  have inv: "heap_inv s" using ok by (simp add: table_ok_def)
  obtain bm u where s1: "s1 = s\<lparr>bitmap := bm, used_bytes := u\<rparr>" using malloc_frame [OF new] by blast
  obtain l where l: "(unat ?old, l) \<in> live s" "2 * ?c \<le> l" using ok set by (auto simp: table_ok_def)
  have ne: "(unat new, k) \<noteq> (unat ?old, l)"
    using heap_alloc.alloc_address_fresh [OF inv new l(1)] by (simp add: word_unat_eq_iff)
  have ap: "apart (unat new, k) (unat ?old, l)"
    using heap_alloc.ranges_apart [OF k(3), of "(unat new, k)" "(unat ?old, l)"] ne k(2) l(1) by simp
  define d where "d = memcpy new ?old (SIZEOF_TASK_HANDLE * of_nat ?c) z"
  have d: "heap_inv d" "live d = live s1" "task_at d = task_at s" using k(3) by (simp_all add: d_def z s1)
  obtain e where e: "free ?old d = Inr ((), e)" "heap_inv e" "live e = live d - {(unat ?old, l)}"
    using heap_alloc.release_range [OF d(1), of ?old l] d(2) k(2) l(1) by auto
  obtain bm' u' where e': "e = d\<lparr>bitmap := bm', used_bytes := u'\<rparr>" using free_frame [OF e(1)] by blast
  have b: "unat ?old + 2 * ?c < 65536" using table_ok_bounds [OF ok] .
  have "slots z ?old ?c = slots s1 ?old ?c"
    unfolding z by (rule slots_memset_other) (use ap k l(2) b n in \<open>auto simp: apart_def\<close>)
  also have "slots s1 = slots s" by (rule slots_mem) (simp add: s1)
  finally have untouched: "slots z ?old ?c = handle_list s t" by (simp add: handle_list_def)
  have "slots d new n = slots z ?old ?c @ drop ?c (slots z new n)"
    unfolding d_def by (rule slots_memcpy) (use ap k l(2) b n in \<open>auto simp: apart_def\<close>)
  then have "slots e new n = handle_list s t @ replicate 5 0"
    using untouched zeros slots_mem [of e d] e' n(1) by simp
  then show ?thesis using set e d k(2) ne e' by (simp add: kernel_simps d_def)
qed

text \<open>
  A full table is replaced by one with five more slots: the old handles are copied, the old
  table is freed, and the handle goes behind the old ones.
\<close>

lemma task_add_handle_grow:
  assumes t: "task_at s p = Some t" and ok: "table_ok s t" and full: "0 \<notin> set (handle_list s t)"
    and few: "unat (t_handle_count t) \<le> 250"
    and add: "task_add_handle p h s = Inr (i, s')"
  shows "\<exists>t'. task_at s' = (task_at s)(p \<mapsto> t') \<and> i = of_nat (unat (t_handle_count t)) + 1
    \<and> table_ok s' t' \<and> handle_list s' t' = put_handle h (handle_list s t)"
proof -
  let ?c = "unat (t_handle_count t)" and ?n = "unat (t_handle_count t) + 5"
  obtain new s1 where new: "malloc (SIZEOF_TASK_HANDLE * of_nat ?n) s = Inr (new, s1)"
    using add t full
    by (auto simp: task_add_handle_def kernel_simps free_slot_eq handle_list_def Let_def bindK_eq_Inr
        ac_simps)
  have inv: "heap_inv s" using ok by (simp add: table_ok_def)
  obtain k where k: "2 * ?n \<le> k" "live s1 = insert (unat new, k) (live s)" "heap_inv s1" "new \<noteq> 0"
    "unat new + 2 * ?n < 65536" "slots (memset new 0 (SIZEOF_TASK_HANDLE * of_nat ?n) s1) new ?n = replicate ?n 0"
    using grown_block [OF inv new] few by auto
  define z where "z = memset new 0 (SIZEOF_TASK_HANDLE * of_nat ?n) s1"
  obtain bm u where s1: "s1 = s\<lparr>bitmap := bm, used_bytes := u\<rparr>" using malloc_frame [OF new] by blast
  obtain c where c: "move_table t new z = Inr ((), c)" "heap_inv c" "(unat new, k) \<in> live c" "task_at c = task_at s"
    "slots c new ?n = handle_list s t @ replicate 5 0"
  proof (cases "t_handles t = 0")
    case True
    then have "?c = 0" using ok by (simp add: table_ok_def)
    then show ?thesis
      using True k that [of z] by (simp add: kernel_simps handle_list_def slots_def z_def s1)
  next
    case False
    then show ?thesis
      using moved_table [OF ok False refl _ new z_def k(1-3,5) k(6) [folded z_def]] few that by auto
  qed
  let ?t = "t\<lparr>t_handles := new, t_handle_count := of_nat ?n\<rparr>"
  have s': "s' = (set_slot new (of_nat ?c) h c)\<lparr>task_at := (task_at s)(p \<mapsto> ?t)\<rparr>"
    and i: "i = of_nat ?c + 1"
    using add t full new k(4) c(1,4)
    by (auto simp: task_add_handle_def kernel_simps free_slot_eq handle_list_def Let_def z_def add.commute
        ucast_count_5 set_slot_def pokew_put_word)
  have cnt: "unat (t_handle_count ?t) = ?n" using few by (simp add: unat_word_ariths)
  have "slots (set_slot new (of_nat ?c) h c) new ?n = (handle_list s t @ replicate 5 0)[?c := h]"
    using slots_set_slot [of ?c ?n new h c] k(5) c(5) by simp
  also have "\<dots> = put_handle h (handle_list s t)"
    using put_handle_full [OF full, of h] by (simp add: list_update_append handle_list_def numeral_eq_Suc)
  finally have "handle_list s' ?t = put_handle h (handle_list s t)"
    using cnt by (simp add: handle_list_def s')
  moreover have "table_ok s' ?t" using c k(1,4) cnt by (auto simp: table_ok_def s')
  moreover have "task_at s' = (task_at s)(p \<mapsto> ?t)" by (simp add: s')
  ultimately show ?thesis using i by blast
qed

section \<open>The contract of the table\<close>

text \<open>
  A handle table is a partial map from ids to handles, 0 standing for no handle.  \<open>room\<close> says
  that one more handle fits.
\<close>

locale handle_table =
  fixes add :: "ptr \<Rightarrow> 's \<Rightarrow> kerror + u16 \<times> 's"
    and get :: "u16 \<Rightarrow> 's \<Rightarrow> kerror + ptr \<times> 's"
    and remove :: "u16 \<Rightarrow> 's \<Rightarrow> kerror + unit \<times> 's"
    and ok :: "'s \<Rightarrow> bool"
    and room :: "'s \<Rightarrow> bool"
    and view :: "'s \<Rightarrow> u16 \<Rightarrow> ptr"
  assumes add_view: "ok s \<Longrightarrow> room s \<Longrightarrow> add h s = Inr (i, s') \<Longrightarrow>
      ok s' \<and> i \<noteq> 0 \<and> view s i = 0 \<and> view s' = (view s)(i := h)"
    and get_view: "ok s \<Longrightarrow> get i s = Inr (view s i, s)"
    and remove_view: "ok s \<Longrightarrow> \<exists>s'. remove i s = Inr ((), s') \<and> ok s' \<and> view s' = (view s)(i := 0)"
begin

lemma add_get:
  assumes "ok s" and "room s" and "add h s = Inr (i, s')"
  shows "get i s' = Inr (h, s')"
  using add_view [OF assms] get_view [of s' i] by simp

lemma add_get_other:
  assumes "ok s" and "room s" and "add h s = Inr (i, s')" and "j \<noteq> i"
  shows "get j s' = Inr (view s j, s')"
  using add_view [OF assms(1-3)] get_view [of s' j] assms(4) by simp

text \<open>An id that is in use is not handed out again.\<close>

lemma add_fresh:
  "ok s \<Longrightarrow> room s \<Longrightarrow> add h s = Inr (i, s') \<Longrightarrow> get j s = Inr (g, s) \<Longrightarrow> g \<noteq> 0 \<Longrightarrow> j \<noteq> i"
  using add_view [of s h i s'] get_view [of s j] by auto

lemma add_remove:
  assumes "ok s" and "room s" and "add h s = Inr (i, s')"
  shows "\<exists>s''. remove i s' = Inr ((), s'') \<and> ok s'' \<and> view s'' = view s"
proof -
  have v: "ok s'" "view s i = 0" "view s' = (view s)(i := h)" using add_view [OF assms] by auto
  moreover have "((view s)(i := h))(i := 0) = view s" using v(2) by (intro ext) simp
  ultimately show ?thesis using remove_view [OF v(1), of i] by auto
qed

lemma remove_get:
  "ok s \<Longrightarrow> remove i s = Inr ((), s') \<Longrightarrow> get i s' = Inr (0, s')"
  using remove_view [of s i] get_view [of s' i] by auto

end

text \<open>The table of task \<open>p\<close> as a map from ids.\<close>

definition list_view :: "ptr list \<Rightarrow> u16 \<Rightarrow> ptr" where
  "list_view xs i = (if unat (i - 1) < length xs then xs ! unat (i - 1) else 0)"

definition handle_view :: "ptr \<Rightarrow> 'z tasks_scheme \<Rightarrow> u16 \<Rightarrow> ptr" where
  "handle_view p s i = (case task_at s p of None \<Rightarrow> 0 | Some t \<Rightarrow> list_view (handle_list s t) i)"

definition handles_ok :: "ptr \<Rightarrow> 'z tasks_scheme \<Rightarrow> bool" where
  "handles_ok p s \<longleftrightarrow> (case task_at s p of None \<Rightarrow> False | Some t \<Rightarrow> table_ok s t)"

definition handle_room :: "ptr \<Rightarrow> 'z tasks_scheme \<Rightarrow> bool" where
  "handle_room p s \<longleftrightarrow> (case task_at s p of None \<Rightarrow> False
     | Some t \<Rightarrow> unat (t_handle_count t) \<le> 250 \<or> 0 \<in> set (handle_list s t))"

lemma put_handle_view:
  "(if j < length (put_handle h xs) then put_handle h xs ! j else 0) =
     (if j = put_index xs then h else if j < length xs then xs ! j else 0)"
proof (cases "0 \<in> set xs")
  case True
  then show ?thesis using put_handle_free [OF True, of h] by (auto simp: nth_list_update)
next
  case False
  then show ?thesis
    using put_handle_full [OF False, of h] by (auto simp: nth_append nth_Cons')
qed

lemma id_index: "k < 65536 \<Longrightarrow> i = of_nat k + 1 \<longleftrightarrow> unat (i - 1 :: u16) = k"
proof -
  assume "k < 65536"
  have "i = of_nat k + 1 \<longleftrightarrow> i - 1 = of_nat k" by (simp add: diff_eq_eq)
  then show ?thesis using unat_of_nat_16 [OF \<open>k < 65536\<close>] by (simp only: word_unat_eq_iff)
qed

lemma put_index_view:
  assumes "length xs < 65536"
  shows "list_view xs (of_nat (put_index xs) + 1) = 0"
proof -
  have "unat (of_nat (put_index xs) :: u16) = put_index xs"
    using put_index_le [of xs] assms by (intro unat_of_nat_16) simp
  then show ?thesis
    using put_handle_free [of xs] put_handle_full [of xs]
    by (cases "0 \<in> set xs") (simp_all add: list_view_def)
qed

lemma list_view_put_handle:
  assumes "length xs < 65536"
  shows "list_view (put_handle h xs) = (list_view xs)(of_nat (put_index xs) + 1 := h)"
proof
  fix i :: u16
  have "i = of_nat (put_index xs) + 1 \<longleftrightarrow> unat (i - 1) = put_index xs"
    using put_index_le [of xs] assms by (intro id_index) simp
  then show "list_view (put_handle h xs) i = ((list_view xs)(of_nat (put_index xs) + 1 := h)) i"
    using put_handle_view [of "unat (i - 1)" h xs] by (simp add: list_view_def)
qed

lemma handle_list_length [simp]: "length (handle_list s t) = unat (t_handle_count t)"
  by (simp add: handle_list_def)

lemma unat_count_256: "unat (c :: u8) < 256"
  using unsigned_less [of c, where ?'a = nat] by simp

lemma task_add_handle_put:
  assumes "task_at s p = Some t" and "table_ok s t"
    and "unat (t_handle_count t) \<le> 250 \<or> 0 \<in> set (handle_list s t)"
    and "task_add_handle p h s = Inr (i, s')"
  shows "\<exists>t'. task_at s' = (task_at s)(p \<mapsto> t') \<and> i = of_nat (put_index (handle_list s t)) + 1
    \<and> table_ok s' t' \<and> handle_list s' t' = put_handle h (handle_list s t)"
proof (cases "0 \<in> set (handle_list s t)")
  case True
  have "(task_at s)(p \<mapsto> t) = task_at s" using assms(1) by (simp add: fun_upd_idem)
  then show ?thesis
    using task_add_handle_reuse [OF assms(1,2) True, of h] assms(4) by (auto intro!: exI [of _ t])
next
  case False
  then show ?thesis
    using task_add_handle_grow [OF assms(1,2) False _ assms(4)] assms(3)
      put_handle_full [OF False] by auto
qed

lemma handle_view_Some: "task_at s p = Some t \<Longrightarrow> handle_view p s = list_view (handle_list s t)"
  by (intro ext) (simp add: handle_view_def)

lemma slot_less_iff: "(i :: u16) - 1 < ucast (c :: u8) \<longleftrightarrow> unat (i - 1) < unat c"
  using unat_count_256 [of c] by (simp add: less16_iff unsigned_ucast_eq take_bit_eq_mod)

interpretation handles: handle_table "task_add_handle p" "task_get_handle p" "task_remove_handle p"
  "handles_ok p" "handle_room p" "handle_view p" for p
proof unfold_locales
  fix s :: "'a tasks_scheme" and h i s'
  assume "handles_ok p s" "handle_room p s" and add: "task_add_handle p h s = Inr (i, s')"
  then obtain t where t: "task_at s p = Some t" "table_ok s t"
    "unat (t_handle_count t) \<le> 250 \<or> 0 \<in> set (handle_list s t)"
    by (auto simp: handles_ok_def handle_room_def split: option.splits)
  then obtain t' where t': "task_at s' = (task_at s)(p \<mapsto> t')" "table_ok s' t'"
    "i = of_nat (put_index (handle_list s t)) + 1" "handle_list s' t' = put_handle h (handle_list s t)"
    using task_add_handle_put [OF t add] by blast
  have len: "length (handle_list s t) < 65536" using unat_count_256 [of "t_handle_count t"] by simp
  have "put_index (handle_list s t) < 256"
    using put_index_le [of "handle_list s t"] unat_count_256 [of "t_handle_count t"] by simp
  then have "i \<noteq> 0" using t'(3) of_nat_16_inj [of "Suc (put_index (handle_list s t))" 0]
    by (auto simp: add.commute)
  then show "handles_ok p s' \<and> i \<noteq> 0 \<and> handle_view p s i = 0
      \<and> handle_view p s' = (handle_view p s)(i := h)"
    using t t' len put_index_view [OF len] list_view_put_handle [OF len, of h]
    by (auto simp: handles_ok_def handle_view_def)
next
  fix s :: "'a tasks_scheme" and i :: u16
  assume "handles_ok p s"
  then show "task_get_handle p i s = Inr (handle_view p s i, s)"
    by (auto simp: handles_ok_def handle_view_def list_view_def task_get_handle_def kernel_simps
        handle_list_def slots_nth slot_less_iff split: option.splits)
next
  fix s :: "'a tasks_scheme" and i :: u16
  assume "handles_ok p s"
  then obtain t where t: "task_at s p = Some t" "table_ok s t"
    by (auto simp: handles_ok_def split: option.splits)
  let ?k = "unat (i - 1)" and ?n = "unat (t_handle_count t)"
  have eq: "list_view (xs[?k := 0]) = (list_view xs)(i := 0)" for xs
    by (auto simp: list_view_def fun_eq_iff nth_list_update word_unat_eq_iff [symmetric])
  have "list_view xs = (list_view xs)(i := 0)" if "\<not> ?k < length xs" for xs
    using that by (auto simp: list_view_def fun_eq_iff)
  moreover have "handle_list (set_slot (t_handles t) (i - 1) 0 s) t = (handle_list s t)[?k := 0]"
    if "?k < ?n"
    using slots_set_slot [OF that table_ok_bounds [OF t(2)], of 0 s] by (simp add: handle_list_def)
  ultimately show "\<exists>s'. task_remove_handle p i s = Inr ((), s') \<and> handles_ok p s'
      \<and> handle_view p s' = (handle_view p s)(i := 0)"
    using t eq
    by (cases "?k < ?n") (auto simp: task_remove_handle_def kernel_simps slot_less_iff handles_ok_def
        handle_view_Some table_ok_def)
qed


text \<open>
  The count is a byte.  When a table of 255 handles is full, it is replaced by one of 260 slots,
  the count becomes 4, and the handle just added cannot be found under the id returned.
\<close>

lemma task_add_handle_count_wraps:
  assumes "task_at s p = Some t" and "t_handle_count t = 255" and "0 \<notin> set (handle_list s t)"
    and "task_add_handle p h s = Inr (i, s')" and "i \<noteq> 0"
  shows "i = 256 \<and> task_get_handle p i s' = Inr (0, s')"
proof -
  have count: "(ucast (ucast (255 :: u8) + 5 :: u16) :: u8) = 4" "(ucast (255 :: u8) :: u16) = 255"
    by simp_all
  have full: "free_slot s (t_handles t) 0 255 = None"
    using assms(2,3) by (simp add: free_slot_eq handle_list_def)
  obtain t' where "task_at s' p = Some t'" "t_handle_count t' = 4" "i = 256"
    using assms(1,2,4,5) full
    by (auto simp: task_add_handle_def kernel_simps bindK_eq_Inr thenK_eq_Inr getK_def retK_def
        modifyK_def upd_task_def get_task_eq_Inr Let_def set_slot_def pokew_put_word count
        split: if_splits)
  then show ?thesis by (simp add: task_get_handle_def kernel_simps)
qed

lemma two_tasks_inv: "heap_inv two_tasks"
  using demo_heap_inv by (simp add: heap_inv_def two_tasks_def demo_heap_def used_sum_def)

lemma two_tasks_malloc:
  "malloc 10 two_tasks = Inr (0x1000, take_block 0 two_tasks)"
proof -
  have "first_block initial_zones 10 = 0" by (simp add: initial_zones_def)
  then have "search_block two_tasks 10 = search_block demo_heap 12"
    by (simp add: search_block_def two_tasks_def demo_heap_def initial_zones_def)
  then show ?thesis
    using malloc_eq [OF two_tasks_inv, of 10]
    by (simp add: demo_search) (simp add: two_tasks_def block_addr_def initial_zones_def)
qed


end
