(* ===== verification/Fork.thy ===== *)
theory Fork
  imports Handles
begin

text \<open>
  What \<open>fork\<close> and \<open>exec\<close> of \<^verbatim>\<open>kernel/task.c\<close> leave in memory: the child's copy of the parent's
  segment, the stack from which the child first leaves the kernel, and the start frame of a
  program.
\<close>

section \<open>Segments do not overlap\<close>

lemma unat_segment_of: "i < 8 \<Longrightarrow> unat (segment_of i) = 0x1050 + 0x1000 * i"
  by (drule less_8_cases) (auto simp: segment_of_def)

lemma linear_segment_of: "i < 8 \<Longrightarrow> linear (segment_of i) off = 0x10500 + 0x10000 * i + unat off"
  by (simp add: linear_def unat_segment_of)

lemma segments_apart:
  assumes "i < 8" and "j < 8" and "i \<noteq> j"
  shows "linear (segment_of i) a \<noteq> linear (segment_of j) b"
  using assms unat_lt_65536 [of a] unat_lt_65536 [of b] by (simp add: linear_segment_of)

lemma kernel_segment_apart: "i < 8 \<Longrightarrow> linear (segment_of i) a \<noteq> linear 0x0050 b"
  using unat_lt_65536 [of b] by (simp add: linear_segment_of) (simp add: linear_def)

section \<open>Writes to one segment\<close>

lemma pokews_far: "(\<And>off. a \<noteq> linear seg off) \<Longrightarrow> mem (pokews seg ovs s) a = mem s a"
  by (induction ovs arbitrary: s) (auto simp: pokew_def)

lemma movsb_far_seg: "(\<And>off. a \<noteq> linear es off) \<Longrightarrow> movsb n di si es ds m a = m a"
  by (rule movsb_other) blast

lemma pokews_append: "pokews seg (xs @ ys) s = pokews seg ys (pokews seg xs s)"
  by (induction xs arbitrary: s) auto

lemma pokews_more [simp]:
  "task_at (pokews seg ovs s) = task_at s" "task_list (pokews seg ovs s) = task_list s"
  "current_task (pokews seg ovs s) = current_task s" "segment_bitmap (pokews seg ovs s) = segment_bitmap s"
  "cpu_sp (pokews seg ovs s) = cpu_sp s"
  by (induction ovs arbitrary: s) (auto simp: pokew_def)

text \<open>The two halves of a far copy of a whole segment.\<close>

definition copy_segment :: "u16 \<Rightarrow> u16 \<Rightarrow> 'z machine_scheme \<Rightarrow> 'z machine_scheme" where
  "copy_segment dst src s =
     farmemcpy 0x8000 0x8000 0x8000 dst src (farmemcpy 0 0 0x8000 dst src s)"

lemma copy_segment_dst:
  assumes "\<And>a b. linear dst a \<noteq> linear src b"
  shows "mem (copy_segment dst src s) (linear dst off) = mem s (linear src off)"
proof -
  have half: "unat (off - 0x8000) < 0x8000 \<longleftrightarrow> \<not> unat off < 0x8000"
    using unat_lt_65536 [of off] unat_diff_outside [of off "0x8000" "0x8000"]
    by (cases "unat off < 0x8000") (simp_all add: unat_sub16_le)
  have src: "movsb n d r dst src m (linear src b) = m (linear src b)" for n d r m b
    using assms [symmetric] by (intro movsb_far_seg)
  have first: "mem (farmemcpy 0 0 0x8000 dst src s) (linear dst off)
      = (if unat off < 0x8000 then mem s (linear src off) else mem s (linear dst off))"
    using assms by (simp add: farmemcpy_def movsb_at)
  have "mem (copy_segment dst src s) (linear dst off)
      = (if unat (off - 0x8000) < 0x8000 then mem (farmemcpy 0 0 0x8000 dst src s) (linear src off)
         else mem (farmemcpy 0 0 0x8000 dst src s) (linear dst off))"
    using assms by (simp add: copy_segment_def farmemcpy_def [of "0x8000"] movsb_at)
  also have "\<dots> = mem s (linear src off)"
    unfolding first half by (simp add: farmemcpy_def src)
  finally show ?thesis .
qed

lemma copy_segment_far:
  assumes "\<And>b. a \<noteq> linear dst b"
  shows "mem (copy_segment dst src s) a = mem s a"
  using assms by (simp add: copy_segment_def farmemcpy_def movsb_far_seg)

section \<open>\<open>fork\<close>\<close>

definition fork_memory :: "u16 \<Rightarrow> ptr \<Rightarrow> task \<Rightarrow> u16 \<Rightarrow> 'z machine_scheme \<Rightarrow> 'z machine_scheme" where
  "fork_memory kernel_exit stk parent segment s =
     pokews segment [(t_user_sp parent + 18, segment), (t_user_sp parent + 12, 0)]
       (pokews 0x0050 (fork_stack kernel_exit stk)
         (farmemsetw stk 0 (of_nat KERNEL_STACK_WORDS) 0x0050
           (copy_segment segment (t_segment parent) s)))"

lemma fork_cases:
  assumes "fork kernel_exit s = Inr (segment, s')" and "task_at s (current_task s) = Some parent"
  shows "\<exists>p stk s1 s2 s3. malloc SIZEOF_TASK s = Inr (p, s1) \<and> malloc 4096 s1 = Inr (stk, s2)
    \<and> allocate_segment s2 = Inr (segment, s3) \<and> p \<noteq> 0 \<and> stk \<noteq> 0 \<and> segment \<noteq> 0
    \<and> s' = (fork_memory kernel_exit stk parent segment s3)
        \<lparr>task_at := (task_at s)(p \<mapsto> fork_child parent segment stk (task_list s)), task_list := p\<rparr>"
proof -
  have words: "(2 :: u16) * of_nat KERNEL_STACK_WORDS = 4096" by (simp add: KERNEL_STACK_WORDS_def)
  from assms(1) obtain p s1 stk s2 segment' s3 where
    1: "malloc SIZEOF_TASK s = Inr (p, s1)" "malloc 4096 s1 = Inr (stk, s2)"
      "allocate_segment s2 = Inr (segment', s3)"
    and rest: "(if p = 0 \<or> stk = 0 \<or> segment' = 0 then failK (Panic ''Task alloc failed!'')
      else bindK (getK current_task) (\<lambda>cur. bindK (get_task cur) (\<lambda>parent.
        thenK (modifyK (farmemcpy 0 0 0x8000 segment' (t_segment parent)))
             (thenK (modifyK (farmemcpy 0x8000 0x8000 0x8000 segment' (t_segment parent)))
             (thenK (modifyK (farmemsetw stk 0 (of_nat KERNEL_STACK_WORDS) 0x0050))
             (thenK (modifyK (pokews 0x0050 (fork_stack kernel_exit stk)))
             (thenK (modifyK (pokews segment'
                [(t_user_sp parent + 18, segment'), (t_user_sp parent + 12, 0)]))
             (thenK (modifyK (\<lambda>s. s\<lparr>task_at := (task_at s)(p \<mapsto> fork_child parent segment' stk (task_list s)),
                                  task_list := p\<rparr>))
                (retK segment')))))))) ) s3 = Inr (segment, s')"
    unfolding fork_def words by (elim bindK_InrE) blast
  obtain bm u bm' u' sb where s3: "s3 = s\<lparr>bitmap := bm', used_bytes := u', segment_bitmap := sb\<rparr>"
    using malloc_frame [OF 1(1)] malloc_frame [OF 1(2)] 1(3)
    by (auto simp: allocate_segment_def split: prod.splits)
  have "p \<noteq> 0" "stk \<noteq> 0" "segment' \<noteq> 0" using rest by (auto simp: kernel_simps split: if_splits)
  then show ?thesis
    using 1 rest assms(2) s3
    by (auto simp: kernel_simps fork_memory_def copy_segment_def farmemcpy_def farmemsetw_def
        simp del: pokews.simps)
qed

lemma allocate_segment_fresh:
  assumes "allocate_segment s = Inr (segment, s')" and "segment \<noteq> 0"
  shows "\<exists>i < 8. segment = segment_of i \<and> \<not> segment_used (segment_bitmap s) i \<and> mem s' = mem s"
  using assms by (auto simp: allocate_segment_eq split: option.splits dest!: find_SomeE)

lemma malloc_bitmaps:
  assumes "malloc n s = Inr (p, s')"
  shows "segment_bitmap s' = segment_bitmap s" "mem s' = mem s"
  using malloc_frame [OF assms] by auto

lemma fork_state:
  assumes "fork kernel_exit s = Inr (segment, s')" and "task_at s (current_task s) = Some parent"
  obtains p stk i s3 where "p \<noteq> 0" "i < 8" "segment = segment_of i"
    "\<not> segment_used (segment_bitmap s) i" "mem s3 = mem s" "current_task s3 = current_task s"
    "cpu_sp s3 = cpu_sp s"
    "s' = (fork_memory kernel_exit stk parent segment s3)
        \<lparr>task_at := (task_at s)(p \<mapsto> fork_child parent segment stk (task_list s)), task_list := p\<rparr>"
proof -
  obtain p stk s1 s2 s3 where 1: "malloc SIZEOF_TASK s = Inr (p, s1)" "malloc 4096 s1 = Inr (stk, s2)"
    "allocate_segment s2 = Inr (segment, s3)" "p \<noteq> 0" "segment \<noteq> 0"
    "s' = (fork_memory kernel_exit stk parent segment s3)
        \<lparr>task_at := (task_at s)(p \<mapsto> fork_child parent segment stk (task_list s)), task_list := p\<rparr>"
    using fork_cases [OF assms] by blast
  moreover obtain i where "i < 8" "segment = segment_of i" "\<not> segment_used (segment_bitmap s2) i"
    "mem s3 = mem s2"
    using allocate_segment_fresh [OF 1(3,5)] by blast
  moreover have "current_task s3 = current_task s" "cpu_sp s3 = cpu_sp s"
    using malloc_frame [OF 1(1)] malloc_frame [OF 1(2)] 1(3)
    by (auto simp: allocate_segment_def split: prod.splits)
  ultimately show ?thesis
    using that malloc_bitmaps [OF 1(1)] malloc_bitmaps [OF 1(2)] by metis
qed

lemma get_word_save_regs:
  assumes "off \<notin> frame (cpu_sp s)" and "off + 1 \<notin> frame (cpu_sp s)"
  shows "get_word off (mem (save_regs s)) = get_word off (mem s)"
  unfolding get_word_def using assms by (simp add: save_regs_other frame_def)

lemma peekw_pokews_2:
  assumes "a - b \<notin> {0, 1, -1}"
  shows "peekw seg b (pokews seg [(a, x), (b, y)] s) = y" "peekw seg a (pokews seg [(a, x), (b, y)] s) = x"
proof -
  have "a \<noteq> b" "a \<noteq> b + 1" "a + 1 \<noteq> b"
    using assms by (auto simp: algebra_simps eq_diff_eq)
  then show "peekw seg b (pokews seg [(a, x), (b, y)] s) = y" "peekw seg a (pokews seg [(a, x), (b, y)] s) = x"
    by (simp_all add: peekw_pokew peekw_pokew_other)
qed

text \<open>
  C8: the child of a \<open>fork\<close> is a new task at the head of the list, in a segment of its own.  Its
  segment is a copy of the parent's, except that its saved \<open>ax\<close> is 0, which tells it that it is
  the child, and its saved \<open>cs\<close> is its own segment.  The parent's segment does not change.
\<close>

theorem fork_child_memory:
  assumes "fork kernel_exit s = Inr (segment, s')" and "task_at s (current_task s) = Some parent"
    and "t_segment parent = segment_of j" and "j < 8" and "segment_used (segment_bitmap s) j"
  shows "\<exists>child. task_at s' (task_list s') = Some child
    \<and> t_segment child = segment \<and> segment \<noteq> t_segment parent \<and> t_next child = task_list s
    \<and> task_get_register (task_list s') rAX s' = Inr (0, s')
    \<and> task_get_register (task_list s') rCS s' = Inr (segment, s')
    \<and> (\<forall>off. off - t_user_sp parent \<notin> {12, 13, 18, 19} \<longrightarrow>
        mem s' (linear segment off) = mem s (linear (t_segment parent) off))
    \<and> (\<forall>off. mem s' (linear (t_segment parent) off) = mem s (linear (t_segment parent) off))"
proof -
  let ?usp = "t_user_sp parent"
  obtain p stk i s3 where i: "i < 8" "segment = segment_of i" "\<not> segment_used (segment_bitmap s) i"
    and s3: "mem s3 = mem s"
    and s': "s' = (fork_memory kernel_exit stk parent segment s3)
        \<lparr>task_at := (task_at s)(p \<mapsto> fork_child parent segment stk (task_list s)), task_list := p\<rparr>"
    using fork_state [OF assms(1,2)] by metis
  have ne: "i \<noteq> j" using i(3) assms(5) by blast
  note apart = segments_apart [OF i(1) assms(4) ne] kernel_segment_apart [OF i(1)]
    kernel_segment_apart [OF assms(4)] segments_apart [OF assms(4) i(1) ne [symmetric]]
  define k where "k = pokews 0x0050 (fork_stack kernel_exit stk)
         (farmemsetw stk 0 (of_nat KERNEL_STACK_WORDS) 0x0050
           (copy_segment segment (t_segment parent) s3))"
  have k: "mem k (linear segment off) = mem s (linear (t_segment parent) off)"
    "mem k (linear (t_segment parent) off) = mem s (linear (t_segment parent) off)" for off
    using apart by (simp_all add: k_def pokews_far farmemsetw_def stosw_outside copy_segment_dst
        copy_segment_far s3 i(2) assms(3))
  have m: "mem s' = mem (pokews segment [(?usp + 18, segment), (?usp + 12, 0)] k)"
    by (simp add: s' fork_memory_def k_def)
  have "mem s' (linear segment off) = mem k (linear segment off)"
    if "off - ?usp \<notin> {12, 13, 18, 19}" for off
  proof -
    have "off \<noteq> ?usp + 18" "off \<noteq> ?usp + 18 + 1" "off \<noteq> ?usp + 12" "off \<noteq> ?usp + 12 + 1"
      using that by auto
    then show ?thesis by (simp add: m pokew_def linear_inject)
  qed
  moreover have "mem s' (linear (t_segment parent) off) = mem k (linear (t_segment parent) off)" for off
    unfolding m by (rule pokews_far) (use apart in \<open>simp add: i(2) assms(3)\<close>)
  moreover have "peekw segment off s' = peekw segment off (pokews segment [(?usp + 18, segment), (?usp + 12, 0)] k)"
    for off by (simp add: peekw_def m)
  then have "peekw segment (?usp + 12) s' = 0" "peekw segment (?usp + 18) s' = segment"
    by (simp_all only:) (rule peekw_pokews_2; simp)+
  moreover have "task_at s' (task_list s') = Some (fork_child parent segment stk (task_list s))"
    by (simp add: s')
  moreover have "segment \<noteq> t_segment parent"
    using unat_segment_of [OF i(1)] unat_segment_of [OF assms(4)] ne by (auto simp: i(2) assms(3))
  ultimately show ?thesis
    using k by (auto simp: task_get_register_def kernel_simps fork_child_def Let_def rAX_def rCS_def)
qed

text \<open>
  C9: the first time the scheduler switches to the child of a \<open>fork\<close>, it comes out of
  \<open>switch_task\<close> with cleared registers, at the return address \<open>kernel_exit\<close>, and with a stack
  that is empty after that return, which is how \<open>kernel_exit\<close> sees that it must leave to user
  space.  The frame of the task switched away from must not overlap that of the child.
\<close>

theorem fork_first_switch:
  assumes "fork kernel_exit s = Inr (segment, s')" and "task_at s (current_task s) = Some parent"
    and "task_at s' (task_list s') = Some child"
    and "\<forall>off \<in> frame (cpu_sp s'). 10 \<le> unat (off - t_kernel_sp child)"
    and "switch_task (current_task s') (task_list s') s' = Inr ((), s'')"
  shows "current_task s'' = task_list s' \<and> cpu_bp s'' = 0 \<and> cpu_ax s'' = 0 \<and> cpu_si s'' = 0
    \<and> cpu_di s'' = 0 \<and> topw s'' = kernel_exit \<and> cpu_sp s'' + 2 = t_stack_top child"
proof -
  obtain p stk i s3 where i: "i < 8" "segment = segment_of i"
    and s': "s' = (fork_memory kernel_exit stk parent segment s3)
        \<lparr>task_at := (task_at s)(p \<mapsto> fork_child parent segment stk (task_list s)), task_list := p\<rparr>"
    using fork_state [OF assms(1,2)] by metis
  have words: "(of_nat KERNEL_STACK_WORDS :: u16) = 2048" by (simp add: KERNEL_STACK_WORDS_def)
  have child: "child = fork_child parent segment stk (task_list s)" using assms(3) by (simp add: s')
  then have ksp: "t_kernel_sp child = stk + 4086" "t_stack_top child = stk + 4096"
    by (simp_all add: fork_child_def words)
  define k where "k = farmemsetw stk 0 (of_nat KERNEL_STACK_WORDS) 0x0050
      (copy_segment segment (t_segment parent) s3)"
  have "mem s' (linear 0x0050 off)
      = mem (pokews 0x0050 (fork_stack kernel_exit stk) k) (linear 0x0050 off)" for off
    using kernel_segment_apart [OF i(1), symmetric] i(2)
    by (simp add: s' fork_memory_def pokews_far k_def del: pokews.simps)
  then have "get_word off (mem s') = get_word off (mem (pokews 0x0050 (fork_stack kernel_exit stk) k))" for off
    by (simp add: get_word_def)
  then have stack: "get_word (stk + 4086) (mem s') = 0" "get_word (stk + 4088) (mem s') = 0"
    "get_word (stk + 4090) (mem s') = 0" "get_word (stk + 4092) (mem s') = 0"
    "get_word (stk + 4094) (mem s') = kernel_exit"
    by (simp_all add: fork_stack_def words pokew_put_word get_put_word_other Let_def)
  have kept: "get_word (stk + a) (mem (save_regs s')) = get_word (stk + a) (mem s')"
    if "a \<in> {4086, 4088, 4090, 4092, 4094}" for a
  proof (rule get_word_save_regs)
    have "stk + a - t_kernel_sp child = a - 4086" "stk + a + 1 - t_kernel_sp child = a - 4086 + 1"
      by (simp_all add: ksp)
    moreover have "unat (a - 4086) < 10" "unat (a - 4086 + 1) < 10" using that by auto
    ultimately have "\<not> 10 \<le> unat (stk + a - t_kernel_sp child)"
      "\<not> 10 \<le> unat (stk + a + 1 - t_kernel_sp child)" by (simp_all only: not_le)
    then show "stk + a \<notin> frame (cpu_sp s')" "stk + a + 1 \<notin> frame (cpu_sp s')"
      using assms(4) by blast+
  qed
  obtain a where a: "task_at s' (current_task s') = Some a"
    using switch_task_mapped [OF assms(5)] by blast
  have "s'' = restore_regs ((save_regs s')\<lparr>current_task := task_list s', cpu_sp := stk + 4086,
      task_at := (task_at s')(current_task s' \<mapsto> a\<lparr>t_kernel_sp := cpu_sp s' - 8\<rparr>)\<rparr>)"
    using assms(5) switch_task_eq [OF a assms(3)] by (simp add: ksp)
  moreover have "get_word (stk + 4086) (mem (save_regs s')) = 0" "get_word (stk + 4088) (mem (save_regs s')) = 0"
    "get_word (stk + 4090) (mem (save_regs s')) = 0" "get_word (stk + 4092) (mem (save_regs s')) = 0"
    "get_word (stk + 4094) (mem (save_regs s')) = kernel_exit"
    by (simp_all add: kept stack)
  ultimately show ?thesis
    by (simp add: restore_regs_eq peekw_get_word topw_def ksp add.assoc)
qed

section \<open>\<open>exec\<close>\<close>

lemma pokews_other:
  "(\<And>o' v. (o', v) \<in> set ovs \<Longrightarrow> off \<noteq> o' \<and> off \<noteq> o' + 1) \<Longrightarrow>
    mem (pokews seg ovs s) (linear seg off) = mem s (linear seg off)"
proof (induction ovs arbitrary: s)
  case (Cons ov ovs)
  obtain o' v where ov: "ov = (o', v)" by (cases ov)
  have "off \<noteq> o'" "off \<noteq> o' + 1" using Cons.prems [of o' v] by (simp_all add: ov)
  then show ?case using Cons.IH [of "pokew seg o' v s"] Cons.prems by (auto simp: ov pokew_def linear_inject)
qed simp

lemma pokews_peekw_other:
  assumes "\<And>o' v. (o', v) \<in> set ovs \<Longrightarrow> off - o' \<notin> {0, 1, -1}"
  shows "peekw seg off (pokews seg ovs s) = peekw seg off s"
proof -
  have "off \<noteq> o' \<and> off \<noteq> o' + 1 \<and> off + 1 \<noteq> o' \<and> off + 1 \<noteq> o' + 1" if "(o', v) \<in> set ovs" for o' v
    using assms [OF that] by (auto simp: algebra_simps eq_diff_eq)
  then show ?thesis by (simp add: peekw_def pokews_other)
qed

lemma pokews_read:
  "sorted_wrt (\<lambda>a b. fst a - fst b \<notin> {0, 1, -1}) ovs \<Longrightarrow> (off, v) \<in> set ovs \<Longrightarrow>
    peekw seg off (pokews seg ovs s) = v"
proof (induction ovs arbitrary: s)
  case (Cons ov ovs)
  show ?case
  proof (cases "ov = (off, v)")
    case True
    have "off - o' \<notin> {0, 1, -1}" if "(o', v') \<in> set ovs" for o' v'
      using Cons.prems(1) that True by fastforce
    then have "peekw seg off (pokews seg ovs (pokew seg off v s)) = peekw seg off (pokew seg off v s)"
      by (rule pokews_peekw_other)
    then show ?thesis using True by (simp add: peekw_pokew)
  next
    case False
    then show ?thesis using Cons by (cases ov) auto
  qed
qed simp

lemma poke_down_at:
  "mem (poke_down seg sp cs s) (linear seg off)
    = (if unat (sp - off) < length cs then cs ! unat (sp - off) else mem s (linear seg off))"
  if "length cs < 65536"
  using that
proof (induction cs arbitrary: sp s)
  case (Cons c cs)
  show ?case
  proof (cases "sp = off")
    case True
    have "unat (sp - 1 - off) = 65535" by (simp add: True)
    then show ?thesis using Cons True by (simp add: poke_def)
  next
    case False
    then have "sp - off \<noteq> 0" by simp
    then have "unat (sp - off) = Suc (unat (sp - off - 1))"
      by (metis Suc_pred' unat_gt_0 unat_minus_one word_gt_0)
    moreover have "sp - off - 1 = sp - 1 - off" by simp
    ultimately have "unat (sp - off) = Suc (unat (sp - 1 - off))" by (simp only:)
    then show ?thesis
      using Cons False by (simp add: poke_def linear_inject)
  qed
qed simp

lemma poke_more [simp]: "task_at (poke seg off v s) = task_at s"
  by (simp add: poke_def)

lemma poke_down_more [simp]:
  "task_at (poke_down seg sp cs s) = task_at s"
  by (induction cs arbitrary: sp s) (auto simp: poke_def)

text \<open>The words of the frame do not overlap, and they stay away from the parameter above them.\<close>

lemma exec_words_read:
  assumes "(sp - 22 + k, v) \<in> set (exec_words seg sp)"
  shows "peekw seg (sp - 22 + k) (pokews seg (exec_words seg sp) s) = v"
proof -
  have "sorted_wrt (\<lambda>a b. fst a - fst b \<notin> {0, 1, -1}) (exec_words seg sp)" by (simp add: exec_words_def Let_def)
  then show ?thesis using assms by (rule pokews_read)
qed

lemma exec_words_below:
  assumes "(off, v) \<in> set (exec_words seg sp)" and "2 \<le> unat (d :: u16)" "unat d \<le> 32800"
  shows "sp + d \<noteq> off \<and> sp + d \<noteq> off + 1"
proof -
  have "unat (off - sp) < 2 \<or> 32800 < unat (off - sp)" "unat (off + 1 - sp) < 2 \<or> 32800 < unat (off + 1 - sp)"
    using assms(1) by (auto simp: exec_words_def Let_def)
  then have "d \<noteq> off - sp" "d \<noteq> off + 1 - sp" using assms(2,3) by auto
  then show ?thesis by (auto simp: algebra_simps)
qed

lemma exec_param_at:
  assumes i: "i < length cs" and len: "length cs < 32769" and sp: "sp = (0xffff :: u16) - of_nat (length cs) - 1"
  shows "mem (pokews seg (exec_words seg sp) (poke_down seg 0xffff (rev cs) s)) (linear seg (sp + 2 + of_nat i)) = cs ! i"
proof -
  let ?d = "2 + of_nat i :: u16" and ?j = "length cs - 1 - i"
  have d: "unat ?d = 2 + i" using i len by (simp add: unat_add16 unat_of_nat take_bit_eq_mod)
  then have "sp + ?d \<noteq> off \<and> sp + ?d \<noteq> off + 1" if "(off, v) \<in> set (exec_words seg sp)" for off v
    using exec_words_below [OF that] i len by simp
  then have "mem (pokews seg (exec_words seg sp) (poke_down seg 0xffff (rev cs) s)) (linear seg (sp + ?d))
      = mem (poke_down seg 0xffff (rev cs) s) (linear seg (sp + ?d))"
    by (intro pokews_other) blast
  moreover have j: "unat (0xffff - (sp + ?d)) = ?j"
  proof -
    have "0xffff - (sp + ?d) = of_nat ?j" using i by (simp add: sp of_nat_diff)
    then show ?thesis using i len by (simp only:) (intro unat_of_nat_16, simp)
  qed
  moreover have "length (rev cs) < 65536" "unat (0xffff - (sp + ?d)) < length (rev cs)"
    unfolding j using i len by simp_all
  note poke_down_at [OF this(1), where sp = "0xffff" and off = "sp + ?d" and seg = seg and s = s, unfolded if_P [OF this(2)], unfolded j]
  ultimately have "mem (pokews seg (exec_words seg sp) (poke_down seg 0xffff (rev cs) s)) (linear seg (sp + ?d)) = rev cs ! ?j"
    by simp
  also have "\<dots> = cs ! (length cs - Suc ?j)" using i by (intro rev_nth) simp
  also have "length cs - Suc ?j = i" using i by simp
  finally show ?thesis by (simp add: add.assoc)
qed

text \<open>
  C10: \<open>exec\<close> leaves the current task with a start frame: the registers are 0, control goes to
  \<open>cs:ip\<close> = its segment at offset 0 with flags \<open>0x0200\<close>, the argument count above the frame is 1
  and above that stands the parameter, terminated by 0, up to the end of the segment.
\<close>

theorem exec_frame:
  assumes "task_at s (current_task s) = Some t" and "length (cstr param) < 32768"
  shows "\<exists>s' t'. exec param s = Inr ((), s') \<and> task_at s' (current_task s) = Some t'
    \<and> t_segment t' = t_segment t
    \<and> (\<forall>reg \<in> {rAX, rBX, rCX, rDX, rSI, rDI, rBP}. task_get_register (current_task s) reg s' = Inr (0, s'))
    \<and> peekw (t_segment t) (t_user_sp t' + 16) s' = 0
    \<and> task_get_register (current_task s) rCS s' = Inr (t_segment t, s')
    \<and> peekw (t_segment t) (t_user_sp t' + 20) s' = 0x0200
    \<and> peekw (t_segment t) (t_user_sp t' + 22) s' = 1
    \<and> bytes_at (t_segment t) (t_user_sp t' + 24) (Suc (length (cstr param))) (mem s') = cstr param @ [0]
    \<and> t_user_sp t' + 24 + of_nat (Suc (length (cstr param))) = 0"
proof -
  let ?cs = "cstr param @ [0]" and ?seg = "t_segment t"
  define sp where "sp = (0xffff :: u16) - of_nat (length ?cs) - 1"
  define m where "m = pokews ?seg (exec_words ?seg sp) (poke_down ?seg 0xffff (rev ?cs) s)"
  let ?t = "t\<lparr>t_user_sp := sp - 22\<rparr>"
  have exec: "exec param s = Inr ((), m\<lparr>task_at := (task_at s)(current_task s \<mapsto> ?t)\<rparr>)"
    using assms by (simp add: exec_def kernel_simps Let_def sp_def m_def del: pokews.simps)
  note regs = exec_words_read [where sp = sp and seg = ?seg and s = "poke_down ?seg 0xffff (rev ?cs) s", folded m_def]
  have at: "mem m (linear ?seg (sp + 2 + of_nat i)) = ?cs ! i" if "i < length ?cs" for i
    unfolding m_def by (rule exec_param_at [OF that _ sp_def]) (use assms(2) in simp)
  have bytes: "bytes_at ?seg (sp + 2) (length ?cs) (mem m) = ?cs"
    by (rule nth_equalityI) (simp_all add: bytes_at_def at del: length_append)
  have end_of: "sp + 2 + of_nat (length ?cs) = 0" by (simp add: sp_def)
  have words: "peekw ?seg (sp - 22 + k) m = 0" if "k \<in> {0, 2, 4, 6, 8, 10, 12, 16}" for k
    by (rule regs) (use that in \<open>auto simp: exec_words_def Let_def\<close>)
  have cs: "peekw ?seg (sp - 22 + 18) m = ?seg" and flags: "peekw ?seg (sp - 22 + 20) m = 0x0200"
    and argc: "peekw ?seg (sp - 22 + 22) m = 1"
    by (rule regs, simp add: exec_words_def Let_def)+
  let ?s = "m\<lparr>task_at := (task_at s)(current_task s \<mapsto> ?t)\<rparr>"
  have view: "peekw ?seg off ?s = peekw ?seg off m" for off by (simp add: peekw_def)
  have reg: "task_get_register (current_task s) reg ?s = Inr (peekw ?seg (sp - 22 + reg) m, ?s)" for reg
    by (simp add: task_get_register_def kernel_simps peekw_def)
  have "\<forall>reg \<in> {rAX, rBX, rCX, rDX, rSI, rDI, rBP}. task_get_register (current_task s) reg ?s = Inr (0, ?s)"
    using words [of 0] words [of 2] words [of 4] words [of 6] words [of 8] words [of 10] words [of 12]
    by (simp add: reg rAX_def rBX_def rCX_def rDX_def rSI_def rDI_def rBP_def)
  moreover have "task_get_register (current_task s) rCS ?s = Inr (?seg, ?s)"
    using cs by (simp only: reg rCS_def)
  moreover have "peekw ?seg (t_user_sp ?t + 16) ?s = 0" "peekw ?seg (t_user_sp ?t + 20) ?s = 0x0200"
    "peekw ?seg (t_user_sp ?t + 22) ?s = 1"
    using words [of 16] flags argc by (simp_all add: view)
  moreover have "bytes_at ?seg (t_user_sp ?t + 24) (Suc (length (cstr param))) (mem ?s) = ?cs"
    "t_user_sp ?t + 24 + of_nat (Suc (length (cstr param))) = 0"
    using bytes end_of by (simp_all add: add.commute [of 2])
  moreover have "task_at ?s (current_task s) = Some ?t" "t_segment ?t = ?seg" by simp_all
  ultimately show ?thesis using exec by blast
qed

section \<open>Witnesses\<close>

lemma take_block_more [simp]:
  "task_at (take_block b s) = task_at s" "task_list (take_block b s) = task_list s"
  "current_task (take_block b s) = current_task s" "cpu_sp (take_block b s) = cpu_sp s"
  by (simp_all add: take_block_def)

definition forking :: tasks where
  "forking = two_tasks\<lparr>cpu_sp := 0x4800\<rparr>"

lemma forking_inv: "heap_inv forking"
  using two_tasks_inv by (simp add: forking_def heap_inv_def)

lemma forking_malloc: "malloc SIZEOF_TASK forking = Inr (0x1000, take_block 0 forking)"
proof -
  have "first_block initial_zones SIZEOF_TASK = 0" by (simp add: initial_zones_def SIZEOF_TASK_def)
  then have "search_block forking SIZEOF_TASK = search_block demo_heap 12"
    by (simp add: search_block_def forking_def two_tasks_def demo_heap_def initial_zones_def)
  then show ?thesis
    using malloc_eq [OF forking_inv, of SIZEOF_TASK]
    by (simp add: demo_search) (simp add: forking_def two_tasks_def block_addr_def initial_zones_def)
qed

lemma forking_unused: "b < 13 \<Longrightarrow> \<not> used_block forking b"
  using demo_unused by (simp add: forking_def two_tasks_def demo_heap_def)

lemma forking_stack:
  "malloc 4096 (take_block 0 forking) = Inr (0x2000, take_block 8 (take_block 0 forking))"
proof -
  let ?s = "take_block 0 forking"
  have inv: "heap_inv ?s"
    using take_block_inv [OF forking_inv, of 0] forking_unused [of 0]
    by (simp add: forking_def two_tasks_def)
  have total: "total_blocks ?s = 13" by (simp add: take_block_def forking_def two_tasks_def)
  have "first_block (zones ?s) 4096 = 8" "skip_full_bytes (bitmap ?s) 13 8 = 8"
    by (simp_all add: take_block_def forking_def two_tasks_def initial_zones_def
        skip_full_bytes.simps BITMAP_SIZE_def bit_mask_def)
  moreover have "\<not> used_block ?s 8"
    using take_block_used [OF forking_inv, of 0 8] forking_unused [of 8]
    by (simp add: forking_def two_tasks_def)
  then have "next_free (bitmap ?s) 13 8 = 8" by (subst next_free.simps) simp
  ultimately have "search_block ?s 4096 = 8" by (simp add: search_block_def total)
  then show ?thesis
    using malloc_eq [OF inv, of 4096] total
    by (simp add: take_block_def forking_def two_tasks_def block_addr_def initial_zones_def)
qed

lemma forking_fork:
  "\<exists>s'. fork 0x1234 forking = Inr (0x3050, s') \<and> current_task s' = 0x100 \<and> task_list s' = 0x1000
    \<and> cpu_sp s' = 0x4800 \<and> task_at s' 0x100 = Some (idle_task 0x3000 0x200)
    \<and> task_at s' 0x1000 = Some (fork_child (idle_task 0x3000 0x200) 0x3050 0x2000 0x100)"
proof -
  have "find (\<lambda>k. \<not> segment_used 0xc0 k) [0..<8] = Some 2"
    by (simp add: upt_conv_Cons segment_used_def segment_bit_def)
  then have seg: "allocate_segment (take_block 8 (take_block 0 forking))
      = Inr (0x3050, (take_block 8 (take_block 0 forking))\<lparr>segment_bitmap := 0xe0\<rparr>)"
    by (simp add: allocate_segment_eq take_block_def forking_def two_tasks_def segment_of_def
        segment_bit_def)
  have words: "(2 :: u16) * of_nat KERNEL_STACK_WORDS = 4096" by (simp add: KERNEL_STACK_WORDS_def)
  have parent: "current_task forking = 0x100" "task_at forking 0x100 = Some (idle_task 0x3000 0x200)"
    "task_list forking = 0x100" "cpu_sp forking = 0x4800"
    by (simp_all add: forking_def two_tasks_def)
  show ?thesis
    using parent
    by (simp add: fork_def kernel_simps forking_malloc words forking_stack seg
        farmemcpy_def farmemsetw_def del: pokews.simps)
qed

theorem fork_child_memory_witness:
  "\<exists>s'. fork 0x1234 forking = Inr (0x3050, s') \<and> task_get_register (task_list s') rAX s' = Inr (0, s')"
proof -
  obtain s' where f: "fork 0x1234 forking = Inr (0x3050, s')" using forking_fork by blast
  have "task_at forking (current_task forking) = Some (idle_task 0x3000 0x200)"
    "t_segment (idle_task 0x3000 0x200) = segment_of 0" "segment_used (segment_bitmap forking) 0"
    by (simp_all add: forking_def two_tasks_def idle_task_def segment_of_def segment_used_def
        segment_bit_def)
  from fork_child_memory [OF f this(1,2) _ this(3)] f show ?thesis by auto
qed

theorem exec_frame_witness:
  "\<exists>s' t'. exec [0x61, 0x62, 0] two_tasks = Inr ((), s') \<and> task_at s' 0x100 = Some t'
    \<and> bytes_at 0x1050 (t_user_sp t' + 24) 3 (mem s') = [0x61, 0x62, 0]"
proof -
  have "task_at two_tasks (current_task two_tasks) = Some (idle_task 0x3000 0x200)"
    "cstr [0x61, 0x62, 0] = [0x61, 0x62]" "current_task two_tasks = 0x100"
    by (simp_all add: two_tasks_def cstr_def)
  note t = this
  have "length (cstr [0x61, 0x62, 0]) < 32768" by (simp add: t)
  note e = exec_frame [OF t(1) this, unfolded t]
  have "t_segment (idle_task 0x3000 0x200) = 0x1050" "Suc (length [0x61, 0x62 :: u8]) = 3"
    by (simp_all add: idle_task_def)
  note e = e [unfolded this]
  show ?thesis using e by (elim exE conjE) (intro exI conjI; simp)
qed

theorem fork_first_switch_witness:
  "\<exists>s' s''. fork 0x1234 forking = Inr (0x3050, s') \<and> switch_task 0x100 0x1000 s' = Inr ((), s'')
    \<and> topw s'' = 0x1234 \<and> cpu_sp s'' + 2 = 0x3000"
proof -
  let ?child = "fork_child (idle_task 0x3000 0x200) 0x3050 0x2000 0x100"
  obtain s' where f: "fork 0x1234 forking = Inr (0x3050, s')" "current_task s' = 0x100"
    "task_list s' = 0x1000" "cpu_sp s' = 0x4800" "task_at s' 0x100 = Some (idle_task 0x3000 0x200)"
    "task_at s' 0x1000 = Some ?child"
    using forking_fork by blast
  obtain s'' where sw: "switch_task 0x100 0x1000 s' = Inr ((), s'')"
    using switch_task_eq [OF f(5,6)] by blast
  have parent: "task_at forking (current_task forking) = Some (idle_task 0x3000 0x200)"
    by (simp add: forking_def two_tasks_def)
  have child: "t_kernel_sp ?child = 0x2ff6" "t_stack_top ?child = 0x3000"
    by (simp_all add: fork_child_def KERNEL_STACK_WORDS_def)
  have "\<forall>off \<in> frame (cpu_sp s'). 10 \<le> unat (off - t_kernel_sp ?child)"
    by (simp add: f(4) frame_def child)
  from fork_first_switch [OF f(1) parent _ this] show ?thesis using f sw child by simp
qed

end
