(* ===== verification/Irq.thy ===== *)
theory Irq
  imports Fork
begin

text \<open>
  Interrupts, \<^verbatim>\<open>kernel/int_disp.c\<close>: the interrupt vector table, the table of captured handlers,
  the lists of tasks that wait for an interrupt request, and the dispatcher that
  \<^verbatim>\<open>kernel/int_stub.s\<close> calls.

  Code addresses are 16-bit words, 0 standing for no handler; what the code at an address does
  is the parameter \<open>call\<close>, and the addresses of the entry points \<open>intr_0\<close>, ..., \<open>intr_24\<close> and
  \<open>intr_quick\<close> are the parameters \<open>stub\<close> and \<open>quick\<close>.  Messages printed for unhandled interrupts
  are not modelled.
\<close>

unbundle bit_operations_syntax

section \<open>State\<close>

record irq_wait =
  iw_task :: ptr
  iw_next :: ptr

record irqs = tasks +
  func_table :: "u16 list"
  irq_events :: "ptr list"
  irq_wait_at :: "ptr \<Rightarrow> irq_wait option"

definition SIZEOF_IRQ_WAIT :: u16 where
  "SIZEOF_IRQ_WAIT = 4"

section \<open>Waiting for an interrupt request\<close>

text \<open>
  \<open>irq\<close> is an \<open>int\<close>; a negative one passes the range check and indexes outside the array.
\<close>

definition irq_set_wakeup :: "ptr \<Rightarrow> u16 \<Rightarrow> ('z irqs_scheme, unit) kmon" where
  "irq_set_wakeup task irq =
     bindK (malloc SIZEOF_IRQ_WAIT) (\<lambda>new_wait.
       if 16 \<le> sint irq then failK (Panic ''irq index out of range'')
       else if new_wait = 0 then failK (Panic ''irq wait alloc failed'')
       else if sint irq < 0 then failK (BadPtr irq)
       else modifyK (\<lambda>s. s\<lparr>
         irq_wait_at := (irq_wait_at s)(new_wait \<mapsto>
           \<lparr>iw_task = task, iw_next = (if irq_events s ! unat irq = 0 then 0 else irq_events s ! unat irq)\<rparr>),
         irq_events := (irq_events s)[unat irq := new_wait]\<rparr>))"

partial_function (option) resume_loop :: "ptr \<Rightarrow> 'z irqs_scheme \<Rightarrow> (kerror + 'z irqs_scheme) option" where
  "resume_loop item s =
     (if item = 0 then Some (Inr s)
      else case irq_wait_at s item of
        None \<Rightarrow> Some (Inl (BadPtr item))
      | Some w \<Rightarrow>
          (case task_wakeup (iw_task w) s of
             Inl e \<Rightarrow> Some (Inl e)
           | Inr (_, s1) \<Rightarrow>
               (case free item s1 of
                  Inl e \<Rightarrow> Some (Inl e)
                | Inr (_, s2) \<Rightarrow>
                    resume_loop (iw_next w) (s2\<lparr>irq_wait_at := (irq_wait_at s2)(item := None)\<rparr>))))"

definition irq_resume_waiting_tasks :: "u16 \<Rightarrow> ('z irqs_scheme, unit) kmon" where
  "irq_resume_waiting_tasks irq =
     bindK (getK (\<lambda>s. irq_events s ! unat irq)) (\<lambda>item.
       thenK (runK (resume_loop item))
         (modifyK (\<lambda>s. s\<lparr>irq_events := (irq_events s)[unat irq := 0]\<rparr>)))"

section \<open>Vectors and handlers\<close>

definition intr_set_handler :: "u16 \<Rightarrow> u16 \<Rightarrow> u16 \<Rightarrow> ('z irqs_scheme, unit) kmon" where
  "intr_set_handler index cs ip =
     (if index > 0xff then failK (Panic ''index out of range'')
      else modifyK (\<lambda>s. pokew 0 (index * 4 + 2) cs (pokew 0 (index * 4) ip s)))"

fun set_handlers :: "(u16 \<times> u16) list \<Rightarrow> ('z irqs_scheme, unit) kmon" where
  "set_handlers [] = retK ()"
| "set_handlers ((index, ip) # hs) = thenK (intr_set_handler index 0x0050 ip) (set_handlers hs)"

definition intr_init :: "(nat \<Rightarrow> u16) \<Rightarrow> u16 \<Rightarrow> ('z irqs_scheme, unit) kmon" where
  "intr_init stub quick =
     thenK (set_handlers (map (\<lambda>i. (of_nat i, quick)) [0..<256]))
       (set_handlers
         [(0x00, stub 0), (0x01, stub 1), (0x02, stub 2), (0x03, stub 3), (0x04, stub 4),
          (0x05, stub 5), (0x06, stub 6), (0x07, stub 7), (0x08, stub 8), (0x09, stub 9),
          (0x0a, stub 10), (0x0b, stub 11), (0x0c, stub 12), (0x0d, stub 13), (0x0e, stub 14),
          (0x0f, stub 15), (0x70, stub 16), (0x71, stub 17), (0x72, stub 18), (0x73, stub 19),
          (0x74, stub 20), (0x75, stub 21), (0x76, stub 22), (0x77, stub 23), (0x80, stub 24)])"

definition irq_capture :: "u16 \<Rightarrow> u16 \<Rightarrow> ('z irqs_scheme, u16) kmon" where
  "irq_capture irq func s =
     (if irq \<ge> 16 then Inl (Panic ''irq out of range'')
      else if func_table s ! unat (irq + 8) \<noteq> 0 then Inr (0, s)
      else Inr (1, s\<lparr>func_table := (func_table s)[unat (irq + 8) := func]\<rparr>))"

definition exception_capture :: "u16 \<Rightarrow> u16 \<Rightarrow> ('z irqs_scheme, u16) kmon" where
  "exception_capture exc func s =
     (if exc \<ge> 8 then Inl (Panic ''exception out of range'')
      else if func_table s ! unat exc \<noteq> 0 then Inr (0, s)
      else Inr (1, s\<lparr>func_table := (func_table s)[unat exc := func]\<rparr>))"

definition sys_capture :: "u16 \<Rightarrow> ('z irqs_scheme, unit) kmon" where
  "sys_capture func = modifyK (\<lambda>s. s\<lparr>func_table := (func_table s)[24 := func]\<rparr>)"

section \<open>Dispatching\<close>

definition exception_handler ::
  "(u16 \<Rightarrow> u16 \<Rightarrow> ('z irqs_scheme, unit) kmon) \<Rightarrow> u16 \<Rightarrow> ('z irqs_scheme, unit) kmon" where
  "exception_handler call num =
     bindK (getK (\<lambda>s. func_table s ! unat num)) (\<lambda>func.
       if func \<noteq> 0 then call func num else failK (Panic ''''))"

definition irq_handler ::
  "(u16 \<Rightarrow> u16 \<Rightarrow> ('z irqs_scheme, unit) kmon) \<Rightarrow> u16 \<Rightarrow> ('z irqs_scheme, unit) kmon" where
  "irq_handler call num =
     bindK (getK (\<lambda>s. func_table s ! unat (num + 8))) (\<lambda>func.
       thenK (whenK (func \<noteq> 0) (call func num))
      (thenK (irq_resume_waiting_tasks num)
      (thenK (whenK (num \<ge> 8) (modifyK (outb 0xA0 0x20)))
         (modifyK (outb 0x20 0x20)))))"

definition intr_dispatcher ::
  "(u16 \<Rightarrow> u16 \<Rightarrow> ('z irqs_scheme, unit) kmon) \<Rightarrow> u16 \<Rightarrow> ('z irqs_scheme, unit) kmon" where
  "intr_dispatcher call num =
     bindK (getK (\<lambda>s. func_table s ! unat num)) (\<lambda>func.
       thenK task_check_kernel_stack
         (if num = 24 then
            (if func = 0 then retK () else thenK (call func num) task_check_kernel_stack)
          else if num \<ge> 8 then thenK (irq_handler call (num - 8)) task_check_kernel_stack
          else thenK (exception_handler call num) task_check_kernel_stack))"

section \<open>The interrupt vector table\<close>

text \<open>Segment and offset stored for a vector.\<close>

definition vector_entry :: "'z machine_scheme \<Rightarrow> u16 \<Rightarrow> u16 \<times> u16" where
  "vector_entry s i = (peekw 0 (i * 4 + 2) s, peekw 0 (i * 4) s)"

lemma vector_offsets:
  assumes "i \<le> 0xff" and "j \<le> 0xff" and "a < 4" and "b < 4"
  shows "i * 4 + a = j * 4 + (b :: u16) \<longleftrightarrow> i = j \<and> a = b"
proof -
  have u: "unat (k * 4 + c) = 4 * unat k + unat c" if "k \<le> 0xff" "c < 4" for k c :: u16
  proof -
    have "unat k \<le> 255" "unat c < 4" using that by (simp_all add: word_le_nat_alt word_less_nat_alt)
    then show ?thesis by (simp add: unat_add16 unat_mult16)
  qed
  have "unat a < 4" "unat b < 4" using assms(3,4) by (simp_all add: word_less_nat_alt)
  then have "4 * unat i + unat a = 4 * unat j + unat b \<longleftrightarrow> unat i = unat j \<and> unat a = unat b"
    by presburger
  then show ?thesis
    using u [OF assms(1,3)] u [OF assms(2,4)] by (simp add: word_unat_eq_iff)
qed

lemma vector_entry_set:
  assumes "i \<le> 0xff" and "j \<le> 0xff"
  shows "vector_entry (pokew 0 (i * 4 + 2) cs (pokew 0 (i * 4) ip s)) j
    = (if j = i then (cs, ip) else vector_entry s j)"
proof -
  have o: "j * 4 + 2 = i * 4 + 2 \<longleftrightarrow> i = j" "j * 4 + 2 \<noteq> i * 4 + 3" "j * 4 + 3 \<noteq> i * 4 + 2"
    "j * 4 + 2 \<noteq> i * 4" "j * 4 + 2 \<noteq> i * 4 + 1" "j * 4 + 3 \<noteq> i * 4"
    "j * 4 \<noteq> i * 4 + 2" "j * 4 \<noteq> i * 4 + 3" "j * 4 + 1 \<noteq> i * 4 + 2"
    "j * 4 = i * 4 \<longleftrightarrow> i = j" "j * 4 \<noteq> i * 4 + 1" "j * 4 + 1 \<noteq> i * 4"
    using vector_offsets [OF assms(2,1), of 2 2] vector_offsets [OF assms(2,1), of 2 3]
      vector_offsets [OF assms(2,1), of 3 2] vector_offsets [OF assms(2,1), of 2 0]
      vector_offsets [OF assms(2,1), of 2 1] vector_offsets [OF assms(2,1), of 3 0]
      vector_offsets [OF assms(2,1), of 0 2] vector_offsets [OF assms(2,1), of 0 3]
      vector_offsets [OF assms(2,1), of 1 2] vector_offsets [OF assms(2,1), of 0 0]
      vector_offsets [OF assms(2,1), of 0 1] vector_offsets [OF assms(2,1), of 1 0]
    by auto
  have three: "k + 2 + 1 = k + (3 :: u16)" for k by simp
  show ?thesis
  proof (cases "j = i")
    case True
    then show ?thesis using o by (simp add: vector_entry_def peekw_pokew peekw_pokew_other three)
  next
    case False
    then show ?thesis using o by (simp add: vector_entry_def peekw_pokew_other three)
  qed
qed

lemma set_handlers_entries:
  "\<forall>i \<in> fst ` set hs. i \<le> 0xff \<Longrightarrow> \<exists>s'. set_handlers hs s = Inr ((), s')
    \<and> (\<forall>i \<le> 0xff. vector_entry s' i
        = (case map_of (rev hs) i of None \<Rightarrow> vector_entry s i | Some ip \<Rightarrow> (0x0050, ip)))"
proof (induction hs arbitrary: s)
  case (Cons h hs)
  obtain j ip where h: "h = (j, ip)" by (cases h)
  have j: "j \<le> 0xff" using Cons.prems by (simp add: h)
  let ?s = "pokew 0 (j * 4 + 2) 0x0050 (pokew 0 (j * 4) ip s)"
  obtain s' where s': "set_handlers hs ?s = Inr ((), s')"
    "\<forall>i \<le> 0xff. vector_entry s' i
        = (case map_of (rev hs) i of None \<Rightarrow> vector_entry ?s i | Some ip \<Rightarrow> (0x0050, ip))"
    using Cons.IH [of ?s] Cons.prems by auto
  have "intr_set_handler j 0x0050 ip s = Inr ((), ?s)"
    using j by (simp add: intr_set_handler_def kernel_simps)
  then have "set_handlers (h # hs) s = Inr ((), s')" using s'(1) by (simp add: h kernel_simps)
  moreover have "vector_entry s' i = (case map_of (rev (h # hs)) i of None \<Rightarrow> vector_entry s i
      | Some ip \<Rightarrow> (0x0050, ip))" if "i \<le> 0xff" for i
    using s'(2) that vector_entry_set [OF j that]
    by (auto simp: h map_of_append map_add_def split: option.splits)
  ultimately show ?case by blast
qed (simp add: kernel_simps)

text \<open>The entry points by vector number, as \<open>intr_init\<close> means to install them.\<close>

definition vector_target :: "(nat \<Rightarrow> u16) \<Rightarrow> u16 \<Rightarrow> nat \<Rightarrow> u16" where
  "vector_target stub quick i =
     (if i < 16 then stub i
      else if 0x70 \<le> i \<and> i < 0x78 then stub (i - 0x70 + 16)
      else if i = 0x80 then stub 24 else quick)"

lemma map_of_words:
  assumes "i < 65536" and "\<forall>k \<in> fst ` set xs. k < 65536"
  shows "map_of (map (\<lambda>(k, v). (of_nat k :: u16, v)) xs) (of_nat i) = map_of xs i"
  using assms by (induction xs) (auto simp: of_nat_16_inj)

definition own_vectors :: "(nat \<Rightarrow> u16) \<Rightarrow> (nat \<times> u16) list" where
  "own_vectors stub =
     [(0x00, stub 0), (0x01, stub 1), (0x02, stub 2), (0x03, stub 3), (0x04, stub 4),
      (0x05, stub 5), (0x06, stub 6), (0x07, stub 7), (0x08, stub 8), (0x09, stub 9),
      (0x0a, stub 10), (0x0b, stub 11), (0x0c, stub 12), (0x0d, stub 13), (0x0e, stub 14),
      (0x0f, stub 15), (0x70, stub 16), (0x71, stub 17), (0x72, stub 18), (0x73, stub 19),
      (0x74, stub 20), (0x75, stub 21), (0x76, stub 22), (0x77, stub 23), (0x80, stub 24)]"

lemma own_vectors_target:
  "(case map_of (rev (own_vectors stub)) i of None \<Rightarrow> quick | Some ip \<Rightarrow> ip) = vector_target stub quick i"
proof -
  consider "i < 8" | j where "j < 8" "i = 8 + j" | j where "j < 8" "i = 0x70 + j" | "i = 0x80"
    | "\<not> i < 16" "\<not> (0x70 \<le> i \<and> i < 0x78)" "i \<noteq> 0x80"
  proof -
    have "\<exists>j < 8. i = 8 + j" if "\<not> i < 8" "i < 16"
      by (intro exI [of _ "i - 8"] conjI; use that in linarith)
    moreover have "\<exists>j < 8. i = 0x70 + j" if "0x70 \<le> i" "i < 0x78"
      by (intro exI [of _ "i - 0x70"] conjI; use that in linarith)
    ultimately show thesis using that by blast
  qed
  then show ?thesis
  proof cases
    case 1
    from less_8_cases [OF this] show ?thesis
      by (elim insertE emptyE) (simp_all add: own_vectors_def vector_target_def)
  next
    case 2
    from less_8_cases [OF 2(1)] 2(2) show ?thesis
      by (elim insertE emptyE) (simp_all add: own_vectors_def vector_target_def)
  next
    case 3
    from less_8_cases [OF 3(1)] 3(2) show ?thesis
      by (elim insertE emptyE) (simp_all add: own_vectors_def vector_target_def)
  next
    case 4
    then show ?thesis by (simp add: own_vectors_def vector_target_def)
  next
    case 5
    then have "i \<notin> fst ` set (rev (own_vectors stub))" by (auto simp: own_vectors_def)
    then have "map_of (rev (own_vectors stub)) i = None" by (simp only: map_of_eq_None_iff) simp
    then show ?thesis using 5 by (auto simp: vector_target_def)
  qed
qed

text \<open>
  After \<open>intr_init\<close> every one of the 256 vectors points into the kernel segment: the first
  sixteen and \<open>0x70\<close> to \<open>0x77\<close> to their own entry points, \<open>0x80\<close> to the system call and all
  others to the stub that returns at once.
\<close>

theorem intr_init_vectors:
  "\<exists>s'. intr_init stub quick s = Inr ((), s')
    \<and> (\<forall>i < 256. vector_entry s' (of_nat i) = (0x0050, vector_target stub quick i))"
proof -
  let ?hs = "map (\<lambda>i. (of_nat i, quick)) [0..<256] :: (u16 \<times> u16) list"
  have "\<forall>i \<in> fst ` set ?hs. i \<le> 0xff"
    by (auto simp: le16_iff unat_of_nat take_bit_eq_mod)
  then obtain s1 where s1: "set_handlers ?hs s = Inr ((), s1)"
    "\<forall>i \<le> 0xff. vector_entry s1 i
        = (case map_of (rev ?hs) i of None \<Rightarrow> vector_entry s i | Some ip \<Rightarrow> (0x0050, ip))"
    using set_handlers_entries by blast
  let ?own = "map (\<lambda>(k, v). (of_nat k :: u16, v)) (own_vectors stub)"
  have "\<forall>i \<in> fst ` set ?own. i \<le> 0xff" by (simp add: own_vectors_def)
  then obtain s2 where s2: "set_handlers ?own s1 = Inr ((), s2)"
    "\<forall>i \<le> 0xff. vector_entry s2 i
        = (case map_of (rev ?own) i of None \<Rightarrow> vector_entry s1 i | Some ip \<Rightarrow> (0x0050, ip))"
    using set_handlers_entries by blast
  have "intr_init stub quick s = Inr ((), s2)"
    using s1(1) s2(1) by (simp add: intr_init_def thenK_Inr own_vectors_def del: set_handlers.simps upt_rec_numeral)
  moreover have "vector_entry s2 (of_nat i) = (0x0050, vector_target stub quick i)" if "i < 256" for i
  proof -
    have i: "(of_nat i :: u16) \<le> 0xff" using that by (simp add: le16_iff unat_of_nat take_bit_eq_mod)
    have "(of_nat i, quick) \<in> set (rev ?hs)" using that by auto
    then obtain v where v: "map_of (rev ?hs) (of_nat i) = Some v"
      by (metis not_Some_eq weak_map_of_SomeI)
    then have "v = quick" by (auto dest: map_of_SomeD)
    then have "vector_entry s1 (of_nat i) = (0x0050, quick)" using s1(2) i v by simp
    moreover have "map_of (rev ?own) (of_nat i) = map_of (rev (own_vectors stub)) i"
      unfolding rev_map using that
      by (intro map_of_words) (auto simp: own_vectors_def)
    ultimately show ?thesis
      using s2(2) i own_vectors_target [where stub = stub and i = i and quick = quick] by (auto split: option.splits)
  qed
  ultimately show ?thesis by blast
qed

section \<open>Waking the tasks that wait\<close>

lemma heap_inv_irq_wait_at [simp]: "heap_inv (irq_wait_at_update f s) = heap_inv s"
  and live_irq_wait_at [simp]: "live (irq_wait_at_update f s) = live s"
  and heap_inv_irq_events [simp]: "heap_inv (irq_events_update g s) = heap_inv s"
  and live_irq_events [simp]: "live (irq_events_update g s) = live s"
  by (simp_all add: heap_inv_def live_def block_addr_def)

text \<open>The items of a wait list, in order.\<close>

fun wait_chain :: "(ptr \<Rightarrow> irq_wait option) \<Rightarrow> ptr \<Rightarrow> (ptr \<times> ptr) list \<Rightarrow> bool" where
  "wait_chain m p [] = (p = 0)"
| "wait_chain m p ((q, t) # qs) = (p = q \<and> q \<noteq> 0 \<and>
     (case m q of None \<Rightarrow> False | Some w \<Rightarrow> iw_task w = t \<and> wait_chain m (iw_next w) qs))"

lemma wait_chain_upd:
  "q \<notin> fst ` set ws \<Longrightarrow> wait_chain m p ws \<Longrightarrow> wait_chain (m(q := None)) p ws"
  by (induction m p ws rule: wait_chain.induct) (auto split: option.splits)

definition woken :: "task \<Rightarrow> task" where
  "woken t = t\<lparr>t_state := (case t_state t of SLEEPING \<Rightarrow> RUNNING | RUNNING \<Rightarrow> WAKEN_BEFORE_SLEEP
     | st \<Rightarrow> st)\<rparr>"

definition can_wake :: "'z tasks_scheme \<Rightarrow> ptr \<Rightarrow> bool" where
  "can_wake s p \<longleftrightarrow> (case task_at s p of None \<Rightarrow> False | Some t \<Rightarrow> t_state t = RUNNING \<or> t_state t = SLEEPING)"

lemma task_wakeup_woken:
  "can_wake s p \<Longrightarrow> \<exists>t. task_at s p = Some t \<and>
    task_wakeup p s = Inr ((), s\<lparr>task_at := (task_at s)(p \<mapsto> woken t)\<rparr>)"
  by (auto simp: can_wake_def task_wakeup_def kernel_simps woken_def split: option.splits)

definition wake_tasks :: "ptr set \<Rightarrow> (ptr \<Rightarrow> task option) \<Rightarrow> ptr \<Rightarrow> task option" where
  "wake_tasks ps m p = (if p \<in> ps then map_option woken (m p) else m p)"

lemma wake_tasks_insert:
  "p \<notin> ps \<Longrightarrow> m p = Some t \<Longrightarrow> wake_tasks ps (m(p \<mapsto> woken t)) = wake_tasks (insert p ps) m"
  by (auto simp: wake_tasks_def fun_eq_iff)

lemma resume_loop_wakes:
  assumes "heap_inv s" and "wait_chain (irq_wait_at s) item ws"
    and "distinct (map fst ws)" and "distinct (map snd ws)"
    and "\<forall>q \<in> set (map fst ws). \<exists>k. (unat q, k) \<in> live s" and "\<forall>p \<in> set (map snd ws). can_wake s p"
  shows "\<exists>s'. resume_loop item s = Some (Inr s') \<and> heap_inv s'
    \<and> live s' = {r \<in> live s. \<forall>q \<in> set (map fst ws). fst r \<noteq> unat q}
    \<and> task_at s' = wake_tasks (set (map snd ws)) (task_at s) \<and> irq_events s' = irq_events s"
  using assms
proof (induction ws arbitrary: item s)
  case Nil
  then show ?case by (subst resume_loop.simps) (auto simp: wake_tasks_def)
next
  case (Cons w ws)
  obtain q p where w: "w = (q, p)" by (cases w)
  obtain v where v: "item = q" "q \<noteq> 0" "irq_wait_at s q = Some v" "iw_task v = p"
    "wait_chain (irq_wait_at s) (iw_next v) ws"
    using Cons.prems(2) by (auto simp: w split: option.splits)
  obtain t where t: "task_at s p = Some t" and
    wake: "task_wakeup p s = Inr ((), s\<lparr>task_at := (task_at s)(p \<mapsto> woken t)\<rparr>)" (is "_ = Inr ((), ?s1)")
    using task_wakeup_woken [of s p] Cons.prems(6) by (auto simp: w)
  obtain k where "(unat q, k) \<in> live ?s1" using Cons.prems(5) by (auto simp: w)
  then obtain s2 where s2: "free q ?s1 = Inr ((), s2)" "heap_inv s2"
    "live s2 = {r \<in> live s. fst r \<noteq> unat q}"
    using heap_alloc.release_address [of ?s1 q k] Cons.prems(1) by auto
  obtain bm u where fr: "s2 = ?s1\<lparr>bitmap := bm, used_bytes := u\<rparr>" using free_frame [OF s2(1)] by blast
  let ?s3 = "s2\<lparr>irq_wait_at := (irq_wait_at s2)(q := None)\<rparr>"
  have fresh: "q \<notin> fst ` set ws" "p \<notin> snd ` set ws" using Cons.prems(3,4) by (auto simp: w)
  have live: "\<forall>q' \<in> set (map fst ws). \<exists>k. (unat q', k) \<in> live ?s3"
  proof
    fix q' assume q': "q' \<in> set (map fst ws)"
    then have "unat q' \<noteq> unat q" using fresh by (auto simp: word_unat_eq_iff [symmetric])
    then show "\<exists>k. (unat q', k) \<in> live ?s3" using Cons.prems(5) q' s2(3) by auto
  qed
  have can: "\<forall>p' \<in> set (map snd ws). can_wake ?s3 p'"
    using Cons.prems(6) fresh by (auto simp: can_wake_def fr split: option.splits)
  have inv: "heap_inv ?s3" and dist: "distinct (map fst ws)" "distinct (map snd ws)"
    using s2(2) Cons.prems(3,4) by simp_all
  have "wait_chain (irq_wait_at ?s3) (iw_next v) ws"
    using wait_chain_upd [OF fresh(1) v(5)] by (simp add: fr)
  then obtain s' where s': "resume_loop (iw_next v) ?s3 = Some (Inr s')" "heap_inv s'"
    "live s' = {r \<in> live ?s3. \<forall>q \<in> set (map fst ws). fst r \<noteq> unat q}"
    "task_at s' = wake_tasks (set (map snd ws)) (task_at ?s3)" "irq_events s' = irq_events ?s3"
    using Cons.IH [OF inv _ dist live can] by blast
  have "resume_loop item s = Some (Inr s')"
    using v wake s2(1) s'(1) by (subst resume_loop.simps) simp
  moreover have "live s' = {r \<in> live s. \<forall>q \<in> set (map fst (w # ws)). fst r \<noteq> unat q}"
    by (auto simp: s'(3) s2(3) w)
  moreover have "task_at s' = wake_tasks (set (map snd (w # ws))) (task_at s)"
    using wake_tasks_insert [of p "snd ` set ws" "task_at s" t] fresh(2) t by (simp add: s'(4) fr w)
  moreover have "irq_events s' = irq_events s" by (simp add: s'(5) fr)
  ultimately show ?case using s'(2) by blast
qed


text \<open>A task that waits twice and is not asleep when the interrupt comes makes the kernel panic.\<close>

lemma resume_twice_panics:
  assumes "wait_chain (irq_wait_at s) item [(q, p), (q', p)]" and "q \<noteq> q'"
    and "task_at s p = Some t" and "t_state t = RUNNING" and "heap_inv s" and "(unat q, k) \<in> live s"
  shows "resume_loop item s = Some (Inl (Panic ''second wakeup''))"
proof -
  obtain v v' where v: "item = q" "q \<noteq> 0" "irq_wait_at s q = Some v" "iw_task v = p" "iw_next v = q'"
    "q' \<noteq> 0" "irq_wait_at s q' = Some v'" "iw_task v' = p"
    using assms(1) by (auto split: option.splits)
  let ?s1 = "s\<lparr>task_at := (task_at s)(p \<mapsto> t\<lparr>t_state := WAKEN_BEFORE_SLEEP\<rparr>)\<rparr>"
  have wake: "task_wakeup p s = Inr ((), ?s1)"
    using assms by (simp add: task_wakeup_def kernel_simps)
  obtain s2 where s2: "free q ?s1 = Inr ((), s2)"
    using heap_alloc.release_address [of ?s1 q k] assms(5,6) by auto
  obtain bm u where "s2 = ?s1\<lparr>bitmap := bm, used_bytes := u\<rparr>" using free_frame [OF s2] by blast
  then have s3: "task_at s2 p = Some (t\<lparr>t_state := WAKEN_BEFORE_SLEEP\<rparr>)" "irq_wait_at s2 = irq_wait_at s"
    by simp_all
  let ?s3 = "s2\<lparr>irq_wait_at := (irq_wait_at s2)(q := None)\<rparr>"
  have "resume_loop item s = resume_loop q' ?s3"
    using v wake s2 by (subst resume_loop.simps) simp
  also have "\<dots> = Some (Inl (Panic ''second wakeup''))"
    using v s3 assms(2) by (subst resume_loop.simps) (simp add: task_wakeup_def kernel_simps)
  finally show ?thesis .
qed

text \<open>
  C13: an interrupt request that is handled without an error ends with the end-of-interrupt
  command, to the second controller first when the request came through it.
\<close>

theorem irq_handler_acknowledges:
  assumes "irq_handler call num s = Inr ((), s')"
  shows "\<exists>out. port_out s' = out @ (if num \<ge> 8 then [(0xA0, 0x20)] else []) @ [(0x20, 0x20)]"
proof -
  obtain s2 where "(thenK (whenK (num \<ge> 8) (modifyK (outb 0xA0 0x20))) (modifyK (outb 0x20 0x20))) s2 = Inr ((), s')"
    using assms by (auto simp: irq_handler_def bindK_eq_Inr thenK_eq_Inr)
  then show ?thesis
    by (cases "num \<ge> 8") (auto simp: kernel_simps outb_def)
qed

section \<open>Witnesses\<close>

definition waiting :: irqs where
  "waiting = tasks.extend
     (two_tasks\<lparr>bitmap := (replicate BITMAP_SIZE 0)[0 := 0x80], used_bytes := 512\<rparr>)
     (irqs.fields (replicate 25 0) ((replicate 16 0)[3 := 0x1000])
        [0x1000 \<mapsto> \<lparr>iw_task = 0x100, iw_next = 0\<rparr>])"

lemma waiting_fields [simp]:
  "bitmap waiting = bitmap (take_block 0 demo_heap)" "used_bytes waiting = used_bytes (take_block 0 demo_heap)"
  "total_blocks waiting = total_blocks (take_block 0 demo_heap)" "zones waiting = zones (take_block 0 demo_heap)"
  "pool_start waiting = pool_start (take_block 0 demo_heap)"
  "irq_events waiting = (replicate 16 0)[3 := 0x1000]" "func_table waiting = replicate 25 0"
  "irq_wait_at waiting = [0x1000 \<mapsto> \<lparr>iw_task = 0x100, iw_next = 0\<rparr>]"
  "task_at waiting = task_at two_tasks" "port_out waiting = []"
  by (simp_all add: waiting_def two_tasks_def tasks.defs irqs.defs take_block_def demo_heap_def
      bit_mask_def initial_zones_def block_size_def BITMAP_SIZE_def)

lemma waiting_inv: "heap_inv waiting"
  using demo_heap_inv2 by (simp add: heap_inv_def)

lemma waiting_live: "live waiting = live (take_block 0 demo_heap)"
  by (simp add: live_def block_addr_def)


theorem irq_handler_acknowledges_witness:
  "\<exists>s' out. irq_handler (\<lambda>_ _. retK ()) 12 waiting = Inr ((), s')
    \<and> port_out s' = out @ [(0xA0, 0x20), (0x20, 0x20)]"
proof -
  have "resume_loop 0 waiting = Some (Inr waiting)" by (subst resume_loop.simps) simp
  then obtain s' where "irq_handler (\<lambda>_ _. retK ()) 12 waiting = Inr ((), s')"
    by (simp add: irq_handler_def kernel_simps irq_resume_waiting_tasks_def runK_def
        nth_list_update)
  with irq_handler_acknowledges [OF this] show ?thesis by auto
qed

theorem intr_init_vectors_witness:
  "\<exists>s'. intr_init (\<lambda>i. 0x100 + of_nat i) 0x99 waiting = Inr ((), s')
    \<and> vector_entry s' 0x80 = (0x0050, 0x118)"
proof -
  obtain s' where s': "intr_init (\<lambda>i. 0x100 + of_nat i) 0x99 waiting = Inr ((), s')"
    "\<forall>i < 256. vector_entry s' (of_nat i) = (0x0050, vector_target (\<lambda>i. 0x100 + of_nat i) 0x99 i)"
    using intr_init_vectors by blast
  have "vector_entry s' (of_nat 0x80) = (0x0050, vector_target (\<lambda>i. 0x100 + of_nat i) 0x99 0x80)"
    using s'(2) by (elim allE [where x = 128]) simp
  then show ?thesis using s'(1) by (simp add: vector_target_def)
qed

end
