(* ===== verification/Clock.thy ===== *)
theory Clock
  imports Irq
begin

text \<open>
  The clock, \<^verbatim>\<open>kernel/clock.c\<close>: the tick counter and the delta queue of alarms.  Each alarm in the
  queue holds the milliseconds that pass between its predecessor and itself.
\<close>

unbundle bit_operations_syntax

section \<open>State\<close>

record clock_alarm =
  ca_delta :: u16
  ca_task :: ptr
  ca_next :: ptr

record clocks = irqs +
  seconds :: u16
  ticks :: u16
  alarm_queue :: ptr
  alarm_at :: "ptr \<Rightarrow> clock_alarm option"

definition SIZEOF_CLOCK_ALARM :: u16 where
  "SIZEOF_CLOCK_ALARM = 6"

definition HZ :: u16 where
  "HZ = 20"

definition TICK :: u16 where
  "TICK = 1000 div HZ"

section \<open>Setting an alarm\<close>

text \<open>
  The loop that looks for the place of an alarm.  It subtracts the delta of the first alarm
  again and again without going on to the next; \<open>None\<close> is a search that never ends.
\<close>

partial_function (option) alarm_search :: "u16 \<Rightarrow> u16 \<Rightarrow> u16 \<Rightarrow> u16 option" where
  "alarm_search first following delta =
     (let delta = delta - first in
      if delta > following then alarm_search first following delta else Some delta)"

definition get_alarm :: "ptr \<Rightarrow> ('z clocks_scheme, clock_alarm) kmon" where
  "get_alarm = lookupK alarm_at"

definition put_alarm :: "ptr \<Rightarrow> clock_alarm \<Rightarrow> ('z clocks_scheme, unit) kmon" where
  "put_alarm p a = modifyK (\<lambda>s. s\<lparr>alarm_at := (alarm_at s)(p \<mapsto> a)\<rparr>)"

definition clock_set_wakeup :: "ptr \<Rightarrow> u16 \<Rightarrow> ('z clocks_scheme, unit) kmon" where
  "clock_set_wakeup task milliseconds =
     bindK (malloc SIZEOF_CLOCK_ALARM) (\<lambda>p.
       if p = 0 then failK (Panic ''out of mem on setting clock wakeup'')
       else bindK (getK alarm_queue) (\<lambda>first.
         let alarm = \<lparr>ca_delta = milliseconds, ca_task = task, ca_next = 0\<rparr>
         in if first = 0 then
              thenK (put_alarm p alarm) (modifyK (\<lambda>s. s\<lparr>alarm_queue := p\<rparr>))
            else
              bindK (get_alarm first) (\<lambda>a.
                if ca_next a = 0 then
                  thenK (put_alarm p (alarm\<lparr>ca_delta := milliseconds - ca_delta a\<rparr>))
                    (put_alarm first (a\<lparr>ca_next := p\<rparr>))
                else bindK (get_alarm (ca_next a)) (\<lambda>b.
                  case alarm_search (ca_delta a) (ca_delta b) milliseconds of
                    None \<Rightarrow> failK Hang
                  | Some delta \<Rightarrow>
                      thenK (put_alarm (ca_next a) (b\<lparr>ca_delta := ca_delta b - delta\<rparr>))
                     (thenK (put_alarm p (alarm\<lparr>ca_delta := delta, ca_next := ca_next a\<rparr>))
                        (put_alarm first (a\<lparr>ca_next := p\<rparr>)))))))"

section \<open>The interrupt of the clock\<close>

definition count_tick :: "'z clocks_scheme \<Rightarrow> 'z clocks_scheme" where
  "count_tick s =
     (let t = ticks s + 1 in
      if t mod HZ = 0 then s\<lparr>ticks := t - HZ, seconds := seconds s + 1\<rparr> else s\<lparr>ticks := t\<rparr>)"

partial_function (option) alarm_loop ::
  "u16 \<Rightarrow> 'z clocks_scheme \<Rightarrow> (kerror + 'z clocks_scheme) option" where
  "alarm_loop tickl s =
     (if tickl = 0 then Some (Inr s)
      else let q = alarm_queue s in
        if q = 0 then Some (Inr s)
        else case alarm_at s q of
          None \<Rightarrow> Some (Inl (BadPtr q))
        | Some a \<Rightarrow>
            if ca_delta a \<le> tickl then
              (case task_wakeup (ca_task a) s of
                 Inl e \<Rightarrow> Some (Inl e)
               | Inr (_, s1) \<Rightarrow>
                   (case free q (s1\<lparr>alarm_queue := ca_next a\<rparr>) of
                      Inl e \<Rightarrow> Some (Inl e)
                    | Inr (_, s2) \<Rightarrow>
                        alarm_loop (tickl - ca_delta a) (s2\<lparr>alarm_at := (alarm_at s2)(q := None)\<rparr>)))
            else
              alarm_loop 0 (s\<lparr>alarm_at := (alarm_at s)(q \<mapsto> a\<lparr>ca_delta := ca_delta a - tickl\<rparr>)\<rparr>))"

definition clock_func :: "('z clocks_scheme, unit) kmon" where
  "clock_func = thenK (modifyK count_tick) (runK (alarm_loop TICK))"

text \<open>\<open>clock_func_addr\<close> is the address of \<open>clock_func\<close>; the divisor is \<open>1193180 / HZ\<close>.\<close>

definition clock_init :: "u16 \<Rightarrow> ('z clocks_scheme, unit) kmon" where
  "clock_init clock_func_addr =
     (let divisor = (59659 :: u16)
      in thenK (modifyK (outb 0x40 (ucast (drop_bit 8 divisor)) \<circ> outb 0x40 (ucast (divisor AND 0xFF)) \<circ> outb 0x43 0x36))
           (thenK (irq_capture 0 clock_func_addr) (retK ())))"

section \<open>Counting\<close>

text \<open>
  From a state with no ticks counted, \<open>n\<close> clock interrupts make \<open>n div 20\<close> seconds (modulo
  \<open>2 ^ 16\<close>) and leave \<open>n mod 20\<close> ticks.
\<close>

theorem seconds_count:
  assumes "ticks s = 0"
  shows "seconds ((count_tick ^^ n) s) = seconds s + of_nat (n div 20)
    \<and> unat (ticks ((count_tick ^^ n) s)) = n mod 20"
proof (induction n)
  case 0
  then show ?case using assms by simp
next
  case (Suc n)
  let ?t = "ticks ((count_tick ^^ n) s)"
  have "n mod 20 < 20" by simp
  then have t: "unat (?t + 1) = n mod 20 + 1" using Suc by (simp add: unat_add16_small)
  have "unat ((?t + 1) mod HZ) = (n mod 20 + 1) mod 20" by (simp add: unat_mod16 t HZ_def)
  then have m: "(?t + 1) mod HZ = 0 \<longleftrightarrow> n mod 20 = 19"
    using \<open>n mod 20 < 20\<close> by (cases "n mod 20 = 19") (simp_all add: word_unat_eq_iff)
  show ?case
  proof (cases "n mod 20 = 19")
    case True
    then have "Suc n div 20 = Suc (n div 20)" "Suc n mod 20 = 0" by (simp_all add: div_Suc mod_Suc)
    moreover have "?t + 1 = HZ" using True t by (simp add: HZ_def word_unat_eq_iff)
    then have "unat (?t + 1 - HZ) = 0" by (simp only:) simp
    ultimately show ?thesis using Suc m True
      by (simp add: count_tick_def [of "(count_tick ^^ n) s"] Let_def)
  next
    case False
    then have "Suc n div 20 = n div 20" "Suc n mod 20 = Suc (n mod 20)"
      by (simp_all add: div_Suc mod_Suc)
    then show ?thesis using Suc m False t
      by (simp add: count_tick_def [of "(count_tick ^^ n) s"] Let_def)
  qed
qed

text \<open>The simplifier sees that the heap does not depend on the fields of this theory.\<close>

lemma heap_inv_alarm_at [simp]: "heap_inv (alarm_at_update f s) = heap_inv s"
  and live_alarm_at [simp]: "live (alarm_at_update f s) = live s"
  and heap_inv_alarm_queue [simp]: "heap_inv (alarm_queue_update g s) = heap_inv s"
  and live_alarm_queue [simp]: "live (alarm_queue_update g s) = live s"
  by (simp_all add: heap_inv_def live_def block_addr_def)

lemma heap_inv_count_tick [simp]: "heap_inv (count_tick s) = heap_inv s"
  and live_count_tick [simp]: "live (count_tick s) = live s"
  and count_tick_fields [simp]: "alarm_at (count_tick s) = alarm_at s"
    "alarm_queue (count_tick s) = alarm_queue s" "task_at (count_tick s) = task_at s"
  by (simp_all add: count_tick_def Let_def heap_inv_def live_def block_addr_def)

section \<open>The delta queue\<close>

text \<open>The queue as a list of address, delta and task.\<close>

type_synonym alarm = "ptr \<times> u16 \<times> ptr"

abbreviation alarm_delta :: "alarm \<Rightarrow> u16" where
  "alarm_delta a \<equiv> fst (snd a)"

abbreviation alarm_task :: "alarm \<Rightarrow> ptr" where
  "alarm_task a \<equiv> snd (snd a)"

fun alarm_chain :: "(ptr \<Rightarrow> clock_alarm option) \<Rightarrow> ptr \<Rightarrow> alarm list \<Rightarrow> bool" where
  "alarm_chain m x [] = (x = 0)"
| "alarm_chain m x ((q, d, p) # as) = (x = q \<and> q \<noteq> 0 \<and>
     (case m q of None \<Rightarrow> False
      | Some a \<Rightarrow> ca_delta a = d \<and> ca_task a = p \<and> alarm_chain m (ca_next a) as))"

lemma alarm_chain_upd:
  "q \<notin> fst ` set as \<Longrightarrow> alarm_chain (m(q := y)) x as = alarm_chain m x as"
  by (induction m x as rule: alarm_chain.induct) (auto split: option.splits)

text \<open>What \<open>t\<close> milliseconds do to the queue: the alarms that fire, and those that stay.\<close>

fun fired :: "u16 \<Rightarrow> alarm list \<Rightarrow> alarm list" where
  "fired t [] = []"
| "fired t ((q, d, p) # as) = (if t \<noteq> 0 \<and> d \<le> t then (q, d, p) # fired (t - d) as else [])"

fun pending :: "u16 \<Rightarrow> alarm list \<Rightarrow> alarm list" where
  "pending t [] = []"
| "pending t ((q, d, p) # as) =
     (if t = 0 then (q, d, p) # as else if d \<le> t then pending (t - d) as else (q, d - t, p) # as)"

lemma pending_0 [simp]: "pending 0 as = as"
  by (cases as) auto

lemma fired_0 [simp]: "fired 0 as = []"
  by (cases as) auto

text \<open>One alarm that is due: its task is woken, its memory is freed, and the loop goes on with the rest.\<close>

lemma alarm_loop_due:
  assumes "heap_inv s" and "alarm_chain (alarm_at s) (alarm_queue s) ((q, d, p) # as)" and "q \<notin> fst ` set as"
    and "(unat q, k) \<in> live s" and "can_wake s p" and "t \<noteq> 0" and "d \<le> t"
  shows "\<exists>u s3. alarm_loop t s = alarm_loop (t - d) s3 \<and> heap_inv s3
    \<and> alarm_chain (alarm_at s3) (alarm_queue s3) as \<and> task_at s p = Some u \<and> task_at s3 = (task_at s)(p \<mapsto> woken u)
    \<and> live s3 = {r \<in> live s. fst r \<noteq> unat q}"
proof -
  obtain a where a: "alarm_queue s = q" "q \<noteq> 0" "alarm_at s q = Some a" "ca_delta a = d" "ca_task a = p"
    "alarm_chain (alarm_at s) (ca_next a) as"
    using assms(2) by (auto split: option.splits)
  obtain u where u: "task_at s p = Some u" and wake: "task_wakeup p s = Inr ((), s\<lparr>task_at := (task_at s)(p \<mapsto> woken u)\<rparr>)"
    using task_wakeup_woken [OF assms(5)] by blast
  let ?s1 = "s\<lparr>task_at := (task_at s)(p \<mapsto> woken u), alarm_queue := ca_next a\<rparr>"
  have "(unat q, k) \<in> live ?s1" using assms(4) by simp
  then obtain s2 where s2: "free q ?s1 = Inr ((), s2)" "heap_inv s2" "live s2 = {r \<in> live s. fst r \<noteq> unat q}"
    using heap_alloc.release_address [of ?s1 q k] assms(1) by auto
  obtain bm v where fr: "s2 = ?s1\<lparr>bitmap := bm, used_bytes := v\<rparr>" using free_frame [OF s2(1)] by blast
  let ?s3 = "s2\<lparr>alarm_at := (alarm_at s2)(q := None)\<rparr>"
  have "alarm_loop t s = alarm_loop (t - d) ?s3"
    using a wake s2(1) assms(6,7) by (subst alarm_loop.simps) simp
  moreover have "alarm_chain (alarm_at ?s3) (alarm_queue ?s3) as"
    using a(6) by (simp add: fr alarm_chain_upd [OF assms(3)])
  moreover have "task_at ?s3 = (task_at s)(p \<mapsto> woken u)" by (simp add: fr)
  ultimately show ?thesis using u s2(2,3) by (intro exI [of _ u] exI [of _ ?s3]) simp
qed

lemma alarm_loop_fires:
  assumes "heap_inv s" and "alarm_chain (alarm_at s) (alarm_queue s) as" and "distinct (map fst as)"
    and "distinct (map alarm_task (fired t as))" and "\<forall>q \<in> fst ` set as. \<exists>k. (unat q, k) \<in> live s"
    and "\<forall>p \<in> alarm_task ` set (fired t as). can_wake s p"
  shows "\<exists>s'. alarm_loop t s = Some (Inr s') \<and> heap_inv s'
    \<and> alarm_chain (alarm_at s') (alarm_queue s') (pending t as)
    \<and> task_at s' = wake_tasks (alarm_task ` set (fired t as)) (task_at s)
    \<and> live s' = {r \<in> live s. \<forall>q \<in> fst ` set (fired t as). fst r \<noteq> unat q}"
  using assms
proof (induction as arbitrary: t s)
  case Nil
  then show ?case by (subst alarm_loop.simps) (auto simp: wake_tasks_def)
next
  case (Cons w as)
  obtain q d p where w: "w = (q, d, p)" by (cases w)
  obtain a where a: "alarm_queue s = q" "q \<noteq> 0" "alarm_at s q = Some a" "ca_delta a = d" "ca_task a = p"
    "alarm_chain (alarm_at s) (ca_next a) as"
    using Cons.prems(2) by (auto simp: w split: option.splits)
  have q: "q \<notin> fst ` set as" "distinct (map fst as)" using Cons.prems(3) by (auto simp: w)
  consider "t = 0" | "t \<noteq> 0" "d \<le> t" | "t \<noteq> 0" "\<not> d \<le> t" by blast
  then show ?case
  proof cases
    case 1
    then show ?thesis
      using Cons.prems by (subst alarm_loop.simps) (auto simp: wake_tasks_def w)
  next
    case 2
    then have fire: "fired t (w # as) = w # fired (t - d) as" "pending t (w # as) = pending (t - d) as"
      by (simp_all add: w)
    obtain k where "(unat q, k) \<in> live s" using Cons.prems(5) by (auto simp: w)
    moreover have "can_wake s p" using Cons.prems(6) unfolding fire by (simp add: w)
    ultimately obtain u s3 where s3: "alarm_loop t s = alarm_loop (t - d) s3" "heap_inv s3"
        "alarm_chain (alarm_at s3) (alarm_queue s3) as" "task_at s p = Some u" "task_at s3 = (task_at s)(p \<mapsto> woken u)"
        "live s3 = {r \<in> live s. fst r \<noteq> unat q}"
      using alarm_loop_due [OF Cons.prems(1) Cons.prems(2) [unfolded w] q(1) _ _ 2] by blast
    have p: "p \<notin> alarm_task ` set (fired (t - d) as)" "distinct (map alarm_task (fired (t - d) as))"
      using Cons.prems(4) unfolding fire by (auto simp: w)
    have live: "\<forall>q' \<in> fst ` set as. \<exists>k. (unat q', k) \<in> live s3"
    proof
      fix q' assume q': "q' \<in> fst ` set as"
      then have "unat q' \<noteq> unat q" using q(1) by (auto simp: word_unat_eq_iff [symmetric])
      then show "\<exists>k. (unat q', k) \<in> live s3" using Cons.prems(5) q' s3(6) by auto
    qed
    have can: "\<forall>p' \<in> alarm_task ` set (fired (t - d) as). can_wake s3 p'"
    proof
      fix p' assume p': "p' \<in> alarm_task ` set (fired (t - d) as)"
      then have "p' \<noteq> p" "can_wake s p'" using p(1) Cons.prems(6) unfolding fire by auto
      then show "can_wake s3 p'" by (simp add: can_wake_def s3(5))
    qed
    obtain s' where s': "alarm_loop (t - d) s3 = Some (Inr s')" "heap_inv s'"
      "alarm_chain (alarm_at s') (alarm_queue s') (pending (t - d) as)"
      "task_at s' = wake_tasks (alarm_task ` set (fired (t - d) as)) (task_at s3)"
      "live s' = {r \<in> live s3. \<forall>q \<in> fst ` set (fired (t - d) as). fst r \<noteq> unat q}"
      using Cons.IH [OF s3(2,3) q(2) p(2) live can] by blast
    have "alarm_loop t s = Some (Inr s')" using s3(1) s'(1) by simp
    moreover have "live s' = {r \<in> live s. \<forall>q \<in> fst ` set (fired t (w # as)). fst r \<noteq> unat q}"
      unfolding fire by (auto simp: s'(5) s3(6) w)
    moreover have "task_at s' = wake_tasks (alarm_task ` set (fired t (w # as))) (task_at s)"
      unfolding fire using wake_tasks_insert [of p "alarm_task ` set (fired (t - d) as)" "task_at s" u] p(1) s3(4) by (simp add: s'(4) s3(5) w)
    ultimately show ?thesis using s'(2,3) fire by auto
  next
    case 3
    let ?s = "s\<lparr>alarm_at := (alarm_at s)(q \<mapsto> a\<lparr>ca_delta := ca_delta a - t\<rparr>)\<rparr>"
    have "alarm_loop t s = alarm_loop 0 ?s"
      using a 3 by (subst alarm_loop.simps) (simp add: Let_def)
    also have "\<dots> = Some (Inr ?s)" by (subst alarm_loop.simps) simp
    finally show ?thesis
      using 3 a Cons.prems(1) by (auto simp: w wake_tasks_def alarm_chain_upd [OF q(1)])
  qed
qed


text \<open>When the alarms of a queue go off, in milliseconds from now.\<close>

fun due_times :: "nat \<Rightarrow> alarm list \<Rightarrow> nat list" where
  "due_times now [] = []"
| "due_times now ((q, d, p) # as) = (now + unat d) # due_times (now + unat d) as"

lemma due_times_add: "due_times (now + k) as = map (\<lambda>x. x + k) (due_times now as)"
  by (induction now as rule: due_times.induct) (auto simp: add.commute add.left_commute)

lemma due_times_ge: "x \<in> set (due_times now as) \<Longrightarrow> now \<le> x"
  by (induction now as rule: due_times.induct) auto

text \<open>
  The queue keeps time: after \<open>t\<close> milliseconds every alarm that is left is due \<open>t\<close>
  milliseconds earlier, and all that have fired were due by then.
\<close>

theorem pending_due_times:
  "due_times 0 (pending t as) = map (\<lambda>x. x - unat t) (drop (length (fired t as)) (due_times 0 as))
    \<and> (\<forall>x \<in> set (take (length (fired t as)) (due_times 0 as)). x \<le> unat t)
    \<and> (\<forall>x \<in> set (drop (length (fired t as)) (due_times 0 as)). unat t \<le> x)"
proof (induction as arbitrary: t)
  case (Cons w as)
  obtain q d p where w: "w = (q, d, p)" by (cases w)
  consider "t = 0" | "t \<noteq> 0" "d \<le> t" | "t \<noteq> 0" "\<not> d \<le> t" by blast
  then show ?case
  proof cases
    case 2
    then have d: "unat d \<le> unat t" "unat (t - d) = unat t - unat d"
      by (simp_all add: le16_iff unat_sub16_le)
    have "due_times (unat d) as = map (\<lambda>x. x + unat d) (due_times 0 as)"
      using due_times_add [of 0 "unat d" as] by simp
    then show ?thesis
      using Cons [of "t - d"] 2 d by (auto simp: w drop_map take_map)
  next
    case 3
    then have "unat t < unat d" "unat (d - t) = unat d - unat t"
      by (simp_all add: le16_iff unat_sub16_le)
    moreover have "due_times (unat d) as = map (\<lambda>x. x + unat t) (due_times (unat d - unat t) as)"
      using due_times_add [of "unat d - unat t" "unat t" as] \<open>unat t < unat d\<close> by simp
    moreover have "unat t \<le> x" if "x \<in> set (due_times (unat d) as)" for x
      using due_times_ge [OF that] \<open>unat t < unat d\<close> by simp
    ultimately show ?thesis using 3 by (simp add: w comp_def)
  qed (simp add: w)
qed simp

section \<open>Placing an alarm\<close>

lemma get_alarm_Some [kernel_simps]: "alarm_at s p = Some a \<Longrightarrow> get_alarm p s = Inr (a, s)"
  by (simp add: get_alarm_def lookupK_def)

lemma put_alarm_apply [kernel_simps]:
  "put_alarm p a s = Inr ((), s\<lparr>alarm_at := (alarm_at s)(p \<mapsto> a)\<rparr>)"
  by (simp add: put_alarm_def kernel_simps)

text \<open>When the place is right behind the first alarm, the search ends after one round.\<close>

lemma alarm_search_once: "delta - first \<le> following \<Longrightarrow> alarm_search first following delta = Some (delta - first)"
  by (subst alarm_search.simps) (auto simp: Let_def dest: leD)

lemma clock_set_wakeup_empty:
  assumes "malloc SIZEOF_CLOCK_ALARM s = Inr (p, s1)" and "p \<noteq> 0" and "alarm_queue s = 0"
  shows "\<exists>s'. clock_set_wakeup task ms s = Inr ((), s') \<and> alarm_chain (alarm_at s') (alarm_queue s') [(p, ms, task)]"
proof -
  have "alarm_queue s1 = 0" using malloc_frame [OF assms(1)] assms(3) by auto
  then show ?thesis using assms by (simp add: clock_set_wakeup_def kernel_simps Let_def)
qed

lemma clock_set_wakeup_single:
  assumes "malloc SIZEOF_CLOCK_ALARM s = Inr (p, s1)" and "p \<noteq> 0" and "p \<noteq> q"
    and "alarm_chain (alarm_at s) (alarm_queue s) [(q, d, u)]"
  shows "\<exists>s'. clock_set_wakeup task ms s = Inr ((), s')
    \<and> alarm_chain (alarm_at s') (alarm_queue s') [(q, d, u), (p, ms - d, task)]"
proof -
  have s1: "alarm_queue s1 = alarm_queue s" "alarm_at s1 = alarm_at s"
    using malloc_frame [OF assms(1)] by auto
  obtain a where a: "alarm_queue s = q" "q \<noteq> 0" "alarm_at s q = Some a" "ca_delta a = d" "ca_task a = u"
    "ca_next a = 0"
    using assms(4) by (auto split: option.splits)
  have "clock_set_wakeup task ms s = Inr ((), s1\<lparr>alarm_at := (alarm_at s)
      (p \<mapsto> \<lparr>ca_delta = ms - d, ca_task = task, ca_next = 0\<rparr>, q \<mapsto> a\<lparr>ca_next := p\<rparr>)\<rparr>)"
    using assms(1-3) a s1 by (simp add: clock_set_wakeup_def kernel_simps Let_def)
  then show ?thesis using a s1 assms(2,3) by simp
qed

lemma clock_set_wakeup_between:
  assumes "malloc SIZEOF_CLOCK_ALARM s = Inr (p, s1)" and "p \<noteq> 0" and "p \<noteq> q" and "p \<noteq> r"
    and "q \<noteq> r" and "p \<notin> fst ` set as" and "q \<notin> fst ` set as" and "r \<notin> fst ` set as"
    and "alarm_chain (alarm_at s) (alarm_queue s) ((q, d, u) # (r, e, v) # as)"
    and "ms - d \<le> e"
  shows "\<exists>s'. clock_set_wakeup task ms s = Inr ((), s')
    \<and> alarm_chain (alarm_at s') (alarm_queue s') ((q, d, u) # (p, ms - d, task) # (r, e - (ms - d), v) # as)"
proof -
  have s1: "alarm_queue s1 = alarm_queue s" "alarm_at s1 = alarm_at s"
    using malloc_frame [OF assms(1)] by auto
  obtain a b where a: "alarm_queue s = q" "q \<noteq> 0" "alarm_at s q = Some a" "ca_delta a = d" "ca_task a = u"
    "ca_next a = r" and b: "r \<noteq> 0" "alarm_at s r = Some b" "ca_delta b = e" "ca_task b = v"
    "alarm_chain (alarm_at s) (ca_next b) as"
    using assms(9) by (auto split: option.splits)
  have "clock_set_wakeup task ms s = Inr ((), s1\<lparr>alarm_at := (alarm_at s)
      (r \<mapsto> b\<lparr>ca_delta := e - (ms - d)\<rparr>, p \<mapsto> \<lparr>ca_delta = ms - d, ca_task = task, ca_next = r\<rparr>,
       q \<mapsto> a\<lparr>ca_next := p\<rparr>)\<rparr>)"
    using assms(1-5) a b s1 alarm_search_once [OF assms(10)]
    by (simp add: clock_set_wakeup_def kernel_simps Let_def)
  then show ?thesis using a b s1 assms(2-8) by (simp add: alarm_chain_upd)
qed

text \<open>
  An alarm that belongs behind the first alarm of the queue and before the second, or into an
  empty queue, is placed there: it is due after the requested time and no other alarm moves.
\<close>

theorem clock_set_wakeup_due:
  assumes "malloc SIZEOF_CLOCK_ALARM s = Inr (p, s1)" and "p \<noteq> 0"
    and "alarm_chain (alarm_at s) (alarm_queue s) as" and "distinct (p # map fst as)"
    and "\<forall>x \<in> set (take 1 (due_times 0 as)). x \<le> unat ms"
    and "\<forall>x \<in> set (drop 1 (due_times 0 as)). unat ms \<le> x"
  shows "\<exists>s' as'. clock_set_wakeup task ms s = Inr ((), s') \<and> alarm_chain (alarm_at s') (alarm_queue s') as'
    \<and> due_times 0 as' = take 1 (due_times 0 as) @ unat ms # drop 1 (due_times 0 as)"
proof (cases as)
  case Nil
  then show ?thesis
    using clock_set_wakeup_empty [OF assms(1,2), of task ms] assms(3) by fastforce
next
  case (Cons a bs)
  obtain q d u where a: "a = (q, d, u)" by (cases a)
  have d: "unat d \<le> unat ms" "unat (ms - d) = unat ms - unat d"
    using assms(5) by (simp_all add: Cons a unat_sub16_le)
  show ?thesis
  proof (cases bs)
    case Nil
    obtain s' where s': "clock_set_wakeup task ms s = Inr ((), s')"
      "alarm_chain (alarm_at s') (alarm_queue s') [(q, d, u), (p, ms - d, task)]"
      using clock_set_wakeup_single [OF assms(1,2), of q d u task ms] assms(3,4) Cons a Nil by auto
    moreover have "due_times 0 [(q, d, u), (p, ms - d, task)]
        = take 1 (due_times 0 as) @ unat ms # drop 1 (due_times 0 as)"
      using d by (simp add: Cons a Nil)
    ultimately show ?thesis by blast
  next
    case (Cons b cs)
    obtain r e v where b: "b = (r, e, v)" by (cases b)
    have as: "as = (q, d, u) # (r, e, v) # cs" using \<open>as = a # bs\<close> Cons a b by simp
    have "unat ms \<le> unat d + unat e" using assms(6) by (simp add: as)
    then have e: "ms - d \<le> e" "unat (e - (ms - d)) = unat e - (unat ms - unat d)"
      using d by (simp_all add: le16_iff unat_sub16_le)
    obtain s' where s': "clock_set_wakeup task ms s = Inr ((), s')"
      "alarm_chain (alarm_at s') (alarm_queue s')
        ((q, d, u) # (p, ms - d, task) # (r, e - (ms - d), v) # cs)"
      using clock_set_wakeup_between [OF assms(1,2), of q r cs d u e v ms task] assms(3,4) e(1)
      by (auto simp: as)
    moreover have "unat d + (unat ms - unat d) = unat ms"
      "unat ms + (unat e - (unat ms - unat d)) = unat d + unat e"
      using d \<open>unat ms \<le> unat d + unat e\<close> by simp_all
    then have "due_times 0 ((q, d, u) # (p, ms - d, task) # (r, e - (ms - d), v) # cs)
        = take 1 (due_times 0 as) @ unat ms # drop 1 (due_times 0 as)"
      using d(2) e(2) by (simp add: as ac_simps)
    ultimately show ?thesis by blast
  qed
qed

text \<open>
  An alarm that is due before the first one in the queue is not put in front of it: its delta
  wraps around, and it is due more than a minute late.
\<close>

lemma clock_set_wakeup_early:
  assumes "malloc SIZEOF_CLOCK_ALARM s = Inr (p, s1)" and "p \<noteq> 0" and "p \<noteq> q"
    and "alarm_chain (alarm_at s) (alarm_queue s) [(q, d, u)]" and "ms < d"
  shows "\<exists>s' as'. clock_set_wakeup task ms s = Inr ((), s') \<and> alarm_chain (alarm_at s') (alarm_queue s') as'
    \<and> due_times 0 as' = [unat d, 65536 + unat ms]"
proof -
  have "unat (ms - d) = 65536 + unat ms - unat d" "unat d < 65536"
    using assms(5) unat_lt_65536 [of d] by (simp_all add: less16_iff unat_sub16)
  then have "due_times 0 [(q, d, u), (p, ms - d, task)] = [unat d, 65536 + unat ms]" by simp
  then show ?thesis using clock_set_wakeup_single [OF assms(1-4), of task ms] by blast
qed

text \<open>
  When the first alarm is due at once and the second before the requested time, the search for
  the place never ends.
\<close>

lemma alarm_search_hangs:
  assumes "delta > following"
  shows "alarm_search 0 following delta = None"
proof -
  have "first = 0 \<longrightarrow> delta > following \<longrightarrow> False" if "alarm_search first following delta = Some y" for first y
    by (rule alarm_search.raw_induct [OF _ that]) (auto simp: Let_def)
  then show ?thesis using assms by (cases "alarm_search 0 following delta") auto
qed

section \<open>Witnesses\<close>

definition ticking :: clocks where
  "ticking = irqs.extend waiting
     (clocks.fields 0 0 0x1000 [0x1000 \<mapsto> \<lparr>ca_delta = 20, ca_task = 0x100, ca_next = 0\<rparr>])"

lemma ticking_fields [simp]:
  "bitmap ticking = bitmap (take_block 0 demo_heap)" "used_bytes ticking = used_bytes (take_block 0 demo_heap)"
  "total_blocks ticking = total_blocks (take_block 0 demo_heap)" "zones ticking = zones (take_block 0 demo_heap)"
  "pool_start ticking = pool_start (take_block 0 demo_heap)"
  "task_at ticking = task_at two_tasks" "ticks ticking = 0" "seconds ticking = 0"
  "alarm_queue ticking = 0x1000"
  "alarm_at ticking = [0x1000 \<mapsto> \<lparr>ca_delta = 20, ca_task = 0x100, ca_next = 0\<rparr>]"
proof -
  have "bitmap ticking = bitmap waiting" "used_bytes ticking = used_bytes waiting"
    "total_blocks ticking = total_blocks waiting" "zones ticking = zones waiting"
    "pool_start ticking = pool_start waiting" "task_at ticking = task_at waiting"
    by (simp_all add: ticking_def irqs.defs)
  then show "bitmap ticking = bitmap (take_block 0 demo_heap)" "used_bytes ticking = used_bytes (take_block 0 demo_heap)"
    "total_blocks ticking = total_blocks (take_block 0 demo_heap)" "zones ticking = zones (take_block 0 demo_heap)"
    "pool_start ticking = pool_start (take_block 0 demo_heap)" "task_at ticking = task_at two_tasks"
    by simp_all
qed (simp_all add: ticking_def irqs.defs clocks.defs)

lemma ticking_inv: "heap_inv ticking"
  using demo_heap_inv2 by (simp add: heap_inv_def)

lemma ticking_live: "(0x1000, 512) \<in> live ticking"
  using demo_live by (simp add: live_def block_addr_def)

lemma ticking_malloc: "\<exists>s. malloc SIZEOF_CLOCK_ALARM ticking = Inr (0x1200, s)"
proof -
  have "first_block initial_zones SIZEOF_CLOCK_ALARM = 0" "first_block initial_zones 12 = 0"
    by (simp_all add: initial_zones_def SIZEOF_CLOCK_ALARM_def)
  then have "search_block ticking SIZEOF_CLOCK_ALARM = search_block (take_block 0 demo_heap) 12"
    by (simp add: search_block_def) (simp add: take_block_def demo_heap_def)
  then show ?thesis
    using malloc_eq [OF ticking_inv, of SIZEOF_CLOCK_ALARM] malloc_eq [OF demo_heap_inv2, of 12]
      demo_malloc2 by (simp add: block_addr_def split: if_splits)
qed

theorem seconds_count_witness: "seconds ((count_tick ^^ 45) ticking) = 2"
  using seconds_count [of ticking 45] by simp


theorem clock_set_wakeup_due_witness:
  "\<exists>s' as'. clock_set_wakeup 0x200 30 ticking = Inr ((), s') \<and> alarm_chain (alarm_at s') (alarm_queue s') as'
    \<and> due_times 0 as' = [20, 30]"
proof -
  obtain s where m: "malloc SIZEOF_CLOCK_ALARM ticking = Inr (0x1200, s)" using ticking_malloc by blast
  have "alarm_chain (alarm_at ticking) (alarm_queue ticking) [(0x1000, 20, 0x100)]" by simp
  from clock_set_wakeup_due [OF m _ this, of 30 "0x200"] show ?thesis by simp
qed

end
