(* ===== verification/Screen.thy ===== *)
theory Screen
  imports Clock Printf
begin

text \<open>
  The text screen, \<^verbatim>\<open>kernel/char/screen.c\<close>: 25 rows of 80 cells in segment \<open>0xb800\<close>, each cell
  a character and an attribute byte, and the cursor.
\<close>

unbundle bit_operations_syntax

section \<open>State and operations\<close>

definition SCREEN_WIDTH :: u16 where
  "SCREEN_WIDTH = 80"

definition SCREEN_HEIGHT :: u16 where
  "SCREEN_HEIGHT = 25"

text \<open>
  The state holds the static variables of \<^verbatim>\<open>kernel/printf.c\<close> as well: the output function in
  force and the position of the preliminary one.
\<close>

datatype putch_fn = Prel_putch | Screen_putch

record console = clocks +
  scr_col :: u16
  scr_row :: u16
  scr_attr :: u8
  putch_func :: putch_fn
  prel_index :: u16

definition putch_set :: "putch_fn \<Rightarrow> 'z console_scheme \<Rightarrow> 'z console_scheme" where
  "putch_set func s = s\<lparr>putch_func := func\<rparr>"

definition set_cursor :: "u16 \<Rightarrow> u16 \<Rightarrow> 'z machine_scheme \<Rightarrow> 'z machine_scheme" where
  "set_cursor col row s =
     (let pos = row * SCREEN_WIDTH + col
      in outb 0x3D5 (lo8 pos) (outb 0x3D4 15 (outb 0x3D5 (hi8 pos) (outb 0x3D4 14 s))))"

definition scroll :: "'z console_scheme \<Rightarrow> 'z console_scheme" where
  "scroll s =
     (let r = SCREEN_WIDTH * 2;
          empty = 0x20 OR push_bit 8 (ucast (scr_attr s))
      in farmemsetw (r * (SCREEN_HEIGHT - 1)) empty r 0xb800
           (farmemcpy 0 r (r * (SCREEN_HEIGHT - 1)) 0xb800 0xb800 s))"

definition newline :: "'z console_scheme \<Rightarrow> 'z console_scheme" where
  "newline s =
     (if scr_row s = SCREEN_HEIGHT - 1 then scroll s else s\<lparr>scr_row := scr_row s + 1\<rparr>)\<lparr>scr_col := 0\<rparr>"

definition tab :: "'z console_scheme \<Rightarrow> 'z console_scheme" where
  "tab s =
     (let s = s\<lparr>scr_col := (scr_col s + 8) AND NOT (8 - 1)\<rparr>
      in if scr_col s = SCREEN_WIDTH then newline s else s)"

definition backspace :: "'z console_scheme \<Rightarrow> 'z console_scheme" where
  "backspace s =
     (let s = (if scr_col s > 0 then s\<lparr>scr_col := scr_col s - 1\<rparr> else s)
      in poke 0xb800 ((scr_row s * SCREEN_WIDTH + scr_col s) * 2) 0x20 s)"

definition screen_putch :: "u8 \<Rightarrow> 'z console_scheme \<Rightarrow> 'z console_scheme" where
  "screen_putch c s =
     (let index = (scr_row s * SCREEN_WIDTH + scr_col s) * 2;
          s = (if c = 0x0a then newline s
               else if c = 0x09 then tab s
               else if c = 0x08 then backspace s
               else let s = (poke 0xb800 index c s)\<lparr>scr_col := scr_col s + 1\<rparr>
                    in if scr_col s = SCREEN_WIDTH then newline s else s)
      in set_cursor (scr_col s) (scr_row s) s)"

fun clear_cells :: "nat \<Rightarrow> u16 \<Rightarrow> u8 \<Rightarrow> 'z machine_scheme \<Rightarrow> 'z machine_scheme" where
  "clear_cells 0 i attr s = s"
| "clear_cells (Suc n) i attr s =
     clear_cells n (i + 2) attr (poke 0xb800 (i + 1) attr (poke 0xb800 i 0x20 s))"

text \<open>\<open>clear_screen\<close> runs \<open>i\<close> over the even offsets below \<open>size\<close>, 4000.\<close>

definition clear_screen :: "'z console_scheme \<Rightarrow> 'z console_scheme" where
  "clear_screen s = clear_cells (unat (SCREEN_WIDTH * SCREEN_HEIGHT)) 0 (scr_attr s) s"

definition screen_init :: "'z console_scheme \<Rightarrow> 'z console_scheme" where
  "screen_init s =
     putch_set Screen_putch (let s = clear_screen s in set_cursor (scr_col s) (scr_row s) s)"

text \<open>\<open>putch\<close> with the output function in force; \<open>None\<close> is a serial line that is never ready.\<close>

definition console_putch :: "u8 \<Rightarrow> 'z console_scheme \<Rightarrow> 'z console_scheme option" where
  "console_putch c =
     putch (\<lambda>c s. case putch_func s of
         Prel_putch \<Rightarrow> (case prel_putch (prel_index s) c s of (i, s) \<Rightarrow> s\<lparr>prel_index := i\<rparr>)
       | Screen_putch \<Rightarrow> screen_putch c s) c"

text \<open>\<open>screen_write\<close>: the buffer is given by its bytes; the handle is not used.\<close>

fun screen_write :: "u8 list \<Rightarrow> 'z console_scheme \<Rightarrow> u16 \<times> 'z console_scheme" where
  "screen_write [] s = (0, s)"
| "screen_write (c # cs) s = (case screen_write cs (screen_putch c s) of (n, s) \<Rightarrow> (n + 1, s))"

section \<open>The cursor stays on the screen\<close>

definition on_screen :: "'z console_scheme \<Rightarrow> bool" where
  "on_screen s \<longleftrightarrow> scr_col s < SCREEN_WIDTH \<and> scr_row s < SCREEN_HEIGHT"

lemma machine_ops_console [simp]:
  "scr_col (poke seg off v s) = scr_col s" "scr_row (poke seg off v s) = scr_row s"
  "scr_attr (poke seg off v s) = scr_attr s"
  "scr_col (set_cursor c r s) = scr_col s" "scr_row (set_cursor c r s) = scr_row s"
  "scr_attr (set_cursor c r s) = scr_attr s" "mem (set_cursor c r s) = mem s"
  "scr_col (scroll s) = scr_col s" "scr_row (scroll s) = scr_row s" "scr_attr (scroll s) = scr_attr s"
  by (simp_all add: poke_def set_cursor_def outb_def Let_def scroll_def farmemsetw_def farmemcpy_def)

lemma newline_on_screen [preserves]: "scr_row s < SCREEN_HEIGHT \<Longrightarrow> on_screen (newline s)"
  by (auto simp: newline_def on_screen_def SCREEN_HEIGHT_def SCREEN_WIDTH_def less16_iff
      word_unat_eq_iff unat_add16_if)

lemma and_not_7: "(x :: u16) AND NOT 7 = x div 8 * 8"
proof -
  have "x AND NOT (mask 3) = push_bit 3 (drop_bit 3 x)"
    by (intro bit_word_eqI) (auto simp: bit_simps)
  moreover have "(7 :: u16) = mask 3" by (simp add: mask_eq_exp_minus_1)
  ultimately show ?thesis by (simp add: push_bit_eq_mult drop_bit_eq_div)
qed

lemma unat_tab_stop: "c < 80 \<Longrightarrow> unat ((c + 8 :: u16) div 8 * 8) = (unat c + 8) div 8 * 8"
proof -
  assume "c < 80"
  then have c: "unat (c + 8) = unat c + 8" by (simp add: less16_iff unat_add16_small)
  have "(unat c + 8) div 8 * 8 < 65536"
    using \<open>c < 80\<close> div_times_less_eq_dividend [of "unat c + 8" 8] by (simp add: less16_iff)
  then show ?thesis by (simp add: unat_mult16 unat_div16 c)
qed

lemma tab_stop:
  assumes "c < SCREEN_WIDTH"
  shows "(c + 8) AND NOT 7 \<le> SCREEN_WIDTH"
proof -
  have "(unat c + 8) div 8 * 8 \<le> 80"
    using assms by (simp add: less16_iff SCREEN_WIDTH_def)
  then show ?thesis
    using assms unat_tab_stop [of c] unfolding and_not_7 by (simp add: SCREEN_WIDTH_def le16_iff)
qed

lemma tab_on_screen [preserves]: "on_screen s \<Longrightarrow> on_screen (tab s)"
  using tab_stop [of "scr_col s"]
  by (auto simp: tab_def Let_def on_screen_def intro!: newline_on_screen [unfolded on_screen_def])

lemma backspace_on_screen [preserves]: "on_screen s \<Longrightarrow> on_screen (backspace s)"
proof (cases "scr_col s = 0")
  case False
  assume "on_screen s"
  moreover have "unat (scr_col s - 1) = unat (scr_col s) - 1" using False by (rule unat_minus_one)
  ultimately show ?thesis
    by (auto simp: backspace_def Let_def on_screen_def SCREEN_WIDTH_def less16_iff)
qed (simp add: backspace_def on_screen_def)

lemma advance_on_screen:
  "on_screen s \<Longrightarrow> scr_col s + 1 \<noteq> SCREEN_WIDTH \<Longrightarrow> on_screen (s\<lparr>scr_col := scr_col s + 1\<rparr>)"
  by (auto simp: on_screen_def SCREEN_WIDTH_def less16_iff unat_add16_if word_unat_eq_iff)

lemma screen_putch_on_screen [preserves]: "on_screen s \<Longrightarrow> on_screen (screen_putch c s)"
proof -
  assume on: "on_screen s"
  let ?p = "poke 0xb800 ((scr_row s * SCREEN_WIDTH + scr_col s) * 2) c s"
  have "on_screen (?p\<lparr>scr_col := scr_col s + 1\<rparr>)" if "scr_col s + 1 \<noteq> SCREEN_WIDTH"
    using advance_on_screen [of ?p] on that by (simp add: on_screen_def)
  moreover have "on_screen (newline (?p\<lparr>scr_col := scr_col s + 1\<rparr>))" "on_screen (newline s)"
    using on by (simp_all add: newline_on_screen on_screen_def [of s])
  moreover have "on_screen (set_cursor x y t) = on_screen t" for x y and t :: "'a console_scheme"
    by (simp add: on_screen_def)
  ultimately show ?thesis
    using tab_on_screen [OF on] backspace_on_screen [OF on]
    by (auto simp: screen_putch_def Let_def)
qed

lemma screen_write_state:
  "screen_write cs s = (of_nat (length cs), fold screen_putch cs s)"
  by (induction cs arbitrary: s) (auto simp: add.commute)

text \<open>
  C20: writing any characters keeps the cursor on the screen, and \<open>screen_write\<close> reports that it
  has written them all.
\<close>

theorem screen_write_on_screen:
  assumes "on_screen s"
  shows "on_screen (snd (screen_write cs s)) \<and> fst (screen_write cs s) = of_nat (length cs)"
proof -
  have "on_screen (fold screen_putch cs s)"
    using assms by (induction cs arbitrary: s) (auto intro: screen_putch_on_screen)
  then show ?thesis by (simp add: screen_write_state)
qed

section \<open>What is on the screen\<close>

text \<open>Offset, character and attribute of a cell.\<close>

definition cell_off :: "nat \<Rightarrow> nat \<Rightarrow> u16" where
  "cell_off row col = of_nat (2 * (80 * row + col))"

definition cell :: "'z machine_scheme \<Rightarrow> nat \<Rightarrow> nat \<Rightarrow> u8 \<times> u8" where
  "cell s row col = (mem s (linear 0xb800 (cell_off row col)), mem s (linear 0xb800 (cell_off row col + 1)))"

lemma unat_cell_off: "row < 26 \<Longrightarrow> col < 80 \<Longrightarrow> unat (cell_off row col) = 2 * (80 * row + col)"
  unfolding cell_off_def by (subst unat_of_nat) (simp add: take_bit_eq_mod)

lemma unat_cell_off_1:
  "row < 26 \<Longrightarrow> col < 80 \<Longrightarrow> unat (cell_off row col + 1) = 2 * (80 * row + col) + 1"
  by (subst unat_add16_small) (simp_all add: unat_cell_off)

lemma scroll_mem:
  "mem (scroll s) (linear 0xb800 off) =
     (if 3840 \<le> unat off \<and> unat off < 4160 then (if even (unat off) then 0x20 else scr_attr s)
      else if unat off < 3840 then mem s (linear 0xb800 (off + 160))
      else mem s (linear 0xb800 off))"
proof -
  let ?empty = "0x20 OR push_bit 8 (ucast (scr_attr s)) :: u16"
  have bytes: "lo8 ?empty = 0x20" "hi8 ?empty = scr_attr s"
    unfolding lo8_def hi8_def by (intro bit_word_eqI; auto simp: bit_simps bit_numeral_rec)+
  have copy: "movsb 3840 0 160 0xb800 0xb800 m (linear 0xb800 off)
      = (if unat off < 3840 then m (linear 0xb800 (off + 160)) else m (linear 0xb800 off))" for m
    using movsb_down [of 160 3840 0 "0xb800" m off] by simp
  have inside: "unat (off - 3840) < 320 \<longleftrightarrow> 3840 \<le> unat off \<and> unat off < 4160"
  proof (cases "3840 \<le> unat off")
    case True
    then show ?thesis by (simp add: unat_sub16_le) arith
  next
    case False
    then show ?thesis using unat_lt_65536 [of off] by (simp add: unat_sub16)
  qed
  have "even (unat (off - 3840)) = even (unat off)" if "3840 \<le> unat off"
    using that by (simp add: unat_sub16_le)
  then show ?thesis
    using inside by (auto simp: scroll_def Let_def farmemsetw_def farmemcpy_def SCREEN_WIDTH_def
        SCREEN_HEIGHT_def stosw_at copy bytes)
qed

lemma cell_off_next: "cell_off row col + 160 = cell_off (row + 1) col"
  by (simp add: cell_off_def algebra_simps)

lemma scroll_cell:
  assumes "row < 25" and "col < 80"
  shows "cell (scroll s) row col = (if row < 24 then cell s (row + 1) col else (0x20, scr_attr s))"
proof -
  have u: "unat (cell_off row col) = 2 * (80 * row + col)"
    "unat (cell_off row col + 1) = 2 * (80 * row + col) + 1"
    using assms by (simp_all add: unat_cell_off unat_cell_off_1)
  have n: "cell_off row col + 1 + 160 = cell_off (row + 1) col + 1"
    using cell_off_next [of row col] by (simp add: algebra_simps)
  show ?thesis
  proof (cases "row < 24")
    case True
    then have "80 * row + col < 1920" using assms by linarith
    then show ?thesis using True by (simp add: cell_def scroll_mem u n cell_off_next)
  next
    case False
    then have "row = 24" using assms by simp
    then show ?thesis using assms(2) u [unfolded \<open>row = 24\<close>] by (simp add: cell_def scroll_mem)
  qed
qed

text \<open>The text below the last line: scrolling also blanks 80 cells behind the screen.\<close>

lemma scroll_overruns:
  assumes "col < 80"
  shows "cell (scroll s) 25 col = (0x20, scr_attr s)"
  using assms unat_cell_off [of 25 col] unat_cell_off_1 [of 25 col] by (simp add: cell_def scroll_mem)

definition printable :: "u8 \<Rightarrow> bool" where
  "printable c \<longleftrightarrow> c \<notin> {0x0a, 0x09, 0x08}"

text \<open>The offset that \<open>screen_putch\<close> computes for the cursor.\<close>

lemma cursor_off:
  "(scr_row s * SCREEN_WIDTH + scr_col s) * 2 = cell_off (unat (scr_row s)) (unat (scr_col s))"
  by (simp add: cell_off_def SCREEN_WIDTH_def algebra_simps)

lemma cell_index:
  assumes "col < 80" and "k < 80"
  shows "80 * row + col = 80 * r + k \<longleftrightarrow> row = r \<and> col = (k :: nat)"
proof
  assume eq: "80 * row + col = 80 * r + k"
  have "row = (80 * row + col) div 80" "r = (80 * r + k) div 80" using assms by simp_all
  then have "row = r" using eq by simp
  with eq show "row = r \<and> col = k" by simp
qed simp

lemma cell_poke:
  assumes "row < 25" and "col < 80" and "r < 25" and "k < 80"
  shows "cell (poke 0xb800 (cell_off r k) c s) row col
    = (if row = r \<and> col = k then (c, snd (cell s row col)) else cell s row col)"
proof -
  have "cell_off row col = cell_off r k \<longleftrightarrow> 2 * (80 * row + col) = 2 * (80 * r + k)"
    "cell_off row col + 1 = cell_off r k \<longleftrightarrow> 2 * (80 * row + col) + 1 = 2 * (80 * r + k)"
    using assms by (simp_all add: word_unat_eq_iff unat_cell_off unat_cell_off_1)
  moreover have "2 * a + 1 \<noteq> 2 * b" for a b :: nat by presburger
  ultimately have "cell_off row col = cell_off r k \<longleftrightarrow> row = r \<and> col = k"
    "cell_off row col + 1 \<noteq> cell_off r k"
    using cell_index [OF assms(2,4), of row r] by (simp_all only: mult_cancel_left) simp_all
  then show ?thesis by (auto simp: cell_def poke_def linear_inject)
qed

text \<open>
  A printable character appears in the cell under the cursor with the attribute of that cell,
  and every other cell keeps its contents, unless it goes into the last cell of the screen: then
  the screen scrolls, every line moves up by one and the last line is blank.
\<close>

theorem screen_putch_cell:
  assumes "on_screen s" and "printable c" and "row < 25" and "col < 80"
  shows "cell (screen_putch c s) row col =
    (let here = (\<lambda>r k. if r = unat (scr_row s) \<and> k = unat (scr_col s) then (c, snd (cell s r k)) else cell s r k)
     in if scr_row s = 24 \<and> scr_col s = 79
        then (if row < 24 then here (row + 1) col else (0x20, scr_attr s))
        else here row col)"
proof -
  let ?r = "unat (scr_row s)" and ?k = "unat (scr_col s)"
  let ?p = "poke 0xb800 (cell_off ?r ?k) c s"
  have rk: "?r < 25" "?k < 80"
    using assms(1) by (simp_all add: on_screen_def less16_iff SCREEN_WIDTH_def SCREEN_HEIGHT_def)
  have view: "cell t = cell t'" if "mem t = mem t'" for t t' :: "'a console_scheme"
    by (intro ext) (simp add: cell_def that)
  have p: "cell ?p row col = (if row = ?r \<and> col = ?k then (c, snd (cell s row col)) else cell s row col)"
    if "row < 25" for row using cell_poke [OF that assms(4) rk] .
  have last: "scr_col s + 1 = SCREEN_WIDTH \<longleftrightarrow> scr_col s = 79"
    by (simp add: SCREEN_WIDTH_def eq_diff_eq [symmetric])
  have "cell (screen_putch c s) = cell (if scr_col s = 79 then newline (?p\<lparr>scr_col := 80\<rparr>) else ?p)"
    unfolding screen_putch_def cursor_off Let_def using assms(2) last
    by (intro view) (simp add: printable_def SCREEN_WIDTH_def)
  also have "\<dots> = cell (if scr_row s = 24 \<and> scr_col s = 79 then scroll ?p else ?p)"
    by (intro view) (simp add: newline_def SCREEN_HEIGHT_def scroll_def farmemsetw_def farmemcpy_def Let_def)
  finally have fin: "cell (screen_putch c s) = cell (if scr_row s = 24 \<and> scr_col s = 79 then scroll ?p else ?p)" .
  define q where "q = ?p"
  define here where "here = (\<lambda>r k. if r = ?r \<and> k = ?k then (c, snd (cell s r k)) else cell s r k)"
  have here: "cell q r col = here r col" if "r < 25" for r
    using p [OF that] by (simp add: q_def here_def)
  have attr: "scr_attr q = scr_attr s" by (simp add: q_def)
  show ?thesis
  proof (cases "scr_row s = 24 \<and> scr_col s = 79")
    case True
    then have "cell (screen_putch c s) row col = cell (scroll q) row col" by (simp add: fin q_def)
    also have "\<dots> = (if row < 24 then here (row + 1) col else (0x20, scr_attr s))"
      using scroll_cell [OF assms(3,4), of q] here [of "row + 1"] attr by simp
    finally show ?thesis unfolding Let_def here_def [symmetric] using True by simp
  next
    case False
    then have "cell (screen_putch c s) row col = cell q row col" unfolding fin q_def by (simp only: if_False)
    also have "\<dots> = here row col" using here [OF assms(3)] .
    finally show ?thesis unfolding Let_def here_def [symmetric] by (simp only: False if_False)
  qed
qed

definition blank_screen :: "u16 \<Rightarrow> u16 \<Rightarrow> console" where
  "blank_screen row col = clocks.extend ticking (console.fields col row 0xF0 Screen_putch 0)"

lemma blank_screen_fields [simp]:
  "scr_row (blank_screen row col) = row" "scr_col (blank_screen row col) = col"
  by (simp_all add: blank_screen_def clocks.defs console.defs)

theorem screen_write_on_screen_witness:
  "on_screen (snd (screen_write [0x41, 0x0a, 0x42] (blank_screen 24 0)))"
  using screen_write_on_screen [of "blank_screen 24 0" "[0x41, 0x0a, 0x42]"]
  by (simp add: on_screen_def SCREEN_WIDTH_def SCREEN_HEIGHT_def del: screen_write.simps)

theorem screen_putch_cell_witness:
  "fst (cell (screen_putch 0x41 (blank_screen 24 79)) 23 79) = 0x41"
  using screen_putch_cell [of "blank_screen 24 79" "0x41" 23 79]
  by (simp add: on_screen_def SCREEN_WIDTH_def SCREEN_HEIGHT_def printable_def)

end
