(* ===== verification/Keyb.thy ===== *)
theory Keyb
  imports Screen
begin

text \<open>
  The keyboard, \<^verbatim>\<open>kernel/char/keyb.c\<close>: the interrupt handler that turns scan codes into
  characters, its eight-character buffer, and the read operation of the device.  The buffer is a
  list of eight bytes; characters read are returned as a list, which \<open>memcpy\<close> of the code puts
  into the caller's buffer.
\<close>

unbundle bit_operations_syntax

section \<open>Key maps\<close>

text \<open>The tables of \<^verbatim>\<open>kernel/char/kmap_us.h\<close>, by scan code.\<close>

definition keymap_normal :: "u8 list" where
  "keymap_normal =
    [0, 0x1b, 0x31, 0x32, 0x33, 0x34, 0x35, 0x36] @
    [0x37, 0x38, 0x39, 0x30, 0x2d, 0x3d, 0x08, 0x09] @
    [0x71, 0x77, 0x65, 0x72, 0x74, 0x79, 0x75, 0x69] @
    [0x6f, 0x70, 0x5b, 0x5d, 0x0a, 0, 0x61, 0x73] @
    [0x64, 0x66, 0x67, 0x68, 0x6a, 0x6b, 0x6c, 0x3b] @
    [0x27, 0x60, 0, 0x5c, 0x7a, 0x78, 0x63, 0x76] @
    [0x62, 0x6e, 0x6d, 0x2c, 0x2e, 0x2f, 0, 0x2a] @
    [0, 0x20, 0, 0, 0, 0, 0, 0] @
    [0, 0, 0, 0, 0, 0, 0, 0] @
    [0, 0, 0, 0, 0, 0, 0, 0x37] @
    [0x38, 0x39, 0x2d, 0x34, 0x35, 0x36, 0x2b, 0x31] @
    [0x32, 0x33, 0x30, 0x2c, 0, 0, 0, 0] @
    [0, 0, 0, 0, 0, 0, 0, 0] @
    [0, 0, 0, 0, 0, 0, 0, 0] @
    [0, 0, 0, 0, 0, 0, 0, 0] @
    [0, 0, 0, 0, 0, 0, 0, 0]"

definition keymap_shift :: "u8 list" where
  "keymap_shift =
    [0, 0x1b, 0x21, 0x22, 0x23, 0, 0x25, 0x26] @
    [0x2f, 0x28, 0x29, 0x5f, 0x2d, 0x2b, 0x08, 0x09] @
    [0x51, 0x57, 0x45, 0x52, 0x54, 0x59, 0x55, 0x49] @
    [0x4f, 0x50, 0x7b, 0x7d, 0x0a, 0, 0x41, 0x53] @
    [0x44, 0x46, 0x47, 0x48, 0x4a, 0x4b, 0x4c, 0x3a] @
    [0x22, 0x7e, 0, 0x7c, 0x5a, 0x58, 0x43, 0x56] @
    [0x42, 0x4e, 0x4d, 0x3c, 0x3e, 0x3f, 0, 0] @
    [0, 0x20, 0, 0, 0, 0, 0, 0] @
    [0, 0, 0, 0, 0, 0, 0, 0] @
    [0, 0, 0, 0, 0, 0, 0, 0] @
    [0, 0, 0, 0, 0, 0, 0, 0] @
    [0, 0, 0, 0, 0, 0, 0, 0] @
    [0, 0, 0, 0, 0, 0, 0, 0] @
    [0, 0, 0, 0, 0, 0, 0, 0] @
    [0, 0, 0, 0, 0, 0, 0, 0] @
    [0, 0, 0, 0, 0, 0, 0, 0]"

definition keymap_capslock :: "u8 list" where
  "keymap_capslock =
    [0, 0x1b, 0x31, 0x32, 0x33, 0x34, 0x35, 0x36] @
    [0x37, 0x38, 0x39, 0x30, 0x2d, 0x3d, 0x08, 0x09] @
    [0x51, 0x57, 0x45, 0x52, 0x54, 0x59, 0x55, 0x49] @
    [0x4f, 0x50, 0x5b, 0x5d, 0x0a, 0, 0x41, 0x53] @
    [0x44, 0x46, 0x47, 0x48, 0x4a, 0x4b, 0x4c, 0x3b] @
    [0x27, 0x60, 0, 0x5c, 0x5a, 0x58, 0x43, 0x56] @
    [0x42, 0x4e, 0x4d, 0x2c, 0x2e, 0x2f, 0, 0x2a] @
    [0, 0x20, 0, 0, 0, 0, 0, 0] @
    [0, 0, 0, 0, 0, 0, 0, 0] @
    [0, 0, 0, 0, 0, 0, 0, 0x37] @
    [0x38, 0x39, 0x2d, 0x34, 0x35, 0x36, 0x2b, 0x31] @
    [0x32, 0x33, 0x30, 0x2c, 0, 0, 0, 0] @
    [0, 0, 0, 0, 0, 0, 0, 0] @
    [0, 0, 0, 0, 0, 0, 0, 0] @
    [0, 0, 0, 0, 0, 0, 0, 0] @
    [0, 0, 0, 0, 0, 0, 0, 0]"

definition keymap_shift_capslock :: "u8 list" where
  "keymap_shift_capslock =
    [0, 0x1b, 0x31, 0x32, 0x33, 0x34, 0x35, 0x36] @
    [0x37, 0x38, 0x39, 0x30, 0x2d, 0x3d, 0x08, 0x09] @
    [0x71, 0x77, 0x65, 0x72, 0x74, 0x79, 0x75, 0x69] @
    [0x6f, 0x70, 0x5b, 0x5d, 0x0a, 0, 0x61, 0x73] @
    [0x64, 0x66, 0x67, 0x68, 0x6a, 0x6b, 0x6c, 0x3b] @
    [0x27, 0x60, 0, 0x5c, 0x7a, 0x78, 0x63, 0x76] @
    [0x62, 0x6e, 0x6d, 0x2c, 0x2e, 0x2f, 0, 0x2a] @
    [0, 0x20, 0, 0, 0, 0, 0, 0] @
    [0, 0, 0, 0, 0, 0, 0, 0] @
    [0, 0, 0, 0, 0, 0, 0, 0x37] @
    [0x38, 0x39, 0x2d, 0x34, 0x35, 0x36, 0x2b, 0x31] @
    [0x32, 0x33, 0x30, 0x2c, 0, 0, 0, 0] @
    [0, 0, 0, 0, 0, 0, 0, 0] @
    [0, 0, 0, 0, 0, 0, 0, 0] @
    [0, 0, 0, 0, 0, 0, 0, 0] @
    [0, 0, 0, 0, 0, 0, 0, 0]"

definition keymap_altgr :: "u8 list" where
  "keymap_altgr =
    [0, 0, 0, 0x20, 0x20, 0x20, 0, 0x36] @
    [0x37, 0x38, 0x39, 0x30, 0x2d, 0x3d, 0x08, 0x09] @
    [0x71, 0x77, 0x65, 0x72, 0x74, 0x79, 0x75, 0x69] @
    [0x6f, 0x70, 0x5b, 0x5d, 0x0a, 0, 0x61, 0x73] @
    [0x64, 0x66, 0x67, 0x68, 0x6a, 0x6b, 0x6c, 0x3b] @
    [0x27, 0x60, 0, 0x5c, 0x7a, 0x78, 0x63, 0x76] @
    [0x62, 0x6e, 0x6d, 0x2c, 0x2e, 0x2f, 0, 0x2a] @
    [0, 0x20, 0, 0, 0, 0, 0, 0] @
    [0, 0, 0, 0, 0, 0, 0, 0] @
    [0, 0, 0, 0, 0, 0, 0, 0x37] @
    [0x38, 0x39, 0x2d, 0x34, 0x35, 0x36, 0x2b, 0x31] @
    [0x32, 0x33, 0x30, 0x2c, 0, 0, 0, 0] @
    [0, 0, 0, 0, 0, 0, 0, 0] @
    [0, 0, 0, 0, 0, 0, 0, 0] @
    [0, 0, 0, 0, 0, 0, 0, 0] @
    [0, 0, 0, 0, 0, 0, 0, 0]"

section \<open>State and operations\<close>

definition BUF_SIZE :: nat where
  "BUF_SIZE = 8"

record keyboard = console +
  buffer_used :: u16
  keyb_buf :: "u8 list"
  is_esc :: bool
  shift_l :: bool
  shift_r :: bool
  altgr :: bool
  caps :: bool

definition choose_keymap :: "'z keyboard_scheme \<Rightarrow> u8 list" where
  "choose_keymap s =
     (let keymap = (if caps s then keymap_capslock else keymap_normal);
          keymap = (if shift_l s \<or> shift_r s
                    then (if caps s then keymap_shift_capslock else keymap_shift) else keymap)
      in if altgr s then keymap_altgr else keymap)"

definition keyb_func :: "'z keyboard_scheme \<Rightarrow> 'z keyboard_scheme" where
  "keyb_func s =
     (case inb 0x60 s of (code, s) \<Rightarrow>
        let make = (code AND 0x80 = 0); c = code AND 0x7f in
        if int BUF_SIZE \<le> sint (buffer_used s) then s
        else if is_esc s then (if c = 0x38 then s\<lparr>altgr := make\<rparr> else s)
        else if c = 0x2a then s\<lparr>shift_l := make\<rparr>
        else if c = 0x36 then s\<lparr>shift_r := make\<rparr>
        else if c = 0x3a then (if make then s\<lparr>caps := \<not> caps s\<rparr> else s)
        else if c = 0xe0 then s\<lparr>is_esc := make\<rparr>
        else if make then
          s\<lparr>keyb_buf := (keyb_buf s)[unat (buffer_used s) := choose_keymap s ! unat c],
            buffer_used := buffer_used s + 1\<rparr>
        else s)"

text \<open>
  \<open>keyb_read\<close>: the second \<open>memcpy\<close> moves \<open>BUF_SIZE - buffer_used\<close> bytes, upwards through the
  buffer from its start.
\<close>

definition keyb_read :: "u16 \<Rightarrow> 'z keyboard_scheme \<Rightarrow> (u16 \<times> u8 list) \<times> 'z keyboard_scheme" where
  "keyb_read count s =
     (let n = (if count > buffer_used s then buffer_used s else count);
          moved = BUF_SIZE - unat (buffer_used s);
          buf = keyb_buf s
      in ((n, take (unat n) buf),
          s\<lparr>keyb_buf := take moved (drop (unat n) buf) @ drop moved buf,
            buffer_used := buffer_used s - n\<rparr>))"

section \<open>The buffer as a queue\<close>

definition keyb_ok :: "'z keyboard_scheme \<Rightarrow> bool" where
  "keyb_ok s \<longleftrightarrow> length (keyb_buf s) = BUF_SIZE \<and> unat (buffer_used s) \<le> BUF_SIZE \<and> \<not> is_esc s"

definition typed :: "'z keyboard_scheme \<Rightarrow> u8 list" where
  "typed s = take (unat (buffer_used s)) (keyb_buf s)"

text \<open>What a scan code does to the queue: it appends at most one character, if there is room.\<close>

definition mapped_key :: "u8 \<Rightarrow> bool" where
  "mapped_key code \<longleftrightarrow> code AND 0x80 = 0 \<and> code AND 0x7f \<notin> {0x2a, 0x36, 0x3a}"

lemma and_7f_small: "(code :: u8) AND 0x7f \<noteq> 0xe0"
proof
  assume "code AND 0x7f = 0xe0"
  then have "bit (code AND 0x7f) 7" by (simp add: bit_numeral_rec)
  then show False by (simp add: bit_and_iff bit_numeral_rec)
qed

lemma sint_buffer_used:
  "unat (u :: u16) \<le> BUF_SIZE \<Longrightarrow> int BUF_SIZE \<le> sint u \<longleftrightarrow> unat u = BUF_SIZE"
proof -
  assume u: "unat u \<le> BUF_SIZE"
  then have "unat u \<le> 8" by (simp add: BUF_SIZE_def)
  then have "u \<le> 8" by (simp add: le16_iff)
  then have "uint u \<le> 8" by (simp add: word_le_def)
  then have "sint u = int (unat u)"
    using signed_take_bit_int_eq_self [of 15 "uint u"] order_trans [of "- 32768" 0 "uint u"]
    by (simp add: sint_uint)
  then show ?thesis using u by (simp only: of_nat_le_iff) auto
qed

lemma keymap_lengths:
  "length keymap_normal = 128" "length keymap_shift = 128" "length keymap_capslock = 128"
  "length keymap_shift_capslock = 128" "length keymap_altgr = 128"
  by (simp_all only: keymap_normal_def keymap_shift_def keymap_capslock_def
      keymap_shift_capslock_def keymap_altgr_def length_append list.size)

lemma choose_keymap_length: "length (choose_keymap s) = 128"
  by (simp add: choose_keymap_def Let_def keymap_lengths)

lemma inb_keyboard:
  "inb p s = (v, s') \<Longrightarrow> v = port_in s (port_reads s) p \<and> keyb_buf s' = keyb_buf s
    \<and> buffer_used s' = buffer_used s \<and> is_esc s' = is_esc s \<and> choose_keymap s' = choose_keymap s"
proof -
  assume "inb p s = (v, s')"
  then have "v = port_in s (port_reads s) p" "s' = s\<lparr>port_reads := Suc (port_reads s)\<rparr>"
    by (simp_all add: inb_def)
  then show ?thesis by (simp add: choose_keymap_def)
qed

text \<open>
  A keyboard interrupt appends exactly the character that the key map in force gives for a
  pressed key, when there is room in the buffer; releases and modifier keys append nothing.  The
  buffer never holds more than eight characters and the escape state is never entered.
\<close>

theorem keyb_func_queue:
  assumes "keyb_ok s"
  shows "keyb_ok (keyb_func s) \<and> (let code = port_in s (port_reads s) 0x60 in
    typed (keyb_func s) =
      (if mapped_key code \<and> length (typed s) < BUF_SIZE
       then typed s @ [choose_keymap s ! unat (code AND 0x7f)] else typed s))"
proof -
  obtain code s1 where i: "inb 0x60 s = (code, s1)" by (cases "inb 0x60 s")
  note s1 = inb_keyboard [OF i]
  let ?u = "unat (buffer_used s)" and ?c = "code AND 0x7f"
  have ok: "length (keyb_buf s) = BUF_SIZE" "?u \<le> BUF_SIZE" "\<not> is_esc s"
    using assms by (simp_all add: keyb_ok_def)
  have len: "length (typed s) = ?u" using ok by (simp add: typed_def)
  show ?thesis
  proof (cases "?u < BUF_SIZE \<and> mapped_key code")
    case True
    then have "unat (buffer_used s + 1) = ?u + 1" by (simp add: unat_add16_small BUF_SIZE_def)
    moreover have "take (Suc ?u) ((keyb_buf s)[?u := x]) = take ?u (keyb_buf s) @ [x]" for x
      using True ok(1) by (simp add: take_Suc_conv_app_nth)
    moreover have "\<not> int BUF_SIZE \<le> sint (buffer_used s)"
      using sint_buffer_used [OF ok(2)] True by simp
    ultimately show ?thesis
      using True ok s1 len by (simp add: keyb_func_def i Let_def mapped_key_def and_7f_small keyb_ok_def typed_def)
  next
    case False
    then show ?thesis
      using sint_buffer_used [OF ok(2)] ok s1 len
      by (auto simp: keyb_func_def i Let_def mapped_key_def and_7f_small keyb_ok_def typed_def)
  qed
qed

lemma keyb_read_typed:
  assumes "keyb_ok s" and "n = min (unat count) (unat (buffer_used s))"
    and "unat (buffer_used s) - n \<le> BUF_SIZE - unat (buffer_used s)"
  shows "fst (keyb_read count s) = (of_nat n, take n (typed s))
    \<and> typed (snd (keyb_read count s)) = drop n (typed s) \<and> keyb_ok (snd (keyb_read count s))"
proof -
  let ?u = "unat (buffer_used s)"
  define m where "m = (if count > buffer_used s then buffer_used s else count)"
  have m: "unat m = n" using assms(2) by (auto simp: m_def less16_iff)
  have ok: "length (keyb_buf s) = BUF_SIZE" "?u \<le> BUF_SIZE" "\<not> is_esc s"
    using assms(1) by (simp_all add: keyb_ok_def)
  have n: "n \<le> ?u" using assms(2) by simp
  then have u: "unat (buffer_used s - m) = ?u - n" using m by (simp add: unat_sub16_le)
  have "(of_nat n :: u16) = m" by (simp add: m [symmetric])
  moreover have "take (?u - n) (take (BUF_SIZE - ?u) (drop n (keyb_buf s)) @ drop (BUF_SIZE - ?u) (keyb_buf s))
      = drop n (take ?u (keyb_buf s))"
    using assms(3) ok n by (simp add: drop_take min_absorb1)
  ultimately show ?thesis
    using ok n u by (auto simp: keyb_read_def Let_def m_def [symmetric] m typed_def keyb_ok_def)
qed


definition some_keyboard :: "u16 \<Rightarrow> u8 list \<Rightarrow> keyboard" where
  "some_keyboard used buf =
     console.extend (blank_screen 0 0) (keyboard.fields used buf False False False False False)"

lemma some_keyboard_fields [simp]:
  "buffer_used (some_keyboard used buf) = used" "keyb_buf (some_keyboard used buf) = buf"
  "is_esc (some_keyboard used buf) = False"
  by (simp_all add: some_keyboard_def console.defs keyboard.defs)

text \<open>
  A full buffer of which three characters are read keeps its first five, which have just been
  read, instead of the last five.
\<close>

lemma keyb_read_repeats:
  "typed (snd (keyb_read 3 (some_keyboard 8 [1, 2, 3, 4, 5, 6, 7, 8]))) = [1, 2, 3, 4, 5]"
  by (simp add: keyb_read_def typed_def BUF_SIZE_def Let_def)

theorem keyb_func_queue_witness:
  "keyb_ok (keyb_func (some_keyboard 8 [1, 2, 3, 4, 5, 6, 7, 8]))"
  using keyb_func_queue [of "some_keyboard 8 [1, 2, 3, 4, 5, 6, 7, 8]"]
  by (simp add: keyb_ok_def BUF_SIZE_def)


end
