(* ===== verification/UInt64.thy ===== *)
theory UInt64
  imports Prelude
begin

text \<open>
  The 64-bit positions of the file layer: \<^verbatim>\<open>kernel/uint64.c\<close>.  A \<open>Uint64\<close> is an array
  of four 16-bit limbs, least significant first; the loops over the array are recursions
  over the list of limbs.  \<open>val64\<close> reads a \<open>Uint64\<close> as a natural number, and the lemmas say
  which operations are the arithmetic they stand for, and under which conditions.

  Shifts are those of the 8086: the compiler passes the count in \<open>cl\<close>, and a shift of a
  16-bit register by 16 leaves 0.
\<close>

unbundle bit_operations_syntax

section \<open>The type\<close>

datatype Uint64 = U64 (i0: u16) (i1: u16) (i2: u16) (i3: u16)

definition limbs :: "Uint64 \<Rightarrow> u16 list" where
  "limbs p = [i0 p, i1 p, i2 p, i3 p]"

definition of_limbs :: "u16 list \<Rightarrow> Uint64" where
  "of_limbs ls = U64 (ls ! 0) (ls ! 1) (ls ! 2) (ls ! 3)"

fun val_limbs :: "u16 list \<Rightarrow> nat" where
  "val_limbs [] = 0"
| "val_limbs (a # as) = unat a + 65536 * val_limbs as"

definition val64 :: "Uint64 \<Rightarrow> nat" where
  "val64 p = val_limbs (limbs p)"

section \<open>Operations\<close>

definition init64 :: "u16 \<Rightarrow> u16 \<Rightarrow> u16 \<Rightarrow> u16 \<Rightarrow> Uint64" where
  "init64 hh hl lh ll = U64 ll lh hl hh"

definition init64_32 :: "u32 \<Rightarrow> u32 \<Rightarrow> Uint64" where
  "init64_32 h l =
     init64 (ucast (drop_bit 16 (h AND 0xffff0000))) (ucast (h AND 0xffff))
            (ucast (drop_bit 16 (l AND 0xffff0000))) (ucast (l AND 0xffff))"

definition set64 :: "Uint64 \<Rightarrow> Uint64 \<Rightarrow> Uint64" where
  "set64 a b = U64 (i0 b) (i1 b) (i2 b) (i3 b)"

text \<open>The comparisons walk from the most significant limb down and stop at the first difference.\<close>

fun cmp64_16_loop :: "u16 list \<Rightarrow> bool" where
  "cmp64_16_loop [] = False"
| "cmp64_16_loop (a # as) = (if a > 0 then True else cmp64_16_loop as)"

definition cmp64_16 :: "Uint64 \<Rightarrow> u16 \<Rightarrow> int" where
  "cmp64_16 a b =
     (if cmp64_16_loop [i3 a, i2 a, i1 a] then 1
      else if i0 a > b then 1
      else if i0 a < b then -1
      else 0)"

fun cmp64_loop :: "(u16 \<times> u16) list \<Rightarrow> int" where
  "cmp64_loop [] = 0"
| "cmp64_loop ((a, b) # rest) =
     (if a > b then 1 else if a < b then -1 else cmp64_loop rest)"

definition cmp64 :: "Uint64 \<Rightarrow> Uint64 \<Rightarrow> int" where
  "cmp64 a b = cmp64_loop (rev (zip (limbs a) (limbs b)))"

fun inc64_loop :: "u16 \<Rightarrow> u16 list \<Rightarrow> u16 list" where
  "inc64_loop carry [] = []"
| "inc64_loop carry (a # as) =
     (let a' = a + carry in a' # inc64_loop (if a' < carry then 1 else 0) as)"

definition inc64 :: "Uint64 \<Rightarrow> Uint64" where
  "inc64 a = of_limbs (inc64_loop 1 (limbs a))"

fun add64_loop :: "u16 \<Rightarrow> u16 list \<Rightarrow> u16 list \<Rightarrow> u16 list" where
  "add64_loop carry (a # as) (b # bs) =
     (let t = b + carry; a' = a + t
      in a' # add64_loop (if a' < t then 1 else 0) as bs)"
| "add64_loop carry _ _ = []"

definition add64 :: "Uint64 \<Rightarrow> Uint64 \<Rightarrow> Uint64" where
  "add64 a b = of_limbs (add64_loop 0 (limbs a) (limbs b))"

fun add64_16_loop :: "u16 \<Rightarrow> u16 \<Rightarrow> u16 list \<Rightarrow> u16 list" where
  "add64_16_loop carry b [] = []"
| "add64_16_loop carry b (a # as) =
     (let t = b + carry; a' = a + t
      in a' # add64_16_loop (if a' < t then 1 else 0) 0 as)"

definition add64_16 :: "Uint64 \<Rightarrow> u16 \<Rightarrow> Uint64" where
  "add64_16 a b = of_limbs (add64_16_loop 0 b (limbs a))"

fun dec64_loop :: "u16 \<Rightarrow> u16 list \<Rightarrow> u16 list" where
  "dec64_loop carry [] = []"
| "dec64_loop carry (a # as) =
     (let t = NOT 0 + 1 - carry; a' = a + t
      in a' # dec64_loop (if a' > t then 1 else 0) as)"

definition dec64 :: "Uint64 \<Rightarrow> Uint64" where
  "dec64 a =
     (let carry = 0; t = NOT 1 + 1 - carry; a0 = i0 a + t
      in of_limbs (a0 # dec64_loop (if a0 > t then 1 else 0) [i1 a, i2 a, i3 a]))"

fun sub64_loop :: "u16 \<Rightarrow> u16 list \<Rightarrow> u16 list \<Rightarrow> u16 list" where
  "sub64_loop carry (a # as) (b # bs) =
     (let t = NOT b + 1 - carry; a' = a + t
      in a' # sub64_loop (if a' > t then 1 else 0) as bs)"
| "sub64_loop carry _ _ = []"

definition sub64 :: "Uint64 \<Rightarrow> Uint64 \<Rightarrow> Uint64" where
  "sub64 a b = of_limbs (sub64_loop 0 (limbs a) (limbs b))"

text \<open>
  \<open>shr64\<close> panics for counts above 16, so its \<open>while(n > 16)\<close> loop never runs; the result is
  the shifted number and the bits shifted out.
\<close>

definition shr64 :: "Uint64 \<Rightarrow> u16 \<Rightarrow> kerror + Uint64 \<times> u16" where
  "shr64 p n =
     (if n > 16 then Inl (Panic ''too large shr64, fix this'')
      else
        let k = unat n;
            shifted = drop_bit (16 - k) (push_bit (16 - k) (i0 p));
            p0 = drop_bit k (i0 p) OR push_bit (16 - k) (i1 p);
            p1 = drop_bit k (i1 p) OR push_bit (16 - k) (i2 p);
            p2 = drop_bit k (i2 p) OR push_bit (16 - k) (i3 p);
            p3 = drop_bit k (i3 p)
        in Inr (U64 p0 p1 p2 p3, shifted))"

function shl64_words :: "Uint64 \<Rightarrow> u16 \<Rightarrow> Uint64 \<times> u16" where
  "shl64_words p n =
     (if n > 16 then shl64_words (U64 0 (i0 p) (i1 p) (i2 p)) (n - 16) else (p, n))"
  by pat_completeness auto
termination
  by (relation "measure (\<lambda>(p, n). unat n)") (auto simp: nat_of_word unat_sub16_le)

declare shl64_words.simps [simp del]

definition shl64 :: "Uint64 \<Rightarrow> u16 \<Rightarrow> Uint64" where
  "shl64 p n =
     (let (p, n) = shl64_words p n; k = unat n;
          p3 = push_bit k (i3 p) OR drop_bit (16 - k) (i2 p);
          p2 = push_bit k (i2 p) OR drop_bit (16 - k) (i1 p);
          p1 = push_bit k (i1 p) OR drop_bit (16 - k) (i0 p);
          p0 = push_bit k (i0 p)
      in U64 p0 p1 p2 p3)"

section \<open>Limb lists as numbers\<close>

lemma val_limbs_bound: "val_limbs as < 65536 ^ length as"
proof (induction as)
  case Nil
  then show ?case by simp
next
  case (Cons a as)
  have "unat a < 65536" by (rule unat_lt_65536)
  with Cons show ?case by simp
qed

lemma limbs_of_limbs: "length ls = 4 \<Longrightarrow> limbs (of_limbs ls) = ls"
  by (auto simp: limbs_def of_limbs_def numeral_eq_Suc length_Suc_conv)

lemma length_limbs [simp]: "length (limbs p) = 4"
  by (simp add: limbs_def)

lemma val64_expand:
  "val64 p = unat (i0 p) + 65536 * unat (i1 p) + 4294967296 * unat (i2 p)
     + 281474976710656 * unat (i3 p)"
  by (simp add: val64_def limbs_def)

lemma val64_bound: "val64 p < 2 ^ 64"
  using val_limbs_bound [of "limbs p"] by (simp add: val64_def)

lemma val_limbs_inject:
  "length as = length bs \<Longrightarrow> val_limbs as = val_limbs bs \<longleftrightarrow> as = bs"
proof (induction as bs rule: list_induct2)
  case Nil
  then show ?case by simp
next
  case (Cons a as b bs)
  have "unat a < 65536" "unat b < 65536" by (rule unat_lt_65536)+
  then have "unat a + 65536 * val_limbs as = unat b + 65536 * val_limbs bs
      \<longleftrightarrow> unat a = unat b \<and> val_limbs as = val_limbs bs"
    by (auto dest: arg_cong [where f = "\<lambda>x. x mod 65536"])
  then show ?case using Cons by (simp add: word_unat_eq_iff)
qed

lemma limbs_inject: "limbs a = limbs b \<longleftrightarrow> a = b"
  by (cases a; cases b) (simp add: limbs_def)

lemma val64_inject: "val64 a = val64 b \<longleftrightarrow> a = b"
  by (simp add: val64_def val_limbs_inject limbs_inject)

section \<open>Addition\<close>

text \<open>
  One invariant covers the three adders.  A limb step adds \<open>b + carry\<close> in 16 bits first, so
  it is right unless that sum itself wraps.
\<close>

lemma add_limb:
  assumes "c = 0 \<or> b \<noteq> 0xffff" and "unat (c :: u16) \<le> 1"
  shows "unat (a + (b + c)) + 65536 * (if a + (b + c) < b + c then 1 else 0)
    = unat a + unat b + unat c"
proof -
  have "unat b + unat c < 65536"
  proof (cases "c = 0")
    case True
    then show ?thesis using unat_lt_65536 [of b] by simp
  next
    case False
    with assms have "b \<noteq> 0xffff" by simp
    then have "unat b \<noteq> 65535" by (simp add: word_unat_eq_iff)
    with assms(2) unat_le_65535 [of b] show ?thesis by linarith
  qed
  then have "unat (b + c) = unat b + unat c"
    by (simp only: unat_add16_if if_True)
  then show ?thesis
    using add16_split [of a "b + c"] by simp
qed

lemma add64_loop_length: "length as = length bs \<Longrightarrow> length (add64_loop c as bs) = length as"
  by (induction c as bs rule: add64_loop.induct) (simp_all add: Let_def)

lemma add64_loop_value:
  assumes "length as = length bs" and "unat c \<le> 1"
    and "c = 0 \<or> bs = [] \<or> hd bs \<noteq> 0xffff" and "0xffff \<notin> set (tl bs)"
  shows "\<exists>k. val_limbs (add64_loop c as bs) + k * 65536 ^ length as
    = val_limbs as + val_limbs bs + unat c * (if as = [] then 0 else 1)"
  using assms
proof (induction c as bs rule: add64_loop.induct)
  case (1 c a as b bs)
  define t where "t = b + c"
  define c' :: u16 where "c' = (if a + t < t then 1 else 0)"
  have step: "unat (a + t) + 65536 * (if a + t < t then 1 else 0) = unat a + unat b + unat c"
    unfolding t_def using "1.prems" by (intro add_limb) auto
  have c': "unat c' = (if a + t < t then 1 else 0)" by (simp add: c'_def)
  have prems: "length as = length bs" "unat c' \<le> 1" "c' = 0 \<or> bs = [] \<or> hd bs \<noteq> 0xffff"
    "0xffff \<notin> set (tl bs)"
    using "1.prems" c' by (cases bs; auto)+
  obtain k where k: "val_limbs (add64_loop c' as bs) + k * 65536 ^ length as
      = val_limbs as + val_limbs bs + unat c' * (if as = [] then 0 else 1)"
    using "1.IH" [of t "a + t"] prems unfolding c'_def t_def by auto
  show ?case
  proof (cases "as = []")
    case True
    with prems have "bs = []" by simp
    with True step show ?thesis
      by (intro exI [of _ "unat c'"]) (simp add: Let_def c' t_def [symmetric] del: One_nat_def)
  next
    case False
    with k step c' show ?thesis
      by (intro exI [of _ k]) (simp add: Let_def t_def [symmetric] c'_def [symmetric] algebra_simps)
  qed
qed auto

lemma mod_of_split: "r < m \<Longrightarrow> r + k * m = x \<Longrightarrow> r = x mod (m :: nat)"
  by auto

lemma val64_of_limbs: "length ls = 4 \<Longrightarrow> val64 (of_limbs ls) = val_limbs ls"
  by (simp add: val64_def limbs_of_limbs)

lemma limb_sum_mod64:
  assumes "length ls = 4" and "\<exists>k. val_limbs ls + k * 65536 ^ 4 = x"
  shows "val64 (of_limbs ls) = x mod 2 ^ 64"
proof -
  from assms(2) obtain k where "val_limbs ls + k * 2 ^ 64 = x" by auto
  moreover have "val_limbs ls < 2 ^ 64"
    using val_limbs_bound [of ls] assms(1) by simp
  ultimately show ?thesis
    using assms(1) by (simp add: val64_of_limbs mod_of_split)
qed

lemma add64_value:
  assumes "i1 b \<noteq> 0xffff" and "i2 b \<noteq> 0xffff" and "i3 b \<noteq> 0xffff"
  shows "val64 (add64 a b) = (val64 a + val64 b) mod 2 ^ 64"
  unfolding add64_def
proof (rule limb_sum_mod64)
  show "length (add64_loop 0 (limbs a) (limbs b)) = 4"
    by (simp add: add64_loop_length)
  have "0xffff \<notin> set (tl (limbs b))"
    using assms by (simp add: limbs_def)
  then show "\<exists>k. val_limbs (add64_loop 0 (limbs a) (limbs b)) + k * 65536 ^ 4 = val64 a + val64 b"
    using add64_loop_value [of "limbs a" "limbs b" 0] by (simp add: val64_def)
qed

text \<open>
  C16: \<open>add64\<close> is addition modulo \<open>2 ^ 64\<close> provided that none of the upper three limbs of
  the added number is \<open>0xffff\<close>; that covers every position and size the file layer adds.
\<close>

theorem add64_correct:
  assumes "i1 b \<noteq> 0xffff" and "i2 b \<noteq> 0xffff" and "i3 b \<noteq> 0xffff"
  shows "val64 (add64 a b) = (val64 a + val64 b) mod 2 ^ 64"
  using assms by (rule add64_value)

theorem add64_correct_witness:
  "val64 (add64 (U64 0xfe00 0 0 0) (U64 0x1ff 0xfffe 0 0)) = 0xfe00 + 0xfffe01ff"
proof -
  have "val64 (add64 (U64 0xfe00 0 0 0) (U64 0x1ff 0xfffe 0 0))
      = (val64 (U64 0xfe00 0 0 0) + val64 (U64 0x1ff 0xfffe 0 0)) mod 2 ^ 64"
    by (rule add64_correct) simp_all
  then show ?thesis by (simp add: val64_expand)
qed

text \<open>
  Without the condition the sum loses a carry: \<open>0xffff + 0xffff0001\<close> comes out as 0.
\<close>

lemma add64_lost_carry:
  "add64 (U64 0xffff 0 0 0) (U64 1 0xffff 0 0) = U64 0 0 0 0"
  by (simp add: add64_def limbs_def of_limbs_def)

lemma add64_16_loop_eq: "add64_16_loop c b as = add64_loop c as (take (length as) (b # replicate (length as) 0))"
proof (induction c b as rule: add64_16_loop.induct)
  case (2 c b a as)
  then show ?case by (cases as) (simp_all add: Let_def)
qed simp

lemma inc64_loop_eq: "inc64_loop c as = add64_loop c as (replicate (length as) 0)"
  by (induction c as rule: inc64_loop.induct) (simp_all add: Let_def)

text \<open>
  \<open>add64_16\<close> is addition of a 16-bit number modulo \<open>2 ^ 64\<close>, for all arguments.
\<close>

theorem add64_16_correct: "val64 (add64_16 a b) = (val64 a + unat b) mod 2 ^ 64"
  unfolding add64_16_def
proof (rule limb_sum_mod64)
  have loop: "add64_16_loop 0 b (limbs a) = add64_loop 0 (limbs a) [b, 0, 0, 0]"
    by (simp add: add64_16_loop_eq numeral_eq_Suc)
  then show "length (add64_16_loop 0 b (limbs a)) = 4"
    by (simp add: add64_loop_length)
  show "\<exists>k. val_limbs (add64_16_loop 0 b (limbs a)) + k * 65536 ^ 4 = val64 a + unat b"
    using add64_loop_value [of "limbs a" "[b, 0, 0, 0]" 0] by (simp add: loop val64_def)
qed

text \<open>
  \<open>inc64\<close> adds 1 modulo \<open>2 ^ 64\<close>, for all arguments.\<close>

theorem inc64_correct: "val64 (inc64 a) = (val64 a + 1) mod 2 ^ 64"
  unfolding inc64_def
proof (rule limb_sum_mod64)
  have loop: "inc64_loop 1 (limbs a) = add64_loop 1 (limbs a) [0, 0, 0, 0]"
    by (simp add: inc64_loop_eq numeral_eq_Suc)
  then show "length (inc64_loop 1 (limbs a)) = 4"
    by (simp add: add64_loop_length)
  have "limbs a \<noteq> []" by (simp add: limbs_def)
  then show "\<exists>k. val_limbs (inc64_loop 1 (limbs a)) + k * 65536 ^ 4 = val64 a + 1"
    using add64_loop_value [of "limbs a" "[0, 0, 0, 0]" 1] by (simp add: loop val64_def)
qed

section \<open>Comparison\<close>

lemma val_limbs_append:
  "val_limbs (as @ bs) = val_limbs as + 65536 ^ length as * val_limbs bs"
  by (induction as) (simp_all add: algebra_simps)

lemma digit_order:
  assumes "x < (m :: nat)" and "y < m" and "p < q"
  shows "x + m * p < y + m * q"
proof -
  have "x + m * p < m * (p + 1)" using assms(1) by simp
  also have "\<dots> \<le> m * q" using assms(3) by (intro mult_le_mono2) simp
  finally show ?thesis by simp
qed

lemma cmp64_loop_value:
  "length as = length bs \<Longrightarrow>
   cmp64_loop (rev (zip as bs)) =
     (if val_limbs as < val_limbs bs then -1 else if val_limbs bs < val_limbs as then 1 else 0)"
proof (induction as arbitrary: bs rule: rev_induct)
  case Nil
  then show ?case by simp
next
  case (snoc a as)
  then obtain bs' b where bs: "bs = bs' @ [b]" "length as = length bs'"
    by (cases bs rule: rev_cases) auto
  let ?x = "val_limbs as" and ?y = "val_limbs bs'" and ?m = "65536 ^ length as :: nat"
  have bounds: "?x < ?m" "?y < ?m"
    using val_limbs_bound [of as] val_limbs_bound [of bs'] bs(2) by simp_all
  consider "unat a < unat b" | "unat b < unat a" | "a = b"
    using word_unat_eq_iff nat_neq_iff by blast
  then show ?case
  proof cases
    case 1
    then show ?thesis
      using digit_order [OF bounds 1] bs by (simp add: val_limbs_append less16_iff)
  next
    case 2
    then show ?thesis
      using digit_order [OF bounds(2,1) 2] bs by (simp add: val_limbs_append less16_iff)
  next
    case 3
    then show ?thesis using snoc.IH [of bs'] bs by (simp add: val_limbs_append)
  qed
qed

lemma cmp64_value:
  "cmp64 a b = (if val64 a < val64 b then -1 else if val64 b < val64 a then 1 else 0)"
  by (simp add: cmp64_def val64_def cmp64_loop_value)

text \<open>
  \<open>cmp64\<close> orders two numbers by value: -1, 0 or 1.\<close>

theorem cmp64_correct:
  "cmp64 a b = (if val64 a < val64 b then -1 else if val64 b < val64 a then 1 else 0)"
  by (rule cmp64_value)

lemma cmp64_16_loop_iff: "cmp64_16_loop as \<longleftrightarrow> (\<exists>a \<in> set as. a \<noteq> 0)"
  by (induction as) (auto simp: word_neq_0_conv)

lemma cmp64_16_correct:
  "cmp64_16 a b = (if val64 a < unat b then -1 else if unat b < val64 a then 1 else 0)"
proof (cases "cmp64_16_loop [i3 a, i2 a, i1 a]")
  case True
  then have "0 < unat (i1 a) \<or> 0 < unat (i2 a) \<or> 0 < unat (i3 a)"
    by (auto simp only: cmp64_16_loop_iff unat_gt_0 list.set)
  then have "unat b < val64 a"
    unfolding val64_expand using unat_lt_65536 [of b] by linarith
  then show ?thesis using True by (simp only: cmp64_16_def if_True) simp
next
  case False
  then have "val64 a = unat (i0 a)"
    by (simp only: cmp64_16_loop_iff list.set) (simp add: val64_expand)
  then show ?thesis
    using False by (simp only: cmp64_16_def less16_iff if_False) auto
qed

lemma cmp64_less_0 [simp]: "cmp64 a b < 0 \<longleftrightarrow> val64 a < val64 b"
  and cmp64_le_0 [simp]: "cmp64 a b \<le> 0 \<longleftrightarrow> val64 a \<le> val64 b"
  and cmp64_eq_0 [simp]: "cmp64 a b = 0 \<longleftrightarrow> a = b"
  by (auto simp: cmp64_def val64_def cmp64_loop_value val64_inject [unfolded val64_def, symmetric])

text \<open>The order that \<open>cmp64\<close> decides is linear, so the library's order automation applies.\<close>

instantiation Uint64 :: linorder
begin

definition less_eq_Uint64 :: "Uint64 \<Rightarrow> Uint64 \<Rightarrow> bool" where
  "less_eq_Uint64 a b \<longleftrightarrow> cmp64 a b \<le> 0"

definition less_Uint64 :: "Uint64 \<Rightarrow> Uint64 \<Rightarrow> bool" where
  "less_Uint64 a b \<longleftrightarrow> cmp64 a b < 0"

instance
  by standard (auto simp: less_eq_Uint64_def less_Uint64_def val64_inject [symmetric])

end

lemma le_val64: "a \<le> b \<longleftrightarrow> val64 a \<le> val64 b"
  and less_val64: "a < b \<longleftrightarrow> val64 a < val64 b"
  by (simp_all add: less_eq_Uint64_def less_Uint64_def)

section \<open>Shifts\<close>

lemma unat_or_limbs:
  assumes "k \<le> 16"
  shows "unat (drop_bit k (a :: u16) OR push_bit (16 - k) b)
    = unat a div 2 ^ k + (unat b mod 2 ^ k) * 2 ^ (16 - k)"
proof -
  let ?x = "drop_bit k (unat a)" and ?y = "push_bit (16 - k) (take_bit k (unat b))"
  have *: "take_bit 16 (push_bit (16 - k) (unat b)) = ?y"
    using assms by (simp add: take_bit_push_bit)
  have "unat (drop_bit k a OR push_bit (16 - k) b) = ?x OR ?y"
    by (simp only: unsigned_or_eq unsigned_drop_bit_eq unsigned_push_bit_eq)
      (simp add: * take_bit_nat_eq_self unat_lt_65536)
  also have "\<dots> = ?x + ?y"
  proof (rule disjunctive_add_eq_or [symmetric])
    show "?x AND ?y = 0"
      by (rule bit_eqI) (auto simp: bit_simps dest: bit_imp_le_length)
  qed
  also have "\<dots> = unat a div 2 ^ k + (unat b mod 2 ^ k) * 2 ^ (16 - k)"
    by (simp only: drop_bit_eq_div push_bit_eq_mult take_bit_eq_mod)
  finally show ?thesis .
qed

lemma unat_drop16: "unat (drop_bit k (a :: u16)) = unat a div 2 ^ k"
  by (simp only: unat_drop_bit_eq) (simp only: drop_bit_eq_div)

lemma unat_drop_push:
  assumes "k \<le> 16"
  shows "unat (drop_bit (16 - k) (push_bit (16 - k) (a :: u16))) = unat a mod 2 ^ k"
proof -
  have "drop_bit (16 - k) (push_bit (16 - k) a) = take_bit k a"
    using assms by (intro bit_word_eqI) (auto simp: bit_simps)
  then show ?thesis
    by (simp only: unsigned_take_bit_eq) (simp only: take_bit_eq_mod)
qed

lemma power_split_16: "k \<le> 16 \<Longrightarrow> 2 ^ k * 2 ^ (16 - k) = (65536 :: nat)"
proof -
  assume "k \<le> 16"
  then have "2 ^ k * 2 ^ (16 - k) = (2 ^ 16 :: nat)"
    by (simp only: power_add [symmetric] le_add_diff_inverse)
  then show ?thesis by simp
qed

lemma shift_right_sum:
  assumes "K * M = (B :: nat)"
  shows "(K * q0 + r0) + B * (K * q1 + r1) + B * B * (K * q2 + r2) + B * B * B * (K * q3 + r3)
    = K * ((q0 + r1 * M) + B * (q1 + r2 * M) + B * B * (q2 + r3 * M) + B * B * B * q3) + r0"
  by (simp add: assms [symmetric] algebra_simps)

lemma shr64_small:
  "n \<le> 16 \<Longrightarrow> shr64 p n = Inr
     (U64 (drop_bit (unat n) (i0 p) OR push_bit (16 - unat n) (i1 p))
          (drop_bit (unat n) (i1 p) OR push_bit (16 - unat n) (i2 p))
          (drop_bit (unat n) (i2 p) OR push_bit (16 - unat n) (i3 p))
          (drop_bit (unat n) (i3 p)),
      drop_bit (16 - unat n) (push_bit (16 - unat n) (i0 p)))"
  by (simp add: shr64_def Let_def leD)

text \<open>
  For a count of at most 16, \<open>shr64\<close> divides by \<open>2 ^ n\<close> and returns the remainder.
\<close>

theorem shr64_correct:
  assumes "n \<le> 16"
  shows "\<exists>q r. shr64 p n = Inr (q, r) \<and> val64 q = val64 p div 2 ^ unat n
    \<and> unat r = val64 p mod 2 ^ unat n"
proof -
  let ?k = "unat n"
  have k: "?k \<le> 16" using assms by (simp add: le16_iff)
  have B: "2 ^ ?k * 2 ^ (16 - ?k) = (65536 :: nat)" using k by (rule power_split_16)
  obtain q r where qr: "shr64 p n = Inr (q, r)"
    by (simp add: shr64_small [OF assms])
  have r: "unat r = unat (i0 p) mod 2 ^ ?k"
    using qr unat_drop_push [OF k, of "i0 p"] by (auto simp: shr64_small [OF assms])
  have q: "q = U64 (drop_bit ?k (i0 p) OR push_bit (16 - ?k) (i1 p))
      (drop_bit ?k (i1 p) OR push_bit (16 - ?k) (i2 p))
      (drop_bit ?k (i2 p) OR push_bit (16 - ?k) (i3 p)) (drop_bit ?k (i3 p))"
    using qr by (simp add: shr64_small [OF assms])
  have "val64 p = 2 ^ ?k * val64 q + unat (i0 p) mod 2 ^ ?k"
    using shift_right_sum [OF B, of "unat (i0 p) div 2 ^ ?k" "unat (i0 p) mod 2 ^ ?k"
        "unat (i1 p) div 2 ^ ?k" "unat (i1 p) mod 2 ^ ?k"
        "unat (i2 p) div 2 ^ ?k" "unat (i2 p) mod 2 ^ ?k"
        "unat (i3 p) div 2 ^ ?k" "unat (i3 p) mod 2 ^ ?k"]
    by (simp add: q val64_expand unat_or_limbs [OF k] unat_drop16)
  moreover have "unat (i0 p) mod 2 ^ ?k < 2 ^ ?k" by simp
  ultimately have "val64 q = val64 p div 2 ^ ?k" "unat r = val64 p mod 2 ^ ?k"
    by (simp_all add: r)
  with qr show ?thesis by blast
qed

theorem shr64_correct_witness:
  "\<exists>q r. shr64 (init64 0 0 1 0x2345) 9 = Inr (q, r) \<and> val64 q = 145 \<and> unat r = 0x145"
proof -
  have "(9 :: u16) \<le> 16" by simp
  then show ?thesis
    using shr64_correct [of 9 "init64 0 0 1 0x2345"] by (simp add: val64_expand init64_def)
qed

lemma shr64_panic: "16 < n \<Longrightarrow> shr64 p n = Inl (Panic ''too large shr64, fix this'')"
  by (simp add: shr64_def)

lemma shift_left_sum:
  assumes "K * M = (B :: nat)"
  shows "K * ((M * q0 + r0) + B * (M * q1 + r1) + B * B * (M * q2 + r2) + B * B * B * (M * q3 + r3))
    = (r0 * K) + B * (q0 + r1 * K) + B * B * (q1 + r2 * K) + B * B * B * (q2 + r3 * K)
      + B * B * B * B * q3"
  by (simp add: assms [symmetric] algebra_simps)

lemma unat_push16:
  "k \<le> 16 \<Longrightarrow> unat (push_bit k (a :: u16)) = (unat a mod 2 ^ (16 - k)) * 2 ^ k"
  by (simp only: unsigned_push_bit_eq take_bit_push_bit) (simp add: push_bit_eq_mult take_bit_eq_mod)

lemma shl64_words_value:
  "shl64_words p n = (p', n') \<Longrightarrow>
   n' \<le> 16 \<and> (val64 p' * 2 ^ unat n') mod 2 ^ 64 = (val64 p * 2 ^ unat n) mod 2 ^ 64"
proof (induction p n arbitrary: p' n' rule: shl64_words.induct)
  case (1 p n)
  show ?case
  proof (cases "n > 16")
    case False
    with "1.prems" show ?thesis by (simp add: shl64_words.simps [of p n])
  next
    case True
    let ?p = "U64 0 (i0 p) (i1 p) (i2 p)"
    have n: "unat n = 16 + unat (n - 16)"
      using True by (simp add: nat_of_word unat_sub16_le)
    have "val64 p * 65536 = val64 ?p + unat (i3 p) * 2 ^ 64"
      by (simp add: val64_expand)
    then have "(val64 p * 2 ^ unat n) mod 2 ^ 64
        = ((val64 ?p + unat (i3 p) * 2 ^ 64) * 2 ^ unat (n - 16)) mod 2 ^ 64"
      by (simp only: n power_add) (simp add: mult.assoc [symmetric])
    also have "\<dots> = (val64 ?p * 2 ^ unat (n - 16)) mod 2 ^ 64"
      by (metis mod_mult_left_eq mod_mult_self1)
    finally show ?thesis
      using "1.IH" [OF True] "1.prems" True by (simp add: shl64_words.simps [of p n])
  qed
qed

text \<open>
  \<open>shl64\<close> multiplies by \<open>2 ^ n\<close> modulo \<open>2 ^ 64\<close>, for every count.\<close>

theorem shl64_correct: "val64 (shl64 p n) = (val64 p * 2 ^ unat n) mod 2 ^ 64"
proof -
  obtain p' n' where w: "shl64_words p n = (p', n')" by fastforce
  let ?k = "unat n'"
  have k: "?k \<le> 16" and eq: "(val64 p' * 2 ^ ?k) mod 2 ^ 64 = (val64 p * 2 ^ unat n) mod 2 ^ 64"
    using shl64_words_value [OF w] by (simp_all add: le16_iff)
  have B: "2 ^ ?k * 2 ^ (16 - ?k) = (65536 :: nat)" using k by (rule power_split_16)
  have or: "unat (push_bit ?k b OR drop_bit (16 - ?k) a)
      = unat a div 2 ^ (16 - ?k) + (unat b mod 2 ^ (16 - ?k)) * 2 ^ ?k" for a b :: u16
    using unat_or_limbs [of "16 - ?k" a b] k by (simp add: or.commute)
  let ?M = "2 ^ (16 - ?k) :: nat"
  have "2 ^ ?k * val64 p' = val64 (shl64 p n) + 2 ^ 64 * (unat (i3 p') div ?M)"
    using shift_left_sum [OF B, of "unat (i0 p') div ?M" "unat (i0 p') mod ?M"
        "unat (i1 p') div ?M" "unat (i1 p') mod ?M" "unat (i2 p') div ?M" "unat (i2 p') mod ?M"
        "unat (i3 p') div ?M" "unat (i3 p') mod ?M"] w
    by (simp add: shl64_def Let_def val64_expand or unat_push16 [OF k])
  then have "(val64 p' * 2 ^ ?k) mod 2 ^ 64 = val64 (shl64 p n) mod 2 ^ 64"
    by (simp add: mult.commute)
  then show ?thesis
    using eq val64_bound [of "shl64 p n"] by simp
qed

section \<open>Subtraction\<close>

text \<open>
  The borrow tests of \<open>dec64\<close> and \<open>sub64\<close> compare the new limb with the added complement.
  \<open>dec64\<close> never borrows from limb 1, so it is a decrement for numbers from 1 to 65535, the
  cluster counts it is used for; \<open>sub64\<close> is right when no limb of its arguments is 0.
\<close>

lemma not_plus_one_16: "NOT b + 1 - c = - (b + c)" for b c :: u16
  by (simp add: not_eq_complement)

lemma sub_limb:
  assumes "a \<noteq> 0" and "b \<noteq> 0" and "unat (c :: u16) \<le> 1"
  shows "unat a + 65536 * (if a + - (b + c) > - (b + c) then 1 else 0)
    = unat (a + - (b + c)) + unat b + unat c"
proof -
  have b: "0 < unat b" "unat b < 65536" and a: "0 < unat a" "unat a < 65536"
    using assms by (simp_all add: unat_gt_0 unat_lt_65536)
  show ?thesis
  proof (cases "b + c = 0")
    case True
    then have "(unat b + unat c) mod 65536 = 0"
      by (metis unat_add16 unat_0)
    then have "\<not> unat b + unat c < 65536" using b by auto
    then have "unat b + unat c = 65536" using b assms(3) by linarith
    then show ?thesis using True assms(1) by (simp add: word_gt_0)
  next
    case False
    have lt: "unat b + unat c < 65536"
    proof (rule ccontr)
      assume "\<not> unat b + unat c < 65536"
      with b assms(3) have "unat b + unat c = 65536" by linarith
      then have "unat (b + c) = 0" by (simp add: unat_add16)
      with False show False by (simp only: unat_0_iff)
    qed
    then have s: "unat (b + c) = unat b + unat c"
      by (simp only: unat_add16_if if_True)
    have t: "unat (- (b + c)) = 65536 - (unat b + unat c)"
      using unat_sub16 [of 0 "b + c"] s lt b by simp
    show ?thesis
      unfolding less16_iff unat_add16_if t using a b assms(3) by auto
  qed
qed

lemma sub64_loop_value:
  assumes "length as = length bs" and "0 \<notin> set as" and "0 \<notin> set bs" and "unat c \<le> 1"
  shows "length (sub64_loop c as bs) = length as \<and>
    (\<exists>k. val_limbs as + k * 65536 ^ length as
      = val_limbs (sub64_loop c as bs) + val_limbs bs + unat c * (if as = [] then 0 else 1))"
  using assms
proof (induction c as bs rule: sub64_loop.induct)
  case (1 c a as b bs)
  define t where "t = - (b + c)"
  define c' :: u16 where "c' = (if a + t > t then 1 else 0)"
  have t: "NOT b + 1 - c = t" by (simp add: t_def not_plus_one_16)
  have step: "unat a + 65536 * unat c' = unat (a + t) + unat b + unat c"
    using sub_limb [of a b c] "1.prems"
    unfolding t_def c'_def by (simp only: if_distrib [of unat] unat_0 unat_1) auto
  have "unat c' \<le> 1" by (simp add: c'_def)
  then obtain k where len: "length (sub64_loop c' as bs) = length as"
    and k: "val_limbs as + k * 65536 ^ length as
      = val_limbs (sub64_loop c' as bs) + val_limbs bs + unat c' * (if as = [] then 0 else 1)"
    using "1.IH" [of t "a + t"] "1.prems" t by (auto simp: c'_def)
  have eq: "sub64_loop c (a # as) (b # bs) = (a + t) # sub64_loop c' as bs"
    by (simp add: Let_def t c'_def)
  show ?case
  proof (cases "as = []")
    case True
    with "1.prems"(1) have "bs = []" by simp
    with True step eq len show ?thesis
      by (auto intro!: exI [of _ "unat c'"])
  next
    case False
    with k step eq len show ?thesis
      by (auto intro!: exI [of _ k] simp: algebra_simps)
  qed
qed auto

text \<open>
  \<open>sub64\<close> subtracts modulo \<open>2 ^ 64\<close> when no limb of either argument is 0.
\<close>

theorem sub64_correct:
  assumes "0 \<notin> set (limbs a)" and "0 \<notin> set (limbs b)"
  shows "val64 (sub64 a b) = (val64 a + 2 ^ 64 - val64 b) mod 2 ^ 64"
proof -
  obtain k where len: "length (sub64_loop 0 (limbs a) (limbs b)) = 4"
    and k: "val64 a + k * 2 ^ 64 = val64 (sub64 a b) + val64 b"
    using sub64_loop_value [of "limbs a" "limbs b" 0] assms
    by (auto simp: sub64_def val64_of_limbs) (auto simp: val64_def)
  have bounds: "val64 a < 2 ^ 64" "val64 b < 2 ^ 64" "val64 (sub64 a b) < 2 ^ 64"
    by (rule val64_bound)+
  have "val64 a + 2 ^ 64 - val64 b + k * 2 ^ 64 = val64 (sub64 a b) + 2 ^ 64"
    using k bounds by linarith
  then have "(val64 a + 2 ^ 64 - val64 b) mod 2 ^ 64 = val64 (sub64 a b) mod 2 ^ 64"
    by (metis mod_mult_self1 mod_add_self2)
  then show ?thesis using bounds by simp
qed

theorem sub64_correct_witness:
  "val64 (sub64 (U64 5 1 1 1) (U64 7 1 1 1)) = (val64 (U64 5 1 1 1) + 2 ^ 64 - val64 (U64 7 1 1 1)) mod 2 ^ 64"
  by (rule sub64_correct) (simp_all add: limbs_def)

text \<open>A zero limb breaks it: \<open>0x10005 - 3\<close> borrows from the third limb.\<close>

lemma sub64_zero_limb: "sub64 (U64 5 1 0 0) (U64 3 0 0 0) = U64 2 1 0xffff 0"
  by (simp add: sub64_def limbs_def of_limbs_def)

text \<open>
  \<open>dec64\<close> subtracts 1 from every number between 1 and 65535.
\<close>

theorem dec64_correct:
  assumes "0 < val64 a" and "val64 a < 65536"
  shows "val64 (dec64 a) = val64 a - 1"
proof -
  have z: "i1 a = 0" "i2 a = 0" "i3 a = 0"
    using assms(2) by (auto simp: val64_expand word_unat_eq_iff)
  then have v: "val64 a = unat (i0 a)" by (simp add: val64_expand)
  have "\<not> i0 a - 1 > 0xffff"
    by (simp add: less16_iff not_less unat_le_65535)
  moreover have "dec64 a = of_limbs ((i0 a - 1) # dec64_loop 0 [0, 0, 0])"
    using calculation by (simp add: dec64_def Let_def z not_eq_complement)
  ultimately have "val64 (dec64 a) = unat (i0 a - 1)"
    by (simp add: val64_of_limbs not_eq_complement)
  then show ?thesis
    using assms(1) v by (simp add: unat_sub16_le)
qed

theorem dec64_correct_witness: "val64 (dec64 (U64 3 0 0 0)) = 2"
  using dec64_correct [of "U64 3 0 0 0"] by (simp add: val64_expand)

text \<open>Above that range it corrupts the upper limbs.\<close>

lemma dec64_above_range: "dec64 (U64 5 1 0 0) = U64 4 1 0xffff 0"
  by (simp add: dec64_def limbs_def of_limbs_def)

lemma dec64_no_borrow: "dec64 (U64 0 0 0 0) = U64 0xffff 0 0 0"
  by (simp add: dec64_def limbs_def of_limbs_def)

section \<open>Positions built from 16-bit and 32-bit parts\<close>

lemma val64_init64 [simp]:
  "val64 (init64 hh hl lh ll)
    = unat ll + 65536 * unat lh + 4294967296 * unat hl + 281474976710656 * unat hh"
  by (simp add: init64_def val64_expand)

lemma set64_eq [simp]: "set64 a b = b"
  by (cases b) (simp add: set64_def)

lemma split_u32: "unat (ucast (drop_bit 16 (h AND 0xffff0000)) :: u16) * 65536
    + unat (ucast (h AND 0xffff) :: u16) = unat (h :: u32)"
proof -
  have m: "0xffff0000 = push_bit 16 (mask 16 :: u32)" "0xffff = (mask 16 :: u32)"
    by (simp_all add: mask_eq_exp_minus_1)
  have hi: "(ucast (drop_bit 16 (h AND 0xffff0000)) :: u16) = ucast (drop_bit 16 h)"
    unfolding m by (intro bit_word_eqI) (auto simp: bit_simps)
  have lo: "(ucast (h AND 0xffff) :: u16) = ucast h"
    unfolding m by (intro bit_word_eqI) (auto simp: bit_simps)
  have "unat (ucast (drop_bit 16 h) :: u16) = unat h div 65536"
    using unsigned_less [of h, where ?'a = nat]
    by (simp only: unsigned_ucast_eq unat_drop_bit_eq) (simp add: drop_bit_eq_div take_bit_nat_eq_self)
  moreover have "unat (ucast h :: u16) = unat h mod 65536"
    by (simp only: unsigned_ucast_eq) (simp add: take_bit_eq_mod)
  ultimately show ?thesis
    unfolding hi lo by simp
qed

lemma init64_32_value: "val64 (init64_32 h l) = unat l + 2 ^ 32 * unat h"
  using split_u32 [of h] split_u32 [of l] by (simp add: init64_32_def)

end
