(* ===== verification/Floppy.thy ===== *)
theory Floppy
  imports Keyb UInt64
begin

text \<open>
  The floppy driver, \<^verbatim>\<open>kernel/block/floppy.c\<close>: polling the controller, its commands, the DMA
  controller, and the translation of block numbers to cylinder, head and sector.  The creation of
  the device files is in the theory of the device file system.

  Two parameters stand for what happens while the driver sleeps: \<open>hlt\<close>, the interrupts that a
  halted processor serves, and \<open>others\<close>, what the other tasks do until this one runs again.
  \<open>data_rate_ret\<close> is the value that the caller of \<open>floppy_set_data_rate\<close> finds in the result
  register: the function has no \<open>return\<close>.
\<close>

unbundle bit_operations_syntax

section \<open>State and constants\<close>

record floppy = keyboard +
  drives :: "u8 list"
  selected :: bool

definition IO_BASE :: u16 where "IO_BASE = 0x3f0"
definition IO_DOR :: u16 where "IO_DOR = IO_BASE + 2"
definition IO_DSR :: u16 where "IO_DSR = IO_BASE + 4"
definition IO_MSR :: u16 where "IO_MSR = IO_BASE + 4"
definition IO_FIFO :: u16 where "IO_FIFO = IO_BASE + 5"
definition IO_CCR :: u16 where "IO_CCR = IO_BASE + 7"

definition CMD_SENSE :: u8 where "CMD_SENSE = 0x08"
definition CMD_SPECIFY :: u8 where "CMD_SPECIFY = 0x03"
definition CMD_CONFIGURE :: u8 where "CMD_CONFIGURE = 0x13"
definition CMD_RECALIBRATE :: u8 where "CMD_RECALIBRATE = 0x07"
definition CMD_SEEK :: u8 where "CMD_SEEK = 0x0f"
definition CMD_READ :: u8 where "CMD_READ = 0x46"
definition CMD_WRITE :: u8 where "CMD_WRITE = 0x45"
definition GAP_LENGTH :: u8 where "GAP_LENGTH = 0x1b"

definition DIR_WRITE :: u16 where "DIR_WRITE = 0x2"
definition DIR_READ :: u16 where "DIR_READ = 0x1"
definition KERNEL_BASE :: u16 where "KERNEL_BASE = 0x500"

definition SEC :: u16 where "SEC = 18"
definition HD :: u16 where "HD = 2"
definition SEC_POT :: u16 where "SEC_POT = 9"
definition SEC_SZ :: u16 where "SEC_SZ = 512"

text \<open>The operator \<open>&&\<close> between two operations that return a truth value.\<close>

definition andK :: "('s, bool) kmon \<Rightarrow> ('s, bool) kmon \<Rightarrow> ('s, bool) kmon" where
  "andK m n = bindK m (\<lambda>ok. if ok then n else retK False)"

section \<open>Bytes to and from the controller\<close>

text \<open>
  \<open>poll_msr want i\<close> reads the status register until its two upper bits are \<open>want\<close>; \<open>i\<close> counts
  the reads that did not show that.
\<close>

function poll_msr :: "u8 \<Rightarrow> nat \<Rightarrow> 'z machine_scheme \<Rightarrow> bool \<times> 'z machine_scheme" where
  "poll_msr want i s =
     (case inb IO_MSR s of (msr, s) \<Rightarrow>
        if msr AND 0xc0 = want then (True, s)
        else if 30 < i then (False, s)
        else poll_msr want (i + 1) s)"
  by auto
termination
  by (relation "measure (\<lambda>(want, i, s). 32 - i)") auto

declare poll_msr.simps [simp del]

definition floppy_write_cmd :: "u8 \<Rightarrow> ('z machine_scheme, bool) kmon" where
  "floppy_write_cmd b s =
     (case poll_msr 0x80 0 s of (ready, s) \<Rightarrow>
        if ready then Inr (True, outb IO_FIFO b s) else Inr (False, s))"

definition floppy_read_result :: "('z machine_scheme, bool) kmon" where
  "floppy_read_result s =
     (case poll_msr 0xc0 0 s of (ready, s) \<Rightarrow>
        if ready then Inr (True, snd (inb IO_FIFO s)) else Inr (False, s))"

fun write_cmds :: "u8 list \<Rightarrow> ('z machine_scheme, bool) kmon" where
  "write_cmds [] = retK True"
| "write_cmds (b # bs) = andK (floppy_write_cmd b) (write_cmds bs)"

fun read_results :: "nat \<Rightarrow> ('z machine_scheme, bool) kmon" where
  "read_results 0 = retK True"
| "read_results (Suc n) = andK floppy_read_result (read_results n)"

section \<open>Commands\<close>

definition floppy_reset :: "('z machine_scheme, bool) kmon" where
  "floppy_reset = thenK (modifyK (outb IO_DSR 0x80)) (retK True)"

definition floppy_set_data_rate :: "bool \<Rightarrow> ('z machine_scheme, bool) kmon" where
  "floppy_set_data_rate data_rate_ret = thenK (modifyK (outb IO_CCR 0)) (retK data_rate_ret)"

definition floppy_sense :: "('z machine_scheme, bool) kmon" where
  "floppy_sense = andK (write_cmds [CMD_SENSE]) (read_results 2)"

definition floppy_configure :: "('z machine_scheme, bool) kmon" where
  "floppy_configure = write_cmds [CMD_CONFIGURE, 0, push_bit 4 1, 0]"

definition floppy_specify :: "('z machine_scheme, bool) kmon" where
  "floppy_specify = write_cmds [CMD_SPECIFY, push_bit 4 8 OR (0 AND 0xf), push_bit 1 5]"

type_synonym 'z halted = "nat \<Rightarrow> 'z \<Rightarrow> 'z"

definition sleep_current ::
  "'z tasks_scheme halted \<Rightarrow> ('z tasks_scheme, unit) kmon \<Rightarrow> ('z tasks_scheme, unit) kmon" where
  "sleep_current hlt others = thenK (bindK (getK current_task) (task_sleep hlt)) others"

definition wait_irq :: "('z irqs_scheme, unit) kmon" where
  "wait_irq = bindK (getK current_task) (\<lambda>t. irq_set_wakeup t 6)"

definition sleep_ms ::
  "'z clocks_scheme halted \<Rightarrow> ('z clocks_scheme, unit) kmon \<Rightarrow> u16 \<Rightarrow> ('z clocks_scheme, unit) kmon" where
  "sleep_ms hlt others ms =
     thenK (bindK (getK current_task) (\<lambda>t. clock_set_wakeup t ms)) (sleep_current hlt others)"

definition floppy_select_drive ::
  "'z floppy_scheme halted \<Rightarrow> ('z floppy_scheme, unit) kmon \<Rightarrow> ('z floppy_scheme, bool) kmon" where
  "floppy_select_drive hlt others =
     thenK (modifyK (outb IO_DOR 0x1C))
    (thenK (sleep_ms hlt others 500)
    (thenK (modifyK (\<lambda>s. s\<lparr>selected := True\<rparr>)) (retK True)))"

definition floppy_recalibrate ::
  "'z floppy_scheme halted \<Rightarrow> ('z floppy_scheme, unit) kmon \<Rightarrow> ('z floppy_scheme, bool) kmon" where
  "floppy_recalibrate hlt others =
     thenK wait_irq
    (bindK (write_cmds [CMD_RECALIBRATE, 0]) (\<lambda>res.
     thenK (sleep_current hlt others)
       (if res then floppy_sense else retK False)))"

definition floppy_seek ::
  "'z floppy_scheme halted \<Rightarrow> ('z floppy_scheme, unit) kmon \<Rightarrow> u8 \<Rightarrow> u8 \<Rightarrow> ('z floppy_scheme, bool) kmon" where
  "floppy_seek hlt others cylinder head =
     thenK wait_irq
    (bindK (write_cmds [CMD_SEEK, 0 OR push_bit 2 (head AND 1), cylinder]) (\<lambda>res.
     thenK (sleep_current hlt others)
       (if res then floppy_sense else retK False)))"

text \<open>The writes of \<open>floppy_set_dma\<close>, in their order; \<open>outb\<close> keeps the low byte of a value.\<close>

definition dma_writes :: "u16 \<Rightarrow> u16 \<Rightarrow> u16 \<Rightarrow> (u16 \<times> u8) list" where
  "dma_writes buf count dir =
     (let buf = buf + KERNEL_BASE in
      [(0x0a, 0x4 OR 0x2),
       (0x0c, 0xff),
       (0x04, lo8 (buf AND 0xff)), (0x04, lo8 (drop_bit 8 buf)),
       (0x81, 0),
       (0x0c, 0xff),
       (0x05, lo8 (count AND 0xff)), (0x05, lo8 (drop_bit 8 count)),
       (0x0b, lo8 (push_bit 6 1 OR push_bit 2 dir OR 0x02)),
       (0x0a, 0x2)])"

definition outbs :: "(u16 \<times> u8) list \<Rightarrow> 'z machine_scheme \<Rightarrow> 'z machine_scheme" where
  "outbs = fold (\<lambda>(port, v). outb port v)"

definition floppy_set_dma :: "u16 \<Rightarrow> u16 \<Rightarrow> u16 \<Rightarrow> ('z machine_scheme, bool) kmon" where
  "floppy_set_dma buf count dir = thenK (modifyK (outbs (dma_writes buf count dir))) (retK True)"

definition transfer_cmds :: "u16 \<Rightarrow> u8 \<Rightarrow> u8 \<Rightarrow> u8 \<Rightarrow> u8 list" where
  "transfer_cmds dir cyl head sec =
     [if dir = DIR_WRITE then CMD_WRITE else CMD_READ,
      push_bit 2 (head AND 1), cyl, head, sec, 0x02, 1, GAP_LENGTH, 0xff]"

definition floppy_transfer ::
  "'z floppy_scheme halted \<Rightarrow> ('z floppy_scheme, unit) kmon \<Rightarrow> u16 \<Rightarrow> u8 \<Rightarrow> u8 \<Rightarrow> u8
    \<Rightarrow> ('z floppy_scheme, bool) kmon" where
  "floppy_transfer hlt others dir cyl head sec =
     thenK wait_irq
    (bindK (write_cmds (transfer_cmds dir cyl head sec)) (\<lambda>res.
     thenK (sleep_current hlt others)
       (if res then read_results 7 else retK False)))"

fun sense_all :: "nat \<Rightarrow> bool \<Rightarrow> ('z machine_scheme, bool) kmon" where
  "sense_all 0 res = retK res"
| "sense_all (Suc n) res = bindK (if res then floppy_sense else retK False) (sense_all n)"

definition floppy_init2 ::
  "'z floppy_scheme halted \<Rightarrow> ('z floppy_scheme, unit) kmon \<Rightarrow> ('z floppy_scheme, bool) kmon" where
  "floppy_init2 hlt others =
     thenK wait_irq
    (bindK floppy_reset (\<lambda>res.
     thenK (sleep_current hlt others)
    (bindK (sense_all 4 res) (\<lambda>res.
       if res then andK floppy_configure floppy_specify else retK False))))"

section \<open>Reading a block\<close>

definition chs_cylinder :: "u16 \<Rightarrow> u16" where "chs_cylinder lba = lba div (SEC * HD)"
definition chs_head :: "u16 \<Rightarrow> u16" where "chs_head lba = (lba div SEC) mod HD"
definition chs_sector :: "u16 \<Rightarrow> u16" where "chs_sector lba = lba mod SEC + 1"

definition read_attempt ::
  "'z floppy_scheme halted \<Rightarrow> ('z floppy_scheme, unit) kmon \<Rightarrow> bool \<Rightarrow> ptr \<Rightarrow> u16
    \<Rightarrow> ('z floppy_scheme, bool) kmon" where
  "read_attempt hlt others data_rate_ret buf lba =
     andK (floppy_init2 hlt others)
    (andK (floppy_select_drive hlt others)
    (andK floppy_specify
    (andK (floppy_set_data_rate data_rate_ret)
    (andK (floppy_recalibrate hlt others)
    (andK (floppy_seek hlt others (lo8 (chs_cylinder lba)) (lo8 (chs_head lba)))
    (andK (floppy_set_dma buf SEC_SZ DIR_READ)
       (floppy_transfer hlt others DIR_READ
          (lo8 (chs_cylinder lba)) (lo8 (chs_head lba)) (lo8 (chs_sector lba)))))))))"

text \<open>The driver tries again, after a second, for as long as it takes.\<close>

partial_function (option) floppy_read_loop ::
  "'z floppy_scheme halted \<Rightarrow> ('z floppy_scheme, unit) kmon \<Rightarrow> bool \<Rightarrow> ptr \<Rightarrow> u16
    \<Rightarrow> 'z floppy_scheme \<Rightarrow> (kerror + 'z floppy_scheme) option" where
  "floppy_read_loop hlt others data_rate_ret buf lba s =
     (case read_attempt hlt others data_rate_ret buf lba s of
        Inl e \<Rightarrow> Some (Inl e)
      | Inr (res, s1) \<Rightarrow>
          if res then Some (Inr s1)
          else (case sleep_ms hlt others 1000 s1 of
                  Inl e \<Rightarrow> Some (Inl e)
                | Inr (_, s2) \<Rightarrow> floppy_read_loop hlt others data_rate_ret buf lba s2))"

definition floppy_read ::
  "'z floppy_scheme halted \<Rightarrow> ('z floppy_scheme, unit) kmon \<Rightarrow> bool \<Rightarrow> ptr \<Rightarrow> Uint64
    \<Rightarrow> ('z floppy_scheme, u16) kmon" where
  "floppy_read hlt others data_rate_ret buf block =
     thenK (runK (floppy_read_loop hlt others data_rate_ret buf (i0 block))) (retK 1)"

text \<open>\<open>floppy_init\<close> up to the creation of the files: the drive types from the CMOS.\<close>

definition floppy_detect :: "'z floppy_scheme \<Rightarrow> bool \<times> 'z floppy_scheme" where
  "floppy_detect s =
     (case inb 0x71 (outb 0x70 0x10 s) of (t, s) \<Rightarrow>
        if drop_bit 4 t = 0 then (False, s)
        else (True, s\<lparr>drives := (drives s)[0 := drop_bit 4 t, 1 := t AND 0xf]\<rparr>))"


section \<open>Polling\<close>

definition msr_ready :: "u8 \<Rightarrow> 'z machine_scheme \<Rightarrow> nat \<Rightarrow> bool" where
  "msr_ready want s k \<longleftrightarrow> port_in s (port_reads s + k) IO_MSR AND 0xc0 = want"

lemma poll_msr_step:
  "poll_msr want i s =
     (if msr_ready want s 0 then (True, s\<lparr>port_reads := port_reads s + 1\<rparr>)
      else if 30 < i then (False, s\<lparr>port_reads := port_reads s + 1\<rparr>)
      else poll_msr want (i + 1) (s\<lparr>port_reads := port_reads s + 1\<rparr>))"
  by (subst poll_msr.simps) (simp add: inb_def msr_ready_def)

lemma msr_ready_Suc:
  "msr_ready want (s\<lparr>port_reads := port_reads s + 1\<rparr>) k = msr_ready want s (Suc k)"
  by (simp add: msr_ready_def)

lemma poll_msr_ready:
  assumes "msr_ready want s k" and "\<And>j. j < k \<Longrightarrow> \<not> msr_ready want s j" and "i + k < 32"
  shows "poll_msr want i s = (True, s\<lparr>port_reads := port_reads s + Suc k\<rparr>)"
  using assms
proof (induction k arbitrary: i s)
  case 0
  then show ?case by (subst poll_msr_step) simp
next
  case (Suc k)
  have n: "\<not> msr_ready want s 0" "\<not> 30 < i" using Suc.prems by auto
  let ?s = "s\<lparr>port_reads := port_reads s + 1\<rparr>"
  have "msr_ready want ?s k" using Suc.prems(1) unfolding msr_ready_Suc .
  moreover have "\<not> msr_ready want ?s j" if "j < k" for j
    using Suc.prems(2) [of "Suc j"] that unfolding msr_ready_Suc by simp
  ultimately have "poll_msr want (i + 1) ?s = (True, ?s\<lparr>port_reads := port_reads ?s + Suc k\<rparr>)"
    using Suc.prems(3) by (intro Suc.IH) auto
  then show ?case by (subst poll_msr_step) (simp add: n)
qed

lemma poll_msr_late:
  assumes "\<And>j. i + j < 32 \<Longrightarrow> \<not> msr_ready want s j" and "i < 32"
  shows "poll_msr want i s = (False, s\<lparr>port_reads := port_reads s + (32 - i)\<rparr>)"
  using assms
proof (induction "31 - i" arbitrary: i s)
  case 0
  then show ?case by (subst poll_msr_step) simp
next
  case (Suc n)
  have n: "\<not> msr_ready want s 0" "\<not> 30 < i" using Suc.prems Suc.hyps(2) by auto
  have "\<not> msr_ready want (s\<lparr>port_reads := port_reads s + 1\<rparr>) j" if "i + 1 + j < 32" for j
    using Suc.prems(1) [of "Suc j"] that unfolding msr_ready_Suc by simp
  from Suc.hyps(1) [of "i + 1", OF _ this] n Suc.hyps(2) show ?case
    by (subst poll_msr_step) simp
qed

lemma poll_msr_correct:
  "poll_msr want 0 s =
     (if \<exists>k<32. msr_ready want s k
      then (True, s\<lparr>port_reads := port_reads s + Suc (LEAST k. msr_ready want s k)\<rparr>)
      else (False, s\<lparr>port_reads := port_reads s + 32\<rparr>))"
proof (cases "\<exists>k<32. msr_ready want s k")
  case True
  then obtain k where k: "k < 32" "msr_ready want s k" by blast
  let ?l = "LEAST k. msr_ready want s k"
  have "msr_ready want s ?l" using k(2) by (rule LeastI)
  moreover have "?l \<le> k" using k(2) by (rule Least_le)
  moreover have "\<not> msr_ready want s j" if "j < ?l" for j using that by (rule not_less_Least)
  moreover have "0 + ?l < 32" using Least_le [of "msr_ready want s", OF k(2)] k(1) by linarith
  ultimately have "poll_msr want 0 s = (True, s\<lparr>port_reads := port_reads s + Suc ?l\<rparr>)"
    using poll_msr_ready [of want s ?l 0] by blast
  then show ?thesis unfolding if_P [OF True] .
next
  case False
  then have "\<And>j. 0 + j < 32 \<Longrightarrow> \<not> msr_ready want s j" by (metis add_0)
  from poll_msr_late [OF this] show ?thesis
    unfolding if_not_P [OF False] by simp
qed

text \<open>
  A byte is written to the controller after the first of at most 32 reads of the status
  register that shows the controller ready to take it; when none of the 32 does, nothing is
  written and the failure is reported.
\<close>

theorem floppy_write_cmd_polls:
  "floppy_write_cmd b s =
     (if \<exists>k<32. msr_ready 0x80 s k
      then Inr (True, s\<lparr>port_reads := port_reads s + Suc (LEAST k. msr_ready 0x80 s k),
                       port_out := port_out s @ [(IO_FIFO, b)]\<rparr>)
      else Inr (False, s\<lparr>port_reads := port_reads s + 32\<rparr>))"
  unfolding floppy_write_cmd_def poll_msr_correct by (simp add: outb_def)

lemma poll_msr_bounds:
  "\<exists>ready n. poll_msr want 0 s = (ready, s\<lparr>port_reads := port_reads s + n\<rparr>) \<and> n \<le> 32"
proof (cases "\<exists>k<32. msr_ready want s k")
  case True
  then obtain k where k: "k < 32" "msr_ready want s k" by blast
  have "Suc (LEAST k. msr_ready want s k) \<le> 32"
    using Least_le [of "msr_ready want s", OF k(2)] k(1) by linarith
  then show ?thesis unfolding poll_msr_correct if_P [OF True] by blast
next
  case False
  show ?thesis unfolding poll_msr_correct if_not_P [OF False] by blast
qed

lemma floppy_write_cmd_cases:
  obtains (sent) n where "n \<le> 32" and
    "floppy_write_cmd b s = Inr (True, s\<lparr>port_reads := port_reads s + n, port_out := port_out s @ [(IO_FIFO, b)]\<rparr>)"
  | (late) n where "n \<le> 32" and
    "floppy_write_cmd b s = Inr (False, s\<lparr>port_reads := port_reads s + n\<rparr>)"
proof -
  obtain ready n where "poll_msr 0x80 0 s = (ready, s\<lparr>port_reads := port_reads s + n\<rparr>)" "n \<le> 32"
    using poll_msr_bounds by blast
  then show ?thesis using that by (cases ready) (simp_all add: floppy_write_cmd_def outb_def)
qed

lemma floppy_read_result_cases:
  obtains ok n where "n \<le> 33" and "floppy_read_result s = Inr (ok, s\<lparr>port_reads := port_reads s + n\<rparr>)"
proof -
  obtain ready n where "poll_msr 0xc0 0 s = (ready, s\<lparr>port_reads := port_reads s + n\<rparr>)" "n \<le> 32"
    using poll_msr_bounds by blast
  then show ?thesis
    using that [of n False] that [of "Suc n" True]
    by (cases ready) (simp_all add: floppy_read_result_def inb_def)
qed

text \<open>
  A command and its parameters reach the controller in order and without gaps: what has been
  written when the operation ends is a prefix of them, the whole of them exactly when it reports
  success, after at most 32 status reads for each byte.
\<close>

theorem write_cmds_prefix:
  "\<exists>k n. k \<le> length bs \<and> n \<le> 32 * length bs
     \<and> write_cmds bs s = Inr (k = length bs,
         s\<lparr>port_reads := port_reads s + n, port_out := port_out s @ map (Pair IO_FIFO) (take k bs)\<rparr>)"
proof (induction bs arbitrary: s)
  case Nil
  show ?case by (rule exI [of _ 0], rule exI [of _ 0], simp add: retK_apply)
next
  case (Cons b bs)
  show ?case
  proof (cases rule: floppy_write_cmd_cases [of b s])
    case (sent n)
    let ?s = "s\<lparr>port_reads := port_reads s + n, port_out := port_out s @ [(IO_FIFO, b)]\<rparr>"
    obtain k m where "k \<le> length bs" "m \<le> 32 * length bs"
      "write_cmds bs ?s = Inr (k = length bs,
         ?s\<lparr>port_reads := port_reads ?s + m, port_out := port_out ?s @ map (Pair IO_FIFO) (take k bs)\<rparr>)"
      using Cons.IH [of ?s] by blast
    then show ?thesis using sent
      by - (rule exI [of _ "Suc k"], rule exI [of _ "n + m"], simp add: andK_def bindK_Inr add.assoc)
  next
    case (late n)
    then show ?thesis
      by - (rule exI [of _ 0], rule exI [of _ n], simp add: andK_def bindK_def retK_apply)
  qed
qed

section \<open>The DMA controller\<close>

text \<open>
  The address bytes sent to the DMA controller are the physical address of the buffer, in page
  0, and the count bytes are the count, in the order low byte, high byte; the address is the right
  one exactly for buffers in the first 64 KB of memory.
\<close>

theorem floppy_set_dma_address:
  "\<exists>lo hi clo chi.
     floppy_set_dma buf count dir s = Inr (True, s\<lparr>port_out := port_out s @ dma_writes buf count dir\<rparr>)
   \<and> [v. (p, v) \<leftarrow> dma_writes buf count dir, p = 0x04] = [lo, hi]
   \<and> [v. (p, v) \<leftarrow> dma_writes buf count dir, p = 0x05] = [clo, chi]
   \<and> [v. (p, v) \<leftarrow> dma_writes buf count dir, p = 0x81] = [0]
   \<and> word_of_bytes clo chi = count
   \<and> unat (word_of_bytes lo hi) = linear 0x0050 buf mod 65536
   \<and> (unat (word_of_bytes lo hi) = linear 0x0050 buf \<longleftrightarrow> buf < 0xfb00)"
proof -
  let ?b = "buf + KERNEL_BASE"
  have lo: "lo8 (w AND 0xff) = lo8 w" for w :: u16
  proof -
    have "(0xff :: u16) = mask 8" by (simp add: mask_eq_exp_minus_1)
    then have "bit (0xff :: u16) n" if "n < 8" for n
      using that by (simp only: bit_mask_iff) simp
    then show ?thesis unfolding lo8_def by (intro bit_word_eqI) (simp add: bit_ucast_iff bit_and_iff)
  qed
  have hi: "lo8 (drop_bit 8 w) = hi8 w" for w :: u16 by (simp add: lo8_def hi8_def)
  have out: "outbs ps s = s\<lparr>port_out := port_out s @ ps\<rparr>" for ps and s :: "'a machine_scheme"
    by (induction ps arbitrary: s) (auto simp: outbs_def outb_def)
  have a: "unat ?b = linear 0x0050 buf mod 65536"
    unfolding linear_def unat_add16 KERNEL_BASE_def by (simp add: add.commute [of "unat buf"])
  moreover have "linear 0x0050 buf mod 65536 = linear 0x0050 buf \<longleftrightarrow> linear 0x0050 buf < 65536"
    by (metis mod_less mod_less_divisor zero_less_numeral)
  ultimately have "unat ?b = linear 0x0050 buf \<longleftrightarrow> buf < 0xfb00"
    by (simp add: linear_def less16_iff)
  with a show ?thesis
    by (intro exI [of _ "lo8 ?b"] exI [of _ "hi8 ?b"] exI [of _ "lo8 count"] exI [of _ "hi8 count"])
      (simp add: floppy_set_dma_def kernel_simps out, simp add: dma_writes_def Let_def lo hi)
qed

section \<open>Geometry\<close>

lemma chs_parts:
  "unat (chs_cylinder lba) = unat lba div 36"
  "unat (chs_head lba) = unat lba div 18 mod 2"
  "unat (chs_sector lba) = unat lba mod 18 + 1"
proof -
  have "unat (lba mod SEC) = unat lba mod 18" by (simp add: unat_mod16 SEC_def)
  moreover have "unat lba mod 18 < 18" by simp
  ultimately show "unat (chs_sector lba) = unat lba mod 18 + 1"
    unfolding chs_sector_def by (simp add: unat_add16_small)
qed (simp_all add: chs_cylinder_def chs_head_def nat_of_word SEC_def HD_def)

text \<open>
  The sector address is inside the geometry of the disk (18 sectors, 2 heads) and it
  determines the block; the cylinder is on the disk, and fits the byte it is sent in, for the 2880
  blocks of the disk.
\<close>

theorem chs_geometry:
  "1 \<le> chs_sector lba \<and> chs_sector lba \<le> 18 \<and> chs_head lba < 2
   \<and> (unat (chs_cylinder lba) * 2 + unat (chs_head lba)) * 18 + (unat (chs_sector lba) - 1) = unat lba
   \<and> (chs_cylinder lba < 80 \<longleftrightarrow> lba < 2880)
   \<and> (unat (lo8 (chs_cylinder lba)) = unat (chs_cylinder lba) \<longleftrightarrow> lba < 9216)"
proof -
  have a: "unat lba div 18 div 2 = unat lba div 36" by (simp add: div_mult2_eq [symmetric])
  have "(unat lba div 36 * 2 + unat lba div 18 mod 2) * 18 + unat lba mod 18 = unat lba"
    using div_mult_mod_eq [of "unat lba div 18" 2] div_mult_mod_eq [of "unat lba" 18] a by simp
  moreover have "unat (lo8 (chs_cylinder lba)) = unat lba div 36 mod 256"
    by (simp add: lo8_def unsigned_ucast_eq take_bit_eq_mod chs_parts)
  moreover have "unat lba div 36 mod 256 = unat lba div 36 \<longleftrightarrow> unat lba < 9216"
    by (simp add: mod_eq_self_iff_div_eq_0 div_mult2_eq [symmetric] div_eq_0_iff)
  moreover have "unat lba mod 18 < 18" by simp
  then have "unat lba mod 18 + 1 \<le> 18" by linarith
  moreover have "unat lba div 36 < 80 \<longleftrightarrow> unat lba < 2880"
    by (simp add: div_less_iff_less_mult)
  ultimately show ?thesis by (simp add: nat_of_word chs_parts)
qed

end
