(* ===== verification/Node.thy ===== *)
theory Node
  imports Floppy
begin

text \<open>
  The nodes of the file system, \<^verbatim>\<open>kernel/fs/node.c\<close>, with the data types of
  \<^verbatim>\<open>kernel/fs/node.h\<close>, \<^verbatim>\<open>file.h\<close>, \<^verbatim>\<open>directory.h\<close> and \<^verbatim>\<open>block.h\<close>.

  A C structure that starts with another one (\<^verbatim>\<open>struct File\<close> starts with a \<^verbatim>\<open>struct Node\<close>)
  is kept in two maps from addresses: one for the common part, one for what the larger structure
  adds.  A cast to the larger structure is a lookup in the second map, which fails when there is
  no such object at the address.
\<close>

unbundle bit_operations_syntax

section \<open>Constants\<close>

definition FILE :: u16 where "FILE = 0x0001"
definition DIRECTORY :: u16 where "DIRECTORY = 0x0002"
definition STATIC :: u16 where "STATIC = 0x8000"
definition HANDLE_READ :: u16 where "HANDLE_READ = 0x8000"
definition HANDLE_WRITE :: u16 where "HANDLE_WRITE = 0x4000"
definition ATTRIBUTE_MASK :: u16 where "ATTRIBUTE_MASK = 0xff00"
definition TYPE_MASK :: u16 where "TYPE_MASK = 0x00ff"

definition SIZEOF_FILE :: u16 where "SIZEOF_FILE = 14"
definition SIZEOF_DIRECTORY :: u16 where "SIZEOF_DIRECTORY = 18"
definition SIZEOF_FILE_HANDLE :: u16 where "SIZEOF_FILE_HANDLE = 12"
definition SIZEOF_DIRECTORY_HANDLE :: u16 where "SIZEOF_DIRECTORY_HANDLE = 4"

section \<open>State\<close>

text \<open>The functions that the tables of operations of the program point to.\<close>

datatype fn =
    Null | Screen_write | Keyb_read | Blockfile_read | Blockfile_write | Floppy_read
  | Fat_read_file | Fat_root_get_next_node | Fat_root_get_node_by_name

record file_ops =
  fo_open :: fn
  fo_read :: fn
  fo_write :: fn

record directory_ops =
  do_open :: fn
  do_get_next_node :: fn
  do_find_node :: fn
  do_add_node :: fn

record block_file_ops =
  bo_read :: fn
  bo_write :: fn

record node =
  n_name :: ptr
  n_flags :: u16
  n_refcount :: u16
  n_writers :: u16
  n_readers :: u16
  n_next :: ptr

record directory =
  d_ops :: "directory_ops option"
  d_child :: ptr
  d_redirect :: ptr

record block_file =
  b_exponent :: u16
  b_ops :: "block_file_ops option"

record handle =
  h_flags :: u16
  h_node :: ptr

record fat_file =
  ff_root :: ptr
  ff_entry_position :: Uint64

record fat_root =
  fr_root_begin :: Uint64
  fr_root_end :: Uint64
  fr_fat_begin :: Uint64
  fr_data_begin :: Uint64
  fr_cluster_pot :: u8
  fr_handle :: ptr

record cached_block =
  cb_block :: Uint64
  cb_file :: ptr
  cb_buffer :: ptr

record path_resolution =
  pr_path :: ptr
  pr_end :: ptr
  pr_current_part :: ptr
  pr_current_node :: ptr

record fs = floppy +
  node_at :: "ptr \<Rightarrow> node option"
  file_at :: "ptr \<Rightarrow> file_ops option option"
  directory_at :: "ptr \<Rightarrow> directory option"
  block_file_at :: "ptr \<Rightarrow> block_file option"
  fat_file_at :: "ptr \<Rightarrow> fat_file option"
  fat_root_at :: "ptr \<Rightarrow> fat_root option"
  handle_at :: "ptr \<Rightarrow> handle option"
  position_at :: "ptr \<Rightarrow> Uint64 option"
  resolution_at :: "ptr \<Rightarrow> path_resolution option"
  block_cache :: "cached_block list"
  vfs_root :: ptr
  devfs_root :: ptr

text \<open>What the functions in the tables do, as far as files and directories call them.\<close>

record 's fs_calls =
  c_file_open :: "fn \<Rightarrow> ptr \<Rightarrow> u16 \<Rightarrow> ('s, ptr) kmon"
  c_file_read :: "fn \<Rightarrow> ptr \<Rightarrow> ptr \<Rightarrow> u16 \<Rightarrow> ('s, u16) kmon"
  c_file_write :: "fn \<Rightarrow> ptr \<Rightarrow> ptr \<Rightarrow> u16 \<Rightarrow> ('s, u16) kmon"
  c_dir_open :: "fn \<Rightarrow> ptr \<Rightarrow> u16 \<Rightarrow> ('s, ptr) kmon"
  c_get_next_node :: "fn \<Rightarrow> ptr \<Rightarrow> ptr \<Rightarrow> ('s, ptr) kmon"
  c_find_node :: "fn \<Rightarrow> ptr \<Rightarrow> ptr \<Rightarrow> ('s, ptr) kmon"
  c_add_node :: "fn \<Rightarrow> ptr \<Rightarrow> ptr \<Rightarrow> ('s, ptr) kmon"

section \<open>Access\<close>

definition get_node :: "ptr \<Rightarrow> ('z fs_scheme, node) kmon" where
  "get_node = lookupK node_at"

definition put_node :: "ptr \<Rightarrow> node \<Rightarrow> ('z fs_scheme, unit) kmon" where
  "put_node p n = modifyK (\<lambda>s. s\<lparr>node_at := (node_at s)(p \<mapsto> n)\<rparr>)"

definition upd_node :: "ptr \<Rightarrow> (node \<Rightarrow> node) \<Rightarrow> ('z fs_scheme, unit) kmon" where
  "upd_node p f = bindK (get_node p) (\<lambda>n. put_node p (f n))"

definition get_directory :: "ptr \<Rightarrow> ('z fs_scheme, directory) kmon" where
  "get_directory = lookupK directory_at"

definition upd_directory :: "ptr \<Rightarrow> (directory \<Rightarrow> directory) \<Rightarrow> ('z fs_scheme, unit) kmon" where
  "upd_directory p f =
     bindK (get_directory p) (\<lambda>d. modifyK (\<lambda>s. s\<lparr>directory_at := (directory_at s)(p \<mapsto> f d)\<rparr>))"

definition get_handle :: "ptr \<Rightarrow> ('z fs_scheme, handle) kmon" where
  "get_handle = lookupK handle_at"

definition put_handle_at :: "ptr \<Rightarrow> handle \<Rightarrow> ('z fs_scheme, unit) kmon" where
  "put_handle_at p h = modifyK (\<lambda>s. s\<lparr>handle_at := (handle_at s)(p \<mapsto> h)\<rparr>)"

definition set_position :: "ptr \<Rightarrow> Uint64 \<Rightarrow> ('z fs_scheme, unit) kmon" where
  "set_position p x = modifyK (\<lambda>s. s\<lparr>position_at := (position_at s)(p \<mapsto> x)\<rparr>)"

text \<open>The bytes from a pointer on, in the kernel segment.\<close>

definition mem_str :: "'z machine_scheme \<Rightarrow> ptr \<Rightarrow> u8 list" where
  "mem_str s p = bytes_at 0x0050 p 65536 (mem s)"

definition name_at :: "'z machine_scheme \<Rightarrow> ptr \<Rightarrow> u8 list" where
  "name_at s p = cstr (mem_str s p)"

section \<open>Operations\<close>

definition node_init :: "ptr \<Rightarrow> ptr \<Rightarrow> u16 \<Rightarrow> ('z fs_scheme, unit) kmon" where
  "node_init node name flags =
     put_node node \<lparr>n_name = name, n_flags = flags, n_refcount = 0, n_writers = 0, n_readers = 0,
       n_next = 0\<rparr>"

definition node_acquire :: "ptr \<Rightarrow> ('z fs_scheme, unit) kmon" where
  "node_acquire node = upd_node node (\<lambda>n. n\<lparr>n_refcount := n_refcount n + 1\<rparr>)"

definition node_release :: "ptr \<Rightarrow> ('z fs_scheme, unit) kmon" where
  "node_release node = upd_node node (\<lambda>n. n\<lparr>n_refcount := n_refcount n - 1\<rparr>)"

lemma get_node_apply [kernel_simps]:
  "node_at s p = Some n \<Longrightarrow> get_node p s = Inr (n, s)"
  "node_at s p = None \<Longrightarrow> get_node p s = Inl (BadPtr p)"
  by (simp_all add: get_node_def kernel_simps)

lemma upd_node_apply [kernel_simps]:
  "node_at s p = Some n \<Longrightarrow> upd_node p f s = Inr ((), s\<lparr>node_at := (node_at s)(p \<mapsto> f n)\<rparr>)"
  "node_at s p = None \<Longrightarrow> upd_node p f s = Inl (BadPtr p)"
  by (simp_all add: upd_node_def put_node_def kernel_simps)

lemma get_directory_apply [kernel_simps]:
  "directory_at s p = Some d \<Longrightarrow> get_directory p s = Inr (d, s)"
  "directory_at s p = None \<Longrightarrow> get_directory p s = Inl (BadPtr p)"
  by (simp_all add: get_directory_def kernel_simps)

lemma upd_directory_apply [kernel_simps]:
  "directory_at s p = Some d \<Longrightarrow>
     upd_directory p f s = Inr ((), s\<lparr>directory_at := (directory_at s)(p \<mapsto> f d)\<rparr>)"
  "directory_at s p = None \<Longrightarrow> upd_directory p f s = Inl (BadPtr p)"
  by (simp_all add: upd_directory_def kernel_simps)

lemma get_handle_apply [kernel_simps]:
  "handle_at s p = Some h \<Longrightarrow> get_handle p s = Inr (h, s)"
  "handle_at s p = None \<Longrightarrow> get_handle p s = Inl (BadPtr p)"
  by (simp_all add: get_handle_def kernel_simps)

lemma put_apply [kernel_simps]:
  "put_node p n s = Inr ((), s\<lparr>node_at := (node_at s)(p \<mapsto> n)\<rparr>)"
  "put_handle_at p h s = Inr ((), s\<lparr>handle_at := (handle_at s)(p \<mapsto> h)\<rparr>)"
  "set_position p x s = Inr ((), s\<lparr>position_at := (position_at s)(p \<mapsto> x)\<rparr>)"
  by (simp_all add: put_node_def put_handle_at_def set_position_def kernel_simps)

lemma name_at_bytes:
  assumes "bytes_at 0x0050 p (Suc (length xs)) (mem s) = xs @ [0]" and "0 \<notin> set xs"
    and "length xs < 65536"
  shows "name_at s p = xs"
proof -
  have "bytes_at 0x0050 p 65536 (mem s)
      = bytes_at 0x0050 p (Suc (length xs)) (mem s)
        @ bytes_at 0x0050 (p + of_nat (Suc (length xs))) (65536 - Suc (length xs)) (mem s)"
    using assms(3) by (intro bytes_at_split) simp
  then obtain rest where "mem_str s p = xs @ 0 # rest"
    unfolding mem_str_def assms(1) by (simp only: append_assoc append_Cons append_Nil)
  then have "name_at s p = takeWhile (\<lambda>c. c \<noteq> 0) (xs @ 0 # rest)"
    by (simp only: name_at_def cstr_def)
  also have "\<dots> = xs"
    using assms(2) by (subst takeWhile_append2) auto
  finally show ?thesis .
qed

section \<open>Objects of the file system and the heap\<close>

text \<open>The frame of heap and scheduler operations on the objects of the file system.\<close>

lemma heap_inv_fs [simp]:
  "heap_inv (node_at_update f s) = heap_inv s" "heap_inv (file_at_update g s) = heap_inv s"
  "heap_inv (directory_at_update h s) = heap_inv s" "heap_inv (handle_at_update k s) = heap_inv s"
  "heap_inv (position_at_update l s) = heap_inv s"
  by (simp_all add: heap_inv_def)

lemma live_fs [simp]:
  "live (node_at_update f s) = live s" "live (file_at_update g s) = live s"
  "live (directory_at_update h s) = live s" "live (handle_at_update k s) = live s"
  "live (position_at_update l s) = live s"
  by (simp_all add: live_def block_addr_def)

lemma name_at_fs [simp]:
  "name_at (node_at_update f s) = name_at s" "name_at (file_at_update g s) = name_at s"
  "name_at (directory_at_update h s) = name_at s" "name_at (handle_at_update k s) = name_at s"
  "name_at (position_at_update l s) = name_at s"
  by (simp_all add: name_at_def mem_str_def fun_eq_iff)

lemma name_at_cong: "mem s = mem t \<Longrightarrow> name_at s = name_at t"
  by (simp add: name_at_def [abs_def] mem_str_def)

end
