(* ===== verification/File.thy ===== *)
theory File
  imports Node
begin

text \<open>
  Files, \<^verbatim>\<open>kernel/fs/file.c\<close>: opening and closing with the counters of readers and writers,
  seeking, and the dispatch of reads and writes to the operations of a file; the contract of a
  readers-writer lock, which opening and closing keep.
\<close>

unbundle bit_operations_syntax

section \<open>Operations\<close>

definition non_file :: string where "non_file = ''file op on non-file''"
definition NOT_READ :: string where "NOT_READ = ''read op on non-read handle''"
definition NOT_WRITE :: string where "NOT_WRITE = ''write op on non-write handle''"

definition get_file :: "ptr \<Rightarrow> ('z fs_scheme, file_ops option) kmon" where
  "get_file = lookupK file_at"

definition file_create_node :: "ptr \<Rightarrow> u16 \<Rightarrow> file_ops option \<Rightarrow> ('z fs_scheme, ptr) kmon" where
  "file_create_node name flags ops =
     bindK (malloc SIZEOF_FILE) (\<lambda>file.
       thenK (whenK (file \<noteq> 0)
          (thenK (node_init file name (FILE OR (flags AND ATTRIBUTE_MASK)))
             (modifyK (\<lambda>s. s\<lparr>file_at := (file_at s)(file \<mapsto> ops)\<rparr>))))
      (thenK (node_acquire file) (retK file)))"

text \<open>Both ways to refuse: a writer wants to be alone, and a reader wants no writer.\<close>

definition mode_conflict :: "node \<Rightarrow> u16 \<Rightarrow> bool" where
  "mode_conflict n mode \<longleftrightarrow>
     mode AND HANDLE_WRITE \<noteq> 0 \<and> (n_readers n > 0 \<or> n_writers n > 0)
     \<or> mode AND HANDLE_READ \<noteq> 0 \<and> n_writers n > 0"

definition file_open_handle ::
  "('z fs_scheme) fs_calls \<Rightarrow> file_ops option \<Rightarrow> ptr \<Rightarrow> u16 \<Rightarrow> ('z fs_scheme, ptr) kmon" where
  "file_open_handle c ops file mode =
     (case ops of
        Some t \<Rightarrow> if fo_open t \<noteq> Null then c_file_open c (fo_open t) file mode
                  else malloc SIZEOF_FILE_HANDLE
      | None \<Rightarrow> malloc SIZEOF_FILE_HANDLE)"

definition count_open :: "ptr \<Rightarrow> u16 \<Rightarrow> ('z fs_scheme, unit) kmon" where
  "count_open node mode =
     thenK (whenK (mode AND HANDLE_WRITE \<noteq> 0) (upd_node node (\<lambda>n. n\<lparr>n_writers := n_writers n + 1\<rparr>)))
       (whenK (mode AND HANDLE_READ \<noteq> 0) (upd_node node (\<lambda>n. n\<lparr>n_readers := n_readers n + 1\<rparr>)))"

definition count_close :: "ptr \<Rightarrow> u16 \<Rightarrow> ('z fs_scheme, unit) kmon" where
  "count_close node flags =
     thenK (whenK (flags AND HANDLE_READ \<noteq> 0) (upd_node node (\<lambda>n. n\<lparr>n_readers := n_readers n - 1\<rparr>)))
       (whenK (flags AND HANDLE_WRITE \<noteq> 0) (upd_node node (\<lambda>n. n\<lparr>n_writers := n_writers n - 1\<rparr>)))"

definition file_open :: "('z fs_scheme) fs_calls \<Rightarrow> ptr \<Rightarrow> u16 \<Rightarrow> ('z fs_scheme, ptr) kmon" where
  "file_open c node mode =
     bindK (get_node node) (\<lambda>n.
       if mode_conflict n mode then retK 0
       else if n_flags n AND FILE = 0 then failK (Panic non_file)
       else
         bindK (get_file node) (\<lambda>ops.
         bindK (file_open_handle c ops node mode) (\<lambda>handle.
           thenK (whenK (handle \<noteq> 0)
              (thenK (put_handle_at handle \<lparr>h_flags = FILE OR mode, h_node = node\<rparr>)
              (thenK (count_open node mode)
              (thenK (set_position handle (init64 0 0 0 0)) (node_acquire node)))))
             (retK handle))))"

definition free_handle :: "ptr \<Rightarrow> ('z fs_scheme, unit) kmon" where
  "free_handle handle =
     thenK (free handle)
       (modifyK (\<lambda>s. s\<lparr>handle_at := (handle_at s)(handle := None), position_at := (position_at s)(handle := None)\<rparr>))"

definition file_close :: "ptr \<Rightarrow> ('z fs_scheme, unit) kmon" where
  "file_close handle =
     bindK (get_handle handle) (\<lambda>h.
       thenK (count_close (h_node h) (h_flags h))
      (thenK (node_release (h_node h)) (free_handle handle)))"

definition file_seek :: "ptr \<Rightarrow> Uint64 \<Rightarrow> ('z fs_scheme, unit) kmon" where
  "file_seek handle position =
     bindK (lookupK position_at handle) (\<lambda>old. set_position handle (set64 old position))"

text \<open>
  The checks of reads and writes compare before they mask, as the operators of C bind: the value
  of \<open>TYPE_MASK == FILE\<close> is 0 or 1.
\<close>

definition c_bool :: "bool \<Rightarrow> u16" where
  "c_bool b = (if b then 1 else 0)"

definition file_read ::
  "('z fs_scheme) fs_calls \<Rightarrow> ptr \<Rightarrow> ptr \<Rightarrow> u16 \<Rightarrow> ('z fs_scheme, u16) kmon" where
  "file_read c handle buf count =
     bindK (get_handle handle) (\<lambda>h.
       if h_flags h AND c_bool (TYPE_MASK = FILE) \<noteq> 0 then failK (Panic non_file)
       else if h_flags h AND c_bool (ATTRIBUTE_MASK = HANDLE_READ) \<noteq> 0 then failK (Panic NOT_READ)
       else
         bindK (get_file (h_node h)) (\<lambda>ops.
           case ops of
             Some t \<Rightarrow> if fo_read t \<noteq> Null then c_file_read c (fo_read t) handle buf count else retK 0
           | None \<Rightarrow> retK 0))"

definition file_write ::
  "('z fs_scheme) fs_calls \<Rightarrow> ptr \<Rightarrow> ptr \<Rightarrow> u16 \<Rightarrow> ('z fs_scheme, u16) kmon" where
  "file_write c handle buf count =
     bindK (get_handle handle) (\<lambda>h.
       if h_flags h AND c_bool (TYPE_MASK = FILE) \<noteq> 0 then failK (Panic non_file)
       else if h_flags h AND c_bool (ATTRIBUTE_MASK = HANDLE_WRITE) \<noteq> 0 then failK (Panic NOT_WRITE)
       else
         bindK (get_file (h_node h)) (\<lambda>ops.
           case ops of
             Some t \<Rightarrow> if fo_write t \<noteq> Null then c_file_write c (fo_write t) handle buf count else retK 0
           | None \<Rightarrow> retK 0))"

section \<open>What the operations compute\<close>

definition reads :: "u16 \<Rightarrow> bool" where "reads m \<longleftrightarrow> m AND HANDLE_READ \<noteq> 0"
definition writes :: "u16 \<Rightarrow> bool" where "writes m \<longleftrightarrow> m AND HANDLE_WRITE \<noteq> 0"

definition add_counts :: "u16 \<Rightarrow> node \<Rightarrow> node" where
  "add_counts m n = n\<lparr>n_writers := n_writers n + c_bool (writes m),
     n_readers := n_readers n + c_bool (reads m), n_refcount := n_refcount n + 1\<rparr>"

definition sub_counts :: "u16 \<Rightarrow> node \<Rightarrow> node" where
  "sub_counts m n = n\<lparr>n_writers := n_writers n - c_bool (writes m),
     n_readers := n_readers n - c_bool (reads m), n_refcount := n_refcount n - 1\<rparr>"

lemma sub_add_counts [simp]: "sub_counts m (add_counts m n) = n"
  by (cases n) (simp add: add_counts_def sub_counts_def)

lemma count_open_apply [kernel_simps]:
  "node_at s p = Some n \<Longrightarrow> count_open p m s = Inr ((), s\<lparr>node_at := (node_at s)(p \<mapsto>
     n\<lparr>n_writers := n_writers n + c_bool (writes m), n_readers := n_readers n + c_bool (reads m)\<rparr>)\<rparr>)"
  by (cases "writes m"; cases "reads m")
    (simp_all add: count_open_def kernel_simps reads_def writes_def c_bool_def fun_upd_idem)

lemma count_close_apply [kernel_simps]:
  "node_at s p = Some n \<Longrightarrow> count_close p m s = Inr ((), s\<lparr>node_at := (node_at s)(p \<mapsto>
     n\<lparr>n_writers := n_writers n - c_bool (writes m), n_readers := n_readers n - c_bool (reads m)\<rparr>)\<rparr>)"
  by (cases "writes m"; cases "reads m"; cases n)
    (simp_all add: count_close_def kernel_simps reads_def writes_def c_bool_def fun_upd_idem)

lemma mode_flags [simp]:
  "reads (FILE OR m) = reads m" "writes (FILE OR m) = writes m"
  "reads (DIRECTORY OR m) = reads m" "writes (DIRECTORY OR m) = writes m"
  by (simp_all add: reads_def writes_def FILE_def DIRECTORY_def HANDLE_READ_def HANDLE_WRITE_def
      bit.conj_disj_distrib2)

lemma counts_flags [simp]:
  "add_counts (FILE OR m) = add_counts m" "sub_counts (FILE OR m) = sub_counts m"
  "add_counts (DIRECTORY OR m) = add_counts m" "sub_counts (DIRECTORY OR m) = sub_counts m"
  by (simp_all add: add_counts_def sub_counts_def fun_eq_iff)

text \<open>
  The checks of the handle never fail: whatever the mode of a handle, a read through it goes to
  the read operation of the file.
\<close>

lemma file_read_any_mode:
  assumes "handle_at s h = Some r" and "file_at s (h_node r) = Some (Some t)" and "fo_read t \<noteq> Null"
  shows "file_read c h buf count s = c_file_read c (fo_read t) h buf count s"
  using assms
  by (simp add: file_read_def kernel_simps get_file_def c_bool_def TYPE_MASK_def FILE_def
      ATTRIBUTE_MASK_def HANDLE_READ_def)

lemma file_write_any_mode:
  assumes "handle_at s h = Some r" and "file_at s (h_node r) = Some (Some t)" and "fo_write t \<noteq> Null"
  shows "file_write c h buf count s = c_file_write c (fo_write t) h buf count s"
  using assms
  by (simp add: file_write_def kernel_simps get_file_def c_bool_def TYPE_MASK_def FILE_def
      ATTRIBUTE_MASK_def HANDLE_WRITE_def)

text \<open>The state after a handle \<open>h\<close> on \<open>p\<close> has been set up in the state after its allocation.\<close>

definition add_file_handle :: "ptr \<Rightarrow> ptr \<Rightarrow> node \<Rightarrow> u16 \<Rightarrow> 'z fs_scheme \<Rightarrow> 'z fs_scheme" where
  "add_file_handle h p n m s =
     s\<lparr>handle_at := (handle_at s)(h \<mapsto> \<lparr>h_flags = FILE OR m, h_node = p\<rparr>),
       position_at := (position_at s)(h \<mapsto> init64 0 0 0 0),
       node_at := (node_at s)(p \<mapsto> add_counts m n)\<rparr>"

definition no_open :: "('z fs_scheme) \<Rightarrow> bool" where
  "no_open s \<longleftrightarrow> (\<forall>p t. file_at s p = Some (Some t) \<longrightarrow> fo_open t = Null)
     \<and> (\<forall>p d t. directory_at s p = Some d \<longrightarrow> d_ops d = Some t \<longrightarrow> do_open t = Null)"

lemma file_open_handle_malloc:
  "no_open s \<Longrightarrow> file_at s p = Some ops \<Longrightarrow> file_open_handle c ops p m = malloc SIZEOF_FILE_HANDLE"
  by (auto simp: file_open_handle_def no_open_def split: option.split)

lemma file_open_eq:
  assumes "no_open s" and "node_at s p = Some n" and "file_at s p = Some ops"
  shows "file_open c p m s =
    (if mode_conflict n m then Inr (0, s)
     else if n_flags n AND FILE = 0 then Inl (Panic non_file)
     else (case malloc SIZEOF_FILE_HANDLE s of
         Inl e \<Rightarrow> Inl e
       | Inr (h, s1) \<Rightarrow>
           if h = 0 then Inr (0, s1)
           else Inr (h, add_file_handle h p n m s1)))"
proof (cases "malloc SIZEOF_FILE_HANDLE s")
  case (Inl e)
  then show ?thesis using assms
    by (simp add: file_open_def kernel_simps get_file_def file_open_handle_malloc bindK_def)
next
  case (Inr r)
  then obtain h s1 where r: "malloc SIZEOF_FILE_HANDLE s = Inr (h, s1)" by (cases r) auto
  then obtain bm u where s1: "s1 = s\<lparr>bitmap := bm, used_bytes := u\<rparr>" using malloc_frame by blast
  show ?thesis using assms r
    by (simp add: file_open_def kernel_simps get_file_def file_open_handle_malloc s1 node_acquire_def
        add_file_handle_def add_counts_def)
qed

lemma free_node_at:
  "free h (s\<lparr>node_at := x\<rparr>) =
     (case free h s of Inl e \<Rightarrow> Inl e | Inr (u, s1) \<Rightarrow> Inr (u, s1\<lparr>node_at := x\<rparr>))"
  by (simp add: free_def split: option.split prod.split)

lemma free_objects:
  assumes "free h s = Inr (u, s1)"
  shows "free h (s\<lparr>handle_at := x, position_at := y, node_at := z\<rparr>) =
     Inr (u, s1\<lparr>handle_at := x, position_at := y, node_at := z\<rparr>)"
proof -
  have "free h (s\<lparr>handle_at := x, position_at := y, node_at := z\<rparr>) =
     (case free h s of Inl e \<Rightarrow> Inl e
      | Inr (u, s1) \<Rightarrow> Inr (u, s1\<lparr>handle_at := x, position_at := y, node_at := z\<rparr>))"
    by (simp add: free_def split: option.split prod.split)
  then show ?thesis using assms by simp
qed

lemma file_close_eq:
  assumes "handle_at s h = Some r" and "node_at s (h_node r) = Some n"
  shows "file_close h s =
    (case free h s of
       Inl e \<Rightarrow> Inl e
     | Inr (_, s1) \<Rightarrow> Inr ((), s1
         \<lparr>node_at := (node_at s)(h_node r \<mapsto> sub_counts (h_flags r) n),
          handle_at := (handle_at s)(h := None), position_at := (position_at s)(h := None)\<rparr>))"
proof (cases "free h s")
  case (Inl e)
  then show ?thesis using assms
    by (simp add: file_close_def kernel_simps node_release_def free_handle_def bindK_def thenK_def free_node_at)
next
  case (Inr q)
  then obtain bm u where "free h s = Inr ((), s\<lparr>bitmap := bm, used_bytes := u\<rparr>)"
    using free_frame [of h s "snd q"] by (cases q) auto
  then show ?thesis using assms
    by (simp add: file_close_def kernel_simps node_release_def free_handle_def free_node_at sub_counts_def)
qed

section \<open>Counters and open handles\<close>

definition handles_of :: "'z fs_scheme \<Rightarrow> ptr \<Rightarrow> (u16 \<Rightarrow> bool) \<Rightarrow> ptr set" where
  "handles_of s p f = {h. \<exists>r. handle_at s h = Some r \<and> h_node r = p \<and> f (h_flags r)}"

definition handle_ok :: "'z fs_scheme \<Rightarrow> ptr \<Rightarrow> bool" where
  "handle_ok s h \<longleftrightarrow> (\<exists>k. (unat h, k) \<in> live s) \<and>
     (\<exists>r. handle_at s h = Some r \<and> node_at s (h_node r) \<noteq> None)"

definition counts_ok :: "'z fs_scheme \<Rightarrow> bool" where
  "counts_ok s \<longleftrightarrow> (\<forall>p n. node_at s p = Some n \<longrightarrow>
     unat (n_readers n) = card (handles_of s p reads) \<and> unat (n_writers n) = card (handles_of s p writes))"

definition fs_inv :: "'z fs_scheme \<Rightarrow> bool" where
  "fs_inv s \<longleftrightarrow> heap_inv s \<and> no_open s \<and> counts_ok s
     \<and> (\<forall>h. handle_at s h \<noteq> None \<or> position_at s h \<noteq> None \<longrightarrow> handle_ok s h)"

lemma card_handles:
  assumes "0 \<notin> S"
  shows "card (S :: ptr set) < 65536"
proof -
  have "unat ` S \<subseteq> {1..65535}"
    using assms unat_le_65535 by (auto simp: Suc_le_eq unat_gt_0)
  then have "card (unat ` S) \<le> card {1..65535 :: nat}" by (intro card_mono) simp_all
  moreover have "card (unat ` S) = card S" by (intro card_image inj_onI) (simp add: word_unat_eq_iff)
  ultimately show ?thesis by simp
qed

lemma fs_invD:
  assumes "fs_inv s"
  shows "heap_inv s" "no_open s" "counts_ok s"
    "handle_at s h = Some r \<Longrightarrow> \<exists>k. (unat h, k) \<in> live s"
    "handle_at s h = Some r \<Longrightarrow> \<exists>n. node_at s (h_node r) = Some n"
    "position_at s h \<noteq> None \<Longrightarrow> handle_at s h \<noteq> None"
    "handle_at s h = Some r \<Longrightarrow> h \<noteq> 0"
proof -
  show "heap_inv s" "no_open s" "counts_ok s" using assms by (auto simp: fs_inv_def)
  show live: "handle_at s h = Some r \<Longrightarrow> \<exists>k. (unat h, k) \<in> live s"
    and "handle_at s h = Some r \<Longrightarrow> \<exists>n. node_at s (h_node r) = Some n"
    and "position_at s h \<noteq> None \<Longrightarrow> handle_at s h \<noteq> None"
    using assms unfolding fs_inv_def handle_ok_def by force+
  show "handle_at s h = Some r \<Longrightarrow> h \<noteq> 0"
    using live live_bounded [OF \<open>heap_inv s\<close>] by fastforce
qed

lemma malloc_fresh_handle:
  assumes "fs_inv s" and "malloc k s = Inr (h, s1)"
  shows "handle_at s h = None" "position_at s h = None" "h \<noteq> 0"
proof -
  show none: "handle_at s h = None"
  proof (rule ccontr)
    assume "handle_at s h \<noteq> None"
    then obtain k where "(unat h, k) \<in> live s" using fs_invD(4) [OF assms(1)] by blast
    then show False
      using heap_alloc.alloc_address_fresh [OF fs_invD(1) [OF assms(1)] assms(2)] by blast
  qed
  then show "position_at s h = None" using fs_invD(6) [OF assms(1), of h] by (cases "position_at s h") auto
  show "h \<noteq> 0" using heap_alloc.alloc_nonnull [OF fs_invD(1) [OF assms(1)] assms(2)] .
qed

text \<open>The two ways in which the set of open handles changes.\<close>

lemma handles_of_add:
  assumes "handle_at s h = None" and "handle_at s' = (handle_at s)(h \<mapsto> r)"
  shows "handles_of s' p f = (if h_node r = p \<and> f (h_flags r) then insert h (handles_of s p f) else handles_of s p f)"
  using assms by (auto simp: handles_of_def)

lemma handles_of_remove:
  assumes "handle_at s' = (handle_at s)(h := None)"
  shows "handles_of s' p f = handles_of s p f - {h}"
  using assms by (auto simp: handles_of_def)

lemma counts_ok_add:
  assumes "counts_ok s" and "handle_at s h = None" and "node_at s p = Some n"
    and "handle_at s' = (handle_at s)(h \<mapsto> \<lparr>h_flags = m, h_node = p\<rparr>)"
    and "node_at s' = (node_at s)(p \<mapsto> add_counts m n)"
    and "\<And>q r. handle_at s' q = Some r \<Longrightarrow> q \<noteq> 0"
  shows "counts_ok s'"
proof -
  have bound: "card (handles_of s' q f) < 65536" for q f
    using assms(6) by (intro card_handles) (auto simp: handles_of_def)
  have fresh: "h \<notin> handles_of s q f" for q f using assms(2) by (simp add: handles_of_def)
  have new: "handles_of s' q f = (if p = q \<and> f m then insert h (handles_of s q f) else handles_of s q f)" for q f
    using handles_of_add [OF assms(2,4)] by simp
  have count: "unat (a + c_bool (f m)) = card (handles_of s' p f)" if "unat a = card (handles_of s p f)" for f a
  proof (cases "f m")
    case True
    then have "Suc (card (handles_of s p f)) < 65536" using bound [of p f] fresh [of p f] by (simp add: new)
    then show ?thesis using True that fresh [of p f]
      by (simp add: new c_bool_def unat_add16_small [of a 1])
  qed (use that in \<open>simp add: new c_bool_def\<close>)
  have "unat (n_readers n) = card (handles_of s p reads)" "unat (n_writers n) = card (handles_of s p writes)"
    using assms(1,3) by (auto simp: counts_ok_def)
  then have "unat (n_readers (add_counts m n)) = card (handles_of s' p reads)"
    "unat (n_writers (add_counts m n)) = card (handles_of s' p writes)"
    using count by (simp_all add: add_counts_def)
  moreover have "handles_of s' q f = handles_of s q f" if "q \<noteq> p" for q f using that by (simp add: new)
  ultimately show ?thesis using assms(1) unfolding counts_ok_def assms(5) by auto
qed

lemma counts_ok_remove:
  assumes "counts_ok s" and "handle_at s h = Some r" and "node_at s (h_node r) = Some n"
    and "handle_at s' = (handle_at s)(h := None)"
    and "node_at s' = (node_at s)(h_node r \<mapsto> sub_counts (h_flags r) n)"
  shows "counts_ok s'"
proof -
  have old: "h \<in> handles_of s p f \<longleftrightarrow> p = h_node r \<and> f (h_flags r)" for p f
    using assms(2) by (auto simp: handles_of_def)
  have new: "handles_of s' p f = handles_of s p f - {h}" for p f by (rule handles_of_remove [OF assms(4)])
  have count: "unat (a - c_bool (f (h_flags r))) = card (handles_of s' (h_node r) f)"
    if "unat a = card (handles_of s (h_node r) f)" for f a
  proof (cases "f (h_flags r)")
    case True
    then have "h \<in> handles_of s (h_node r) f" by (simp add: old)
    then have "1 \<le> unat a" and "card (handles_of s' (h_node r) f) = unat a - 1"
      using that by (simp_all add: new Suc_le_eq card_gt_0_iff) auto
    then show ?thesis using True by (simp add: c_bool_def unat_sub16_le)
  next
    case False
    then show ?thesis using that old [of "h_node r" f] by (simp add: c_bool_def new)
  qed
  have "unat (n_readers n) = card (handles_of s (h_node r) reads)"
    "unat (n_writers n) = card (handles_of s (h_node r) writes)"
    using assms(1,3) by (auto simp: counts_ok_def)
  then have "unat (n_readers (sub_counts (h_flags r) n)) = card (handles_of s' (h_node r) reads)"
    "unat (n_writers (sub_counts (h_flags r) n)) = card (handles_of s' (h_node r) writes)"
    using count by (simp_all add: sub_counts_def)
  moreover have "handles_of s' q f = handles_of s q f" if "q \<noteq> h_node r" for q f
    using that old [of q f] by (simp add: new)
  ultimately show ?thesis using assms(1) unfolding counts_ok_def assms(5) by auto
qed

lemma fs_inv_add:
  assumes inv: "fs_inv s" and m: "malloc k s = Inr (h, s1)" and n: "node_at s p = Some n"
    and pos: "\<And>q. q \<noteq> h \<Longrightarrow> P q = position_at s q"
  shows "fs_inv (s1\<lparr>handle_at := (handle_at s)(h \<mapsto> \<lparr>h_flags = f, h_node = p\<rparr>), position_at := P,
    node_at := (node_at s)(p \<mapsto> add_counts f n)\<rparr>)" (is "fs_inv ?t")
proof -
  obtain bm u where s1: "s1 = s\<lparr>bitmap := bm, used_bytes := u\<rparr>" using malloc_frame [OF m] by blast
  note hinv = fs_invD(1) [OF inv] and fresh = malloc_fresh_handle [OF inv m]
  have "heap_inv s1" using heap_alloc.alloc_ok [OF hinv m] .
  moreover have "no_open ?t" using fs_invD(2) [OF inv] by (simp add: no_open_def s1)
  moreover have "counts_ok ?t"
    using fs_invD(7) [OF inv] fresh(3)
    by (intro counts_ok_add [OF fs_invD(3) [OF inv] fresh(1) n]) (auto split: if_splits)
  moreover have "handle_ok ?t q" if "handle_at ?t q \<noteq> None \<or> position_at ?t q \<noteq> None" for q
  proof (cases "q = h")
    case True
    obtain k' where "(unat h, k') \<in> live s1" using heap_alloc.alloc_fresh [OF hinv m] by auto
    then show ?thesis by (auto simp: handle_ok_def True)
  next
    case False
    then have "handle_ok s q" using that inv pos [OF False] by (auto simp: fs_inv_def)
    then show ?thesis using False heap_alloc.alloc_keeps [OF hinv m] by (auto simp: handle_ok_def)
  qed
  ultimately show ?thesis unfolding fs_inv_def by simp
qed

lemma fs_inv_remove:
  assumes inv: "fs_inv s" and r: "handle_at s h = Some r" and n: "node_at s (h_node r) = Some n"
    and f: "free h s = Inr ((), s1)"
  shows "fs_inv (s1\<lparr>node_at := (node_at s)(h_node r \<mapsto> sub_counts (h_flags r) n),
    handle_at := (handle_at s)(h := None), position_at := (position_at s)(h := None)\<rparr>)" (is "fs_inv ?t")
proof -
  obtain bm u where s1: "s1 = s\<lparr>bitmap := bm, used_bytes := u\<rparr>" using free_frame [OF f] by blast
  obtain k where "(unat h, k) \<in> live s" using fs_invD(4) [OF inv r] by blast
  then have rel: "heap_inv s1" "live s1 = {q \<in> live s. fst q \<noteq> unat h}"
    using heap_alloc.release_address [OF fs_invD(1) [OF inv], of h k] f by auto
  have "no_open ?t" using fs_invD(2) [OF inv] by (simp add: no_open_def s1)
  moreover have "counts_ok ?t" by (rule counts_ok_remove [OF fs_invD(3) [OF inv] r n]) simp_all
  moreover have "handle_ok ?t q" if "handle_at ?t q \<noteq> None \<or> position_at ?t q \<noteq> None" for q
  proof -
    have q: "q \<noteq> h" and "handle_ok s q" using that inv by (auto simp: fs_inv_def split: if_splits)
    then show ?thesis by (auto simp: handle_ok_def rel(2) word_unat_eq_iff)
  qed
  ultimately show ?thesis using rel(1) unfolding fs_inv_def by simp
qed

section \<open>Readers and writers\<close>

text \<open>
  What is open: for each handle its node and its flags.  Two modes conflict when one of them
  writes and the other reads or writes.
\<close>

type_synonym holders = "ptr \<Rightarrow> (ptr \<times> u16) option"

definition conflicting :: "u16 \<Rightarrow> u16 \<Rightarrow> bool" where
  "conflicting m k \<longleftrightarrow> writes m \<and> (reads k \<or> writes k) \<or> reads m \<and> writes k"

definition exclusive :: "holders \<Rightarrow> bool" where
  "exclusive v \<longleftrightarrow> (\<forall>h g p m k. v h = Some (p, m) \<longrightarrow> v g = Some (p, k) \<longrightarrow> h \<noteq> g \<longrightarrow> \<not> conflicting m k)"

text \<open>A run of opening and closing.\<close>

inductive lock_run ::
  "(ptr \<Rightarrow> u16 \<Rightarrow> 's \<Rightarrow> kerror + ptr \<times> 's) \<Rightarrow> (ptr \<Rightarrow> 's \<Rightarrow> kerror + unit \<times> 's) \<Rightarrow> 's \<Rightarrow> 's \<Rightarrow> bool"
  for op cl where
  start: "lock_run op cl s s"
| opened: "lock_run op cl s t \<Longrightarrow> op p m t = Inr (h, u) \<Longrightarrow> lock_run op cl s u"
| closed: "lock_run op cl s t \<Longrightarrow> cl h t = Inr ((), u) \<Longrightarrow> lock_run op cl s u"

text \<open>
  The contract of a readers-writer lock on nodes: an open that succeeds conflicts with no holder
  and adds the new holder, one that is refused changes nothing, and a close removes the holder.
\<close>

locale rw_lock =
  fixes op :: "ptr \<Rightarrow> u16 \<Rightarrow> 's \<Rightarrow> kerror + ptr \<times> 's"
    and cl :: "ptr \<Rightarrow> 's \<Rightarrow> kerror + unit \<times> 's"
    and ok :: "'s \<Rightarrow> bool"
    and holds :: "'s \<Rightarrow> holders"
  assumes grant: "ok s \<Longrightarrow> op p m s = Inr (h, s') \<Longrightarrow> h \<noteq> 0 \<Longrightarrow>
      ok s' \<and> holds s h = None \<and> (\<exists>f. holds s' = (holds s)(h \<mapsto> (p, f)) \<and> reads f = reads m \<and> writes f = writes m)
      \<and> (\<forall>g k. holds s g = Some (p, k) \<longrightarrow> \<not> conflicting m k)"
    and refuse: "ok s \<Longrightarrow> op p m s = Inr (0, s') \<Longrightarrow> s' = s"
    and close: "ok s \<Longrightarrow> cl h s = Inr ((), s') \<Longrightarrow> ok s' \<and> holds s' = (holds s)(h := None)"
begin

lemma conflicting_sym: "conflicting m k = conflicting k m"
  by (auto simp: conflicting_def)

lemma exclusive_add:
  assumes "exclusive v" and "\<And>g k. v g = Some (p, k) \<Longrightarrow> \<not> conflicting m k"
    and "reads f = reads m" and "writes f = writes m"
  shows "exclusive (v(h \<mapsto> (p, f)))"
proof -
  have c: "conflicting f k = conflicting m k" for k using assms(3,4) by (simp add: conflicting_def)
  show ?thesis using assms(1,2) unfolding exclusive_def
    by (auto simp: c conflicting_sym [of _ f] split: if_splits)
qed

lemma exclusive_remove: "exclusive v \<Longrightarrow> exclusive (v(h := None))"
  by (auto simp: exclusive_def split: if_splits)

lemma open_ok: "ok s \<Longrightarrow> op p m s = Inr (h, s') \<Longrightarrow> ok s'"
  using grant [of s p m h s'] refuse [of s p m s'] by (cases "h = 0") auto

lemma open_exclusive:
  assumes "ok s" and "exclusive (holds s)" and "op p m s = Inr (h, s')"
  shows "exclusive (holds s')"
proof (cases "h = 0")
  case True
  then show ?thesis using refuse assms by auto
next
  case False
  from grant [OF assms(1,3) this] obtain f where "holds s' = (holds s)(h \<mapsto> (p, f))"
    "reads f = reads m" "writes f = writes m" "\<forall>g k. holds s g = Some (p, k) \<longrightarrow> \<not> conflicting m k"
    by blast
  then show ?thesis using exclusive_add [OF assms(2), of p m f h] by simp
qed

lemma run_exclusive:
  assumes "lock_run op cl s t" and "ok s" and "exclusive (holds s)"
  shows "ok t \<and> exclusive (holds t)"
  using assms
proof (induction rule: lock_run.induct)
  case (closed s t h u)
  then have "ok t" and ex: "exclusive (holds t)" by blast+
  then have "ok u" and u: "holds u = (holds t)(h := None)" using close closed.hyps(2) by blast+
  moreover have "exclusive (holds u)" unfolding u using ex by (rule exclusive_remove)
  ultimately show ?case by blast
qed (use open_ok open_exclusive in blast)+

end

text \<open>The view of the file system for that contract.\<close>

definition open_handles :: "'z fs_scheme \<Rightarrow> holders" where
  "open_handles s h = map_option (\<lambda>r. (h_node r, h_flags r)) (handle_at s h)"

lemma open_handles_upd:
  "handle_at s' = (handle_at s)(h := x) \<Longrightarrow>
     open_handles s' = (open_handles s)(h := map_option (\<lambda>r. (h_node r, h_flags r)) x)"
  by (auto simp: open_handles_def fun_eq_iff)

lemma mode_conflict_holders:
  assumes "counts_ok s" and "node_at s p = Some n" and "\<not> mode_conflict n m"
    and "open_handles s g = Some (p, k)"
  shows "\<not> conflicting m k"
proof -
  have g: "f k \<Longrightarrow> g \<in> handles_of s p f" for f
    using assms(4) by (auto simp: open_handles_def handles_of_def)
  have pos: "0 < card (handles_of s p f)" if "f k" for f
    using g [of f] that by (auto simp: card_gt_0_iff)
  have "unat (n_readers n) = card (handles_of s p reads)" "unat (n_writers n) = card (handles_of s p writes)"
    using assms(1,2) by (auto simp: counts_ok_def)
  then have "reads k \<Longrightarrow> 0 < n_readers n" "writes k \<Longrightarrow> 0 < n_writers n"
    using pos [of reads] pos [of writes] by (simp_all add: less16_iff)
  then show ?thesis
    using assms(3) by (auto simp: mode_conflict_def conflicting_def reads_def writes_def)
qed

lemma file_open_cases:
  assumes "fs_inv s" and "file_open c p m s = Inr (h, s')"
  obtains (refused) n where "node_at s p = Some n" "mode_conflict n m" "h = 0" "s' = s"
  | (opened) n ops s1 where "node_at s p = Some n" "\<not> mode_conflict n m" "file_at s p = Some ops"
      "malloc SIZEOF_FILE_HANDLE s = Inr (h, s1)" "h \<noteq> 0" "s' = add_file_handle h p n m s1"
proof -
  note D = fs_invD [OF assms(1)]
  obtain n where n: "node_at s p = Some n"
    using assms(2) by (cases "node_at s p") (simp_all add: file_open_def kernel_simps)
  show ?thesis
  proof (cases "mode_conflict n m")
    case True
    then have "file_open c p m s = Inr (0, s)" using n by (simp add: file_open_def kernel_simps)
    then show ?thesis using assms(2) refused [OF n True] by simp
  next
    case False
    obtain ops where ops: "file_at s p = Some ops"
      using assms(2) n False
      by (cases "file_at s p") (simp_all add: file_open_def kernel_simps get_file_def split: if_splits)
    obtain s1 where m: "malloc SIZEOF_FILE_HANDLE s = Inr (h, s1)" and s':
      "s' = (if h = 0 then s1 else add_file_handle h p n m s1)"
      using assms(2) False unfolding file_open_eq [OF D(2) n ops]
      by (cases "malloc SIZEOF_FILE_HANDLE s") (auto split: if_splits)
    have "h \<noteq> 0" by (rule heap_alloc.alloc_nonnull [OF D(1) m])
    then show ?thesis using opened [OF n False ops m] s' by simp
  qed
qed

lemma file_close_cases:
  assumes "fs_inv s" and "file_close h s = Inr ((), s')"
  obtains r n s1 where "handle_at s h = Some r" "node_at s (h_node r) = Some n" "free h s = Inr ((), s1)"
    "s' = s1\<lparr>node_at := (node_at s)(h_node r \<mapsto> sub_counts (h_flags r) n),
          handle_at := (handle_at s)(h := None), position_at := (position_at s)(h := None)\<rparr>"
proof -
  obtain r where r: "handle_at s h = Some r"
    using assms(2) by (cases "handle_at s h") (simp_all add: file_close_def kernel_simps)
  then obtain n where n: "node_at s (h_node r) = Some n" using fs_invD(5) [OF assms(1)] by blast
  from assms(2) show ?thesis unfolding file_close_eq [OF r n]
    using that [OF r n] by (auto split: sum.splits)
qed

interpretation file_lock: rw_lock "file_open c" file_close fs_inv open_handles for c
proof unfold_locales
  fix s :: "'a fs_scheme" and p m h s'
  assume inv: "fs_inv s" and o: "file_open c p m s = Inr (h, s')" and "h \<noteq> 0"
  from inv o show "fs_inv s' \<and> open_handles s h = None
      \<and> (\<exists>f. open_handles s' = (open_handles s)(h \<mapsto> (p, f)) \<and> reads f = reads m \<and> writes f = writes m)
      \<and> (\<forall>g k. open_handles s g = Some (p, k) \<longrightarrow> \<not> conflicting m k)"
  proof (cases rule: file_open_cases)
    case (opened n ops s1)
    obtain bm u where s1: "s1 = s\<lparr>bitmap := bm, used_bytes := u\<rparr>" using malloc_frame [OF opened(4)] by blast
    have "fs_inv s'"
      using fs_inv_add [OF inv opened(4,1), of "(position_at s)(h \<mapsto> init64 0 0 0 0)" "FILE OR m"]
      by (simp add: opened(6) add_file_handle_def s1)
    moreover have "handle_at s' = (handle_at s)(h \<mapsto> \<lparr>h_flags = FILE OR m, h_node = p\<rparr>)"
      by (simp add: opened(6) add_file_handle_def s1)
    moreover have "handle_at s h = None" using malloc_fresh_handle [OF inv opened(4)] by simp
    ultimately show ?thesis
      using mode_conflict_holders [OF fs_invD(3) [OF inv] opened(1,2)]
      by (auto simp: open_handles_upd open_handles_def intro!: exI [of _ "FILE OR m"])
  qed (use \<open>h \<noteq> 0\<close> in simp)
next
  fix s :: "'a fs_scheme" and p m s'
  assume inv: "fs_inv s" and "file_open c p m s = Inr (0, s')"
  then show "s' = s" by (cases rule: file_open_cases) auto
next
  fix s :: "'a fs_scheme" and h s'
  assume inv: "fs_inv s" and "file_close h s = Inr ((), s')"
  then show "fs_inv s' \<and> open_handles s' = (open_handles s)(h := None)"
  proof (cases rule: file_close_cases)
    case (1 r n s1)
    then show ?thesis using fs_inv_remove [OF inv 1(1-3)] by (simp add: open_handles_upd)
  qed
qed


text \<open>
  Closing a file right after it was opened restores the whole state: the counters of the node,
  its reference count, the handle and the heap.
\<close>

theorem file_open_close:
  assumes "fs_inv s" and "file_open c p m s = Inr (h, s')" and "h \<noteq> 0"
  shows "file_close h s' = Inr ((), s)"
  using assms(1,2)
proof (cases rule: file_open_cases)
  case (opened n ops s1)
  obtain bm u where s1: "s1 = s\<lparr>bitmap := bm, used_bytes := u\<rparr>" using malloc_frame [OF opened(4)] by blast
  note fresh = malloc_fresh_handle [OF assms(1) opened(4)]
  have "free h s1 = Inr ((), s)" by (rule free_malloc_restores [OF fs_invD(1) [OF assms(1)] opened(4)])
  from free_objects [OF this]
  have f: "free h s' = Inr ((), s\<lparr>handle_at := handle_at s', position_at := position_at s', node_at := node_at s'\<rparr>)"
    by (simp add: opened(6) add_file_handle_def s1)
  have "handle_at s' h = Some \<lparr>h_flags = FILE OR m, h_node = p\<rparr>" "node_at s' p = Some (add_counts m n)"
    by (simp_all add: opened(6) add_file_handle_def s1)
  from file_close_eq [OF this(1), simplified, OF this(2)]
  have "file_close h s' = Inr ((), s\<lparr>handle_at := (handle_at s')(h := None),
      position_at := (position_at s')(h := None), node_at := (node_at s')(p \<mapsto> n)\<rparr>)"
    by (simp add: f)
  moreover have "(handle_at s')(h := None) = handle_at s" "(position_at s')(h := None) = position_at s"
    "(node_at s')(p \<mapsto> n) = node_at s"
    using fresh opened(1) by (simp_all add: opened(6) add_file_handle_def s1 fun_upd_idem)
  ultimately show ?thesis by simp
qed (use assms(3) in simp)

section \<open>A file system to compute with\<close>

text \<open>
  Two nodes, a file at \<open>0x500\<close> and a directory at \<open>0x600\<close> that contains it, none of them open,
  over the heap and the tasks of the earlier examples.
\<close>

definition plain_node :: "u16 \<Rightarrow> ptr \<Rightarrow> node" where
  "plain_node flags name = \<lparr>n_name = name, n_flags = flags, n_refcount = 1, n_writers = 0, n_readers = 0, n_next = 0\<rparr>"

definition some_files :: fs where
  "some_files = floppy.extend (keyboard.extend (some_keyboard 0 []) (floppy.fields [4, 0] False))
     (fs.fields [0x500 \<mapsto> plain_node FILE 0x700, 0x600 \<mapsto> plain_node DIRECTORY 0x710]
        [0x500 \<mapsto> None] [0x600 \<mapsto> \<lparr>d_ops = None, d_child = 0x500, d_redirect = 0\<rparr>]
        (\<lambda>_. None) (\<lambda>_. None) (\<lambda>_. None) (\<lambda>_. None) (\<lambda>_. None) (\<lambda>_. None)
        (replicate 2 \<lparr>cb_block = U64 0 0 0 0, cb_file = 0, cb_buffer = 0\<rparr>) 0x600 0)"

lemma some_files_objects [simp]:
  "node_at some_files = [0x500 \<mapsto> plain_node FILE 0x700, 0x600 \<mapsto> plain_node DIRECTORY 0x710]"
  "file_at some_files = [0x500 \<mapsto> None]"
  "directory_at some_files = [0x600 \<mapsto> \<lparr>d_ops = None, d_child = 0x500, d_redirect = 0\<rparr>]"
  "handle_at some_files = Map.empty" "position_at some_files = Map.empty" "vfs_root some_files = 0x600"
  by (simp_all add: some_files_def floppy.defs fs.defs)

lemma some_files_heap [simp]:
  "bitmap some_files = bitmap (take_block 0 demo_heap)" "used_bytes some_files = used_bytes (take_block 0 demo_heap)"
  "total_blocks some_files = total_blocks (take_block 0 demo_heap)" "zones some_files = zones (take_block 0 demo_heap)"
  "pool_start some_files = pool_start (take_block 0 demo_heap)"
  by (simp_all add: some_files_def some_keyboard_def blank_screen_def clocks.defs console.defs keyboard.defs
      floppy.defs fs.defs)

lemma some_files_malloc:
  assumes "n \<le> 512"
  shows "malloc n some_files = Inr (0x1200, take_block 1 some_files)"
proof -
  have inv: "heap_inv some_files" using demo_heap_inv2 by (simp add: heap_inv_def)
  have "first_block initial_zones n = 0" "first_block initial_zones 12 = 0"
    using assms by (simp_all add: initial_zones_def linorder_not_less [symmetric])
  then have "search_block some_files n = search_block (take_block 0 demo_heap) 12"
    by (simp add: search_block_def) (simp add: take_block_def demo_heap_def)
  moreover have "search_block (take_block 0 demo_heap) 12 = 1"
    by (rule demo_search2)
  ultimately show ?thesis
    using malloc_eq [OF inv, of n] by (simp add: block_addr_def) (simp add: take_block_def demo_heap_def initial_zones_def)
qed

lemma some_files_inv: "fs_inv some_files"
proof -
  have "heap_inv some_files" using demo_heap_inv2 by (simp add: heap_inv_def)
  moreover have "handles_of some_files p f = {}" for p f by (simp add: handles_of_def)
  then have "counts_ok some_files" by (simp add: counts_ok_def plain_node_def)
  ultimately show ?thesis by (simp add: fs_inv_def no_open_def)
qed

text \<open>Opening the file, which has no operations of its own.\<close>

lemma some_files_open:
  "file_open c 0x500 HANDLE_WRITE some_files =
     Inr (0x1200, add_file_handle 0x1200 0x500 (plain_node FILE 0x700) HANDLE_WRITE (take_block 1 some_files))"
proof -
  have "SIZEOF_FILE_HANDLE \<le> 512" by (simp add: SIZEOF_FILE_HANDLE_def)
  then show ?thesis
    using file_open_eq [of some_files "0x500" _ None c HANDLE_WRITE] fs_invD(2) [OF some_files_inv]
    by (simp add: some_files_malloc mode_conflict_def plain_node_def FILE_def)
qed

definition no_calls :: "'s fs_calls" where
  "no_calls = \<lparr>c_file_open = \<lambda>_ _ _. retK 0, c_file_read = \<lambda>_ _ _ _. retK 0,
     c_file_write = \<lambda>_ _ _ _. retK 0, c_dir_open = \<lambda>_ _ _. retK 0, c_get_next_node = \<lambda>_ _ _. retK 0,
     c_find_node = \<lambda>_ _ _. retK 0, c_add_node = \<lambda>_ _ _. retK 0\<rparr>"


theorem file_open_close_witness:
  "\<exists>s h. file_open no_calls 0x500 HANDLE_WRITE some_files = Inr (h, s) \<and> file_close h s = Inr ((), some_files)"
  using some_files_open [of no_calls] file_open_close [OF some_files_inv some_files_open [of no_calls]] by auto

end
