(* ===== verification/Directory.thy ===== *)
theory Directory
  imports File
begin

text \<open>
  Directories, \<^verbatim>\<open>kernel/fs/directory.c\<close>: a directory keeps its children in a linked list and may
  be redirected to another directory (a mount).  The lemmas relate the list to the operations that
  search it, walk it and add to it; opening and closing keep the contract of the readers-writer
  lock as long as nothing is redirected.
\<close>

unbundle bit_operations_syntax

section \<open>Operations\<close>

definition non_dir :: string where "non_dir = ''dir op on non-dir''"

definition directory_add_to_children :: "ptr \<Rightarrow> ptr \<Rightarrow> ('z fs_scheme, unit) kmon" where
  "directory_add_to_children directory node =
     bindK (get_node node) (\<lambda>n.
       if n_next n \<noteq> 0 then failK (Panic ''adding node to two dirs'')
       else bindK (get_directory directory) (\<lambda>d.
         thenK (upd_node node (\<lambda>n. n\<lparr>n_next := d_child d\<rparr>))
           (upd_directory directory (\<lambda>d. d\<lparr>d_child := node\<rparr>))))"

definition directory_create_node :: "ptr \<Rightarrow> u16 \<Rightarrow> directory_ops option \<Rightarrow> ('z fs_scheme, ptr) kmon" where
  "directory_create_node name flags ops =
     bindK (malloc SIZEOF_DIRECTORY) (\<lambda>directory.
       thenK (whenK (directory \<noteq> 0)
          (thenK (node_init directory name (DIRECTORY OR (flags AND ATTRIBUTE_MASK)))
          (thenK (modifyK (\<lambda>s. s\<lparr>directory_at := (directory_at s)
                (directory \<mapsto> \<lparr>d_ops = ops, d_child = 0, d_redirect = 0\<rparr>)\<rparr>))
             (node_acquire directory))))
         (retK directory))"

definition directory_open_handle ::
  "('z fs_scheme) fs_calls \<Rightarrow> directory_ops option \<Rightarrow> ptr \<Rightarrow> u16 \<Rightarrow> ('z fs_scheme, ptr) kmon" where
  "directory_open_handle c ops directory mode =
     (case ops of
        Some t \<Rightarrow> if do_open t \<noteq> Null then c_dir_open c (do_open t) directory mode
                  else malloc SIZEOF_DIRECTORY_HANDLE
      | None \<Rightarrow> malloc SIZEOF_DIRECTORY_HANDLE)"

definition directory_open :: "('z fs_scheme) fs_calls \<Rightarrow> ptr \<Rightarrow> u16 \<Rightarrow> ('z fs_scheme, ptr) kmon" where
  "directory_open c node mode =
     bindK (get_node node) (\<lambda>n.
       if mode_conflict n mode then retK 0
       else if n_flags n AND DIRECTORY = 0 then failK (Panic non_dir)
       else
         bindK (get_directory node) (\<lambda>d.
         let directory = (if d_redirect d \<noteq> 0 then d_redirect d else node) in
         bindK (get_directory directory) (\<lambda>d.
         bindK (directory_open_handle c (d_ops d) directory mode) (\<lambda>handle.
           thenK (whenK (handle \<noteq> 0)
              (thenK (put_handle_at handle \<lparr>h_flags = DIRECTORY OR mode, h_node = directory\<rparr>)
              (thenK (count_open directory mode) (node_acquire directory))))
             (retK handle)))))"

definition directory_close :: "ptr \<Rightarrow> ('z fs_scheme, unit) kmon" where
  "directory_close handle =
     bindK (get_handle handle) (\<lambda>h.
       thenK (count_close (h_node h) (h_flags h))
      (thenK (node_release (h_node h)) (free_handle handle)))"

definition directory_get_next_node ::
  "('z fs_scheme) fs_calls \<Rightarrow> ptr \<Rightarrow> ptr \<Rightarrow> ('z fs_scheme, ptr) kmon" where
  "directory_get_next_node c handle current_node =
     bindK (get_handle handle) (\<lambda>h.
       if (h_flags h AND ATTRIBUTE_MASK) AND HANDLE_READ = 0 then failK (Panic NOT_READ)
       else bindK (get_directory (h_node h)) (\<lambda>d.
         case d_ops d of
           Some t \<Rightarrow>
             if do_get_next_node t \<noteq> Null then
               bindK (c_get_next_node c (do_get_next_node t) handle current_node) (\<lambda>node.
                 thenK (whenK (node \<noteq> 0) (directory_add_to_children (h_node h) node)) (retK node))
             else if current_node = 0 then retK (d_child d)
             else bindK (get_node current_node) (\<lambda>n. retK (n_next n))
         | None \<Rightarrow>
             if current_node = 0 then retK (d_child d)
             else bindK (get_node current_node) (\<lambda>n. retK (n_next n))))"

text \<open>
  The test of two names, for which it does not matter whether plain characters are signed.
\<close>

definition names_equal :: "'z machine_scheme \<Rightarrow> ptr \<Rightarrow> ptr \<Rightarrow> bool" where
  "names_equal s p q \<longleftrightarrow> strcmp (char_int True) (mem_str s p) (mem_str s q) = 0"

partial_function (option) find_child :: "ptr \<Rightarrow> ptr \<Rightarrow> 'z fs_scheme \<Rightarrow> (kerror + ptr) option" where
  "find_child name node s =
     (if node = 0 then Some (Inr 0)
      else case node_at s node of
        None \<Rightarrow> Some (Inl (BadPtr node))
      | Some n \<Rightarrow> if names_equal s (n_name n) name then Some (Inr node) else find_child name (n_next n) s)"

definition search_children :: "ptr \<Rightarrow> ptr \<Rightarrow> ('z fs_scheme, ptr) kmon" where
  "search_children name node s =
     (case find_child name node s of None \<Rightarrow> Inl Hang | Some (Inl e) \<Rightarrow> Inl e | Some (Inr p) \<Rightarrow> Inr (p, s))"

definition directory_find_node ::
  "('z fs_scheme) fs_calls \<Rightarrow> ptr \<Rightarrow> ptr \<Rightarrow> ('z fs_scheme, ptr) kmon" where
  "directory_find_node c handle name =
     bindK (get_handle handle) (\<lambda>h.
       if (h_flags h AND ATTRIBUTE_MASK) AND HANDLE_READ = 0 then failK (Panic NOT_READ)
       else bindK (get_directory (h_node h)) (\<lambda>d.
       bindK (search_children name (d_child d)) (\<lambda>node.
       bindK
         (if node = 0 then
            (case d_ops d of
               Some t \<Rightarrow>
                 if do_find_node t \<noteq> Null then
                   bindK (c_find_node c (do_find_node t) handle name) (\<lambda>node.
                     thenK (directory_add_to_children (h_node h) node) (retK node))
                 else retK node
             | None \<Rightarrow> retK node)
          else retK node) (\<lambda>node.
       thenK (whenK (node \<noteq> 0) (node_acquire node)) (retK node)))))"

definition directory_add_node ::
  "('z fs_scheme) fs_calls \<Rightarrow> ptr \<Rightarrow> ptr \<Rightarrow> ('z fs_scheme, ptr) kmon" where
  "directory_add_node c handle node =
     bindK (get_handle handle) (\<lambda>h.
       if (h_flags h AND ATTRIBUTE_MASK) AND HANDLE_WRITE = 0 then failK (Panic NOT_WRITE)
       else bindK (get_directory (h_node h)) (\<lambda>d.
         case d_ops d of
           Some t \<Rightarrow>
             if do_add_node t \<noteq> Null then c_add_node c (do_add_node t) handle node
             else thenK (directory_add_to_children (h_node h) node) (retK node)
         | None \<Rightarrow> thenK (directory_add_to_children (h_node h) node) (retK node)))"

definition directory_redirect :: "ptr \<Rightarrow> ptr \<Rightarrow> ('z fs_scheme, unit) kmon" where
  "directory_redirect node destination =
     bindK (get_node node) (\<lambda>n.
       if n_flags n AND DIRECTORY = 0 then failK (Panic non_dir)
       else upd_directory node (\<lambda>d. d\<lparr>d_redirect := destination\<rparr>))"

section \<open>The list of children\<close>

fun child_list :: "'z fs_scheme \<Rightarrow> ptr \<Rightarrow> ptr list \<Rightarrow> bool" where
  "child_list s p [] \<longleftrightarrow> p = 0"
| "child_list s p (x # xs) \<longleftrightarrow> p = x \<and> x \<noteq> 0 \<and> (\<exists>n. node_at s x = Some n \<and> child_list s (n_next n) xs)"

definition node_name :: "'z fs_scheme \<Rightarrow> ptr \<Rightarrow> u8 list" where
  "node_name s p = (case node_at s p of None \<Rightarrow> [] | Some n \<Rightarrow> name_at s (n_name n))"

definition children :: "'z fs_scheme \<Rightarrow> ptr \<Rightarrow> ptr list \<Rightarrow> bool" where
  "children s d xs \<longleftrightarrow> (\<exists>r. directory_at s d = Some r \<and> child_list s (d_child r) xs)"

text \<open>The specification of a search: the first child of that name, 0 when there is none.\<close>

definition lookup_name :: "'z fs_scheme \<Rightarrow> ptr list \<Rightarrow> u8 list \<Rightarrow> ptr" where
  "lookup_name s xs name = (case find (\<lambda>x. node_name s x = name) xs of None \<Rightarrow> 0 | Some x \<Rightarrow> x)"

lemma lookup_name_in: "lookup_name s xs name \<noteq> 0 \<Longrightarrow> lookup_name s xs name \<in> set xs"
  by (auto simp: lookup_name_def split: option.splits dest: find_SomeD)

lemma child_list_unique: "child_list s p xs \<Longrightarrow> child_list s p ys \<Longrightarrow> xs = ys"
proof (induction xs arbitrary: p ys)
  case Nil
  then show ?case by (cases ys) auto
next
  case (Cons x xs)
  then show ?case by (cases ys) auto
qed

lemma child_list_append:
  "child_list s p (xs @ y # ys) \<Longrightarrow> \<exists>n. node_at s y = Some n \<and> y \<noteq> 0 \<and> child_list s y (y # ys)"
  by (induction xs arbitrary: p) auto

lemma child_list_distinct: "child_list s p xs \<Longrightarrow> distinct xs"
proof (induction xs arbitrary: p)
  case (Cons x xs)
  then obtain n where n: "node_at s x = Some n" "child_list s (n_next n) xs" by auto
  have "x \<notin> set xs"
  proof
    assume "x \<in> set xs"
    then obtain as bs where "xs = as @ x # bs" by (meson split_list)
    moreover from this n(2) have "child_list s x (x # bs)" by (auto dest: child_list_append)
    ultimately show False using child_list_unique [of s x "x # xs" "x # bs"] Cons.prems by auto
  qed
  then show ?case using n Cons.IH by auto
qed simp

lemma child_list_cong:
  assumes "\<And>x. x \<in> set xs \<Longrightarrow> map_option n_next (node_at s x) = map_option n_next (node_at s' x)"
  shows "child_list s p xs = child_list s' p xs"
  using assms
proof (induction xs arbitrary: p)
  case (Cons x xs)
  have "map_option n_next (node_at s x) = map_option n_next (node_at s' x)" using Cons.prems by simp
  moreover have "child_list s q xs = child_list s' q xs" for q using Cons by simp
  ultimately show ?case by (cases "node_at s x"; cases "node_at s' x") auto
qed simp

lemma names_equal_iff: "names_equal s p q \<longleftrightarrow> name_at s p = name_at s q"
  unfolding names_equal_def name_at_def by (rule promo.strcmp_eq_0)

lemma find_child_lookup:
  "child_list s p xs \<Longrightarrow> find_child q p s = Some (Inr (lookup_name s xs (name_at s q)))"
proof (induction xs arbitrary: p)
  case Nil
  then show ?case by (subst find_child.simps) (simp add: lookup_name_def)
next
  case (Cons x xs)
  then obtain n where n: "node_at s x = Some n" "child_list s (n_next n) xs" "p = x" "x \<noteq> 0" by auto
  have "find_child q (n_next n) s = Some (Inr (lookup_name s xs (name_at s q)))"
    using Cons.IH [OF n(2)] .
  moreover have "node_name s x = name_at s (n_name n)" using n(1) by (simp add: node_name_def)
  ultimately show ?case using n
    by (subst find_child.simps) (simp add: names_equal_iff lookup_name_def)
qed

section \<open>Searching, walking and adding\<close>

lemma flag_attributes: "(f AND ATTRIBUTE_MASK) AND HANDLE_READ = 0 \<longleftrightarrow> \<not> reads f"
  "(f AND ATTRIBUTE_MASK) AND HANDLE_WRITE = 0 \<longleftrightarrow> \<not> writes f"
  by (simp_all add: reads_def writes_def ATTRIBUTE_MASK_def HANDLE_READ_def HANDLE_WRITE_def and.assoc)

text \<open>An open handle of a directory whose children are in memory.\<close>

definition open_dir :: "'z fs_scheme \<Rightarrow> ptr \<Rightarrow> ptr \<Rightarrow> u16 \<Rightarrow> ptr list \<Rightarrow> bool" where
  "open_dir s h d f xs \<longleftrightarrow> handle_at s h = Some \<lparr>h_flags = f, h_node = d\<rparr> \<and> children s d xs"

text \<open>A directory that has an operation of its own in the given slot of its table.\<close>

definition own_op :: "(directory_ops \<Rightarrow> fn) \<Rightarrow> 'z fs_scheme \<Rightarrow> ptr \<Rightarrow> bool" where
  "own_op f s d \<longleftrightarrow> (\<exists>r t. directory_at s d = Some r \<and> d_ops r = Some t \<and> f t \<noteq> Null)"

lemma directory_find_node_eq:
  assumes "open_dir s h d f xs" and "reads f"
    and "lookup_name s xs (name_at s q) = 0 \<longrightarrow> \<not> own_op do_find_node s d"
  shows "directory_find_node c h q s =
    (let x = lookup_name s xs (name_at s q) in
     if x = 0 then Inr (0, s)
     else Inr (x, s\<lparr>node_at := (node_at s)(x := map_option (\<lambda>n. n\<lparr>n_refcount := n_refcount n + 1\<rparr>) (node_at s x))\<rparr>))"
proof -
  obtain r where r: "directory_at s d = Some r" "child_list s (d_child r) xs"
    using assms(1) by (auto simp: open_dir_def children_def)
  let ?x = "lookup_name s xs (name_at s q)"
  have h: "handle_at s h = Some \<lparr>h_flags = f, h_node = d\<rparr>" using assms(1) by (simp add: open_dir_def)
  have search: "search_children q (d_child r) s = Inr (?x, s)"
    by (simp add: search_children_def find_child_lookup [OF r(2)])
  have ops: "?x = 0 \<Longrightarrow> d_ops r = Some t \<Longrightarrow> do_find_node t = Null" for t
    using assms(3) r(1) by (auto simp: own_op_def)
  have "\<exists>n. node_at s ?x = Some n" if "?x \<noteq> 0"
  proof -
    have "?x \<in> set xs" using that by (rule lookup_name_in)
    then obtain as bs where "xs = as @ ?x # bs" by (meson split_list)
    then show ?thesis using r(2) child_list_append by metis
  qed
  then show ?thesis using assms(2) ops
    by (auto simp: directory_find_node_def kernel_simps h r(1) flag_attributes search node_acquire_def Let_def
        split: option.split)
qed

text \<open>
  A search in a directory whose children are in memory finds the first child of the name
  looked for and takes a reference to it, and changes nothing else; without such a child, and
  without operations of its own, the directory has no such node.
\<close>

theorem directory_find_node_first:
  assumes "open_dir s h d f xs" and "reads f"
    and "lookup_name s xs (name_at s q) = 0 \<longrightarrow> \<not> own_op do_find_node s d"
  shows "directory_find_node c h q s =
    (let x = lookup_name s xs (name_at s q) in
     if x = 0 then Inr (0, s)
     else Inr (x, s\<lparr>node_at := (node_at s)(x := map_option (\<lambda>n. n\<lparr>n_refcount := n_refcount n + 1\<rparr>) (node_at s x))\<rparr>))"
  using assms by (rule directory_find_node_eq)

text \<open>
  Asking for the next node, first with no node and then with the node just returned, walks the
  children of a directory in memory once each, in the order of the list, and then returns none.
\<close>

theorem directory_walk:
  assumes "open_dir s h d f xs" and "reads f" and "\<not> own_op do_get_next_node s d" and "i \<le> length xs"
  shows "directory_get_next_node c h (if i = 0 then 0 else xs ! (i - 1)) s =
    Inr (if i < length xs then xs ! i else 0, s)"
proof -
  obtain r where r: "directory_at s d = Some r" "child_list s (d_child r) xs"
    "\<And>t. d_ops r = Some t \<Longrightarrow> do_get_next_node t = Null"
    using assms(1,3) by (auto simp: open_dir_def children_def own_op_def)
  have h: "handle_at s h = Some \<lparr>h_flags = f, h_node = d\<rparr>" using assms(1) by (simp add: open_dir_def)
  show ?thesis
  proof (cases i)
    case 0
    have "d_child r = (if 0 < length xs then xs ! 0 else 0)" using r(2) by (cases xs) auto
    then show ?thesis using 0 assms(2)
      by (simp add: directory_get_next_node_def kernel_simps h r flag_attributes split: option.split)
  next
    case (Suc k)
    then have "xs = take k xs @ xs ! k # drop (Suc k) xs" using assms(4) by (simp add: id_take_nth_drop)
    then obtain n where n: "node_at s (xs ! k) = Some n" "xs ! k \<noteq> 0" "child_list s (n_next n) (drop (Suc k) xs)"
      using child_list_append [of s "d_child r" "take k xs" "xs ! k" "drop (Suc k) xs"] r(2) by auto
    have "n_next n = (if i < length xs then xs ! i else 0)"
      using n(3) Suc assms(4) by (cases "drop (Suc k) xs") (auto simp: nth_via_drop drop_eq_Nil)
    then show ?thesis using Suc assms(2) n
      by (simp add: directory_get_next_node_def kernel_simps h r flag_attributes split: option.split)
  qed
qed

lemma add_to_children_apply:
  assumes "node_at s x = Some n" and "n_next n = 0" and "directory_at s d = Some r"
  shows "directory_add_to_children d x s = Inr ((),
    s\<lparr>node_at := (node_at s)(x \<mapsto> n\<lparr>n_next := d_child r\<rparr>),
      directory_at := (directory_at s)(d \<mapsto> r\<lparr>d_child := x\<rparr>)\<rparr>)"
  using assms by (simp add: directory_add_to_children_def kernel_simps)

text \<open>
  A node that is in no directory is added in front of the children; it can then be found under
  its name, and every other name leads to the same node as before.
\<close>

theorem directory_add_node_front:
  assumes "open_dir s h d f xs" and "writes f" and "\<not> own_op do_add_node s d"
    and "node_at s x = Some n" and "n_next n = 0" and "x \<noteq> 0" and "x \<notin> set xs"
  shows "\<exists>s'. directory_add_node c h x s = Inr (x, s') \<and> open_dir s' h d f (x # xs)
    \<and> (\<forall>name. lookup_name s' (x # xs) name = (if name = name_at s (n_name n) then x else lookup_name s xs name))"
proof -
  obtain r where r: "directory_at s d = Some r" "child_list s (d_child r) xs" 
    "\<And>t. d_ops r = Some t \<Longrightarrow> do_add_node t = Null"
    using assms(1,3) by (auto simp: open_dir_def children_def own_op_def)
  have h: "handle_at s h = Some \<lparr>h_flags = f, h_node = d\<rparr>" using assms(1) by (simp add: open_dir_def)
  let ?s = "s\<lparr>node_at := (node_at s)(x \<mapsto> n\<lparr>n_next := d_child r\<rparr>),
      directory_at := (directory_at s)(d \<mapsto> r\<lparr>d_child := x\<rparr>)\<rparr>"
  have "directory_add_node c h x s = Inr (x, ?s)"
    using assms(2) by (simp add: directory_add_node_def kernel_simps h r flag_attributes
        add_to_children_apply [OF assms(4,5) r(1)] split: option.split)
  moreover have "child_list ?s (d_child r) xs"
    using r(2) assms(7) by (subst child_list_cong [of xs _ s]) auto
  then have "open_dir ?s h d f (x # xs)" using h assms(6) by (simp add: open_dir_def children_def)
  moreover have "node_name ?s y = node_name s y" for y
    using assms(4) by (simp add: node_name_def split: option.split)
  then have "lookup_name ?s (x # xs) name = (if name = name_at s (n_name n) then x else lookup_name s xs name)" for name
    using assms(4) by (auto simp: lookup_name_def node_name_def)
  ultimately show ?thesis by blast
qed

section \<open>Opening and mounting\<close>

definition add_dir_handle :: "ptr \<Rightarrow> ptr \<Rightarrow> node \<Rightarrow> u16 \<Rightarrow> 'z fs_scheme \<Rightarrow> 'z fs_scheme" where
  "add_dir_handle h p n m s =
     s\<lparr>handle_at := (handle_at s)(h \<mapsto> \<lparr>h_flags = DIRECTORY OR m, h_node = p\<rparr>),
       node_at := (node_at s)(p \<mapsto> add_counts m n)\<rparr>"

lemma directory_open_handle_malloc:
  "no_open s \<Longrightarrow> directory_at s p = Some d \<Longrightarrow> directory_open_handle c (d_ops d) p m = malloc SIZEOF_DIRECTORY_HANDLE"
  by (auto simp: directory_open_handle_def no_open_def split: option.split)

definition redirected :: "ptr \<Rightarrow> directory \<Rightarrow> ptr" where
  "redirected p d = (if d_redirect d \<noteq> 0 then d_redirect d else p)"

lemma directory_open_eq:
  assumes "no_open s" and "node_at s p = Some n" and "directory_at s p = Some d"
    and "directory_at s (redirected p d) = Some e" and "node_at s (redirected p d) = Some k"
  shows "directory_open c p m s =
    (if mode_conflict n m then Inr (0, s)
     else if n_flags n AND DIRECTORY = 0 then Inl (Panic non_dir)
     else (case malloc SIZEOF_DIRECTORY_HANDLE s of
         Inl e \<Rightarrow> Inl e
       | Inr (h, s1) \<Rightarrow>
           if h = 0 then Inr (0, s1) else Inr (h, add_dir_handle h (redirected p d) k m s1)))"
proof (cases "malloc SIZEOF_DIRECTORY_HANDLE s")
  case (Inl e)
  then show ?thesis using assms
    by (simp add: directory_open_def kernel_simps redirected_def [symmetric] directory_open_handle_malloc Let_def)
next
  case (Inr r)
  then obtain h s1 where r: "malloc SIZEOF_DIRECTORY_HANDLE s = Inr (h, s1)" by (cases r) auto
  then obtain bm u where s1: "s1 = s\<lparr>bitmap := bm, used_bytes := u\<rparr>" using malloc_frame by blast
  show ?thesis using assms r
    by (simp add: directory_open_def kernel_simps redirected_def [symmetric] directory_open_handle_malloc s1 Let_def
        node_acquire_def add_dir_handle_def add_counts_def)
qed

text \<open>
  The refusal looks at the counters of the mount point, but the counters that are increased are
  those of the directory mounted there: through a mount point a directory can be opened for
  writing any number of times.
\<close>

lemma directory_open_mount_counts:
  assumes "no_open s" and "node_at s p = Some n" and "directory_at s p = Some d"
    and "directory_at s (redirected p d) = Some e" and "node_at s (redirected p d) = Some k"
    and "redirected p d \<noteq> p" and "directory_open c p m s = Inr (h, s')"
  shows "node_at s' p = Some n"
  using assms(7) assms(2,6) malloc_frame [of SIZEOF_DIRECTORY_HANDLE s]
  unfolding directory_open_eq [OF assms(1-5)]
  by (fastforce simp: add_dir_handle_def split: if_splits sum.splits)

lemma count_acquire_None [kernel_simps]:
  "node_at s p = None \<Longrightarrow> thenK (count_open p m) (node_acquire p) s = Inl (BadPtr p)"
  by (cases "writes m"; cases "reads m")
    (simp_all add: count_open_def node_acquire_def kernel_simps reads_def writes_def thenK_Inl)

lemma directory_open_cases:
  assumes "fs_inv s" and "directory_open c p m s = Inr (h, s')"
  obtains (refused) n where "node_at s p = Some n" "mode_conflict n m" "h = 0" "s' = s"
  | (opened) n d k s1 where "node_at s p = Some n" "\<not> mode_conflict n m" "directory_at s p = Some d"
      "directory_at s (redirected p d) \<noteq> None" "node_at s (redirected p d) = Some k"
      "malloc SIZEOF_DIRECTORY_HANDLE s = Inr (h, s1)" "h \<noteq> 0" "s' = add_dir_handle h (redirected p d) k m s1"
proof -
  note D = fs_invD [OF assms(1)]
  obtain n where n: "node_at s p = Some n"
    using assms(2) by (cases "node_at s p") (simp_all add: directory_open_def kernel_simps)
  show ?thesis
  proof (cases "mode_conflict n m")
    case True
    then have "directory_open c p m s = Inr (0, s)" using n by (simp add: directory_open_def kernel_simps)
    then show ?thesis using assms(2) refused [OF n True] by simp
  next
    case False
    have flag: "n_flags n AND DIRECTORY \<noteq> 0"
      using assms(2) n False by (auto simp: directory_open_def kernel_simps)
    obtain d where d: "directory_at s p = Some d"
      using assms(2) n False flag
      by (cases "directory_at s p") (simp_all add: directory_open_def kernel_simps)
    obtain e where e: "directory_at s (redirected p d) = Some e"
      using assms(2) n False flag d
      by (cases "directory_at s (redirected p d)")
        (simp_all add: directory_open_def kernel_simps redirected_def [symmetric] Let_def)
    have "\<exists>k. node_at s (redirected p d) = Some k"
    proof (cases "node_at s (redirected p d)")
      case None
      then have "directory_open c p m s \<noteq> Inr (h, s')"
        using n False flag d e heap_alloc.alloc_nonnull [OF D(1), of SIZEOF_DIRECTORY_HANDLE]
        by (auto simp: directory_open_def kernel_simps thenK_Inl redirected_def [symmetric] Let_def
            directory_open_handle_malloc [OF D(2)] bindK_def [of "malloc _"]
            dest!: malloc_frame split: sum.splits)
      then show ?thesis using assms(2) by blast
    qed simp
    then obtain k where k: "node_at s (redirected p d) = Some k" by blast
    obtain s1 where m: "malloc SIZEOF_DIRECTORY_HANDLE s = Inr (h, s1)" and s':
      "s' = (if h = 0 then s1 else add_dir_handle h (redirected p d) k m s1)"
      using assms(2) False flag unfolding directory_open_eq [OF D(2) n d e k]
      by (cases "malloc SIZEOF_DIRECTORY_HANDLE s") (auto split: if_splits)
    have "h \<noteq> 0" by (rule heap_alloc.alloc_nonnull [OF D(1) m])
    then show ?thesis using opened [OF n False d _ k m] e s' by simp
  qed
qed

lemma directory_close_file: "directory_close = file_close"
  by (simp add: fun_eq_iff directory_close_def file_close_def)

text \<open>
  Closing a directory right after it was opened restores the whole state, through a mount
  point as well.
\<close>

theorem directory_open_close:
  assumes "fs_inv s" and "directory_open c p m s = Inr (h, s')" and "h \<noteq> 0"
  shows "directory_close h s' = Inr ((), s)"
  using assms(1,2)
proof (cases rule: directory_open_cases)
  case (opened n d k s1)
  obtain bm u where s1: "s1 = s\<lparr>bitmap := bm, used_bytes := u\<rparr>" using malloc_frame [OF opened(6)] by blast
  note fresh = malloc_fresh_handle [OF assms(1) opened(6)]
  have "free h s1 = Inr ((), s)" by (rule free_malloc_restores [OF fs_invD(1) [OF assms(1)] opened(6)])
  from free_objects [OF this, where x = "handle_at s'" and y = "position_at s'" and z = "node_at s'"]
  have "free h (s1\<lparr>handle_at := handle_at s', position_at := position_at s', node_at := node_at s'\<rparr>)
      = Inr ((), s\<lparr>handle_at := handle_at s', position_at := position_at s', node_at := node_at s'\<rparr>)" .
  moreover have "s1\<lparr>handle_at := handle_at s', position_at := position_at s', node_at := node_at s'\<rparr> = s'"
    by (rule fs.equality) (simp_all add: opened(8) add_dir_handle_def s1)
  ultimately
  have f: "free h s' = Inr ((), s\<lparr>handle_at := handle_at s', position_at := position_at s', node_at := node_at s'\<rparr>)"
    by simp
  have "handle_at s' h = Some \<lparr>h_flags = DIRECTORY OR m, h_node = redirected p d\<rparr>"
    "node_at s' (redirected p d) = Some (add_counts m k)"
    by (simp_all add: opened(8) add_dir_handle_def s1)
  from file_close_eq [OF this(1), simplified, OF this(2)]
  have "directory_close h s' = Inr ((), s\<lparr>handle_at := (handle_at s')(h := None),
      position_at := (position_at s')(h := None), node_at := (node_at s')(redirected p d \<mapsto> k)\<rparr>)"
    by (simp add: f directory_close_file)
  moreover have "(handle_at s')(h := None) = handle_at s" "(position_at s')(h := None) = position_at s"
    "(node_at s')(redirected p d \<mapsto> k) = node_at s"
    using fresh opened(5) by (simp_all add: opened(8) add_dir_handle_def s1 fun_upd_idem)
  ultimately show ?thesis by simp
qed (use assms(3) in simp)

definition no_redirect :: "'z fs_scheme \<Rightarrow> bool" where
  "no_redirect s \<longleftrightarrow> (\<forall>p d. directory_at s p = Some d \<longrightarrow> d_redirect d = 0)"

interpretation dir_lock: rw_lock "directory_open c" directory_close "\<lambda>s. fs_inv s \<and> no_redirect s" open_handles for c
proof unfold_locales
  fix s :: "'a fs_scheme" and p m h s'
  assume "fs_inv s \<and> no_redirect s" and o: "directory_open c p m s = Inr (h, s')" and "h \<noteq> 0"
  then have inv: "fs_inv s" and nr: "no_redirect s" by simp_all
  from inv o show "(fs_inv s' \<and> no_redirect s') \<and> open_handles s h = None
      \<and> (\<exists>f. open_handles s' = (open_handles s)(h \<mapsto> (p, f)) \<and> reads f = reads m \<and> writes f = writes m)
      \<and> (\<forall>g k. open_handles s g = Some (p, k) \<longrightarrow> \<not> conflicting m k)"
  proof (cases rule: directory_open_cases)
    case (opened n d k s1)
    obtain bm u where s1: "s1 = s\<lparr>bitmap := bm, used_bytes := u\<rparr>" using malloc_frame [OF opened(6)] by blast
    have p: "redirected p d = p" using nr opened(3) by (simp add: redirected_def no_redirect_def)
    have "fs_inv s'"
      using fs_inv_add [OF inv opened(6,5), of "position_at s" "DIRECTORY OR m"]
      by (simp add: opened(8) add_dir_handle_def s1)
    moreover have "handle_at s' = (handle_at s)(h \<mapsto> \<lparr>h_flags = DIRECTORY OR m, h_node = p\<rparr>)"
      by (simp add: opened(8) add_dir_handle_def s1 p)
    moreover have "no_redirect s'" using nr by (simp add: no_redirect_def opened(8) add_dir_handle_def s1)
    moreover have "handle_at s h = None" using malloc_fresh_handle [OF inv opened(6)] by simp
    ultimately show ?thesis
      using mode_conflict_holders [OF fs_invD(3) [OF inv] opened(1,2)]
      by (auto simp: open_handles_upd open_handles_def intro!: exI [of _ "DIRECTORY OR m"])
  qed (use \<open>h \<noteq> 0\<close> in simp)
next
  fix s :: "'a fs_scheme" and p m s'
  assume "fs_inv s \<and> no_redirect s" and o: "directory_open c p m s = Inr (0, s')"
  then have "fs_inv s" by simp
  from this o show "s' = s" by (cases rule: directory_open_cases) auto
next
  fix s :: "'a fs_scheme" and h s'
  assume "fs_inv s \<and> no_redirect s" and c: "directory_close h s = Inr ((), s')"
  then have inv: "fs_inv s" and nr: "no_redirect s" by simp_all
  from inv c [unfolded directory_close_file]
  show "(fs_inv s' \<and> no_redirect s') \<and> open_handles s' = (open_handles s)(h := None)"
  proof (cases rule: file_close_cases)
    case (1 r n s1)
    obtain bm u where "s1 = s\<lparr>bitmap := bm, used_bytes := u\<rparr>" using free_frame [OF 1(3)] by blast
    then show ?thesis using fs_inv_remove [OF inv 1(1-3)] nr 1 by (simp add: open_handles_upd no_redirect_def)
  qed
qed

text \<open>
  In a file system in which nothing is mounted, directories keep the contract that files keep:
  two open handles of one directory never conflict.
\<close>

theorem directory_handles_exclusive:
  assumes "lock_run (directory_open c) directory_close s t" and "fs_inv s" and "no_redirect s"
    and "exclusive (open_handles s)"
  shows "fs_inv t \<and> exclusive (open_handles t)"
  using dir_lock.run_exclusive [OF assms(1)] assms(2-4) by simp

section \<open>The types of handles\<close>

text \<open>
  The type bits of a handle tell which kind of object its node is: a handle of type \<open>FILE\<close> is on a
  node with a file, one of type \<open>DIRECTORY\<close> on a node with a directory, and there are no others.
\<close>

definition handle_typed :: "'z fs_scheme \<Rightarrow> handle \<Rightarrow> bool" where
  "handle_typed s r \<longleftrightarrow>
     h_flags r AND TYPE_MASK = FILE \<and> file_at s (h_node r) \<noteq> None
     \<or> h_flags r AND TYPE_MASK = DIRECTORY \<and> directory_at s (h_node r) \<noteq> None"

definition well_typed :: "'z fs_scheme \<Rightarrow> bool" where
  "well_typed s \<longleftrightarrow> (\<forall>h r. handle_at s h = Some r \<longrightarrow> handle_typed s r)"

text \<open>Opening files and directories, with a mode that has no type bits, and closing handles.\<close>

inductive handle_run :: "('z fs_scheme) fs_calls \<Rightarrow> 'z fs_scheme \<Rightarrow> 'z fs_scheme \<Rightarrow> bool" for c s where
  start: "handle_run c s s"
| open_file: "handle_run c s t \<Longrightarrow> m AND TYPE_MASK = 0 \<Longrightarrow> file_open c p m t = Inr (h, u) \<Longrightarrow> handle_run c s u"
| open_directory: "handle_run c s t \<Longrightarrow> m AND TYPE_MASK = 0 \<Longrightarrow> directory_open c p m t = Inr (h, u) \<Longrightarrow> handle_run c s u"
| close: "handle_run c s t \<Longrightarrow> file_close h t = Inr ((), u) \<Longrightarrow> handle_run c s u"

lemma type_bits: "m AND TYPE_MASK = 0 \<Longrightarrow> (FILE OR m) AND TYPE_MASK = FILE" "m AND TYPE_MASK = 0 \<Longrightarrow> (DIRECTORY OR m) AND TYPE_MASK = DIRECTORY"
  by (simp_all add: bit.conj_disj_distrib2 TYPE_MASK_def FILE_def DIRECTORY_def)

lemma well_typed_add:
  assumes "well_typed s" and "file_at t = file_at s" and "directory_at t = directory_at s"
    and "handle_at t = (handle_at s)(h \<mapsto> r)" and "handle_typed t r"
  shows "well_typed t"
  using assms by (auto simp: well_typed_def handle_typed_def)

lemma well_typed_remove:
  "well_typed s \<Longrightarrow> file_at t = file_at s \<Longrightarrow> directory_at t = directory_at s \<Longrightarrow> handle_at t = (handle_at s)(h := None)
    \<Longrightarrow> well_typed t"
  by (auto simp: well_typed_def handle_typed_def)

lemma file_open_typed:
  assumes "fs_inv s" and "well_typed s" and "m AND TYPE_MASK = 0" and "file_open c p m s = Inr (h, t)"
  shows "fs_inv t \<and> well_typed t"
  using assms(1,4)
proof (cases rule: file_open_cases)
  case (opened n ops s1)
  obtain bm u where s1: "s1 = s\<lparr>bitmap := bm, used_bytes := u\<rparr>" using malloc_frame [OF opened(4)] by blast
  have "fs_inv t"
    using fs_inv_add [OF assms(1) opened(4,1), of "(position_at s)(h \<mapsto> init64 0 0 0 0)" "FILE OR m"]
    by (simp add: opened(6) add_file_handle_def s1)
  moreover have "well_typed t"
    by (rule well_typed_add [OF assms(2), where h = h and r = "\<lparr>h_flags = FILE OR m, h_node = p\<rparr>"])
      (simp_all add: opened(3,6) add_file_handle_def s1 handle_typed_def type_bits [OF assms(3)])
  ultimately show ?thesis ..
qed (use assms(1,2) in simp)

lemma directory_open_typed:
  assumes "fs_inv s" and "well_typed s" and "m AND TYPE_MASK = 0" and "directory_open c p m s = Inr (h, t)"
  shows "fs_inv t \<and> well_typed t"
  using assms(1,4)
proof (cases rule: directory_open_cases)
  case (opened n d k s1)
  obtain bm u where s1: "s1 = s\<lparr>bitmap := bm, used_bytes := u\<rparr>" using malloc_frame [OF opened(6)] by blast
  have "fs_inv t"
    using fs_inv_add [OF assms(1) opened(6,5), of "position_at s" "DIRECTORY OR m"]
    by (simp add: opened(8) add_dir_handle_def s1)
  moreover have "well_typed t"
    by (rule well_typed_add [OF assms(2), where h = h and r = "\<lparr>h_flags = DIRECTORY OR m, h_node = redirected p d\<rparr>"])
      (simp_all add: opened(4,8) add_dir_handle_def s1 handle_typed_def type_bits [OF assms(3)])
  ultimately show ?thesis ..
qed (use assms(1,2) in simp)

lemma file_close_typed:
  assumes "fs_inv s" and "well_typed s" and "file_close h s = Inr ((), t)"
  shows "fs_inv t \<and> well_typed t"
  using assms(1,3)
proof (cases rule: file_close_cases)
  case (1 r n s1)
  obtain bm u where s1: "s1 = s\<lparr>bitmap := bm, used_bytes := u\<rparr>" using free_frame [OF 1(3)] by blast
  have "well_typed t"
    by (rule well_typed_remove [OF assms(2), where h = h]) (simp_all add: 1(4) s1)
  then show ?thesis using fs_inv_remove [OF assms(1) 1(1-3)] 1(4) by simp
qed


section \<open>Witnesses\<close>

text \<open>The directory of \<open>some_files\<close>, open, with a file called \<open>a\<close> and another file in no directory.\<close>

definition some_dir :: fs where
  "some_dir = some_files\<lparr>mem := (\<lambda>_. 0)(linear 0x0050 0x700 := 0x61),
     node_at := (node_at some_files)(0x680 \<mapsto> plain_node FILE 0x720),
     handle_at := [0x800 \<mapsto> \<lparr>h_flags = DIRECTORY OR 0xc000, h_node = 0x600\<rparr>]\<rparr>"

lemma some_dir_name: "name_at some_dir 0x700 = [0x61]"
  by (rule name_at_bytes) (simp_all add: some_dir_def bytes_at_Suc linear_def)

lemma some_dir_empty_name: "name_at some_dir 0x720 = []"
  by (rule name_at_bytes) (simp_all add: some_dir_def bytes_at_Suc linear_def)

lemma some_dir_open: "open_dir some_dir 0x800 0x600 (DIRECTORY OR 0xc000) [0x500]"
  by (simp add: open_dir_def children_def some_dir_def plain_node_def)

lemma some_dir_plain: "\<not> own_op f some_dir 0x600" "reads (DIRECTORY OR 0xc000)" "writes (DIRECTORY OR 0xc000)"
  by (simp_all add: own_op_def some_dir_def reads_def writes_def DIRECTORY_def HANDLE_READ_def HANDLE_WRITE_def)

lemma some_dir_lookup: "lookup_name some_dir [0x500] [0x61] = 0x500"
proof -
  have "node_at some_dir 0x500 = Some (plain_node FILE 0x700)" by (simp add: some_dir_def)
  then show ?thesis by (simp add: lookup_name_def node_name_def plain_node_def some_dir_name)
qed

theorem directory_find_node_first_witness:
  "\<exists>s'. directory_find_node no_calls 0x800 0x700 some_dir = Inr (0x500, s')"
  using directory_find_node_first [OF some_dir_open some_dir_plain(2), where q = "0x700" and c = no_calls] some_dir_plain(1)
  by (simp add: some_dir_name some_dir_lookup)

theorem directory_walk_witness:
  "directory_get_next_node no_calls 0x800 0 some_dir = Inr (0x500, some_dir)
   \<and> directory_get_next_node no_calls 0x800 0x500 some_dir = Inr (0, some_dir)"
  using directory_walk [OF some_dir_open some_dir_plain(2,1), where i = 0 and c = no_calls]
    directory_walk [OF some_dir_open some_dir_plain(2,1), where i = 1 and c = no_calls] by simp

theorem directory_add_node_front_witness:
  "\<exists>s'. directory_add_node no_calls 0x800 0x680 some_dir = Inr (0x680, s')
    \<and> open_dir s' 0x800 0x600 (DIRECTORY OR 0xc000) [0x680, 0x500]"
proof -
  have "node_at some_dir 0x680 = Some (plain_node FILE 0x720)" by (simp add: some_dir_def)
  then show ?thesis
    using directory_add_node_front [OF some_dir_open some_dir_plain(3,1), where x = "0x680" and c = no_calls]
    by (auto simp: plain_node_def)
qed

lemma some_files_open_dir:
  "directory_open no_calls 0x600 HANDLE_WRITE some_files =
     Inr (0x1200, add_dir_handle 0x1200 0x600 (plain_node DIRECTORY 0x710) HANDLE_WRITE (take_block 1 some_files))"
proof -
  have "SIZEOF_DIRECTORY_HANDLE \<le> 512" by (simp add: SIZEOF_DIRECTORY_HANDLE_def)
  then show ?thesis
    using directory_open_eq [of some_files "0x600", OF fs_invD(2) [OF some_files_inv]]
    by (simp add: some_files_malloc mode_conflict_def redirected_def) (simp add: plain_node_def DIRECTORY_def)
qed

theorem directory_open_close_witness:
  "\<exists>s h. directory_open no_calls 0x600 HANDLE_WRITE some_files = Inr (h, s) \<and> directory_close h s = Inr ((), some_files)"
  using some_files_open_dir directory_open_close [OF some_files_inv some_files_open_dir] by auto

theorem directory_handles_exclusive_witness:
  "\<exists>s h. directory_open no_calls 0x600 HANDLE_WRITE some_files = Inr (h, s) \<and> h \<noteq> 0
    \<and> exclusive (open_handles s)"
proof -
  let ?s = "add_dir_handle 0x1200 0x600 (plain_node DIRECTORY 0x710) HANDLE_WRITE (take_block 1 some_files)"
  have "lock_run (directory_open no_calls) directory_close some_files ?s"
    by (rule lock_run.opened, rule lock_run.start, rule some_files_open_dir)
  moreover have "exclusive (open_handles some_files)" by (simp add: exclusive_def open_handles_def)
  moreover have "no_redirect some_files" by (simp add: no_redirect_def)
  ultimately have "exclusive (open_handles ?s)" using directory_handles_exclusive some_files_inv by blast
  moreover have "(0x1200 :: ptr) \<noteq> 0" by simp
  ultimately show ?thesis using some_files_open_dir by blast
qed


end
