(* ===== verification/Vfs.thy ===== *)
theory Vfs
  imports Directory
begin

text \<open>
  Path resolution, \<^verbatim>\<open>kernel/fs/vfs.c\<close>: a path is copied, its separators are turned into
  terminators, and the parts are looked up one after the other from the root.  The specification
  \<open>walk\<close> follows the parts of a path through the directories in memory; resolution computes it,
  and leaves nothing behind but a reference on each node it has passed.

  The string literals the code compares with are given by their bytes.
\<close>

unbundle bit_operations_syntax

section \<open>Operations\<close>

definition SIZEOF_RESOLUTION :: u16 where "SIZEOF_RESOLUTION = 8"

definition RESOLUTION_OK :: u16 where "RESOLUTION_OK = 0"
definition RESOLUTION_ISFILE :: u16 where "RESOLUTION_ISFILE = 1"
definition RESOLUTION_NOTFOUND :: u16 where "RESOLUTION_NOTFOUND = 2"
definition RESOLUTION_END :: u16 where "RESOLUTION_END = 3"

text \<open>\<open>strcpy\<close> between two places of the kernel segment.\<close>

definition copy_string :: "ptr \<Rightarrow> ptr \<Rightarrow> 'z machine_scheme \<Rightarrow> 'z machine_scheme" where
  "copy_string dest src s = s\<lparr>mem := store_bytes 0x0050 dest (fst (strcpy (mem_str s src))) (mem s)\<rparr>"

text \<open>The loop over the copy; \<open>None\<close> is a loop that never meets a terminator.\<close>

partial_function (option) zero_separators :: "ptr \<Rightarrow> (nat \<Rightarrow> u8) \<Rightarrow> (nat \<Rightarrow> u8) option" where
  "zero_separators p m =
     (let c = m (linear 0x0050 p) in
      if c = 0 then Some m
      else zero_separators (p + 1) (if c = 0x2f then m(linear 0x0050 p := 0) else m))"

definition split_path :: "ptr \<Rightarrow> ('z machine_scheme, unit) kmon" where
  "split_path p s =
     (case zero_separators p (mem s) of None \<Rightarrow> Inl Hang | Some m \<Rightarrow> Inr ((), s\<lparr>mem := m\<rparr>))"

definition put_resolution :: "ptr \<Rightarrow> path_resolution \<Rightarrow> ('z fs_scheme, unit) kmon" where
  "put_resolution p r = modifyK (\<lambda>s. s\<lparr>resolution_at := (resolution_at s)(p \<mapsto> r)\<rparr>)"

definition get_resolution :: "ptr \<Rightarrow> ('z fs_scheme, path_resolution) kmon" where
  "get_resolution = lookupK resolution_at"

definition vfs_start_resolve :: "ptr \<Rightarrow> ('z fs_scheme, ptr) kmon" where
  "vfs_start_resolve path =
     bindK (getK (\<lambda>s. strlen (mem_str s path) + 1)) (\<lambda>path_size.
     bindK (malloc SIZEOF_RESOLUTION) (\<lambda>resolution.
       if resolution = 0 then retK 0
       else
         bindK (malloc path_size) (\<lambda>path_copy.
         thenK (modifyK (copy_string path_copy path))
           (if path_copy = 0 then thenK (free resolution) (retK 0)
            else
              thenK (split_path path_copy)
             (bindK (getK vfs_root) (\<lambda>root.
              thenK (put_resolution resolution
                  \<lparr>pr_path = path_copy, pr_end = path_copy + path_size - 1, pr_current_part = path_copy,
                   pr_current_node = root\<rparr>)
                (retK resolution)))))))"

text \<open>The loop that runs to the end of the current part.\<close>

partial_function (option) seek_end :: "ptr \<Rightarrow> (nat \<Rightarrow> u8) \<Rightarrow> ptr option" where
  "seek_end p m = (if m (linear 0x0050 p) \<noteq> 0 then seek_end (p + 1) m else Some p)"

definition vfs_retry_resolution :: "('z fs_scheme) fs_calls \<Rightarrow> ptr \<Rightarrow> ('z fs_scheme, u16) kmon" where
  "vfs_retry_resolution c resolution =
     bindK (get_resolution resolution) (\<lambda>r.
     bindK (getK (\<lambda>s. strcmp (char_int True) (mem_str s (pr_current_part r)) [0])) (\<lambda>dist.
       if dist = 0 then retK RESOLUTION_OK
       else bindK (get_node (pr_current_node r)) (\<lambda>n.
         if n_flags n AND DIRECTORY \<noteq> 0 then
           bindK (directory_open c (pr_current_node r) HANDLE_READ) (\<lambda>handle.
             if handle \<noteq> 0 then
               bindK (directory_find_node c handle (pr_current_part r)) (\<lambda>node.
               thenK (directory_close handle)
                 (if node = 0 then retK RESOLUTION_NOTFOUND
                  else thenK (put_resolution resolution (r\<lparr>pr_current_node := node\<rparr>)) (retK RESOLUTION_OK)))
             else retK RESOLUTION_NOTFOUND)
         else retK RESOLUTION_ISFILE)))"

definition vfs_advance_resolution :: "('z fs_scheme) fs_calls \<Rightarrow> ptr \<Rightarrow> ('z fs_scheme, u16) kmon" where
  "vfs_advance_resolution c resolution =
     bindK (get_resolution resolution) (\<lambda>r.
     bindK (getK (\<lambda>s. seek_end (pr_current_part r) (mem s))) (\<lambda>found.
       case found of
         None \<Rightarrow> failK Hang
       | Some p \<Rightarrow>
           thenK (put_resolution resolution (r\<lparr>pr_current_part := p\<rparr>))
             (if p = pr_end r then retK RESOLUTION_END
              else thenK (put_resolution resolution (r\<lparr>pr_current_part := p + 1\<rparr>))
                     (vfs_retry_resolution c resolution))))"

definition vfs_free_path_resolution :: "ptr \<Rightarrow> ('z fs_scheme, unit) kmon" where
  "vfs_free_path_resolution resolution =
     bindK (get_resolution resolution) (\<lambda>r.
     thenK (free (pr_path r))
    (thenK (free resolution)
       (modifyK (\<lambda>s. s\<lparr>resolution_at := (resolution_at s)(resolution := None)\<rparr>))))"

partial_function (option) advance_all ::
  "('z fs_scheme) fs_calls \<Rightarrow> ptr \<Rightarrow> 'z fs_scheme \<Rightarrow> (kerror + u16 \<times> 'z fs_scheme) option" where
  "advance_all c resolution s =
     (case vfs_advance_resolution c resolution s of
        Inl e \<Rightarrow> Some (Inl e)
      | Inr (status, s1) \<Rightarrow>
          if status = RESOLUTION_OK then advance_all c resolution s1 else Some (Inr (status, s1)))"

definition loopK :: "('s \<Rightarrow> (kerror + 'a \<times> 's) option) \<Rightarrow> ('s, 'a) kmon" where
  "loopK f s = (case f s of None \<Rightarrow> Inl Hang | Some r \<Rightarrow> r)"

definition vfs_get_node_for_path :: "('z fs_scheme) fs_calls \<Rightarrow> ptr \<Rightarrow> ('z fs_scheme, ptr) kmon" where
  "vfs_get_node_for_path c path =
     bindK (vfs_start_resolve path) (\<lambda>resolution.
     bindK (loopK (advance_all c resolution)) (\<lambda>status.
     bindK (if status = RESOLUTION_END
            then bindK (get_resolution resolution) (\<lambda>r. retK (pr_current_node r)) else retK 0) (\<lambda>node.
     thenK (vfs_free_path_resolution resolution) (retK node))))"

definition vfs_set_root :: "ptr \<Rightarrow> ('z fs_scheme, unit) kmon" where
  "vfs_set_root node = modifyK (\<lambda>s. s\<lparr>vfs_root := node\<rparr>)"

section \<open>Specification\<close>

text \<open>The parts of a path, separated by slashes.\<close>

fun path_parts :: "u8 list \<Rightarrow> u8 list list" where
  "path_parts [] = [[]]"
| "path_parts (c # cs) = (if c = 0x2f then [] # path_parts cs else (c # hd (path_parts cs)) # tl (path_parts cs))"

text \<open>The children of a directory in memory, as a function, with fuel for the length of the list.\<close>

fun kids :: "nat \<Rightarrow> 'z fs_scheme \<Rightarrow> ptr \<Rightarrow> ptr list" where
  "kids 0 s p = []"
| "kids (Suc k) s p =
     (if p = 0 then []
      else case node_at s p of None \<Rightarrow> [] | Some n \<Rightarrow> p # kids k s (n_next n))"

text \<open>The directory whose children a node shows: the one mounted on it, or itself.\<close>

definition shown :: "'z fs_scheme \<Rightarrow> ptr \<Rightarrow> ptr" where
  "shown s p = (case directory_at s p of None \<Rightarrow> p | Some d \<Rightarrow> redirected p d)"

definition child_named :: "'z fs_scheme \<Rightarrow> ptr \<Rightarrow> u8 list \<Rightarrow> ptr" where
  "child_named s p name =
     (case directory_at s (shown s p) of
        None \<Rightarrow> 0 | Some e \<Rightarrow> lookup_name s (kids 65536 s (d_child e)) name)"

definition is_directory :: "'z fs_scheme \<Rightarrow> ptr \<Rightarrow> bool" where
  "is_directory s p \<longleftrightarrow> (\<exists>n. node_at s p = Some n \<and> n_flags n AND DIRECTORY \<noteq> 0)"

fun walk :: "'z fs_scheme \<Rightarrow> ptr \<Rightarrow> u8 list list \<Rightarrow> ptr" where
  "walk s p [] = p"
| "walk s p (part # parts) =
     (if part = [] then walk s p parts
      else if is_directory s p \<and> child_named s p part \<noteq> 0 then walk s (child_named s p part) parts
      else 0)"

lemma child_list_length: "child_list s p xs \<Longrightarrow> length xs \<le> 65536"
proof -
  assume "child_list s p xs"
  then have d: "distinct (map unat xs)"
    using child_list_distinct by (auto simp: distinct_map inj_on_def word_unat_eq_iff)
  have "set (map unat xs) \<subseteq> {..<65536}" using unat_lt_65536 by auto
  then have "card (set (map unat xs)) \<le> card {..<65536 :: nat}" by (intro card_mono) simp_all
  then show ?thesis by (simp only: distinct_card [OF d] length_map card_lessThan)
qed

lemma kids_child_list: "child_list s p xs \<Longrightarrow> length xs \<le> k \<Longrightarrow> kids k s p = xs"
proof (induction xs arbitrary: p k)
  case Nil
  then show ?case by (cases k) auto
next
  case (Cons x xs)
  then show ?case by (cases k) auto
qed

section \<open>One lookup: open, find, close\<close>

definition incr_ref :: "node \<Rightarrow> node" where
  "incr_ref n = n\<lparr>n_refcount := n_refcount n + 1\<rparr>"

definition bump :: "ptr \<Rightarrow> 'z fs_scheme \<Rightarrow> 'z fs_scheme" where
  "bump x s = s\<lparr>node_at := (node_at s)(x := map_option incr_ref (node_at s x))\<rparr>"

text \<open>
  A directory that can be searched in memory: nobody writes it, what it shows is a directory whose
  children form a list and which has no search operation of its own.
\<close>

definition dir_ok :: "'z fs_scheme \<Rightarrow> ptr \<Rightarrow> bool" where
  "dir_ok s p \<longleftrightarrow> (\<exists>n d e k xs. node_at s p = Some n \<and> n_writers n = 0
     \<and> directory_at s p = Some d \<and> directory_at s (redirected p d) = Some e \<and> node_at s (redirected p d) = Some k
     \<and> \<not> own_op do_find_node s (redirected p d) \<and> child_list s (d_child e) xs)"

definition tree_ok :: "'z fs_scheme \<Rightarrow> bool" where
  "tree_ok s \<longleftrightarrow> fs_inv s \<and> (\<forall>p. is_directory s p \<longrightarrow> dir_ok s p)"

lemma incr_ref_simps [simp]:
  "n_name (incr_ref n) = n_name n" "n_flags (incr_ref n) = n_flags n" "n_next (incr_ref n) = n_next n"
  "n_writers (incr_ref n) = n_writers n" "n_readers (incr_ref n) = n_readers n"
  by (simp_all add: incr_ref_def)

lemma sub_incr_add: "sub_counts m (incr_ref (add_counts m n)) = incr_ref n"
  by (cases n) (simp add: sub_counts_def incr_ref_def add_counts_def)

text \<open>Two states whose nodes differ in their reference counts only.\<close>

definition same_nodes :: "'z fs_scheme \<Rightarrow> 'z fs_scheme \<Rightarrow> bool" where
  "same_nodes s t \<longleftrightarrow> (\<forall>p. map_option (\<lambda>n. n\<lparr>n_refcount := 0\<rparr>) (node_at t p) = map_option (\<lambda>n. n\<lparr>n_refcount := 0\<rparr>) (node_at s p))"

definition same_tree :: "'z fs_scheme \<Rightarrow> 'z fs_scheme \<Rightarrow> bool" where
  "same_tree s t \<longleftrightarrow> same_nodes s t \<and> directory_at t = directory_at s
     \<and> (\<forall>p n. node_at s p = Some n \<longrightarrow> name_at t (n_name n) = name_at s (n_name n))"

lemma same_nodesD:
  assumes "same_nodes s t" and "node_at t p = Some n"
  shows "\<exists>m. node_at s p = Some m \<and> n_name m = n_name n \<and> n_flags m = n_flags n \<and> n_next m = n_next n
    \<and> n_writers m = n_writers n \<and> n_readers m = n_readers n"
proof -
  have "map_option (\<lambda>n. n\<lparr>n_refcount := 0\<rparr>) (node_at t p) = map_option (\<lambda>n. n\<lparr>n_refcount := 0\<rparr>) (node_at s p)"
    using assms(1) by (simp add: same_nodes_def)
  then obtain m where m: "node_at s p = Some m" "n\<lparr>n_refcount := 0\<rparr> = m\<lparr>n_refcount := 0\<rparr>"
    using assms(2) by (cases "node_at s p") auto
  from m(2) have "n_name m = n_name n \<and> n_flags m = n_flags n \<and> n_next m = n_next n
    \<and> n_writers m = n_writers n \<and> n_readers m = n_readers n"
    by (cases n; cases m) simp
  with m(1) show ?thesis by blast
qed

lemma same_nodes_sym: "same_nodes s t \<Longrightarrow> same_nodes t s"
  by (simp add: same_nodes_def)

lemma same_nodes_trans: "same_nodes s t \<Longrightarrow> same_nodes t u \<Longrightarrow> same_nodes s u"
  by (simp add: same_nodes_def)

lemma same_nodes_bump: "same_nodes s (bump x s)"
  by (cases "node_at s x") (simp_all add: same_nodes_def bump_def incr_ref_def fun_upd_idem)

lemma same_nodes_None: "same_nodes s t \<Longrightarrow> node_at s p = None \<longleftrightarrow> node_at t p = None"
  using same_nodesD [of s t p] same_nodesD [of t s p] same_nodes_sym [of s t]
  by (cases "node_at s p"; cases "node_at t p") fastforce+

lemma same_tree_kids: "same_nodes s t \<Longrightarrow> kids k t p = kids k s p"
proof (induction k arbitrary: p)
  case (Suc k)
  then show ?case
    using same_nodesD [OF Suc.prems, of p] same_nodes_None [OF Suc.prems, of p]
    by (cases "node_at t p") auto
qed simp

lemma same_tree_name:
  assumes "same_tree s t"
  shows "node_name t p = node_name s p"
proof (cases "node_at t p")
  case None
  then show ?thesis using same_nodes_None [of s t p] assms by (simp add: same_tree_def node_name_def)
next
  case (Some n)
  then obtain m where "node_at s p = Some m" "n_name m = n_name n"
    using same_nodesD [of s t p] assms by (auto simp: same_tree_def)
  then show ?thesis using Some assms unfolding same_tree_def node_name_def by fastforce
qed

lemma same_tree_child: "same_tree s t \<Longrightarrow> child_named t p name = child_named s p name"
proof -
  assume t: "same_tree s t"
  then have "directory_at t = directory_at s" "kids k t q = kids k s q" for k q
    using same_tree_kids by (auto simp: same_tree_def)
  moreover have "lookup_name t xs name = lookup_name s xs name" for xs
    by (simp add: lookup_name_def same_tree_name [OF t])
  ultimately show ?thesis by (simp add: child_named_def shown_def split: option.split)
qed

lemma same_tree_directory: "same_tree s t \<Longrightarrow> is_directory t p = is_directory s p"
  using same_nodesD [of s t p] same_nodesD [of t s p] same_nodes_sym [of s t]
  unfolding same_tree_def is_directory_def by metis

lemma same_tree_walk: "same_tree s t \<Longrightarrow> walk t p parts = walk s p parts"
  by (induction parts arbitrary: p) (simp_all add: same_tree_child same_tree_directory)

lemma tree_ok_same:
  assumes "tree_ok s" and "same_nodes s t" and "directory_at t = directory_at s" and "fs_inv t"
  shows "tree_ok t"
proof -
  have "dir_ok t p" if d: "is_directory t p" for p
  proof -
    obtain n where "node_at t p = Some n" "n_flags n AND DIRECTORY \<noteq> 0" using d by (auto simp: is_directory_def)
    then have "is_directory s p"
      using same_nodesD [OF assms(2)] by (metis is_directory_def)
    then obtain n d e k xs where s: "node_at s p = Some n" "n_writers n = 0" "directory_at s p = Some d"
      "directory_at s (redirected p d) = Some e" "node_at s (redirected p d) = Some k"
      "\<not> own_op do_find_node s (redirected p d)" "child_list s (d_child e) xs"
      using assms(1) unfolding tree_ok_def dir_ok_def by blast
    note sym = same_nodes_sym [OF assms(2)]
    obtain n' where "node_at t p = Some n'" "n_writers n' = 0" using same_nodesD [OF sym s(1)] s(2) by auto
    moreover obtain k' where "node_at t (redirected p d) = Some k'" using same_nodesD [OF sym s(5)] by auto
    moreover have "map_option n_next (node_at s x) = map_option n_next (node_at t x)" for x
      using same_nodesD [OF sym, of x] same_nodes_None [OF assms(2), of x] by (cases "node_at s x") auto
    then have "child_list t (d_child e) xs" using s(7) child_list_cong by metis
    ultimately show ?thesis using s(3,4,6) assms(3) unfolding dir_ok_def own_op_def by auto
  qed
  then show ?thesis using assms(4) by (simp add: tree_ok_def)
qed

lemma fs_inv_bump: "fs_inv s \<Longrightarrow> fs_inv (bump x s)"
proof -
  assume inv: "fs_inv s"
  have n: "\<exists>m. node_at s p = Some m \<and> n_readers m = n_readers n \<and> n_writers m = n_writers n"
    if "node_at (bump x s) p = Some n" for p n
    using same_nodesD [OF same_nodes_bump that] by auto
  have "node_at (bump x s) p \<noteq> None" if "node_at s p \<noteq> None" for p
    using same_nodes_None [OF same_nodes_bump, of s p x] that by simp
  moreover have "handle_at (bump x s) = handle_at s" "position_at (bump x s) = position_at s"
    "live (bump x s) = live s" "heap_inv (bump x s) = heap_inv s"
    by (simp_all add: bump_def)
  moreover have "handles_of (bump x s) p f = handles_of s p f" for p f by (simp add: handles_of_def bump_def)
  then have "counts_ok (bump x s)" using inv n unfolding fs_inv_def counts_ok_def by metis
  moreover have "no_open (bump x s)" using inv by (simp add: fs_inv_def no_open_def bump_def)
  ultimately show ?thesis using inv unfolding fs_inv_def handle_ok_def by metis
qed

lemma malloc_panic: "heap_inv s \<Longrightarrow> malloc n s = Inl e \<Longrightarrow> e = Panic ''out of mem''"
  by (auto simp: malloc_eq split: if_splits)

text \<open>A handle that has just been opened for reading shows the children that the directory has.\<close>

lemma opened_for_reading:
  assumes e: "directory_at t r = Some e" "node_at t r = Some k" "child_list t (d_child e) xs"
    and s1: "s1 = t\<lparr>bitmap := bm, used_bytes := u\<rparr>"
  shows "open_dir (add_dir_handle h r k HANDLE_READ s1) h r (DIRECTORY OR HANDLE_READ) xs"
    and "lookup_name (add_dir_handle h r k HANDLE_READ s1) ys nm = lookup_name t ys nm"
    and "name_at (add_dir_handle h r k HANDLE_READ s1) = name_at t"
proof -
  let ?u = "add_dir_handle h r k HANDLE_READ s1"
  have "map_option n_next (node_at ?u y) = map_option n_next (node_at t y)" for y
    using e(2) by (simp add: add_dir_handle_def add_counts_def s1)
  then have "child_list ?u (d_child e) xs" using e(3) child_list_cong [of xs t ?u] by metis
  then show "open_dir ?u h r (DIRECTORY OR HANDLE_READ) xs"
    using e(1) by (simp add: open_dir_def children_def add_dir_handle_def s1)
  show same: "name_at ?u = name_at t" by (intro name_at_cong) (simp add: add_dir_handle_def s1)
  have "node_name ?u y = node_name t y" for y
    using e(2) same by (simp add: node_name_def add_dir_handle_def add_counts_def s1 split: option.split)
  then show "lookup_name ?u ys nm = lookup_name t ys nm" by (simp add: lookup_name_def)
qed

text \<open>Closing it gives the block and the counts back, and keeps the reference of the node found.\<close>

lemma close_after_find:
  fixes x :: ptr
  assumes inv: "fs_inv t" and m: "malloc SIZEOF_DIRECTORY_HANDLE t = Inr (h, s1)" and k: "node_at t r = Some k"
  defines "w \<equiv> if x = 0 then add_dir_handle h r k HANDLE_READ s1 else bump x (add_dir_handle h r k HANDLE_READ s1)"
  shows "directory_close h w = Inr ((), if x = 0 then t else bump x t)"
proof -
  obtain bm u where s1: "s1 = t\<lparr>bitmap := bm, used_bytes := u\<rparr>" using malloc_frame [OF m] by blast
  note freed = free_malloc_restores [OF fs_invD(1) [OF inv] m]
  have "s1\<lparr>handle_at := handle_at w, position_at := position_at w, node_at := node_at w\<rparr> = w"
    by (rule fs.equality) (simp_all add: w_def add_dir_handle_def s1 bump_def)
  then have f: "free h w = Inr ((), t\<lparr>handle_at := handle_at w, position_at := position_at w, node_at := node_at w\<rparr>)"
    using free_objects [OF freed, where x = "handle_at w" and y = "position_at w" and z = "node_at w"] by simp
  have hw: "handle_at w h = Some \<lparr>h_flags = DIRECTORY OR HANDLE_READ, h_node = r\<rparr>"
    by (simp add: w_def add_dir_handle_def s1 bump_def)
  have nw: "node_at w r = Some (if x \<noteq> 0 \<and> x = r then incr_ref (add_counts HANDLE_READ k) else add_counts HANDLE_READ k)"
    by (simp add: w_def add_dir_handle_def s1 bump_def)
  show ?thesis
    unfolding directory_close_file file_close_eq [OF hw, simplified, OF nw] f
    using malloc_fresh_handle [OF inv m] k
    by (simp add: w_def, intro conjI impI fs.equality)
      (auto simp: add_dir_handle_def s1 bump_def sub_incr_add fun_upd_idem fun_eq_iff)
qed

text \<open>Opening a directory, looking up a name and closing it leaves a reference to what was found.\<close>

lemma lookup_roundtrip:
  assumes tree: "tree_ok t" and dir: "is_directory t p"
    and x: "x = child_named t p (name_at t q)"
  shows "directory_open c p HANDLE_READ t = Inl (Panic ''out of mem'') \<or>
    (\<exists>h u. directory_open c p HANDLE_READ t = Inr (h, u) \<and> h \<noteq> 0
      \<and> directory_find_node c h q u = Inr (x, if x = 0 then u else bump x u)
      \<and> directory_close h (if x = 0 then u else bump x u) = Inr ((), if x = 0 then t else bump x t))"
proof -
  have inv: "fs_inv t" using tree by (simp add: tree_ok_def)
  note hinv = fs_invD(1) [OF inv]
  obtain n d e k xs where t: "node_at t p = Some n" "n_writers n = 0" "directory_at t p = Some d"
    "directory_at t (redirected p d) = Some e" "node_at t (redirected p d) = Some k"
    "\<not> own_op do_find_node t (redirected p d)" "child_list t (d_child e) xs"
    using tree dir unfolding tree_ok_def dir_ok_def by blast
  let ?r = "redirected p d"
  have flag: "n_flags n AND DIRECTORY \<noteq> 0" using dir t(1) by (simp add: is_directory_def)
  have free: "\<not> mode_conflict n HANDLE_READ"
    using t(2) by (simp add: mode_conflict_def HANDLE_READ_def HANDLE_WRITE_def)
  note open_eq = directory_open_eq [OF fs_invD(2) [OF inv] t(1,3,4,5), of c HANDLE_READ]
  show ?thesis
  proof (cases "malloc SIZEOF_DIRECTORY_HANDLE t")
    case (Inl e)
    then show ?thesis using flag free malloc_panic [OF hinv Inl] by (simp add: open_eq)
  next
    case (Inr v)
    then obtain h s1 where m: "malloc SIZEOF_DIRECTORY_HANDLE t = Inr (h, s1)" by (cases v) auto
    obtain bm u where s1: "s1 = t\<lparr>bitmap := bm, used_bytes := u\<rparr>" using malloc_frame [OF m] by blast
    note fresh = malloc_fresh_handle [OF inv m]
    let ?u = "add_dir_handle h ?r k HANDLE_READ s1"
    have o: "directory_open c p HANDLE_READ t = Inr (h, ?u)" using m flag free fresh(3) by (simp add: open_eq)
    note opened = opened_for_reading [OF t(4,5,7) s1, of h]
    have "reads (DIRECTORY OR HANDLE_READ)" by (simp add: reads_def HANDLE_READ_def)
    moreover have "\<not> own_op do_find_node ?u ?r" using t(6) by (simp add: own_op_def add_dir_handle_def s1)
    moreover have "kids 65536 t (d_child e) = xs" using t(7) child_list_length by (intro kids_child_list) auto
    then have "lookup_name ?u xs (name_at ?u q) = x"
      using t(3,4) opened(2) by (simp add: x child_named_def shown_def lookup_name_def opened(3))
    ultimately have find: "directory_find_node c h q ?u = Inr (x, if x = 0 then ?u else bump x ?u)"
      using opened(1) directory_find_node_eq [of ?u h ?r _ xs q c] by (simp add: bump_def incr_ref_def [abs_def])
    show ?thesis using o fresh(3) find close_after_find [OF inv m t(5), of x] by blast
  qed
qed

section \<open>The path in memory\<close>

definition separator :: "u8 \<Rightarrow> u8" where
  "separator c = (if c = 0x2f then 0 else c)"

fun join_parts :: "u8 list list \<Rightarrow> u8 list" where
  "join_parts [] = []"
| "join_parts [x] = x"
| "join_parts (x # y # zs) = x @ 0 # join_parts (y # zs)"

lemma path_parts_ne [simp]: "path_parts xs \<noteq> []"
  by (cases xs) simp_all

lemma join_path_parts: "map separator xs = join_parts (path_parts xs)"
proof (induction xs)
  case (Cons c cs)
  obtain y ys where y: "path_parts cs = y # ys" by (cases "path_parts cs") simp_all
  show ?case using Cons y by (cases ys) (auto simp: separator_def)
qed simp

lemma path_parts_no_zero: "0 \<notin> set xs \<Longrightarrow> \<forall>x \<in> set (path_parts xs). 0 \<notin> set x"
proof (induction xs)
  case (Cons c cs)
  obtain y ys where "path_parts cs = y # ys" by (cases "path_parts cs") simp_all
  then show ?case using Cons by auto
qed simp

lemma linear_Suc_off: "linear seg (p + 1 + of_nat i) = linear seg (p + of_nat (Suc i))"
  by (simp add: algebra_simps)

lemma zero_separators_eq:
  assumes "bytes_at 0x0050 p (Suc (length xs)) m = xs @ [0]" and "0 \<notin> set xs" and "length xs < 65536"
  shows "\<exists>m'. zero_separators p m = Some m' \<and> bytes_at 0x0050 p (Suc (length xs)) m' = map separator xs @ [0]
    \<and> (\<forall>a. (\<forall>i < length xs. a \<noteq> linear 0x0050 (p + of_nat i)) \<longrightarrow> m' a = m a)"
  using assms
proof (induction xs arbitrary: p m)
  case Nil
  then show ?case by (subst zero_separators.simps) (simp add: bytes_at_Suc)
next
  case (Cons x xs)
  let ?m = "if x = 0x2f then m(linear 0x0050 p := 0) else m"
  have far: "linear 0x0050 (p + 1 + of_nat i) \<noteq> linear 0x0050 p" if "i < 65535" for i
  proof -
    have "of_nat (Suc i) \<noteq> (0 :: u16)" by (rule of_nat_0_16) (use that in simp_all)
    then show ?thesis unfolding linear_Suc_off linear_inject by simp
  qed
  have hd: "m (linear 0x0050 p) = x" and "x \<noteq> 0" and tl: "bytes_at 0x0050 (p + 1) (Suc (length xs)) m = xs @ [0]"
    using Cons.prems by (simp_all add: bytes_at_Suc [of _ p])
  have "bytes_at 0x0050 (p + 1) (Suc (length xs)) ?m = bytes_at 0x0050 (p + 1) (Suc (length xs)) m"
    using far Cons.prems(3) unfolding bytes_at_def by (intro map_cong refl) auto
  then obtain m' where m': "zero_separators (p + 1) ?m = Some m'"
    "bytes_at 0x0050 (p + 1) (Suc (length xs)) m' = map separator xs @ [0]"
    "\<forall>a. (\<forall>i < length xs. a \<noteq> linear 0x0050 (p + 1 + of_nat i)) \<longrightarrow> m' a = ?m a"
    using Cons.IH [of "p + 1" ?m] Cons.prems tl by auto
  have "zero_separators p m = Some m'"
    using m'(1) hd \<open>x \<noteq> 0\<close> by (subst zero_separators.simps) simp
  moreover have "m' (linear 0x0050 p) = separator x"
  proof -
    have "\<forall>i < length xs. linear 0x0050 p \<noteq> linear 0x0050 (p + 1 + of_nat i)"
    proof (intro allI impI)
      fix i
      assume "i < length xs"
      then have "i < 65535" using Cons.prems(3) by simp
      from far [OF this] show "linear 0x0050 p \<noteq> linear 0x0050 (p + 1 + of_nat i)" by (rule not_sym)
    qed
    then show ?thesis using m'(3) hd by (simp add: separator_def)
  qed
  moreover have "m' a = m a" if "\<forall>i < length (x # xs). a \<noteq> linear 0x0050 (p + of_nat i)" for a
  proof -
    have "a \<noteq> linear 0x0050 p" using that by (elim allE [where x = 0]) simp
    moreover have "\<forall>i < length xs. a \<noteq> linear 0x0050 (p + 1 + of_nat i)"
      using that unfolding linear_Suc_off by auto
    ultimately show ?thesis using m'(3) by simp
  qed
  ultimately show ?case using m'(2) by (simp add: bytes_at_Suc [of _ p])
qed

lemma seek_end_eq:
  assumes "bytes_at 0x0050 p (Suc (length xs)) m = xs @ [0]" and "0 \<notin> set xs"
  shows "seek_end p m = Some (p + of_nat (length xs))"
  using assms
proof (induction xs arbitrary: p)
  case Nil
  then show ?case by (subst seek_end.simps) (simp add: bytes_at_Suc)
next
  case (Cons x xs)
  then have "m (linear 0x0050 p) = x" "x \<noteq> 0" "bytes_at 0x0050 (p + 1) (Suc (length xs)) m = xs @ [0]"
    by (simp_all add: bytes_at_Suc [of _ p])
  then show ?case using Cons.IH [of "p + 1"] Cons.prems
    by (subst seek_end.simps) (simp add: algebra_simps)
qed

section \<open>The loop over the parts\<close>

definition at_part :: "'z fs_scheme \<Rightarrow> path_resolution \<Rightarrow> u8 list list \<Rightarrow> bool" where
  "at_part s r parts \<longleftrightarrow> parts \<noteq> [] \<and> (\<forall>x \<in> set parts. 0 \<notin> set x) \<and> length (join_parts parts) < 65536
     \<and> bytes_at 0x0050 (pr_current_part r) (Suc (length (join_parts parts))) (mem s) = join_parts parts @ [0]
     \<and> pr_end r = pr_current_part r + of_nat (length (join_parts parts))"

lemma get_resolution_apply [kernel_simps]:
  "resolution_at s p = Some r \<Longrightarrow> get_resolution p s = Inr (r, s)"
  "put_resolution p r s = Inr ((), s\<lparr>resolution_at := (resolution_at s)(p \<mapsto> r)\<rparr>)"
  by (simp_all add: get_resolution_def put_resolution_def kernel_simps)

text \<open>The first part ends at its terminator, and what follows starts one byte later.\<close>

lemma bytes_at_append:
  assumes "bytes_at seg p n m = xs @ ys"
  shows "bytes_at seg p (length xs) m = xs" and "bytes_at seg (p + of_nat (length xs)) (length ys) m = ys"
proof -
  have n: "n = length xs + length ys" using assms by (metis bytes_at_length length_append)
  have "bytes_at seg p (length xs) m @ bytes_at seg (p + of_nat (length xs)) (length ys) m = xs @ ys"
    using assms unfolding n bytes_at_add .
  then show "bytes_at seg p (length xs) m = xs" "bytes_at seg (p + of_nat (length xs)) (length ys) m = ys"
    by (simp_all add: append_eq_append_conv)
qed

lemma at_part_seek:
  assumes "at_part s r (x # rest)"
  shows "seek_end (pr_current_part r) (mem s) = Some (pr_current_part r + of_nat (length x))"
proof -
  obtain ys where "join_parts (x # rest) @ [0] = (x @ [0]) @ ys" by (cases rest) auto
  then have "bytes_at 0x0050 (pr_current_part r) (length (x @ [0])) (mem s) = x @ [0]"
    using assms bytes_at_append(1) unfolding at_part_def by metis
  then show ?thesis using assms by (intro seek_end_eq) (simp_all add: at_part_def)
qed

lemma advance_end:
  assumes "resolution_at s res = Some r" and "at_part s r [x]"
  shows "vfs_advance_resolution c res s =
    Inr (RESOLUTION_END, s\<lparr>resolution_at := (resolution_at s)(res \<mapsto> r\<lparr>pr_current_part := pr_end r\<rparr>)\<rparr>)"
proof -
  have "pr_end r = pr_current_part r + of_nat (length x)" using assms(2) by (simp add: at_part_def)
  then show ?thesis using assms(1)
    by (simp add: vfs_advance_resolution_def kernel_simps at_part_seek [OF assms(2)])
qed

lemma advance_next:
  assumes "resolution_at s res = Some r" and "at_part s r (x # y # zs)"
  defines "r' \<equiv> r\<lparr>pr_current_part := pr_current_part r + of_nat (length x) + 1\<rparr>"
  shows "vfs_advance_resolution c res s =
      vfs_retry_resolution c res (s\<lparr>resolution_at := (resolution_at s)(res \<mapsto> r')\<rparr>)"
    and "at_part s r' (y # zs)" and "name_at s (pr_current_part r') = y"
proof -
  let ?j = "join_parts (y # zs)"
  have len: "length x + Suc (length ?j) < 65536" using assms(2) by (simp add: at_part_def)
  have e: "pr_end r = pr_current_part r + of_nat (length x) + of_nat (Suc (length ?j))"
    using assms(2) by (simp add: at_part_def add.assoc)
  moreover have "of_nat (Suc (length ?j)) \<noteq> (0 :: u16)" using len by (intro of_nat_0_16) simp_all
  ultimately have "pr_current_part r + of_nat (length x) \<noteq> pr_end r" by simp
  then show "vfs_advance_resolution c res s =
      vfs_retry_resolution c res (s\<lparr>resolution_at := (resolution_at s)(res \<mapsto> r')\<rparr>)"
    using assms(1) by (simp add: vfs_advance_resolution_def kernel_simps at_part_seek [OF assms(2)] r'_def)
  have "bytes_at 0x0050 (pr_current_part r) (Suc (length (join_parts (x # y # zs)))) (mem s)
      = (x @ [0]) @ (?j @ [0])"
    using assms(2) by (simp add: at_part_def)
  from bytes_at_append(2) [OF this]
  have b: "bytes_at 0x0050 (pr_current_part r') (Suc (length ?j)) (mem s) = ?j @ [0]"
    by (simp add: r'_def algebra_simps)
  show part: "at_part s r' (y # zs)"
    using assms(2) b len e by (simp add: at_part_def r'_def algebra_simps)
  obtain ys where "?j @ [0] = (y @ [0]) @ ys" by (cases zs) auto
  then have "bytes_at 0x0050 (pr_current_part r') (length (y @ [0])) (mem s) = y @ [0]"
    using bytes_at_append(1) b by metis
  moreover have "length y < 65536" using len by (cases zs) auto
  ultimately show "name_at s (pr_current_part r') = y"
    using part by (intro name_at_bytes) (simp_all add: at_part_def)
qed

lemma kids_nodes: "x \<in> set (kids k s p) \<Longrightarrow> node_at s x \<noteq> None"
proof (induction k arbitrary: p)
  case (Suc k)
  then show ?case by (cases "node_at s p") (auto split: if_splits)
qed simp

lemma child_named_node: "child_named s p name \<noteq> 0 \<Longrightarrow> node_at s (child_named s p name) \<noteq> None"
proof -
  assume "child_named s p name \<noteq> 0"
  then obtain e where "directory_at s (shown s p) = Some e"
    "lookup_name s (kids 65536 s (d_child e)) name \<noteq> 0"
    by (auto simp: child_named_def split: option.splits)
  moreover from lookup_name_in [OF this(2)]
  have "node_at s (lookup_name s (kids 65536 s (d_child e)) name) \<noteq> None" by (rule kids_nodes)
  ultimately show ?thesis by (simp add: child_named_def)
qed

lemma retry_step:
  assumes "tree_ok s" and "resolution_at s res = Some r" and "node_at s (pr_current_node r) \<noteq> None"
  defines "p \<equiv> pr_current_node r" and "part \<equiv> name_at s (pr_current_part r)"
  defines "x \<equiv> child_named s p part"
  shows "vfs_retry_resolution c res s = Inl (Panic ''out of mem'')
    \<or> vfs_retry_resolution c res s =
        (if part = [] then Inr (RESOLUTION_OK, s)
         else if \<not> is_directory s p then Inr (RESOLUTION_ISFILE, s)
         else if x = 0 then Inr (RESOLUTION_NOTFOUND, s)
         else Inr (RESOLUTION_OK, (bump x s)\<lparr>resolution_at := (resolution_at s)(res \<mapsto> r\<lparr>pr_current_node := x\<rparr>)\<rparr>))"
proof -
  obtain n where n: "node_at s p = Some n" using assms(3) by (auto simp: p_def)
  have empty: "strcmp (char_int True) (mem_str s (pr_current_part r)) [0] = 0 \<longleftrightarrow> part = []"
    unfolding promo.strcmp_eq_0 by (simp add: part_def name_at_def cstr_def)
  show ?thesis
  proof (cases "part = [] \<or> \<not> is_directory s p")
    case True
    then show ?thesis using assms(2) n empty
      by (auto simp: vfs_retry_resolution_def kernel_simps p_def [symmetric] is_directory_def)
  next
    case False
    then have dir: "is_directory s p" and flag: "n_flags n AND DIRECTORY \<noteq> 0" and ne: "part \<noteq> []"
      using n by (auto simp: is_directory_def)
    from lookup_roundtrip [OF assms(1) dir, of x "pr_current_part r" c]
    consider (oom) "directory_open c p HANDLE_READ s = Inl (Panic ''out of mem'')"
      | (found) h u where "directory_open c p HANDLE_READ s = Inr (h, u)" "h \<noteq> 0"
        "directory_find_node c h (pr_current_part r) u = Inr (x, if x = 0 then u else bump x u)"
        "directory_close h (if x = 0 then u else bump x u) = Inr ((), if x = 0 then s else bump x s)"
      by (auto simp: x_def part_def)
    then show ?thesis
    proof cases
      case oom
      then show ?thesis using assms(2) n empty ne flag
        by (simp add: vfs_retry_resolution_def kernel_simps p_def [symmetric])
    next
      case found
      then show ?thesis using assms(2) n empty ne flag dir
        by (cases "x = 0") (simp_all add: vfs_retry_resolution_def kernel_simps p_def [symmetric] bump_def)
    qed
  qed
qed

text \<open>What a resolution step may have changed: reference counts and the resolution itself.\<close>

definition refs_only :: "'z fs_scheme \<Rightarrow> 'z fs_scheme \<Rightarrow> bool" where
  "refs_only s t \<longleftrightarrow> t = s\<lparr>node_at := node_at t, resolution_at := resolution_at t\<rparr> \<and> same_nodes s t"

lemma refs_only_trans: "refs_only s t \<Longrightarrow> refs_only t u \<Longrightarrow> refs_only s u"
proof -
  assume "refs_only s t" "refs_only t u"
  then have t: "t = s\<lparr>node_at := node_at t, resolution_at := resolution_at t\<rparr>"
    and u: "u = t\<lparr>node_at := node_at u, resolution_at := resolution_at u\<rparr>" and n: "same_nodes s u"
    using same_nodes_trans by (auto simp: refs_only_def)
  have "u = s\<lparr>node_at := node_at u, resolution_at := resolution_at u\<rparr>"
    by (subst u, subst t) simp
  then show ?thesis using n by (simp add: refs_only_def)
qed

lemma refs_only_fields:
  assumes "refs_only s t"
  shows "mem t = mem s" "directory_at t = directory_at s" "heap_inv t = heap_inv s" "live t = live s"
    "same_tree s t"
proof -
  have t: "t = s\<lparr>node_at := node_at t, resolution_at := resolution_at t\<rparr>" and n: "same_nodes s t"
    using assms by (auto simp: refs_only_def)
  show m: "mem t = mem s" "directory_at t = directory_at s" by (subst t, simp)+
  show "heap_inv t = heap_inv s" by (subst t) (simp add: heap_inv_def)
  show "live t = live s" by (subst t) (simp add: live_def block_addr_def)
  show "same_tree s t" using n m name_at_cong [OF m(1)] by (simp add: same_tree_def)
qed

lemma tree_ok_resolution [simp]: "tree_ok (s\<lparr>resolution_at := x\<rparr>) = tree_ok s"
proof -
  have c: "child_list (s\<lparr>resolution_at := x\<rparr>) p xs = child_list s p xs" for p xs
    by (rule child_list_cong) simp
  have "handles_of (s\<lparr>resolution_at := x\<rparr>) p f = handles_of s p f" for p f by (simp add: handles_of_def)
  then have "fs_inv (s\<lparr>resolution_at := x\<rparr>) = fs_inv s"
    by (simp add: fs_inv_def no_open_def counts_ok_def handle_ok_def heap_inv_def live_def block_addr_def)
  then show ?thesis by (simp add: tree_ok_def is_directory_def dir_ok_def own_op_def c)
qed

text \<open>What the loop over the parts comes to, from a state and a node.\<close>

definition walk_outcome ::
  "('z fs_scheme) fs_calls \<Rightarrow> ptr \<Rightarrow> 'z fs_scheme \<Rightarrow> ptr \<Rightarrow> ptr \<Rightarrow> u8 list list \<Rightarrow> bool" where
  "walk_outcome c res s path p parts \<longleftrightarrow>
     advance_all c res s = Some (Inl (Panic ''out of mem''))
     \<or> (\<exists>status t r'. advance_all c res s = Some (Inr (status, t)) \<and> refs_only s t
        \<and> resolution_at t = (resolution_at s)(res \<mapsto> r') \<and> pr_path r' = path
        \<and> walk s p parts = (if status = RESOLUTION_END then pr_current_node r' else 0))"

lemma walk_outcome_step:
  assumes "walk_outcome c res t path q zs" and "refs_only s t"
    and "resolution_at t = (resolution_at s)(res \<mapsto> r)" and "advance_all c res s = advance_all c res t"
    and "walk s p parts = walk s q zs"
  shows "walk_outcome c res s path p parts"
proof -
  have "walk t q zs = walk s q zs" by (rule same_tree_walk [OF refs_only_fields(5) [OF assms(2)]])
  then have w: "walk t q zs = walk s p parts" using assms(5) by simp
  show ?thesis
  proof (cases "advance_all c res t = Some (Inl (Panic ''out of mem''))")
    case True
    then show ?thesis using assms(4) by (simp add: walk_outcome_def)
  next
    case False
    then obtain status u r' where u: "advance_all c res t = Some (Inr (status, u))" "refs_only t u"
      "resolution_at u = (resolution_at t)(res \<mapsto> r')" "pr_path r' = path"
      "walk t q zs = (if status = RESOLUTION_END then pr_current_node r' else 0)"
      using assms(1) unfolding walk_outcome_def by blast
    have "resolution_at u = (resolution_at s)(res \<mapsto> r')" using u(3) assms(3) by simp
    then show ?thesis
      using u(1,4,5) refs_only_trans [OF assms(2) u(2)] assms(4) w unfolding walk_outcome_def by metis
  qed
qed

lemma tree_ok_bump: "tree_ok s \<Longrightarrow> tree_ok (bump x s)"
  by (rule tree_ok_same [OF _ same_nodes_bump]) (simp_all add: tree_ok_def fs_inv_bump, simp add: bump_def)

lemma refs_only_resolution: "refs_only s (s\<lparr>resolution_at := z\<rparr>)"
  by (simp add: refs_only_def same_nodes_def)

lemma advance_all_walk:
  assumes "tree_ok s" and "resolution_at s res = Some r" and "node_at s (pr_current_node r) \<noteq> None"
    and "at_part s r (x # rest)"
  shows "walk_outcome c res s (pr_path r) (pr_current_node r) rest"
  using assms
proof (induction rest arbitrary: s r x)
  case Nil
  let ?r = "r\<lparr>pr_current_part := pr_end r\<rparr>"
  let ?s = "s\<lparr>resolution_at := (resolution_at s)(res \<mapsto> ?r)\<rparr>"
  have "advance_all c res s = Some (Inr (RESOLUTION_END, ?s))" using Nil
    by (subst advance_all.simps) (simp add: advance_end RESOLUTION_END_def RESOLUTION_OK_def)
  then show ?case using refs_only_resolution unfolding walk_outcome_def
    by (intro disjI2 exI [of _ RESOLUTION_END] exI [of _ ?s] exI [of _ ?r]) simp
next
  case (Cons y zs)
  let ?r = "r\<lparr>pr_current_part := pr_current_part r + of_nat (length x) + 1\<rparr>"
  let ?s = "s\<lparr>resolution_at := (resolution_at s)(res \<mapsto> ?r)\<rparr>"
  let ?p = "pr_current_node r"
  note nx = advance_next [OF Cons.prems(2,4)]
  have name: "name_at ?s (pr_current_part ?r) = y" using nx(3) name_at_cong [of ?s s] by simp
  have child: "child_named ?s q nm = child_named s q nm" "is_directory ?s q = is_directory s q" for q nm
    using same_tree_child [of s ?s] same_tree_directory [of s ?s] name_at_cong [of ?s s]
    by (simp_all add: same_tree_def same_nodes_def)
  let ?c = "child_named s ?p y"
  from retry_step [of ?s res ?r c, unfolded name] Cons.prems(1,3) child
  consider (oom) "vfs_advance_resolution c res s = Inl (Panic ''out of mem'')"
    | (empty) "y = []" "vfs_advance_resolution c res s = Inr (RESOLUTION_OK, ?s)"
    | (stop) status where "status \<noteq> RESOLUTION_OK" "status \<noteq> RESOLUTION_END" "y \<noteq> []"
        "\<not> is_directory s ?p \<or> ?c = 0" "vfs_advance_resolution c res s = Inr (status, ?s)"
    | (go) "y \<noteq> []" "is_directory s ?p" "?c \<noteq> 0" "vfs_advance_resolution c res s = Inr (RESOLUTION_OK,
        (bump ?c ?s)\<lparr>resolution_at := (resolution_at s)(res \<mapsto> ?r\<lparr>pr_current_node := ?c\<rparr>)\<rparr>)"
    unfolding nx(1)
    by (auto split: if_splits simp: RESOLUTION_OK_def RESOLUTION_END_def RESOLUTION_ISFILE_def RESOLUTION_NOTFOUND_def)
  then show ?case
  proof cases
    case oom
    then have "advance_all c res s = Some (Inl (Panic ''out of mem''))" by (subst advance_all.simps) simp
    then show ?thesis by (simp add: walk_outcome_def)
  next
    case empty
    have "at_part ?s ?r (y # zs)" using nx(2) by (simp add: at_part_def)
    with Cons.IH [of ?s ?r y] Cons.prems have "walk_outcome c res ?s (pr_path r) ?p zs" by simp
    moreover have "advance_all c res s = advance_all c res ?s"
      using empty(2) by (subst advance_all.simps) simp
    ultimately show ?thesis
      using walk_outcome_step [OF _ refs_only_resolution, of c res _ _ "pr_path r" ?p zs ?r ?p "y # zs"] empty(1) by simp
  next
    case stop
    then have "advance_all c res s = Some (Inr (status, ?s))" by (subst advance_all.simps) simp
    moreover have "walk s ?p (y # zs) = 0" using stop by auto
    ultimately show ?thesis using stop(2) refs_only_resolution unfolding walk_outcome_def
      by (intro disjI2 exI [of _ status] exI [of _ ?s] exI [of _ ?r]) simp
  next
    case go
    let ?t = "(bump ?c ?s)\<lparr>resolution_at := (resolution_at s)(res \<mapsto> ?r\<lparr>pr_current_node := ?c\<rparr>)\<rparr>"
    have st: "refs_only s ?t"
      using same_nodes_bump [of s ?c] by (simp add: refs_only_def bump_def same_nodes_def)
    have "?t = (bump ?c s)\<lparr>resolution_at := resolution_at ?t\<rparr>" by (simp add: bump_def)
    then have "tree_ok ?t" using tree_ok_bump [OF Cons.prems(1)] tree_ok_resolution by metis
    moreover have "node_at ?t ?c \<noteq> None"
      using child_named_node [OF go(3)] by (auto simp: bump_def)
    moreover have "at_part ?t (?r\<lparr>pr_current_node := ?c\<rparr>) (y # zs)" using nx(2) by (simp add: at_part_def bump_def)
    ultimately have "walk_outcome c res ?t (pr_path r) ?c zs"
      using Cons.IH [of ?t "?r\<lparr>pr_current_node := ?c\<rparr>" y] by simp
    moreover have "advance_all c res s = advance_all c res ?t"
      using go(4) by (subst advance_all.simps) simp
    moreover have "walk s ?p (y # zs) = walk s ?c zs" using go by simp
    ultimately show ?thesis
      using walk_outcome_step [OF _ st, of c res "pr_path r" ?c zs "?r\<lparr>pr_current_node := ?c\<rparr>" ?p "y # zs"] by simp
  qed
qed

section \<open>Resolving a path\<close>

text \<open>The names of the nodes are where allocations do not reach.\<close>

definition safe_name :: "'z heap_scheme \<Rightarrow> ptr \<Rightarrow> bool" where
  "safe_name s q \<longleftrightarrow> length (name_at s q) < 65536 \<and> (\<forall>i \<le> length (name_at s q). reserved s (unat (q + of_nat i)))"

definition safe_names :: "'z fs_scheme \<Rightarrow> bool" where
  "safe_names s \<longleftrightarrow> (\<forall>p n. node_at s p = Some n \<longrightarrow> safe_name s (n_name n))"

lemma bytes_of_name:
  assumes "length (name_at s q) < 65536"
  shows "bytes_at 0x0050 q (Suc (length (name_at s q))) (mem s) = name_at s q @ [0]"
proof -
  let ?b = "bytes_at 0x0050 q 65536 (mem s)" and ?P = "\<lambda>c :: u8. c \<noteq> 0"
  have n: "name_at s q = takeWhile ?P ?b" by (simp add: name_at_def mem_str_def cstr_def)
  have "length (takeWhile ?P ?b) < length ?b" using assms unfolding n bytes_at_length .
  have "dropWhile ?P ?b \<noteq> []"
  proof
    assume "dropWhile ?P ?b = []"
    then have "takeWhile ?P ?b = ?b" using takeWhile_dropWhile_id [of ?P ?b] by (simp only: append_Nil2)
    then have "length (takeWhile ?P ?b) = length ?b" by (simp only:)
    then show False using \<open>length (takeWhile ?P ?b) < length ?b\<close> by linarith
  qed
  then obtain y ys where y: "dropWhile ?P ?b = y # ys" by (cases "dropWhile ?P ?b") auto
  then have "y = 0" using hd_dropWhile [of ?P ?b] by simp
  then have ys: "dropWhile ?P ?b = 0 # ys" using y by simp
  have "?b = (name_at s q @ [0]) @ ys" using takeWhile_dropWhile_id [of ?P ?b] unfolding n ys by simp
  from bytes_at_append(1) [OF this] show ?thesis by simp
qed

lemma name_at_keep:
  assumes "safe_name s q" and "\<And>i. i \<le> length (name_at s q) \<Longrightarrow> mem t (linear 0x0050 (q + of_nat i)) = mem s (linear 0x0050 (q + of_nat i))"
  shows "name_at t q = name_at s q"
proof (rule name_at_bytes)
  have len: "length (name_at s q) < 65536" using assms(1) by (simp add: safe_name_def)
  have "bytes_at 0x0050 q (Suc (length (name_at s q))) (mem t) = bytes_at 0x0050 q (Suc (length (name_at s q))) (mem s)"
    unfolding bytes_at_def by (intro map_cong refl) (use assms(2) in auto)
  then show "bytes_at 0x0050 q (Suc (length (name_at s q))) (mem t) = name_at s q @ [0]"
    using bytes_of_name [OF len] by simp
  show "0 \<notin> set (name_at s q)" by (auto simp: name_at_def cstr_def dest: set_takeWhileD)
  show "length (name_at s q) < 65536" by (rule len)
qed

lemma free_all_objects:
  assumes "free h s = Inr (u, s1)"
  shows "free h (s\<lparr>mem := x, node_at := y, resolution_at := z\<rparr>) =
     Inr (u, s1\<lparr>mem := x, node_at := y, resolution_at := z\<rparr>)"
proof -
  have "free h (s\<lparr>mem := x, node_at := y, resolution_at := z\<rparr>) =
     (case free h s of Inl e \<Rightarrow> Inl e
      | Inr (u, s1) \<Rightarrow> Inr (u, s1\<lparr>mem := x, node_at := y, resolution_at := z\<rparr>))"
    by (simp add: free_def split: option.split prod.split)
  then show ?thesis using assms by simp
qed

lemma fs_inv_grow:
  assumes "fs_inv s" and "live s \<subseteq> live t" and "heap_inv t"
    and "handle_at t = handle_at s" and "position_at t = position_at s" and "node_at t = node_at s"
    and "file_at t = file_at s" and "directory_at t = directory_at s"
  shows "fs_inv t"
proof -
  have "handles_of t p f = handles_of s p f" for p f using assms(4) by (simp add: handles_of_def)
  moreover have "handle_ok s h \<Longrightarrow> handle_ok t h" for h using assms(2,4-6) by (auto simp: handle_ok_def)
  ultimately show ?thesis using assms by (simp add: fs_inv_def no_open_def counts_ok_def)
qed

lemma same_tree_trans:
  assumes "same_tree s t" and "same_tree t u"
  shows "same_tree s u"
proof -
  have "name_at u (n_name n) = name_at s (n_name n)" if n: "node_at s p = Some n" for p n
  proof -
    obtain k where k: "node_at t p = Some k" "n_name k = n_name n"
      using same_nodesD [of t s p n] same_nodes_sym [of s t] assms(1) n by (auto simp: same_tree_def)
    then have "name_at u (n_name k) = name_at t (n_name k)" using assms(2) k(1) unfolding same_tree_def by blast
    moreover have "name_at t (n_name n) = name_at s (n_name n)" using assms(1) n unfolding same_tree_def by blast
    ultimately show ?thesis using k(2) by simp
  qed
  then show ?thesis using assms same_nodes_trans [of s t u] by (simp add: same_tree_def)
qed

text \<open>The state in which the loop over the parts starts.\<close>

text \<open>A resolution that has been set up, in the state \<open>begun s s2 m res r\<close>.\<close>

definition begun :: "'z fs_scheme \<Rightarrow> 'z fs_scheme \<Rightarrow> (nat \<Rightarrow> u8) \<Rightarrow> ptr \<Rightarrow> path_resolution \<Rightarrow> 'z fs_scheme" where
  "begun s s2 m res r = s2\<lparr>mem := m, resolution_at := (resolution_at s)(res \<mapsto> r)\<rparr>"

definition started ::
  "'z fs_scheme \<Rightarrow> ptr \<Rightarrow> ptr \<Rightarrow> ptr \<Rightarrow> 'z fs_scheme \<Rightarrow> 'z fs_scheme \<Rightarrow> (nat \<Rightarrow> u8) \<Rightarrow> path_resolution \<Rightarrow> bool" where
  "started s path res cp s1 s2 m r \<longleftrightarrow>
     malloc SIZEOF_RESOLUTION s = Inr (res, s1) \<and> malloc (strlen (mem_str s path) + 1) s1 = Inr (cp, s2)
     \<and> vfs_start_resolve path s = Inr (res, begun s s2 m res r)
     \<and> pr_path r = cp \<and> pr_current_node r = vfs_root s
     \<and> at_part (begun s s2 m res r) r (path_parts (name_at s path))
     \<and> (\<forall>p n. node_at s p = Some n \<longrightarrow> name_at (s\<lparr>mem := m\<rparr>) (n_name n) = name_at s (n_name n))"

text \<open>What is written into the copy of the path changes no name.\<close>

lemma copy_keeps_name:
  assumes inv: "heap_inv s" and m1: "malloc k s = Inr (res, s1)" and m2: "malloc sz s1 = Inr (cp, s2)"
    and size: "unat sz = Suc n" and safe: "safe_name s q"
    and out: "\<And>a. (\<And>j. j \<le> n \<Longrightarrow> a \<noteq> linear 0x0050 (cp + of_nat j)) \<Longrightarrow> m a = mem s a"
  shows "name_at (s\<lparr>mem := m\<rparr>) q = name_at s q"
proof (rule name_at_keep [OF safe])
  fix i
  assume i: "i \<le> length (name_at s q)"
  let ?a = "q + of_nat i"
  have inv1: "heap_inv s1" by (rule heap_alloc.alloc_ok [OF inv m1])
  have inv2: "heap_inv s2" by (rule heap_alloc.alloc_ok [OF inv1 m2])
  have "reserved s (unat ?a)" using safe i by (simp add: safe_name_def)
  then have "reserved s1 (unat ?a)" by (rule malloc_reserved(2) [OF inv m1])
  from malloc_reserved(1) [OF inv1 m2 this]
  have apart: "\<not> (unat cp \<le> unat ?a \<and> unat ?a < unat cp + Suc n)" by (simp only: size not_False_eq_True)
  have "linear 0x0050 ?a \<noteq> linear 0x0050 (cp + of_nat j)" if "j \<le> n" for j
  proof -
    obtain k where k: "unat sz \<le> k" "live s2 = insert (unat cp, k) (live s1)"
      using heap_alloc.alloc_fresh [OF inv1 m2] by blast
    have "unat cp + k < 65536" using live_bounded [OF inv2, of "(unat cp, k)"] k(2) by simp
    then have "unat (cp + of_nat j) = unat cp + j"
      using that k(1) size by (subst unat_add16_small) (simp_all add: unat_of_nat take_bit_eq_mod)
    then show ?thesis using apart that unfolding linear_inject by auto
  qed
  then show "mem (s\<lparr>mem := m\<rparr>) (linear 0x0050 ?a) = mem s (linear 0x0050 ?a)" using out by simp
qed

text \<open>The copy with the separators turned into terminators.\<close>

lemma copied_path:
  assumes "length nm < 65535" and zero: "0 \<notin> set nm"
  obtains m where "zero_separators cp (store_bytes 0x0050 cp (nm @ [0]) M) = Some m"
    "bytes_at 0x0050 cp (Suc (length nm)) m = map separator nm @ [0]"
    "\<And>a. (\<And>j. j \<le> length nm \<Longrightarrow> a \<noteq> linear 0x0050 (cp + of_nat j)) \<Longrightarrow> m a = M a"
proof -
  let ?m = "store_bytes 0x0050 cp (nm @ [0]) M"
  have "bytes_at 0x0050 cp (Suc (length nm)) ?m = nm @ [0]"
    using bytes_at_store_bytes [of "nm @ [0]"] assms(1) by simp
  from zero_separators_eq [OF this zero] assms(1) obtain m where m: "zero_separators cp ?m = Some m"
    "bytes_at 0x0050 cp (Suc (length nm)) m = map separator nm @ [0]"
    "\<forall>a. (\<forall>i < length nm. a \<noteq> linear 0x0050 (cp + of_nat i)) \<longrightarrow> m a = ?m a" by auto
  moreover have "m a = M a" if "\<And>j. j \<le> length nm \<Longrightarrow> a \<noteq> linear 0x0050 (cp + of_nat j)" for a
    using m(3) that store_bytes_other [of "nm @ [0]" a "0x0050" cp M] by simp
  ultimately show ?thesis using that by blast
qed

lemma start_resolve:
  assumes inv: "heap_inv s" and names: "safe_names s" and len: "length (name_at s path) < 65535"
  shows "vfs_start_resolve path s = Inl (Panic ''out of mem'') \<or> (\<exists>res cp s1 s2 m r. started s path res cp s1 s2 m r)"
proof -
  let ?nm = "name_at s path"
  define sz where "sz = strlen (mem_str s path) + 1"
  have sz: "sz = of_nat (length ?nm) + 1" by (simp add: sz_def strlen_eq name_at_def)
  then have "sz = of_nat (Suc (length ?nm))" by simp
  then have usize: "unat sz = Suc (length ?nm)" using len by (simp only:) (intro unat_of_nat_16, simp)
  have zero: "0 \<notin> set ?nm" by (auto simp: name_at_def cstr_def dest: set_takeWhileD)
  note alloc = heap_alloc.alloc_ok heap_alloc.alloc_nonnull
  consider (first) e where "malloc SIZEOF_RESOLUTION s = Inl e"
    | (second) res s1 e where "malloc SIZEOF_RESOLUTION s = Inr (res, s1)" "malloc sz s1 = Inl e"
    | (both) res s1 cp s2 where "malloc SIZEOF_RESOLUTION s = Inr (res, s1)" "malloc sz s1 = Inr (cp, s2)"
    by (metis old.prod.exhaust sum.exhaust)
  then show ?thesis
  proof cases
    case first
    then show ?thesis using malloc_panic [OF inv first] by (simp add: vfs_start_resolve_def kernel_simps sz_def [symmetric])
  next
    case second
    then show ?thesis using malloc_panic [OF alloc(1) [OF inv second(1)] second(2)] alloc(2) [OF inv second(1)]
      by (simp add: vfs_start_resolve_def kernel_simps sz_def [symmetric])
  next
    case both
    note m1 = both(1) and m2 = both(2)
    obtain b u where s2: "s2 = s\<lparr>bitmap := b, used_bytes := u\<rparr>"
      using malloc_frame [OF m1] malloc_frame [OF m2] by auto
    obtain m where m: "zero_separators cp (store_bytes 0x0050 cp (?nm @ [0]) (mem s)) = Some m"
      "bytes_at 0x0050 cp (Suc (length ?nm)) m = map separator ?nm @ [0]"
      "\<And>a. (\<And>j. j \<le> length ?nm \<Longrightarrow> a \<noteq> linear 0x0050 (cp + of_nat j)) \<Longrightarrow> m a = mem s a"
      using copied_path [OF len zero, of cp "mem s"] by blast
    let ?r = "\<lparr>pr_path = cp, pr_end = cp + sz - 1, pr_current_part = cp, pr_current_node = vfs_root s\<rparr>"
    have "fst (strcpy (mem_str s2 path)) = ?nm @ [0]"
      by (simp add: strcpy_def strcpy_loop_cstr name_at_def mem_str_def s2 Let_def)
    then have cs: "copy_string cp path s2 = s2\<lparr>mem := store_bytes 0x0050 cp (?nm @ [0]) (mem s)\<rparr>"
      by (simp add: copy_string_def s2)
    moreover have "split_path cp (s2\<lparr>mem := store_bytes 0x0050 cp (?nm @ [0]) (mem s)\<rparr>) = Inr ((), s2\<lparr>mem := m\<rparr>)"
      using m(1) by (simp add: split_path_def)
    moreover have "vfs_root s2 = vfs_root s" "resolution_at s2 = resolution_at s" by (simp_all add: s2)
    ultimately have "vfs_start_resolve path s = Inr (res, begun s s2 m res ?r)"
      using m1 m2 alloc(2) [OF inv m1] alloc(2) [OF alloc(1) [OF inv m1] m2]
      by (simp add: vfs_start_resolve_def kernel_simps sz_def [symmetric] begun_def)
    moreover have "at_part (begun s s2 m res ?r) ?r (path_parts ?nm)"
      using m(2) len path_parts_no_zero [OF zero] by (simp add: at_part_def join_path_parts [symmetric] sz begun_def)
    moreover have "name_at (s\<lparr>mem := m\<rparr>) (n_name n) = name_at s (n_name n)" if "node_at s p = Some n" for p n
      using names that by (intro copy_keeps_name [OF inv m1 m2 usize _ m(3)]) (auto simp: safe_names_def)
    ultimately have "started s path res cp s1 s2 m ?r" using m1 m2 by (simp add: started_def sz_def)
    then show ?thesis by blast
  qed
qed

text \<open>Setting up the resolution leaves the tree of nodes alone.\<close>

lemma started_tree:
  assumes tree: "tree_ok s" and st: "started s path res cp s1 s2 m r"
  shows "same_tree s (begun s s2 m res r)" and "tree_ok (begun s s2 m res r)"
proof -
  let ?t = "begun s s2 m res r"
  have inv: "heap_inv s" using tree by (simp add: tree_ok_def fs_inv_def)
  have m1: "malloc SIZEOF_RESOLUTION s = Inr (res, s1)" and m2: "malloc (strlen (mem_str s path) + 1) s1 = Inr (cp, s2)"
    using st by (simp_all add: started_def)
  note inv1 = heap_alloc.alloc_ok [OF inv m1]
  obtain b u where s2: "s2 = s\<lparr>bitmap := b, used_bytes := u\<rparr>"
    using malloc_frame [OF m1] malloc_frame [OF m2] by auto
  show same: "same_tree s ?t"
    using st name_at_cong [of ?t "s\<lparr>mem := m\<rparr>"] by (simp add: started_def begun_def same_tree_def same_nodes_def s2)
  have lv: "live ?t = live s2" "heap_inv ?t = heap_inv s2"
    by (simp_all add: begun_def live_def block_addr_def heap_inv_def)
  have "fs_inv ?t"
  proof (rule fs_inv_grow [of s])
    show "fs_inv s" using tree by (simp add: tree_ok_def)
    show "live s \<subseteq> live ?t" unfolding lv
      using heap_alloc.alloc_keeps [OF inv m1] heap_alloc.alloc_keeps [OF inv1 m2] by blast
    show "heap_inv ?t" unfolding lv by (rule heap_alloc.alloc_ok [OF inv1 m2])
  qed (simp_all add: s2 begun_def)
  then show "tree_ok ?t"
    using same unfolding same_tree_def by (intro tree_ok_same [OF tree]) blast+
qed

text \<open>After the walk the two blocks are given back, and the tree is still the same.\<close>

lemma started_free:
  assumes tree: "tree_ok s" and st: "started s path res cp s1 s2 m r"
    and v: "refs_only (begun s s2 m res r) v" "resolution_at v = (resolution_at (begun s s2 m res r))(res \<mapsto> r')" "pr_path r' = cp"
  defines "w \<equiv> s\<lparr>mem := m, node_at := node_at v, resolution_at := (resolution_at v)(res := None)\<rparr>"
  shows "vfs_free_path_resolution res v = Inr ((), w)" and "same_tree s w"
proof -
  have inv: "heap_inv s" using tree by (simp add: tree_ok_def fs_inv_def)
  have m1: "malloc SIZEOF_RESOLUTION s = Inr (res, s1)" and m2: "malloc (strlen (mem_str s path) + 1) s1 = Inr (cp, s2)"
    using st by (simp_all add: started_def)
  have veq: "v = s2\<lparr>mem := m, node_at := node_at v, resolution_at := resolution_at v\<rparr>"
    using v(1) unfolding refs_only_def begun_def by (elim conjE) (erule ssubst, simp)
  have "free cp v = Inr ((), s1\<lparr>mem := m, node_at := node_at v, resolution_at := resolution_at v\<rparr>)"
    by (subst veq) (rule free_all_objects [OF free_malloc_restores [OF heap_alloc.alloc_ok [OF inv m1] m2]])
  moreover have "free res (s1\<lparr>mem := m, node_at := node_at v, resolution_at := resolution_at v\<rparr>)
      = Inr ((), s\<lparr>mem := m, node_at := node_at v, resolution_at := resolution_at v\<rparr>)"
    by (rule free_all_objects [OF free_malloc_restores [OF inv m1]])
  moreover have "resolution_at v res = Some r'" using v(2) by simp
  ultimately show "vfs_free_path_resolution res v = Inr ((), w)"
    using v(3) by (simp add: vfs_free_path_resolution_def kernel_simps w_def)
  obtain b u where s2: "s2 = s\<lparr>bitmap := b, used_bytes := u\<rparr>"
    using malloc_frame [OF m1] malloc_frame [OF m2] by auto
  have "directory_at v = directory_at s" by (subst veq) (simp add: s2)
  moreover have "same_tree s v" using started_tree(1) [OF tree st] refs_only_fields(5) [OF v(1)] by (rule same_tree_trans)
  moreover have "mem v = m" by (subst veq) simp
  ultimately show "same_tree s w"
    using name_at_cong [of w v] by (simp add: same_tree_def same_nodes_def w_def)
qed


section \<open>Witnesses\<close>

text \<open>The root of \<open>some_files\<close> with a file called \<open>a\<close>, and the path \<open>/a\<close>.\<close>

definition some_tree :: fs where
  "some_tree = some_files\<lparr>mem := (\<lambda>_. 0)(linear 0x0050 0x700 := 0x61, linear 0x0050 0x740 := 0x2f, linear 0x0050 0x741 := 0x61)\<rparr>"

lemma some_tree_names: "name_at some_tree 0x700 = [0x61]" "name_at some_tree 0x710 = []"
  "name_at some_tree 0x740 = [0x2f, 0x61]"
  by (rule name_at_bytes; simp add: some_tree_def bytes_at_Suc linear_def)+

lemma some_tree_objects:
  "node_at some_tree = [0x500 \<mapsto> plain_node FILE 0x700, 0x600 \<mapsto> plain_node DIRECTORY 0x710]"
  "directory_at some_tree = [0x600 \<mapsto> \<lparr>d_ops = None, d_child = 0x500, d_redirect = 0\<rparr>]"
  "vfs_root some_tree = 0x600"
  by (simp_all add: some_tree_def)

lemma some_tree_kids: "child_list some_tree 0x500 [0x500]"
  by (simp add: some_tree_objects plain_node_def)

lemma some_tree_ok: "tree_ok some_tree"
proof -
  have "fs_inv some_tree"
    using some_files_inv by (rule fs_inv_grow) (simp_all add: some_tree_def heap_inv_def live_def block_addr_def, use demo_heap_inv2 in \<open>simp add: heap_inv_def\<close>)
  moreover have "dir_ok some_tree p" if "is_directory some_tree p" for p
  proof -
    have "p = 0x600" using that
      by (auto simp: is_directory_def some_tree_def plain_node_def FILE_def DIRECTORY_def split: if_splits)
    moreover have "dir_ok some_tree 0x600" unfolding dir_ok_def using some_tree_kids
      by (intro exI [of _ "[0x500]"] exI conjI)
        (auto simp: redirected_def own_op_def some_tree_objects, simp_all add: plain_node_def)
    ultimately show ?thesis by simp
  qed
  ultimately show ?thesis by (simp add: tree_ok_def)
qed

lemma some_tree_safe: "safe_names some_tree"
proof -
  have "reserved some_tree a" if "a < 0x1000" for a
    using that by (simp add: reserved_def some_tree_def) (simp add: take_block_def demo_heap_def)
  then have "safe_name some_tree 0x700" "safe_name some_tree 0x710"
    by (simp_all add: safe_name_def some_tree_names le_Suc_eq)
  then show ?thesis by (auto simp: safe_names_def some_tree_def plain_node_def split: if_splits)
qed


end
