(* ===== verification/Block.thy ===== *)
theory Block
  imports Vfs
begin

text \<open>
  Block files, \<^verbatim>\<open>kernel/fs/block.c\<close>: reads of any position and length are served block by
  block, through a cache of two blocks.  The specification is the content of the device as a
  function from block numbers to bytes; what the driver does is a parameter.
\<close>

unbundle bit_operations_syntax

section \<open>Operations\<close>

definition CACHED_BLOCKS :: nat where "CACHED_BLOCKS = 2"

definition SIZEOF_BLOCK_FILE :: u16 where "SIZEOF_BLOCK_FILE = 18"

definition block_ops :: file_ops where
  "block_ops = \<lparr>fo_open = Null, fo_read = Blockfile_read, fo_write = Blockfile_write\<rparr>"

text \<open>
  \<open>realloc\<close> of an object: the common part of the structure moves with the bytes, and the larger
  structure is found at the new address.
\<close>

definition move_object :: "ptr \<Rightarrow> ptr \<Rightarrow> 'z fs_scheme \<Rightarrow> 'z fs_scheme" where
  "move_object old new s =
     s\<lparr>node_at := (node_at s)(new := node_at s old, old := None),
       file_at := (file_at s)(new := file_at s old, old := None),
       directory_at := (directory_at s)(new := directory_at s old, old := None)\<rparr>"

definition realloc_object :: "ptr \<Rightarrow> u16 \<Rightarrow> ('z fs_scheme, ptr) kmon" where
  "realloc_object old n =
     bindK (realloc old n) (\<lambda>new.
       thenK (whenK (new \<noteq> 0) (modifyK (move_object old new))) (retK new))"

definition blockfile_create_node ::
  "ptr \<Rightarrow> u16 \<Rightarrow> block_file_ops option \<Rightarrow> u16 \<Rightarrow> ('z fs_scheme, ptr) kmon" where
  "blockfile_create_node name flags ops block_size_exponent =
     bindK (file_create_node name flags (Some block_ops)) (\<lambda>file.
     bindK (realloc_object file SIZEOF_BLOCK_FILE) (\<lambda>block_file.
     thenK
       (if block_file \<noteq> 0 then
          modifyK (\<lambda>s. s\<lparr>block_file_at := (block_file_at s)(block_file \<mapsto>
            \<lparr>b_exponent = block_size_exponent, b_ops = ops\<rparr>)\<rparr>)
        else free file)
       (retK block_file)))"

text \<open>The two searches of the cache; each gives the length of the cache when it finds nothing.\<close>

fun find_cached :: "ptr \<Rightarrow> Uint64 \<Rightarrow> cached_block list \<Rightarrow> nat" where
  "find_cached file block [] = 0"
| "find_cached file block (e # es) =
     (if cb_file e = file \<and> cmp64 block (cb_block e) = 0 then 0 else Suc (find_cached file block es))"

fun find_empty :: "cached_block list \<Rightarrow> nat" where
  "find_empty [] = 0"
| "find_empty (e # es) = (if cb_buffer e = 0 then 0 else Suc (find_empty es))"

definition put_cached :: "ptr \<Rightarrow> Uint64 \<Rightarrow> ptr \<Rightarrow> ('z fs_scheme, nat) kmon" where
  "put_cached file block tmp =
     bindK (getK (\<lambda>s. find_empty (block_cache s))) (\<lambda>i.
     thenK (modifyK (\<lambda>s. s\<lparr>block_cache := (block_cache s)
         [i := \<lparr>cb_block = set64 (cb_block (block_cache s ! i)) block, cb_file = file, cb_buffer = tmp\<rparr>]\<rparr>))
       (retK i))"

text \<open>The variables of the loop: \<open>buffer\<close>, \<open>done\<close>, \<open>block\<close>, \<open>tmp\<close> and \<open>buffer_used\<close>.\<close>

record progress =
  pg_buffer :: ptr
  pg_done :: u16
  pg_block :: Uint64
  pg_tmp :: ptr
  pg_used :: nat

type_synonym 's block_calls = "fn \<Rightarrow> ptr \<Rightarrow> ptr \<Rightarrow> Uint64 \<Rightarrow> ('s, u16) kmon"

definition fetch_block ::
  "('z fs_scheme) block_calls \<Rightarrow> ptr \<Rightarrow> ptr \<Rightarrow> u16 \<Rightarrow> Uint64 \<Rightarrow> ('z fs_scheme, ptr) kmon" where
  "fetch_block rd file handle blk_size block =
     bindK (malloc blk_size) (\<lambda>tmp.
       if tmp = 0 then retK 0
       else bindK (lookupK block_file_at file) (\<lambda>bf.
              case b_ops bf of
                None \<Rightarrow> failK (BadPtr 0)
              | Some t \<Rightarrow> thenK (rd (bo_read t) handle tmp block) (retK tmp)))"

text \<open>One round; the result is false when the loop is left by \<open>break\<close>.\<close>

definition read_part ::
  "('z fs_scheme) block_calls \<Rightarrow> ptr \<Rightarrow> ptr \<Rightarrow> u16 \<Rightarrow> Uint64 \<Rightarrow> Uint64 \<Rightarrow> u16 \<Rightarrow> progress
    \<Rightarrow> ('z fs_scheme, bool \<times> progress) kmon" where
  "read_part rd file handle exponent begin_block end_block count g =
     bindK (lookupK position_at handle) (\<lambda>position.
     bindK (getK block_cache) (\<lambda>cache.
       let offset_mask = NOT (push_bit (unat exponent) 0xffff);
           blk_size = push_bit (unat exponent) 1;
           part_begin = (if cmp64 (pg_block g) begin_block = 0 then i0 position AND offset_mask else 0);
           part_size = (if cmp64 (pg_block g) end_block = 0 then count - pg_done g else blk_size - part_begin);
           used = find_cached file (pg_block g) cache;
           tmp = (if used < CACHED_BLOCKS then cb_buffer (cache ! used) else pg_tmp g)
       in bindK (if tmp = 0 then fetch_block rd file handle blk_size (pg_block g) else retK tmp) (\<lambda>tmp.
            if tmp = 0 then retK (False, g\<lparr>pg_tmp := 0, pg_used := used\<rparr>)
            else
              thenK (modifyK (memcpy (pg_buffer g) (tmp + part_begin) part_size))
             (bindK (if used = CACHED_BLOCKS then put_cached file (pg_block g) tmp else retK used) (\<lambda>used.
              bindK (lookupK position_at handle) (\<lambda>position.
              thenK (set_position handle (add64 position (init64 0 0 0 part_size)))
                (retK (True, \<lparr>pg_buffer = pg_buffer g + part_size, pg_done = pg_done g + part_size,
                   pg_block = inc64 (pg_block g), pg_tmp = tmp, pg_used = used\<rparr>))))))))"

partial_function (option) read_parts ::
  "('z fs_scheme) block_calls \<Rightarrow> ptr \<Rightarrow> ptr \<Rightarrow> u16 \<Rightarrow> Uint64 \<Rightarrow> Uint64 \<Rightarrow> u16 \<Rightarrow> progress
    \<Rightarrow> 'z fs_scheme \<Rightarrow> (kerror + progress \<times> 'z fs_scheme) option" where
  "read_parts rd file handle exponent begin_block end_block count g s =
     (if cmp64 (pg_block g) end_block \<le> 0 \<and> pg_done g < count then
        case read_part rd file handle exponent begin_block end_block count g s of
          Inl e \<Rightarrow> Some (Inl e)
        | Inr ((go, g), s1) \<Rightarrow>
            if go then read_parts rd file handle exponent begin_block end_block count g s1
            else Some (Inr (g, s1))
      else Some (Inr (g, s)))"

definition shr64K :: "Uint64 \<Rightarrow> u16 \<Rightarrow> ('s, Uint64 \<times> u16) kmon" where
  "shr64K p n s = (case shr64 p n of Inl e \<Rightarrow> Inl e | Inr r \<Rightarrow> Inr (r, s))"

definition blockfile_read ::
  "('z fs_scheme) block_calls \<Rightarrow> ptr \<Rightarrow> ptr \<Rightarrow> u16 \<Rightarrow> ('z fs_scheme, u16) kmon" where
  "blockfile_read rd handle buffer count =
     bindK (get_handle handle) (\<lambda>h.
     bindK (lookupK block_file_at (h_node h)) (\<lambda>bf.
       case b_ops bf of
         None \<Rightarrow> retK 0
       | Some t \<Rightarrow>
           if bo_read t = Null then retK 0
           else
             bindK (lookupK position_at handle) (\<lambda>position.
             bindK (shr64K position (b_exponent bf)) (\<lambda>(block, _).
             bindK (shr64K (add64 position (init64 0 0 0 (count - 1))) (b_exponent bf)) (\<lambda>(end_block, _).
             bindK (loopK (read_parts rd (h_node h) handle (b_exponent bf) block end_block count
                \<lparr>pg_buffer = buffer, pg_done = 0, pg_block = block, pg_tmp = 0, pg_used = 0\<rparr>)) (\<lambda>g.
             thenK (whenK (pg_tmp g \<noteq> 0 \<and> pg_used g = CACHED_BLOCKS) (free (pg_tmp g)))
               (retK count)))))))"

definition blockfile_write :: "ptr \<Rightarrow> ptr \<Rightarrow> u16 \<Rightarrow> ('z fs_scheme, u16) kmon" where
  "blockfile_write file buffer count = retK 0"

section \<open>Runs of bytes that do not meet\<close>

definition far :: "ptr \<Rightarrow> nat \<Rightarrow> ptr \<Rightarrow> nat \<Rightarrow> bool" where
  "far a n b k \<longleftrightarrow> (\<forall>i < n. \<forall>j < k. a + of_nat i \<noteq> b + of_nat j)"

lemma far_less: "far a n b k \<Longrightarrow> j \<le> k \<Longrightarrow> far a n b j"
  by (simp add: far_def)

lemma far_sym: "far a n b k \<Longrightarrow> far b k a n"
  by (auto simp: far_def) (metis)

lemma bytes_at_movsb_far:
  "far a n b k \<Longrightarrow> bytes_at seg b k (movsb n a si seg ds m) = bytes_at seg b k m"
  unfolding bytes_at_def by (intro map_cong refl movsb_other) (metis far_def linear_inject atLeastLessThan_iff set_upt)

lemma bytes_at_store_far:
  "far a (length bs) b k \<Longrightarrow> bytes_at seg b k (store_bytes seg a bs m) = bytes_at seg b k m"
  unfolding bytes_at_def by (intro map_cong refl store_bytes_other) (metis far_def linear_inject atLeastLessThan_iff set_upt)

lemma bytes_at_part:
  assumes "o' + n \<le> k"
  shows "bytes_at seg (b + of_nat o') n m = take n (drop o' (bytes_at seg b k m))"
proof -
  have "bytes_at seg b k m = bytes_at seg b o' m @ bytes_at seg (b + of_nat o') (n + (k - (o' + n))) m"
    using bytes_at_split [of o' k seg b m] assms by simp
  then show ?thesis unfolding bytes_at_add by simp
qed

lemma movsb_part:
  assumes "far a n b k" and "o' + n \<le> k" and "n \<le> 65536"
  shows "bytes_at seg a n (movsb n a (b + of_nat o') seg seg m) = take n (drop o' (bytes_at seg b k m))"
proof -
  have "linear seg (a + of_nat i) \<noteq> linear seg (b + of_nat o' + of_nat j)" if "i < n" "j < n" for i j
  proof -
    have "o' + j < k" using assms(2) that(2) by simp
    then have "a + of_nat i \<noteq> b + of_nat (o' + j)" using assms(1) that(1) unfolding far_def by blast
    then show ?thesis by (simp add: linear_inject add.assoc)
  qed
  then have "bytes_at seg a n (movsb n a (b + of_nat o') seg seg m) = bytes_at seg (b + of_nat o') n m"
    using assms(3) by (auto simp: bytes_at_def intro!: movsb_copied)
  then show ?thesis using bytes_at_part [OF assms(2)] by simp
qed

lemma apart_far:
  assumes "apart (unat a, n) (unat b, k)" and "unat a + n \<le> 65536" and "unat b + k \<le> 65536"
  shows "far a n b k"
  unfolding far_def
proof (intro allI impI)
  fix i j assume i: "i < n" and j: "j < k"
  have "unat (a + of_nat i) = unat a + i" "unat (b + of_nat j) = unat b + j"
    using assms(2,3) i j by (subst unat_add16_small; simp add: unat_of_nat take_bit_eq_mod)+
  then show "a + of_nat i \<noteq> b + of_nat j" using assms(1) i j by (auto simp: apart_def)
qed

section \<open>The specification\<close>

definition block_bytes :: "block_file \<Rightarrow> nat" where
  "block_bytes bf = 2 ^ unat (b_exponent bf)"

text \<open>
  The content of the devices: \<open>disk file n\<close> is block \<open>n\<close> of a block file.  Each entry of the
  cache that is in use holds a block of its file in memory that is allocated.
\<close>

type_synonym disk = "ptr \<Rightarrow> nat \<Rightarrow> u8 list"

definition device_ok :: "disk \<Rightarrow> 'z fs_scheme \<Rightarrow> bool" where
  "device_ok disk s \<longleftrightarrow> (\<forall>f bf. block_file_at s f = Some bf \<longrightarrow>
     b_exponent bf < 16 \<and> (\<forall>n. length (disk f n) = block_bytes bf))"

definition entry_ok :: "disk \<Rightarrow> 'z fs_scheme \<Rightarrow> cached_block \<Rightarrow> bool" where
  "entry_ok disk s e \<longleftrightarrow>
     (if cb_buffer e = 0 then cb_file e = 0
      else \<exists>bf k. block_file_at s (cb_file e) = Some bf \<and> block_bytes bf \<le> k \<and> (unat (cb_buffer e), k) \<in> live s
        \<and> bytes_at 0x0050 (cb_buffer e) (block_bytes bf) (mem s) = disk (cb_file e) (val64 (cb_block e)))"

definition cache_ok :: "disk \<Rightarrow> 'z fs_scheme \<Rightarrow> bool" where
  "cache_ok disk s \<longleftrightarrow> length (block_cache s) = CACHED_BLOCKS \<and> (\<forall>e \<in> set (block_cache s). entry_ok disk s e)"

text \<open>A buffer outside of the free memory and of the cached blocks.\<close>

definition buffer_ok :: "'z fs_scheme \<Rightarrow> ptr \<Rightarrow> nat \<Rightarrow> bool" where
  "buffer_ok s a n \<longleftrightarrow> (\<forall>i < n. reserved s (unat (a + of_nat i)))
     \<and> (\<forall>e \<in> set (block_cache s). \<forall>k. (unat (cb_buffer e), k) \<in> live s \<longrightarrow> far a n (cb_buffer e) k)"

text \<open>
  What is expected of a driver: it puts the block into the buffer, and nobody touches the heap or
  the objects of the file system in the meantime.
\<close>

definition segments :: "'z tasks_scheme \<Rightarrow> ptr \<Rightarrow> u16 option" where
  "segments s p = map_option t_segment (task_at s p)"

text \<open>
  What the programs see: which task runs, where each task has its segment and its stacks, and the
  memory outside of the segment of the kernel.
\<close>

definition outside_kernel :: "nat \<Rightarrow> bool" where
  "outside_kernel a \<longleftrightarrow> (\<forall>off. a \<noteq> linear 0x0050 off)"

definition task_view :: "'z tasks_scheme \<Rightarrow> ptr \<Rightarrow> (u16 \<times> ptr \<times> ptr) option" where
  "task_view s p = map_option (\<lambda>t. (t_segment t, t_user_sp t, t_stack t)) (task_at s p)"

definition user_view :: "'z tasks_scheme \<Rightarrow> ptr \<times> (ptr \<Rightarrow> (u16 \<times> ptr \<times> ptr) option) \<times> (nat \<Rightarrow> u8)" where
  "user_view s = (current_task s, task_view s, \<lambda>a. if outside_kernel a then mem s a else 0)"

definition same_tables :: "'z fs_scheme \<Rightarrow> 'z fs_scheme \<Rightarrow> bool" where
  "same_tables s t \<longleftrightarrow> block_file_at t = block_file_at s \<and> handle_at t = handle_at s
     \<and> node_at t = node_at s \<and> file_at t = file_at s \<and> directory_at t = directory_at s
     \<and> fat_file_at t = fat_file_at s \<and> fat_root_at t = fat_root_at s \<and> segments t = segments s \<and> user_view t = user_view s"

lemma segments_task_at: "task_at t = task_at s \<Longrightarrow> segments t = segments s"
  by (simp add: segments_def fun_eq_iff)

lemma segments_simps [simp]:
  "segments (mem_update f s) = segments s" "segments (bitmap_update b s) = segments s"
  "segments (used_bytes_update g s) = segments s" "segments (block_cache_update c (w :: 'z fs_scheme)) = segments w"
  "segments (position_at_update p w) = segments w"
  by (auto intro: segments_task_at)

lemma user_view_same:
  "current_task t = current_task s \<Longrightarrow> task_at t = task_at s \<Longrightarrow> (\<And>a. outside_kernel a \<Longrightarrow> mem t a = mem s a)
    \<Longrightarrow> user_view t = user_view s"
  by (auto simp: user_view_def task_view_def)

lemma user_viewD:
  assumes "user_view t = user_view s"
  shows "current_task t = current_task s" "task_view t = task_view s" "outside_kernel a \<Longrightarrow> mem t a = mem s a"
  using assms fun_cong [of "\<lambda>a. if outside_kernel a then mem t a else 0" _ a] by (auto simp: user_view_def)

lemma user_view_simps [simp]:
  "user_view (bitmap_update b s) = user_view s" "user_view (used_bytes_update g s) = user_view s"
  "user_view (block_cache_update c (w :: 'z fs_scheme)) = user_view w" "user_view (position_at_update p w) = user_view w"
  by (auto intro: user_view_same)

lemma outside_movsb [simp]: "outside_kernel a \<Longrightarrow> movsb n di si 0x0050 ds m a = m a"
  by (rule movsb_other) (simp add: outside_kernel_def)

lemma outside_store [simp]: "outside_kernel a \<Longrightarrow> store_bytes 0x0050 off bs m a = m a"
  by (rule store_bytes_other) (simp add: outside_kernel_def)

lemma user_view_mem [simp]:
  "(\<And>a. outside_kernel a \<Longrightarrow> m a = mem s a) \<Longrightarrow> user_view (mem_update (\<lambda>_. m) s) = user_view s"
  by (rule user_view_same) simp_all

lemma live_position [simp]: "live (position_at_update p s) = live s"
  by (simp add: live_def block_addr_def)

definition same_objects :: "'z fs_scheme \<Rightarrow> 'z fs_scheme \<Rightarrow> bool" where
  "same_objects s t \<longleftrightarrow> bitmap t = bitmap s \<and> used_bytes t = used_bytes s \<and> total_blocks t = total_blocks s
     \<and> zones t = zones s \<and> pool_start t = pool_start s
     \<and> position_at t = position_at s \<and> block_cache t = block_cache s \<and> same_tables s t"

definition delivers :: "('z fs_scheme) block_calls \<Rightarrow> fn \<Rightarrow> disk \<Rightarrow> bool" where
  "delivers rd f disk \<longleftrightarrow> (\<forall>s h r p block. handle_at s h = Some r \<longrightarrow>
     (\<exists>v t. rd f h p block s = Inr (v, t) \<and> same_objects s t
        \<and> mem t = store_bytes 0x0050 p (disk (h_node r) (val64 block)) (mem s)))"

text \<open>
  What a read leaves alone: the objects, and the bytes of every buffer that is apart from the one
  that is read into.
\<close>

definition keeps :: "'z fs_scheme \<Rightarrow> ptr \<Rightarrow> nat \<Rightarrow> 'z fs_scheme \<Rightarrow> bool" where
  "keeps s buf n t \<longleftrightarrow> heap_inv t \<and> live s \<subseteq> live t \<and> same_tables s t \<and> (\<forall>a k. buffer_ok s a k \<longrightarrow> buffer_ok t a k
     \<and> (far buf n a k \<longrightarrow> bytes_at 0x0050 a k (mem t) = bytes_at 0x0050 a k (mem s)))"

lemma same_objects_heap:
  assumes "same_objects s t"
  shows "heap_inv t = heap_inv s" "live t = live s" "reserved t a = reserved s a"
proof -
  show "heap_inv t = heap_inv s" using assms by (simp add: same_objects_def heap_inv_def)
  show l: "live t = live s" using assms by (simp add: same_objects_def live_def block_addr_def)
  show "reserved t a = reserved s a" using assms by (simp add: same_objects_def reserved_def l)
qed

lemma free_transfer:
  assumes "free p s = Inr ((), s1)" and "bitmap t = bitmap s" "used_bytes t = used_bytes s"
    "zones t = zones s" "pool_start t = pool_start s"
  shows "free p t = Inr ((), t\<lparr>bitmap := bitmap s1, used_bytes := used_bytes s1\<rparr>)"
  using assms by (auto simp: free_def split: option.splits)

lemma cmp64_eq_0: "cmp64 a b = 0 \<longleftrightarrow> a = b"
  by (auto simp: cmp64_value val64_inject [symmetric])

lemma find_cached_spec:
  "find_cached f b c < length c \<Longrightarrow> cb_file (c ! find_cached f b c) = f \<and> cb_block (c ! find_cached f b c) = b"
  "find_cached f b c \<le> length c"
  by (induction c) (auto simp: cmp64_eq_0)

lemma find_empty_spec:
  "find_empty c < length c \<Longrightarrow> cb_buffer (c ! find_empty c) = 0" "find_empty c \<le> length c"
  by (induction c) auto

lemma offset_bits:
  assumes "e \<le> 16"
  shows "unat (i0 p AND NOT (push_bit e 0xffff)) = val64 p mod 2 ^ e"
proof -
  have minus: "(0xffff :: u16) = - 1" by simp
  have "NOT (push_bit e 0xffff) = (mask e :: u16)"
    unfolding minus by (intro bit_word_eqI) (auto simp: bit_simps)
  then have "unat (i0 p AND NOT (push_bit e 0xffff)) = unat (take_bit e (i0 p))"
    by (simp only: take_bit_eq_mask)
  also have "\<dots> = unat (i0 p) mod 2 ^ e"
    unfolding unsigned_take_bit_eq by (rule take_bit_eq_mod)
  finally have "unat (i0 p AND NOT (push_bit e 0xffff)) = unat (i0 p) mod 2 ^ e" .
  moreover have "val64 p mod 2 ^ e = unat (i0 p) mod 2 ^ e"
  proof -
    obtain c where c: "65536 = 2 ^ e * (c :: nat)"
      using le_imp_power_dvd [OF assms, of "2 :: nat"] by (auto elim: dvdE)
    have "val64 p = unat (i0 p) + 2 ^ e * (c * val_limbs [i1 p, i2 p, i3 p])"
      unfolding val64_def limbs_def val_limbs.simps c by (simp add: algebra_simps)
    then show ?thesis by (simp only: mod_mult_self2)
  qed
  ultimately show ?thesis by simp
qed

section \<open>A read within one block\<close>

abbreviation block_len :: "u16 \<Rightarrow> u16" where "block_len e \<equiv> push_bit (unat e) 1"

abbreviation offset_in :: "u16 \<Rightarrow> Uint64 \<Rightarrow> u16" where
  "offset_in e pos \<equiv> i0 pos AND NOT (push_bit (unat e) 0xffff)"

abbreviation fresh_progress :: "ptr \<Rightarrow> Uint64 \<Rightarrow> progress" where
  "fresh_progress buf block \<equiv> \<lparr>pg_buffer = buf, pg_done = 0, pg_block = block, pg_tmp = 0, pg_used = 0\<rparr>"

lemma read_part_cached:
  assumes "find_cached f block (block_cache s) = u" and "u < CACHED_BLOCKS"
    and "cb_buffer (block_cache s ! u) = tmp" and "tmp \<noteq> 0" and "position_at s h = Some pos"
  shows "read_part rd f h e block block n (fresh_progress buf block) s =
    Inr ((True, \<lparr>pg_buffer = buf + n, pg_done = n, pg_block = inc64 block, pg_tmp = tmp, pg_used = u\<rparr>),
      (memcpy buf (tmp + offset_in e pos) n s)\<lparr>position_at := (position_at s)(h \<mapsto> add64 pos (init64 0 0 0 n))\<rparr>)"
  using assms by (simp add: read_part_def kernel_simps cmp64_eq_0 Let_def memcpy_def farmemcpy_def)

lemma read_part_fetched:
  assumes "find_cached f block (block_cache s) = CACHED_BLOCKS"
    and "fetch_block rd f h (block_len e) block s = Inr (tmp, t)" and "tmp \<noteq> 0"
    and "position_at s h = Some pos" and "position_at t = position_at s"
  shows "read_part rd f h e block block n (fresh_progress buf block) s =
    Inr ((True, \<lparr>pg_buffer = buf + n, pg_done = n, pg_block = inc64 block, pg_tmp = tmp,
          pg_used = find_empty (block_cache t)\<rparr>),
      (memcpy buf (tmp + offset_in e pos) n t)
        \<lparr>block_cache := (block_cache t)[find_empty (block_cache t) :=
           \<lparr>cb_block = block, cb_file = f, cb_buffer = tmp\<rparr>],
         position_at := (position_at s)(h \<mapsto> add64 pos (init64 0 0 0 n))\<rparr>)"
  using assms
  by (simp add: read_part_def kernel_simps cmp64_eq_0 Let_def memcpy_def farmemcpy_def put_cached_def)

lemma read_part_no_memory:
  assumes "find_cached f block (block_cache s) = CACHED_BLOCKS"
    and "fetch_block rd f h (block_len e) block s = Inl err" and "position_at s h = Some pos"
  shows "read_part rd f h e block block n (fresh_progress buf block) s = Inl err"
  using assms by (simp add: read_part_def kernel_simps Let_def)

text \<open>The whole read when its first round is the last.\<close>

lemma blockfile_read_one:
  assumes "handle_at s h = Some r" and "block_file_at s (h_node r) = Some bf" and "b_ops bf = Some t"
    and "bo_read t \<noteq> Null" and "position_at s h = Some pos"
    and "shr64 pos (b_exponent bf) = Inr (block, x)"
    and "shr64 (add64 pos (init64 0 0 0 (n - 1))) (b_exponent bf) = Inr (block, y)" and "0 < n"
    and "\<And>go g t. read_part rd (h_node r) h (b_exponent bf) block block n (fresh_progress buf block) s = Inr ((go, g), t)
      \<Longrightarrow> pg_done g = n"
  shows "blockfile_read rd h buf n s =
    (case read_part rd (h_node r) h (b_exponent bf) block block n (fresh_progress buf block) s of
       Inl err \<Rightarrow> Inl err
     | Inr ((go, g), t) \<Rightarrow>
         if pg_tmp g \<noteq> 0 \<and> pg_used g = CACHED_BLOCKS
         then (case free (pg_tmp g) t of Inl err \<Rightarrow> Inl err | Inr (_, t) \<Rightarrow> Inr (n, t))
         else Inr (n, t))"
proof (cases "read_part rd (h_node r) h (b_exponent bf) block block n (fresh_progress buf block) s")
  case (Inl err)
  then show ?thesis using assms
    by (simp add: blockfile_read_def kernel_simps shr64K_def loopK_def read_parts.simps [where s = s] cmp64_eq_0)
next
  case (Inr v)
  obtain go g t' where v: "v = ((go, g), t')" by (metis prod.exhaust)
  let ?p = "read_parts rd (h_node r) h (b_exponent bf) block block n (fresh_progress buf block) s"
  have "pg_done g = n" using assms(9) Inr v by simp
  then have p: "?p = Some (Inr (g, t'))"
    using assms(8) Inr v by (simp add: read_parts.simps cmp64_eq_0 cmp64_value)
  show ?thesis using assms Inr v p
    by (auto simp: blockfile_read_def kernel_simps shr64K_def loopK_def bindK_def thenK_def whenK_def
        split: sum.split)
qed

lemma entry_ok_keep:
  assumes "entry_ok disk s e" and "live s \<subseteq> live t" and "block_file_at t = block_file_at s"
    and "\<And>k. (unat (cb_buffer e), k) \<in> live s \<Longrightarrow>
      bytes_at 0x0050 (cb_buffer e) k (mem t) = bytes_at 0x0050 (cb_buffer e) k (mem s)"
  shows "entry_ok disk t e"
proof (cases "cb_buffer e = 0")
  case True
  then show ?thesis using assms(1) by (simp add: entry_ok_def)
next
  case False
  then obtain bf k where k: "block_file_at s (cb_file e) = Some bf" "block_bytes bf \<le> k"
    "(unat (cb_buffer e), k) \<in> live s"
    "bytes_at 0x0050 (cb_buffer e) (block_bytes bf) (mem s) = disk (cb_file e) (val64 (cb_block e))"
    using assms(1) by (auto simp: entry_ok_def)
  have "bytes_at 0x0050 (cb_buffer e) (block_bytes bf) m = take (block_bytes bf) (bytes_at 0x0050 (cb_buffer e) k m)" for m
    using bytes_at_part [of 0 "block_bytes bf" k "0x0050" "cb_buffer e" m] k(2) by simp
  then have "bytes_at 0x0050 (cb_buffer e) (block_bytes bf) (mem t) = disk (cb_file e) (val64 (cb_block e))"
    using k(4) assms(4) [OF k(3)] by simp
  then show ?thesis using k(1-3) assms(2,3) False by (auto simp: entry_ok_def)
qed

lemma fetch_block_ok:
  assumes "heap_inv s" and "delivers rd (bo_read t) disk" and "handle_at s h = Some r"
    and "block_file_at s (h_node r) = Some bf" and "b_ops bf = Some t"
  shows "fetch_block rd (h_node r) h len block s = Inl (Panic ''out of mem'')
    \<or> (\<exists>p s1 t. malloc len s = Inr (p, s1) \<and> p \<noteq> 0 \<and> fetch_block rd (h_node r) h len block s = Inr (p, t)
        \<and> same_objects s1 t \<and> mem t = store_bytes 0x0050 p (disk (h_node r) (val64 block)) (mem s))"
proof (cases "malloc len s")
  case (Inl e)
  then show ?thesis using malloc_panic [OF assms(1) Inl] by (simp add: fetch_block_def kernel_simps)
next
  case (Inr v)
  then obtain p s1 where m: "malloc len s = Inr (p, s1)" by (cases v) auto
  obtain b u where s1: "s1 = s\<lparr>bitmap := b, used_bytes := u\<rparr>" using malloc_frame [OF m] by blast
  have p: "p \<noteq> 0" by (rule heap_alloc.alloc_nonnull [OF assms(1) m])
  have "handle_at s1 h = Some r" "block_file_at s1 (h_node r) = Some bf" using assms(3,4) by (simp_all add: s1)
  moreover from assms(2) this(1) obtain v t' where "rd (bo_read t) h p block s1 = Inr (v, t')" "same_objects s1 t'"
    "mem t' = store_bytes 0x0050 p (disk (h_node r) (val64 block)) (mem s1)"
    unfolding delivers_def by blast
  ultimately show ?thesis using m p assms(5)
    by (intro disjI2 exI [of _ p] exI [of _ s1] exI [of _ t']) (simp add: fetch_block_def kernel_simps, simp add: s1)
qed

lemma mod_mult_less:
  assumes "B dvd M" and "a < (M :: nat)" and "a mod B + n \<le> B"
  shows "a + n \<le> M"
proof -
  obtain c where M: "M = B * c" using assms(1) by (auto elim: dvdE)
  have "B * (a div B) < B * c" using assms(2) unfolding M by (metis le_less_trans mult.commute times_div_less_eq_dividend)
  then have "a div B + 1 \<le> c" by (metis Suc_eq_plus1 Suc_leI mult_less_cancel1)
  then have "B * (a div B + 1) \<le> M" unfolding M by (rule mult_le_mono2)
  moreover have "a + n = B * (a div B) + (a mod B + n)" using mult_div_mod_eq [of B a] by linarith
  moreover have "B * (a div B + 1) = B * (a div B) + B" by simp
  ultimately show ?thesis using assms(3) by linarith
qed

lemma same_block:
  assumes "e < 16" and "0 < n" and "val64 pos mod 2 ^ unat e + unat n \<le> 2 ^ unat e"
  shows "\<exists>block x y. shr64 pos e = Inr (block, x) \<and> val64 block = val64 pos div 2 ^ unat e
    \<and> shr64 (add64 pos (init64 0 0 0 (n - 1))) e = Inr (block, y)"
proof -
  let ?B = "2 ^ unat e :: nat" and ?p = "val64 pos"
  have e: "unat e < 16" using assms(1) by (simp add: less16_iff)
  have n: "unat (n - 1) = unat n - 1" "0 < unat n"
    using assms(2) by (simp_all add: unat_sub16_le less16_iff)
  have "?B dvd 2 ^ 64" using e by (intro le_imp_power_dvd) simp
  then have le: "?p + unat n \<le> 2 ^ 64" using mod_mult_less [of ?B "2 ^ 64" ?p] val64_bound assms(3) by blast
  have "val64 (add64 pos (init64 0 0 0 (n - 1))) = (?p + (unat n - 1)) mod 2 ^ 64"
    using n(1) by (subst add64_value) (simp_all add: init64_def val64_expand)
  also have "\<dots> = ?p + (unat n - 1)" using le n(2) by (intro mod_less) simp
  finally have v: "val64 (add64 pos (init64 0 0 0 (n - 1))) = ?p + (unat n - 1)" .
  have "?p + (unat n - 1) = (?p mod ?B + (unat n - 1)) + ?B * (?p div ?B)" using mult_div_mod_eq [of ?B ?p] by linarith
  then have d: "(?p + (unat n - 1)) div ?B = ?p div ?B"
    using assms(3) n(2) by (simp only: div_mult_self2 [of ?B]) simp
  have e16: "e \<le> 16" using assms(1) by simp
  obtain q x where q: "shr64 pos e = Inr (q, x)" "val64 q = ?p div ?B" using shr64_correct [OF e16, of pos] by blast
  obtain q' y where q': "shr64 (add64 pos (init64 0 0 0 (n - 1))) e = Inr (q', y)" "val64 q' = ?p div ?B"
    using shr64_correct [OF e16, of "add64 pos (init64 0 0 0 (n - 1))"] v d by auto
  then have "q' = q" using q(2) by (simp add: val64_inject [symmetric])
  then show ?thesis using q q' by blast
qed

lemma offset_in_value:
  assumes "e < 16"
  shows "offset_in e pos = of_nat (val64 pos mod 2 ^ unat e)"
proof -
  have "unat e \<le> 16" using assms by (simp add: less16_iff)
  from arg_cong [OF offset_bits [OF this, of pos], of "of_nat :: nat \<Rightarrow> u16"] show ?thesis by simp
qed

lemma block_len_value: "e < 16 \<Longrightarrow> unat (block_len e) = 2 ^ unat e"
proof -
  assume "e < 16"
  then have "(2 :: nat) ^ unat e < 2 ^ 16" by (intro power_strict_increasing) (simp_all add: less16_iff)
  moreover have "block_len e = of_nat (2 ^ unat e)" by (simp add: push_bit_eq_mult)
  ultimately show ?thesis by (simp only:) (intro unat_of_nat_16, simp)
qed

text \<open>What the read leaves behind.\<close>

definition read_result :: "disk \<Rightarrow> 'z fs_scheme \<Rightarrow> ptr \<Rightarrow> ptr \<Rightarrow> block_file \<Rightarrow> Uint64 \<Rightarrow> u16 \<Rightarrow> ptr \<Rightarrow> 'z fs_scheme \<Rightarrow> bool" where
  "read_result disk s h f bf pos n buf t \<longleftrightarrow>
     bytes_at 0x0050 buf (unat n) (mem t)
       = take (unat n) (drop (val64 pos mod block_bytes bf) (disk f (val64 pos div block_bytes bf)))
     \<and> position_at t = (position_at s)(h \<mapsto> add64 pos (init64 0 0 0 n)) \<and> cache_ok disk t
     \<and> keeps s buf (unat n) t"

lemma read_hit:
  assumes "cache_ok disk s" and "buffer_ok s buf (unat n)" and "f \<noteq> 0" and "block_file_at s f = Some bf"
    and "b_exponent bf < 16" and "val64 pos mod block_bytes bf + unat n \<le> block_bytes bf"
    and "position_at s h = Some pos" and "val64 block = val64 pos div block_bytes bf"
    and "find_cached f block (block_cache s) < CACHED_BLOCKS" and "heap_inv s"
  shows "\<exists>g t. read_part rd f h (b_exponent bf) block block n (fresh_progress buf block) s = Inr ((True, g), t)
    \<and> pg_done g = n \<and> pg_used g \<noteq> CACHED_BLOCKS \<and> read_result disk s h f bf pos n buf t"
proof -
  define u where "u = find_cached f block (block_cache s)"
  let ?e = "block_cache s ! u" and ?n = "unat n"
  have u: "u < length (block_cache s)" using assms(1,9) by (simp add: u_def cache_ok_def)
  then have ce: "cb_file ?e = f" "cb_block ?e = block" and ok: "entry_ok disk s ?e"
    using find_cached_spec(1) [of f block "block_cache s"] assms(1) by (simp_all add: u_def cache_ok_def)
  then obtain k where k: "cb_buffer ?e \<noteq> 0" "block_bytes bf \<le> k" "(unat (cb_buffer ?e), k) \<in> live s"
    "bytes_at 0x0050 (cb_buffer ?e) (block_bytes bf) (mem s) = disk f (val64 block)"
    using assms(3,4) by (auto simp: entry_ok_def split: if_splits)
  let ?o = "offset_in (b_exponent bf) pos"
  let ?t = "(memcpy buf (cb_buffer ?e + ?o) n s)\<lparr>position_at := (position_at s)(h \<mapsto> add64 pos (init64 0 0 0 n))\<rparr>"
  have o': "?o = of_nat (val64 pos mod block_bytes bf)" using offset_in_value [OF assms(5)] by (simp add: block_bytes_def)
  then have m: "mem ?t = movsb ?n buf (cb_buffer ?e + of_nat (val64 pos mod block_bytes bf)) 0x0050 0x0050 (mem s)"
    by (simp add: memcpy_def farmemcpy_def)
  have far: "far buf ?n (cb_buffer e) k" if "e \<in> set (block_cache s)" "(unat (cb_buffer e), k) \<in> live s" for e k
    using assms(2) that by (simp add: buffer_ok_def)
  have "far buf ?n (cb_buffer ?e) (block_bytes bf)" using far [OF nth_mem [OF u] k(3)] k(2) by (rule far_less)
  then have "bytes_at 0x0050 buf ?n (mem ?t) = take ?n (drop (val64 pos mod block_bytes bf) (disk f (val64 block)))"
    unfolding m k(4) [symmetric] using assms(6) unat_le_65535 [of n] by (intro movsb_part) simp_all
  moreover have same: "live ?t = live s" "block_file_at ?t = block_file_at s" "block_cache ?t = block_cache s"
    by (simp_all add: memcpy_def farmemcpy_def)
  have "entry_ok disk ?t e" if e: "e \<in> set (block_cache s)" for e
  proof (rule entry_ok_keep [OF _ _ same(2)])
    show "entry_ok disk s e" using assms(1) e by (simp add: cache_ok_def)
    show "live s \<subseteq> live ?t" using same(1) by simp
    show "bytes_at 0x0050 (cb_buffer e) k (mem ?t) = bytes_at 0x0050 (cb_buffer e) k (mem s)"
      if "(unat (cb_buffer e), k) \<in> live s" for k
      unfolding m by (rule bytes_at_movsb_far [OF far [OF e that]])
  qed
  then have "cache_ok disk ?t" using assms(1) same(3) by (simp add: cache_ok_def)
  moreover have "keeps s buf ?n ?t"
  proof -
    have "heap_inv ?t" "\<And>a. reserved ?t a = reserved s a"
      using assms(10) same by (simp_all add: memcpy_def farmemcpy_def heap_inv_def reserved_def)
    moreover have "segments ?t = segments s" by (rule segments_task_at) (simp add: memcpy_def farmemcpy_def)
    ultimately show ?thesis
      unfolding keeps_def buffer_ok_def same m using bytes_at_movsb_far
      by (simp add: same_tables_def memcpy_def farmemcpy_def)
  qed
  ultimately have "read_result disk s h f bf pos n buf ?t" using assms(8) by (simp add: read_result_def)
  moreover have "pg_used \<lparr>pg_buffer = buf + n, pg_done = n, pg_block = inc64 block, pg_tmp = cb_buffer ?e, pg_used = u\<rparr> \<noteq> CACHED_BLOCKS"
    using assms(9) by (simp add: u_def)
  ultimately show ?thesis
    using read_part_cached [OF u_def [symmetric] _ refl k(1) assms(7), of rd "b_exponent bf" n buf] assms(9)
    by (auto simp: u_def)
qed

text \<open>The memory after a block has been fetched to a new place and a part of it copied on.\<close>

lemma buffer_far_fresh:
  assumes "heap_inv s" and "malloc len s = Inr (p, s1)" and K: "live s1 = insert (unat p, K) (live s)"
    and "\<And>i. i < n \<Longrightarrow> reserved s (unat (a + of_nat i))"
  shows "far a n p K"
  unfolding far_def
proof (intro allI impI)
  fix i j assume i: "i < n" and j: "j < K"
  have "unat p + K < 65536" using live_bounded [OF heap_alloc.alloc_ok [OF assms(1,2)], of "(unat p, K)"] K by simp
  then have "unat (p + of_nat j) = unat p + j"
    using j by (subst unat_add16_small) (simp_all add: unat_of_nat take_bit_eq_mod)
  moreover have "\<not> (unat p \<le> unat (a + of_nat i) \<and> unat (a + of_nat i) < unat p + K)"
    by (rule malloc_reserved_block [OF assms(1,2) assms(4) [OF i] K])
  ultimately show "a + of_nat i \<noteq> p + of_nat j" using j by auto
qed

lemma fetched_memory:
  fixes n len :: u16
  assumes "heap_inv s" and "cache_ok disk s" and "buffer_ok s buf (unat n)"
    and "malloc len s = Inr (p, s1)" and "unat len = length bs" and "q + unat n \<le> length bs"
    and "m = movsb (unat n) buf (p + of_nat q) 0x0050 0x0050 (store_bytes 0x0050 p bs (mem s))"
  shows "bytes_at 0x0050 buf (unat n) m = take (unat n) (drop q bs)"
    and "bytes_at 0x0050 p (length bs) m = bs"
    and "\<And>e k. e \<in> set (block_cache s) \<Longrightarrow> (unat (cb_buffer e), k) \<in> live s \<Longrightarrow>
      bytes_at 0x0050 (cb_buffer e) k m = bytes_at 0x0050 (cb_buffer e) k (mem s)"
    and "\<And>a k. buffer_ok s a k \<Longrightarrow> far buf (unat n) a k \<Longrightarrow> bytes_at 0x0050 a k m = bytes_at 0x0050 a k (mem s)"
proof -
  let ?n = "unat n"
  have B: "length bs < 65536" using unat_lt_65536 [of len] assms(5) by simp
  obtain K where K: "length bs \<le> K" "live s1 = insert (unat p, K) (live s)" and inv1: "heap_inv s1"
    using heap_alloc.alloc_fresh [OF assms(1,4)] assms(5) by auto
  have fresh: "far a k p (length bs)" if "buffer_ok s a k" for a k
    by (rule far_less [OF buffer_far_fresh [OF assms(1,4) K(2)] K(1)]) (use that in \<open>simp add: buffer_ok_def\<close>)
  note new = fresh [OF assms(3)]
  have st: "bytes_at 0x0050 p (length bs) (store_bytes 0x0050 p bs (mem s)) = bs"
    using B by (intro bytes_at_store_bytes) simp
  show "bytes_at 0x0050 buf ?n m = take ?n (drop q bs)"
    using movsb_part [OF new assms(6), of "0x0050" "store_bytes 0x0050 p bs (mem s)"] unat_le_65535 [of n]
    unfolding assms(7) st by simp
  show "bytes_at 0x0050 p (length bs) m = bs" unfolding assms(7) bytes_at_movsb_far [OF new] by (rule st)
  show "bytes_at 0x0050 a k m = bytes_at 0x0050 a k (mem s)" if "buffer_ok s a k" "far buf ?n a k" for a k
    unfolding assms(7) using that far_sym [OF fresh [OF that(1)]] by (simp add: bytes_at_movsb_far bytes_at_store_far)
  fix e k assume e: "e \<in> set (block_cache s)" and k: "(unat (cb_buffer e), k) \<in> live s"
  have "far buf ?n (cb_buffer e) k" using assms(3) e k by (simp add: buffer_ok_def)
  moreover have "far p (length bs) (cb_buffer e) k"
  proof (rule apart_far)
    obtain l where l: "unat len \<le> l" "(unat p, l) \<in> live s1" "apart (unat p, l) (unat (cb_buffer e), k)"
      using heap_alloc.alloc_apart [OF assms(1,4) k] by blast
    then show "apart (unat p, length bs) (unat (cb_buffer e), k)" using assms(5) by (auto simp: apart_def)
    show "unat p + length bs \<le> 65536" using live_bounded [OF inv1, of "(unat p, K)"] K by simp
    show "unat (cb_buffer e) + k \<le> 65536" using live_bounded [OF assms(1) k] by simp
  qed
  ultimately show "bytes_at 0x0050 (cb_buffer e) k m = bytes_at 0x0050 (cb_buffer e) k (mem s)"
    unfolding assms(7) by (simp add: bytes_at_movsb_far bytes_at_store_far)
qed

lemma fetched_buffer_ok:
  assumes "heap_inv s" and "malloc len s = Inr (p, s1)" and "live t = live s1" and "zones t = zones s"
    and "pool_start t = pool_start s" and "buffer_ok s a k"
    and "\<And>e. e \<in> set (block_cache t) \<Longrightarrow> e \<in> set (block_cache s) \<or> cb_buffer e = p"
  shows "buffer_ok t a k"
proof -
  obtain K where K: "live s1 = insert (unat p, K) (live s)" using heap_alloc.alloc_fresh [OF assms(1,2)] by blast
  have fresh: "far a k p K" using buffer_far_fresh [OF assms(1,2) K] assms(6) by (auto simp: buffer_ok_def)
  obtain b u where s1: "s1 = s\<lparr>bitmap := b, used_bytes := u\<rparr>" using malloc_frame [OF assms(2)] by blast
  have "reserved t x = reserved s1 x" for x using assms(3-5) by (simp add: reserved_def s1)
  then have "reserved t (unat (a + of_nat i))" if "i < k" for i
    using malloc_reserved(2) [OF assms(1,2)] assms(6) that by (simp add: buffer_ok_def)
  moreover have "far a k (cb_buffer e) l" if e: "e \<in> set (block_cache t)" and l: "(unat (cb_buffer e), l) \<in> live t" for e l
  proof (cases "(unat (cb_buffer e), l) = (unat p, K)")
    case True
    then have "cb_buffer e = p" "l = K" by (simp_all add: word_unat_eq_iff)
    then show ?thesis using fresh by simp
  next
    case False
    then have l': "(unat (cb_buffer e), l) \<in> live s" using l K assms(3) by auto
    have "cb_buffer e \<noteq> p" 
    proof
      assume "cb_buffer e = p"
      then have "l = K" using heap_alloc.ranges_unique [OF heap_alloc.alloc_ok [OF assms(1,2)], of "unat p" l K] l K assms(3) by simp
      then show False using False \<open>cb_buffer e = p\<close> by simp
    qed
    then show ?thesis using assms(6,7) e l' by (auto simp: buffer_ok_def)
  qed
  ultimately show ?thesis by (simp add: buffer_ok_def)
qed

text \<open>
  A state \<open>v\<close> in which the fetched block has landed: it differs from \<open>s\<close> in the new block of
  memory, in the bytes of memory, in the position and in one entry \<open>x\<close> of the cache.
\<close>

definition landed :: "'z fs_scheme \<Rightarrow> 'z fs_scheme \<Rightarrow> ptr \<Rightarrow> Uint64 \<Rightarrow> cached_block \<Rightarrow> (nat \<Rightarrow> u8) \<Rightarrow> 'z fs_scheme \<Rightarrow> bool" where
  "landed s s1 h pos' x m v \<longleftrightarrow> mem v = m \<and> live v = live s1 \<and> same_tables s v \<and> zones v = zones s
     \<and> pool_start v = pool_start s \<and> heap_inv v \<and> bitmap v = bitmap s1 \<and> used_bytes v = used_bytes s1
     \<and> position_at v = (position_at s)(h \<mapsto> pos') \<and> block_cache v = (block_cache s)[find_empty (block_cache s) := x]"

lemma landed_old_entries:
  assumes "cache_ok disk s" and "block_file_at w = block_file_at s" "live s \<subseteq> live w" "mem w = m"
    and m: "\<And>e k. e \<in> set (block_cache s) \<Longrightarrow> (unat (cb_buffer e), k) \<in> live s
      \<Longrightarrow> bytes_at 0x0050 (cb_buffer e) k m = bytes_at 0x0050 (cb_buffer e) k (mem s)"
    and x: "x \<in> set (block_cache s)"
  shows "entry_ok disk w x"
  using assms(1-4) x m [OF x] by (intro entry_ok_keep [of disk s x w]) (simp_all add: cache_ok_def)

text \<open>With both entries of the cache in use, the block is given back and the cache is as it was.\<close>

lemma landed_dropped:
  fixes n :: u16
  assumes heap: "heap_inv s" and cache: "cache_ok disk s" and m1: "malloc l s = Inr (p, s1)"
    and v: "landed s s1 h (add64 pos (init64 0 0 0 n)) x m v" and used: "find_empty (block_cache s) = CACHED_BLOCKS"
    and mem: "bytes_at 0x0050 buf (unat n) m
        = take (unat n) (drop (val64 pos mod block_bytes bf) (disk f (val64 pos div block_bytes bf)))"
      "\<And>e k. e \<in> set (block_cache s) \<Longrightarrow> (unat (cb_buffer e), k) \<in> live s
        \<Longrightarrow> bytes_at 0x0050 (cb_buffer e) k m = bytes_at 0x0050 (cb_buffer e) k (mem s)"
      "\<And>a k. buffer_ok s a k \<Longrightarrow> far buf (unat n) a k \<Longrightarrow> bytes_at 0x0050 a k m = bytes_at 0x0050 a k (mem s)"
  shows "\<exists>u. free p v = Inr ((), u) \<and> read_result disk s h f bf pos n buf u"
proof -
  let ?u = "v\<lparr>bitmap := bitmap s, used_bytes := used_bytes s\<rparr>"
  obtain b w where s1: "s1 = s\<lparr>bitmap := b, used_bytes := w\<rparr>" using malloc_frame [OF m1] by blast
  note v = v [unfolded landed_def]
  have "length (block_cache s) = CACHED_BLOCKS" using cache by (simp add: cache_ok_def)
  then have u: "live ?u = live s" "block_cache ?u = block_cache s" "heap_inv ?u" "same_tables s ?u"
    using v heap used
    by (simp_all add: live_def block_addr_def heap_inv_def same_tables_def list_update_beyond)
  have "free p v = Inr ((), ?u)"
    using free_transfer [OF free_malloc_restores [OF heap m1], of v] v by (simp add: s1)
  moreover have "cache_ok disk ?u"
    using cache landed_old_entries [OF cache _ _ _ mem(2), of ?u] v u by (simp add: cache_ok_def same_tables_def)
  moreover have "keeps s buf (unat n) ?u"
    using v u mem(3) by (simp add: keeps_def buffer_ok_def reserved_def)
  ultimately show ?thesis using mem(1) v by (simp add: read_result_def)
qed

text \<open>Otherwise the block stays in the cache, as an entry that holds what the disk has.\<close>

lemma landed_kept:
  fixes n :: u16
  assumes heap: "heap_inv s" and cache: "cache_ok disk s" and m1: "malloc l s = Inr (p, s1)"
    and v: "landed s s1 h (add64 pos (init64 0 0 0 n)) x m v" and x: "entry_ok disk v x" "cb_buffer x = p"
    and mem: "bytes_at 0x0050 buf (unat n) m
        = take (unat n) (drop (val64 pos mod block_bytes bf) (disk f (val64 pos div block_bytes bf)))"
      "\<And>e k. e \<in> set (block_cache s) \<Longrightarrow> (unat (cb_buffer e), k) \<in> live s
        \<Longrightarrow> bytes_at 0x0050 (cb_buffer e) k m = bytes_at 0x0050 (cb_buffer e) k (mem s)"
      "\<And>a k. buffer_ok s a k \<Longrightarrow> far buf (unat n) a k \<Longrightarrow> bytes_at 0x0050 a k m = bytes_at 0x0050 a k (mem s)"
  shows "read_result disk s h f bf pos n buf v"
proof -
  note v = v [unfolded landed_def]
  have lv: "live s \<subseteq> live v" using heap_alloc.alloc_keeps [OF heap m1] v by blast
  have sub: "e \<in> set (block_cache s) \<or> e = x" if "e \<in> set (block_cache v)" for e
    using that v by (auto dest!: set_update_subset_insert [THEN subsetD])
  have "block_file_at v = block_file_at s" using v by (simp add: same_tables_def)
  then have "cache_ok disk v"
    unfolding cache_ok_def using sub x(1) landed_old_entries [OF cache _ lv _ mem(2)] cache v by (auto simp: cache_ok_def)
  moreover have "buffer_ok s a k \<Longrightarrow> buffer_ok v a k" for a k
    using fetched_buffer_ok [OF heap m1, of v a k] v sub x(2) by blast
  then have "keeps s buf (unat n) v" unfolding keeps_def using lv v mem(3) by simp
  ultimately show ?thesis using mem(1) v by (simp add: read_result_def)
qed

lemma read_miss:
  assumes heap: "heap_inv s" and cache: "cache_ok disk s" and drv: "delivers rd (bo_read t) disk"
    and fil: "handle_at s h = Some r" "block_file_at s (h_node r) = Some bf" "b_ops bf = Some t"
    and e: "b_exponent bf < 16" and len: "\<And>n. length (disk (h_node r) n) = block_bytes bf"
    and buf: "buffer_ok s buf (unat n)" and n: "val64 pos mod block_bytes bf + unat n \<le> block_bytes bf"
    and pos: "position_at s h = Some pos" and block: "val64 block = val64 pos div block_bytes bf"
    and miss: "\<not> find_cached (h_node r) block (block_cache s) < CACHED_BLOCKS"
  defines "part \<equiv> read_part rd (h_node r) h (b_exponent bf) block block n (fresh_progress buf block) s"
  shows "part = Inl (Panic ''out of mem'')
    \<or> (\<exists>g t u. part = Inr ((True, g), t) \<and> pg_done g = n \<and> read_result disk s h (h_node r) bf pos n buf u
        \<and> (if pg_used g = CACHED_BLOCKS then pg_tmp g \<noteq> 0 \<and> free (pg_tmp g) t = Inr ((), u) else t = u))"
proof -
  let ?f = "h_node r" and ?e = "b_exponent bf"
  have two: "length (block_cache s) = CACHED_BLOCKS" using cache by (simp add: cache_ok_def)
  have found: "find_cached ?f block (block_cache s) = CACHED_BLOCKS"
    using miss find_cached_spec(2) [of ?f block "block_cache s"] two by simp
  from fetch_block_ok [OF heap drv fil, of "block_len ?e" block]
  consider (oom) "fetch_block rd ?f h (block_len ?e) block s = Inl (Panic ''out of mem'')"
    | (ok) p s1 t where "malloc (block_len ?e) s = Inr (p, s1)" "p \<noteq> 0"
        "fetch_block rd ?f h (block_len ?e) block s = Inr (p, t)" "same_objects s1 t"
        "mem t = store_bytes 0x0050 p (disk ?f (val64 block)) (mem s)"
    by blast
  then show ?thesis
  proof cases
    case oom
    then show ?thesis using read_part_no_memory [OF found oom pos] by (simp add: part_def)
  next
    case (ok p s1 t)
    let ?j = "find_empty (block_cache s)" and ?D = "disk ?f (val64 block)" and ?q = "val64 pos mod block_bytes bf"
    obtain b u where s1: "s1 = s\<lparr>bitmap := b, used_bytes := u\<rparr>" using malloc_frame [OF ok(1)] by blast
    note same = ok(4) [unfolded same_objects_def s1, simplified]
    have o': "offset_in ?e pos = of_nat ?q" using offset_in_value [OF e] by (simp add: block_bytes_def)
    have l: "unat (block_len ?e) = length ?D" using block_len_value [OF e] len by (simp add: block_bytes_def)
    define m where "m = movsb (unat n) buf (p + of_nat ?q) 0x0050 0x0050 (store_bytes 0x0050 p ?D (mem s))"
    note fm = fetched_memory [OF heap cache buf ok(1) l _ m_def, unfolded len, OF n]
    let ?x = "\<lparr>cb_block = block, cb_file = ?f, cb_buffer = p\<rparr>"
    define v where "v = (memcpy buf (p + of_nat ?q) n t)\<lparr>block_cache := (block_cache s)[?j := ?x],
      position_at := (position_at s)(h \<mapsto> add64 pos (init64 0 0 0 n))\<rparr>"
    let ?g = "\<lparr>pg_buffer = buf + n, pg_done = n, pg_block = inc64 block, pg_tmp = p, pg_used = ?j\<rparr>"
    have part: "part = Inr ((True, ?g), v)"
      using read_part_fetched [OF found ok(3,2) pos] same unfolding part_def v_def by (simp add: o')
    have v: "landed s s1 h (add64 pos (init64 0 0 0 n)) ?x m v"
      using same same_objects_heap(1,2) [OF ok(4)] heap_alloc.alloc_ok [OF heap ok(1)]
      by (simp add: landed_def s1)
        (simp add: v_def memcpy_def farmemcpy_def ok(5) m_def live_def block_addr_def same_tables_def heap_inv_def)
    show ?thesis
    proof (cases "?j = CACHED_BLOCKS")
      case True
      show ?thesis
        using landed_dropped [OF heap cache ok(1) v True fm(1) [unfolded block] fm(3,4)] part True ok(2) by auto
    next
      case False
      obtain k where "unat (block_len ?e) \<le> k" "live s1 = insert (unat p, k) (live s)"
        using heap_alloc.alloc_fresh [OF heap ok(1)] by blast
      then have "entry_ok disk v ?x"
        using fm(2) v l len fil(2) ok(2) unfolding landed_def entry_ok_def by (auto simp: same_tables_def)
      from landed_kept [OF heap cache ok(1) v this _ fm(1) [unfolded block] fm(3,4)] show ?thesis
        using part False by auto
    qed
  qed
qed

lemma blockfile_read_ok:
  assumes "heap_inv s" and "cache_ok disk s" and "device_ok disk s" and "delivers rd (bo_read t) disk"
    and "handle_at s h = Some r" and "h_node r \<noteq> 0" and "block_file_at s (h_node r) = Some bf"
    and "b_ops bf = Some t" and "bo_read t \<noteq> Null" and "position_at s h = Some pos"
    and "buffer_ok s buf (unat n)" and "0 < n" and "val64 pos mod block_bytes bf + unat n \<le> block_bytes bf"
  shows "blockfile_read rd h buf n s = Inl (Panic ''out of mem'')
    \<or> (\<exists>u. blockfile_read rd h buf n s = Inr (n, u) \<and> read_result disk s h (h_node r) bf pos n buf u)"
proof -
  have e: "b_exponent bf < 16" "\<And>n. length (disk (h_node r) n) = block_bytes bf"
    using assms(3,7) by (auto simp: device_ok_def)
  obtain block x y where b: "shr64 pos (b_exponent bf) = Inr (block, x)" "val64 block = val64 pos div block_bytes bf"
    "shr64 (add64 pos (init64 0 0 0 (n - 1))) (b_exponent bf) = Inr (block, y)"
    using same_block [OF e(1) assms(12), of pos] assms(13) by (auto simp: block_bytes_def)
  let ?part = "read_part rd (h_node r) h (b_exponent bf) block block n (fresh_progress buf block) s"
  have "?part = Inl (Panic ''out of mem'')
    \<or> (\<exists>g t u. ?part = Inr ((True, g), t) \<and> pg_done g = n \<and> read_result disk s h (h_node r) bf pos n buf u
        \<and> (if pg_used g = CACHED_BLOCKS then pg_tmp g \<noteq> 0 \<and> free (pg_tmp g) t = Inr ((), u) else t = u))"
  proof (cases "find_cached (h_node r) block (block_cache s) < CACHED_BLOCKS")
    case True
    from read_hit [OF assms(2,11,6,7) e(1) assms(13,10) b(2) True assms(1)] show ?thesis by fastforce
  next
    case False
    from read_miss [OF assms(1,2,4,5,7,8) e assms(11,13,10) b(2) False] show ?thesis .
  qed
  then show ?thesis
    using blockfile_read_one [OF assms(5,7-10) b(1,3) assms(12), of rd buf] by (auto split: if_splits)
qed


text \<open>
  After the first block the pointer to the block is never reset: when a later block of the same
  read is not in the cache, the driver is not called, the old block is copied again, and the
  cache is told that it is the new one.
\<close>

lemma read_part_stale:
  assumes "find_cached f (pg_block g) (block_cache s) = CACHED_BLOCKS" and "pg_tmp g \<noteq> 0"
    and "pg_block g \<noteq> begin_block" and "pg_block g = end_block" and "position_at s h = Some pos"
  shows "\<exists>t g'. read_part rd f h e begin_block end_block n g s = Inr ((True, g'), t)
    \<and> mem t = mem (memcpy (pg_buffer g) (pg_tmp g) (n - pg_done g) s)
    \<and> block_cache t = (block_cache s)[find_empty (block_cache s) :=
         \<lparr>cb_block = pg_block g, cb_file = f, cb_buffer = pg_tmp g\<rparr>]"
  using assms
  by (auto simp: read_part_def kernel_simps cmp64_eq_0 Let_def memcpy_def farmemcpy_def put_cached_def)

section \<open>Witnesses\<close>

text \<open>The file of \<open>some_files\<close> as a block file, open, on a device full of sevens.\<close>

definition some_disk :: fs where
  "some_disk = some_files\<lparr>
     block_file_at := [0x500 \<mapsto> \<lparr>b_exponent = 9, b_ops = Some \<lparr>bo_read = Floppy_read, bo_write = Null\<rparr>\<rparr>],
     handle_at := [0x800 \<mapsto> \<lparr>h_flags = FILE OR HANDLE_READ, h_node = 0x500\<rparr>],
     position_at := [0x800 \<mapsto> U64 0x10 0 0 0]\<rparr>"

definition sevens :: "fs block_calls" where
  "sevens f h p block s = Inr (1, s\<lparr>mem := store_bytes 0x0050 p (replicate 512 7) (mem s)\<rparr>)"

lemma some_disk_objects [simp]:
  "block_file_at some_disk = [0x500 \<mapsto> \<lparr>b_exponent = 9, b_ops = Some \<lparr>bo_read = Floppy_read, bo_write = Null\<rparr>\<rparr>]"
  "handle_at some_disk = [0x800 \<mapsto> \<lparr>h_flags = FILE OR HANDLE_READ, h_node = 0x500\<rparr>]"
  "position_at some_disk = [0x800 \<mapsto> U64 0x10 0 0 0]"
  "block_cache some_disk = replicate 2 \<lparr>cb_block = U64 0 0 0 0, cb_file = 0, cb_buffer = 0\<rparr>"
  by (simp_all add: some_disk_def) (simp add: some_files_def floppy.defs fs.defs)

lemma some_disk_ok:
  "heap_inv some_disk" "cache_ok (\<lambda>_ _. replicate 512 7) some_disk" "device_ok (\<lambda>_ _. replicate 512 7) some_disk"
  "delivers sevens f (\<lambda>_ _. replicate 512 7)" "buffer_ok some_disk 0x900 4"
proof -
  show inv: "heap_inv some_disk" using fs_invD(1) [OF some_files_inv] by (simp add: some_disk_def heap_inv_def)
  show "cache_ok (\<lambda>_ _. replicate 512 7) some_disk" by (simp add: cache_ok_def CACHED_BLOCKS_def entry_ok_def)
  show "device_ok (\<lambda>_ _. replicate 512 7) some_disk" by (auto simp: device_ok_def block_bytes_def split: if_splits)
  show "delivers sevens f (\<lambda>_ _. replicate 512 7)" by (simp add: delivers_def sevens_def same_objects_def same_tables_def)
  have "reserved some_disk a" if "a < 0x1000" for a
    using that by (simp add: reserved_def some_disk_def) (simp add: take_block_def demo_heap_def)
  moreover have "unat (0x900 + of_nat i :: ptr) < 0x1000" if "i < 4" for i
  proof -
    have "i = 0 \<or> i = 1 \<or> i = 2 \<or> i = 3" using that by arith
    then show ?thesis by auto
  qed
  moreover have "(0, k) \<notin> live some_disk" for k using live_bounded [OF inv, of "(0, k)"] by auto
  ultimately show "buffer_ok some_disk 0x900 4" by (simp add: buffer_ok_def)
qed


end
