(* ===== verification/Image.thy ===== *)
theory Image
  imports Block
begin

text \<open>
  What a file system relies on when it reads a device through an open file: the contract
  \<open>image_file\<close>, a sequence of bytes behind a handle that can be read in pieces that do not
  cross a block.  Block files keep it, provided that their driver delivers the blocks.
\<close>

section \<open>The contract\<close>

text \<open>
  \<open>undisturbed ok dev P s t\<close>: the device is still in order, nothing has happened to the objects
  and to the other positions, and the buffers that satisfy \<open>P\<close> have kept their bytes.
\<close>

definition undisturbed ::
  "('z fs_scheme \<Rightarrow> bool) \<Rightarrow> ptr \<Rightarrow> (ptr \<Rightarrow> nat \<Rightarrow> bool) \<Rightarrow> 'z fs_scheme \<Rightarrow> 'z fs_scheme \<Rightarrow> bool" where
  "undisturbed ok dev P s t \<longleftrightarrow> ok t \<and> live s \<subseteq> live t \<and> same_tables s t \<and> (\<forall>h. h \<noteq> dev \<longrightarrow> position_at t h = position_at s h)
     \<and> (\<forall>a k. buffer_ok s a k \<longrightarrow> buffer_ok t a k \<and> (P a k \<longrightarrow> bytes_at 0x0050 a k (mem t) = bytes_at 0x0050 a k (mem s)))"

lemma undisturbed_refl: "ok s \<Longrightarrow> undisturbed ok dev P s s"
  by (simp add: undisturbed_def same_tables_def)

lemma undisturbed_trans:
  "undisturbed ok dev P s t \<Longrightarrow> undisturbed ok dev P t u \<Longrightarrow> undisturbed ok dev P s u"
  by (auto simp: undisturbed_def same_tables_def)

lemma undisturbed_weaken:
  "undisturbed ok dev P s t \<Longrightarrow> (\<And>a k. Q a k \<Longrightarrow> P a k) \<Longrightarrow> undisturbed ok dev Q s t"
  by (auto simp: undisturbed_def)

lemma undisturbed_ok: "undisturbed ok dev P s t \<Longrightarrow> ok t"
  by (simp add: undisturbed_def)

lemma undisturbed_buffer: "undisturbed ok dev P s t \<Longrightarrow> buffer_ok s a k \<Longrightarrow> buffer_ok t a k"
  by (simp add: undisturbed_def)

lemma undisturbed_bytes:
  "undisturbed ok dev P s t \<Longrightarrow> buffer_ok s a k \<Longrightarrow> P a k \<Longrightarrow> bytes_at 0x0050 a k (mem t) = bytes_at 0x0050 a k (mem s)"
  by (simp add: undisturbed_def)

locale image_file =
  fixes c :: "('z fs_scheme) fs_calls"
    and dev :: ptr
    and B :: nat
    and img :: "nat \<Rightarrow> u8"
    and ok :: "'z fs_scheme \<Rightarrow> bool"
  assumes read_piece: "ok s \<Longrightarrow> position_at s dev = Some pos \<Longrightarrow> buffer_ok s buf (unat n) \<Longrightarrow> 0 < n
      \<Longrightarrow> val64 pos mod B + unat n \<le> B
      \<Longrightarrow> file_read c dev buf n s = Inl (Panic ''out of mem'')
        \<or> (\<exists>t pos'. file_read c dev buf n s = Inr (n, t) \<and> ok t \<and> keeps s buf (unat n) t
            \<and> bytes_at 0x0050 buf (unat n) (mem t) = map img [val64 pos..<val64 pos + unat n]
            \<and> position_at t = (position_at s)(dev \<mapsto> pos') \<and> val64 pos' = (val64 pos + unat n) mod 2 ^ 64)"
    and ok_position: "ok s \<Longrightarrow> position_at s dev \<noteq> None"
    and ok_seek: "ok s \<Longrightarrow> ok (s\<lparr>position_at := (position_at s)(h \<mapsto> p)\<rparr>)"
    and image_block: "0 < B"
begin

text \<open>Seeking and reading, as the file systems do it.\<close>

lemma seek_read:
  assumes "ok s" and "buffer_ok s buf (unat n)" and "0 < n" and "val64 pos mod B + unat n \<le> B"
  shows "thenK (file_seek dev pos) (file_read c dev buf n) s = Inl (Panic ''out of mem'')
    \<or> (\<exists>t. thenK (file_seek dev pos) (file_read c dev buf n) s = Inr (n, t) \<and> undisturbed ok dev (far buf (unat n)) s t
        \<and> bytes_at 0x0050 buf (unat n) (mem t) = map img [val64 pos..<val64 pos + unat n])"
proof -
  obtain old where old: "position_at s dev = Some old" using ok_position [OF assms(1)] by auto
  let ?s = "s\<lparr>position_at := (position_at s)(dev \<mapsto> pos)\<rparr>"
  have run: "thenK (file_seek dev pos) (file_read c dev buf n) s = file_read c dev buf n ?s"
    using old by (simp add: file_seek_def kernel_simps)
  have b: "buffer_ok ?s a k = buffer_ok s a k" for a k by (simp add: buffer_ok_def reserved_def)
  then have keeps: "keeps ?s buf (unat n) t \<Longrightarrow> keeps s buf (unat n) t" for t by (simp add: keeps_def same_tables_def)
  from read_piece [OF ok_seek [OF assms(1)], of dev pos pos buf n] assms b
  consider "file_read c dev buf n ?s = Inl (Panic ''out of mem'')"
    | t pos' where "file_read c dev buf n ?s = Inr (n, t)" "ok t" "keeps ?s buf (unat n) t"
        "bytes_at 0x0050 buf (unat n) (mem t) = map img [val64 pos..<val64 pos + unat n]"
        "position_at t = (position_at ?s)(dev \<mapsto> pos')"
    by auto
  then show ?thesis
  proof cases
    case 2
    then have "undisturbed ok dev (far buf (unat n)) s t" using keeps [OF 2(3)] by (simp add: undisturbed_def keeps_def)
    then show ?thesis using 2(1,4) run by auto
  qed (simp add: run)
qed

end

section \<open>Block files keep the contract\<close>

definition block_image :: "disk \<Rightarrow> ptr \<Rightarrow> nat \<Rightarrow> nat \<Rightarrow> u8" where
  "block_image disk f B i = disk f (i div B) ! (i mod B)"

text \<open>A handle on a block file whose driver delivers the blocks of \<open>disk\<close>.\<close>

definition block_ready ::
  "('z fs_scheme) block_calls \<Rightarrow> ('z fs_scheme) fs_calls \<Rightarrow> disk \<Rightarrow> ptr \<Rightarrow> ptr \<Rightarrow> nat \<Rightarrow> 'z fs_scheme \<Rightarrow> bool" where
  "block_ready rd c disk dev f e s \<longleftrightarrow> heap_inv s \<and> cache_ok disk s \<and> device_ok disk s
     \<and> (\<forall>h buf n. c_file_read c Blockfile_read h buf n = blockfile_read rd h buf n)
     \<and> (\<exists>r bf t. handle_at s dev = Some r \<and> h_node r = f \<and> f \<noteq> 0 \<and> file_at s f = Some (Some block_ops)
          \<and> block_file_at s f = Some bf \<and> unat (b_exponent bf) = e \<and> b_ops bf = Some t \<and> bo_read t \<noteq> Null
          \<and> delivers rd (bo_read t) disk)
     \<and> position_at s dev \<noteq> None"

lemma block_image_piece:
  assumes "\<And>n. length (disk f n) = B" and "p mod B + n \<le> B"
  shows "take n (drop (p mod B) (disk f (p div B))) = map (block_image disk f B) [p..<p + n]"
proof (rule nth_equalityI)
  fix i assume "i < length (take n (drop (p mod B) (disk f (p div B))))"
  then have i: "i < n" "p mod B + i < B" using assms by auto
  have "p + i = (p mod B + i) + (p div B) * B" using div_mult_mod_eq [of p B] by linarith
  then have "(p + i) div B = p div B" "(p + i) mod B = p mod B + i"
    using i(2) by (simp_all only: div_mult_self1 mod_mult_self1) simp_all
  then show "take n (drop (p mod B) (disk f (p div B))) ! i = map (block_image disk f B) [p..<p + n] ! i"
    using i assms(1) by (simp add: block_image_def)
qed (use assms in simp)

lemma block_ready_read:
  assumes ready: "block_ready rd c disk dev f e s" and pos: "position_at s dev = Some pos"
    and buf: "buffer_ok s buf (unat n)" and n: "0 < n" "val64 pos mod 2 ^ e + unat n \<le> 2 ^ e"
  shows "file_read c dev buf n s = Inl (Panic ''out of mem'')
    \<or> (\<exists>t pos'. file_read c dev buf n s = Inr (n, t) \<and> block_ready rd c disk dev f e t \<and> keeps s buf (unat n) t
        \<and> bytes_at 0x0050 buf (unat n) (mem t) = map (block_image disk f (2 ^ e)) [val64 pos..<val64 pos + unat n]
        \<and> position_at t = (position_at s)(dev \<mapsto> pos') \<and> val64 pos' = (val64 pos + unat n) mod 2 ^ 64)"
proof -
  obtain r bf t where r: "handle_at s dev = Some r" "h_node r = f" "f \<noteq> 0" "file_at s f = Some (Some block_ops)"
    "block_file_at s f = Some bf" "unat (b_exponent bf) = e" "b_ops bf = Some t" "bo_read t \<noteq> Null"
    "delivers rd (bo_read t) disk"
    and c: "c_file_read c Blockfile_read dev buf n = blockfile_read rd dev buf n"
    and s: "heap_inv s" "cache_ok disk s" "device_ok disk s"
    using ready by (auto simp: block_ready_def)
  have B: "block_bytes bf = 2 ^ e" using r(6) by (simp add: block_bytes_def)
  have len: "length (disk f m) = 2 ^ e" for m using s(3) r(5) B by (auto simp: device_ok_def)
  have run: "file_read c dev buf n s = blockfile_read rd dev buf n s"
    using r(1,2,4) c by (simp add: file_read_def kernel_simps get_file_def c_bool_def block_ops_def TYPE_MASK_def FILE_def
        ATTRIBUTE_MASK_def HANDLE_READ_def)
  have add: "val64 (add64 pos (init64 0 0 0 n)) = (val64 pos + unat n) mod 2 ^ 64"
    by (subst add64_value) (simp_all add: init64_def val64_expand)
  have step: "block_ready rd c disk dev f e u" if "read_result disk s dev f bf pos n buf u" for u
    using that ready s(3) pos unfolding read_result_def keeps_def same_tables_def block_ready_def device_ok_def by auto
  show ?thesis
    using blockfile_read_ok [OF s r(9,1) _ _ r(7,8) pos buf n(1)] r(2,3,5) n(2) B step
      block_image_piece [of disk f "2 ^ e" "val64 pos" "unat n", OF len n(2)] add
    unfolding run by (auto simp: read_result_def)
qed

interpretation block_file_image: image_file c dev "2 ^ e" "block_image disk f (2 ^ e)" "block_ready rd c disk dev f e"
  for c dev e disk f rd
  by unfold_locales
    (auto dest: block_ready_read, auto simp: block_ready_def cache_ok_def device_ok_def entry_ok_def)

end
