(* ===== verification/Fat.thy ===== *)
theory Fat
  imports Image
begin

text \<open>
  The FAT file system, \<^verbatim>\<open>kernel/fs/fat/fat.c\<close>: names in directory entries, the parameters in
  the boot sector, chains of clusters in the 12-bit allocation table, and directory look-up.

  Local variables that the code passes by reference lie on the kernel stack; their addresses are
  arguments (\<open>entry_loc\<close>, \<open>cluster_loc\<close>), and so is what uninitialised memory holds.
\<close>

unbundle bit_operations_syntax

section \<open>Data\<close>

record parameters =
  bytes_per_sector :: u16
  sectors_per_cluster :: u8
  reserved_sectors :: u16
  fats :: u8
  root_entries :: u16
  sectors_per_fat :: u16
  hidden_sectors :: u32
  total_sectors :: u32

text \<open>The members of a directory entry that the code uses, as they lie in memory.\<close>

record directory_entry =
  de_name :: "u8 list"
  de_attributes :: u8
  de_cluster_lo :: u16
  de_size :: u16

definition SIZEOF_PARAMETERS :: u16 where "SIZEOF_PARAMETERS = 72"
definition SIZEOF_ENTRY :: u16 where "SIZEOF_ENTRY = 32"
definition SIZEOF_FAT_ROOT :: u16 where "SIZEOF_FAT_ROOT = 53"
definition SIZEOF_FAT_FILE :: u16 where "SIZEOF_FAT_FILE = 37"
definition FAT_NAME_OFFSET :: u16 where "FAT_NAME_OFFSET = 24"

definition FLAG_VOLUME :: u8 where "FLAG_VOLUME = 0x04"
definition FILE_IO_RESULT_STATUS_MASK :: u16 where "FILE_IO_RESULT_STATUS_MASK = 0xf000"
definition FILE_IO_RESULT_SIZE_MASK :: u16 where "FILE_IO_RESULT_SIZE_MASK = 0x0fff"

definition entry_at :: "ptr \<Rightarrow> 'z machine_scheme \<Rightarrow> directory_entry" where
  "entry_at p s =
     \<lparr>de_name = bytes_at 0x0050 p 11 (mem s), de_attributes = peek 0x0050 (p + 11) s,
      de_cluster_lo = peekw 0x0050 (p + 26) s, de_size = peekw 0x0050 (p + 28) s\<rparr>"

definition fat_file_ops :: file_ops where
  "fat_file_ops = \<lparr>fo_open = Null, fo_read = Fat_read_file, fo_write = Null\<rparr>"

definition fat_root_dir_ops :: directory_ops where
  "fat_root_dir_ops =
     \<lparr>do_open = Null, do_get_next_node = Fat_root_get_next_node,
      do_find_node = Fat_root_get_node_by_name, do_add_node = Null\<rparr>"

section \<open>Names\<close>

text \<open>
  \<open>upper_part n name\<close> takes up to \<open>n\<close> characters, up to a dot, and gives what is left of the
  name.  Nothing stops it at the end of the string.
\<close>

fun upper_part :: "nat \<Rightarrow> u8 list \<Rightarrow> u8 list \<times> u8 list" where
  "upper_part 0 name = ([], name)"
| "upper_part (Suc n) [] = ([], [])"
| "upper_part (Suc n) (c # cs) =
     (if c = 0x2e then ([], c # cs)
      else (case upper_part n cs of (part, rest) \<Rightarrow> (toupper c # part, rest)))"

text \<open>\<open>old\<close> is what the buffer \<open>fat_name\<close> held before.\<close>

definition name_to_fat :: "u8 list \<Rightarrow> u8 list \<Rightarrow> u8 list" where
  "name_to_fat name old =
     (case upper_part 8 name of (part, rest) \<Rightarrow>
      case upper_part 3 (tl rest) of (ext, _) \<Rightarrow>
        let written = part @ replicate (8 - length part) 0x20 @ ext in written @ drop (length written) old)"

fun lower_part :: "nat \<Rightarrow> u8 list \<Rightarrow> u8 list" where
  "lower_part 0 name = []"
| "lower_part (Suc n) [] = []"
| "lower_part (Suc n) (c # cs) = (if c = 0x20 then [] else tolower c # lower_part n cs)"

definition name_from_fat :: "u8 list \<Rightarrow> u8 list" where
  "name_from_fat fat_name = lower_part 8 fat_name @ [0x2e] @ lower_part 3 (drop 8 fat_name) @ [0]"

section \<open>Parameters\<close>

definition word32_at :: "ptr \<Rightarrow> 'z machine_scheme \<Rightarrow> u32" where
  "word32_at p s = ucast (peekw 0x0050 p s) OR push_bit 16 (ucast (peekw 0x0050 (p + 2) s))"

definition parameters_at :: "ptr \<Rightarrow> 'z machine_scheme \<Rightarrow> parameters" where
  "parameters_at mbr s =
     \<lparr>bytes_per_sector = peekw 0x0050 (mbr + 11) s, sectors_per_cluster = peek 0x0050 (mbr + 13) s,
      reserved_sectors = peekw 0x0050 (mbr + 14) s, fats = peek 0x0050 (mbr + 16) s,
      root_entries = peekw 0x0050 (mbr + 17) s, sectors_per_fat = peekw 0x0050 (mbr + 22) s,
      hidden_sectors = word32_at (mbr + 28) s, total_sectors = word32_at (mbr + 32) s\<rparr>"

definition fat_read_parameters ::
  "('z fs_scheme) fs_calls \<Rightarrow> parameters \<Rightarrow> ptr \<Rightarrow> ('z fs_scheme, parameters) kmon" where
  "fat_read_parameters c params handle =
     bindK (malloc 512) (\<lambda>mbr.
       if mbr \<noteq> 0 then
         thenK (file_seek handle (init64 0 0 0 0))
        (thenK (file_read c handle mbr 512)
        (bindK (getK (parameters_at mbr)) (\<lambda>params.
         thenK (free mbr) (retK params))))
       else retK params)"

text \<open>The loop that counts how often the size of a cluster can be halved; it never ends for 0.\<close>

partial_function (option) cluster_bits :: "u8 \<Rightarrow> u16 \<Rightarrow> u8 option" where
  "cluster_bits pot n = (if n AND 1 = 0 then cluster_bits (pot + 1) (drop_bit 1 n) else Some pot)"

definition root_size :: "parameters \<Rightarrow> u16" where
  "root_size p = ((root_entries p * 32 + bytes_per_sector p - 1) div bytes_per_sector p) * bytes_per_sector p"

definition parse_params :: "parameters \<Rightarrow> fat_root \<Rightarrow> fat_root option" where
  "parse_params p d =
     map_option (\<lambda>pot.
       let root_begin = shl64 (init64 0 0 0 (reserved_sectors p + ucast (fats p) * sectors_per_fat p)) 9
       in d\<lparr>fr_cluster_pot := pot, fr_root_begin := root_begin,
            fr_root_end := add64_16 (set64 (fr_root_end d) root_begin) (root_size p),
            fr_fat_begin := shl64 (init64 0 0 0 (reserved_sectors p)) 9\<rparr>)
       (cluster_bits 0 (ucast (sectors_per_cluster p) * bytes_per_sector p))"

section \<open>The root directory\<close>

datatype scan = Skip | Stop | Take

definition entry_kind :: "directory_entry \<Rightarrow> scan" where
  "entry_kind e =
     (if de_attributes e AND FLAG_VOLUME \<noteq> 0 then Skip
      else if hd (de_name e) = 0xe5 then Skip
      else if hd (de_name e) = 0 then Stop
      else Take)"

definition entry_named :: "u8 list \<Rightarrow> directory_entry \<Rightarrow> scan" where
  "entry_named name e =
     (if entry_kind e = Take \<and> memcmp (char_int True) (de_name e) name 11 \<noteq> 0 then Skip else entry_kind e)"

text \<open>
  The loop over the entries, which both searches have; \<open>position\<close> is that of the entry before,
  and the result is the position and the name of the entry that is taken.
\<close>

partial_function (option) scan_entries ::
  "('z fs_scheme) fs_calls \<Rightarrow> ptr \<Rightarrow> (directory_entry \<Rightarrow> scan) \<Rightarrow> ptr \<Rightarrow> Uint64 \<Rightarrow> Uint64 \<Rightarrow> 'z fs_scheme
    \<Rightarrow> (kerror + (Uint64 \<times> u8 list) option \<times> 'z fs_scheme) option" where
  "scan_entries c entry_loc kind handle root_end position s =
     (if cmp64 position root_end < 0 then
        case lookupK position_at handle s of
          Inl e \<Rightarrow> Some (Inl e)
        | Inr (position, s) \<Rightarrow>
            (case file_read c handle entry_loc SIZEOF_ENTRY s of
               Inl e \<Rightarrow> Some (Inl e)
             | Inr (_, s1) \<Rightarrow>
                 (case kind (entry_at entry_loc s1) of
                    Skip \<Rightarrow> scan_entries c entry_loc kind handle root_end position s1
                  | Stop \<Rightarrow> Some (Inr (None, s1))
                  | Take \<Rightarrow> Some (Inr (Some (position, de_name (entry_at entry_loc s1)), s1))))
      else Some (Inr (None, s)))"

definition make_fat_file :: "ptr \<Rightarrow> Uint64 \<Rightarrow> u8 list \<Rightarrow> ('z fs_scheme, ptr) kmon" where
  "make_fat_file directory position fat_name =
     bindK (file_create_node 0 0 (Some fat_file_ops)) (\<lambda>file.
     bindK (realloc_object file SIZEOF_FAT_FILE) (\<lambda>fat_file.
     thenK (modifyK (\<lambda>s. s\<lparr>mem := store_bytes 0x0050 (fat_file + FAT_NAME_OFFSET) (name_from_fat fat_name) (mem s)\<rparr>))
    (thenK (upd_node fat_file (\<lambda>n. n\<lparr>n_name := fat_file + FAT_NAME_OFFSET\<rparr>))
    (thenK (modifyK (\<lambda>s. s\<lparr>fat_file_at := (fat_file_at s)(fat_file \<mapsto>
         \<lparr>ff_root = directory, ff_entry_position = position\<rparr>)\<rparr>))
       (retK fat_file)))))"

definition found_entry :: "ptr \<Rightarrow> (Uint64 \<times> u8 list) option \<Rightarrow> ('z fs_scheme, ptr) kmon" where
  "found_entry directory found =
     (case found of None \<Rightarrow> retK 0 | Some (position, name) \<Rightarrow> make_fat_file directory position name)"

definition fat_root_get_next_node ::
  "('z fs_scheme) fs_calls \<Rightarrow> ptr \<Rightarrow> ptr \<Rightarrow> ptr \<Rightarrow> ('z fs_scheme, ptr) kmon" where
  "fat_root_get_next_node c entry_loc handle current_node =
     bindK (get_handle handle) (\<lambda>h.
     bindK (lookupK fat_root_at (h_node h)) (\<lambda>d.
     bindK (if current_node = 0 then retK (fr_root_begin d)
            else bindK (lookupK fat_file_at current_node) (\<lambda>f.
                   retK (add64 (init64 0 0 0 SIZEOF_ENTRY) (ff_entry_position f)))) (\<lambda>position.
     thenK (file_seek (fr_handle d) position)
       (bindK (loopK (scan_entries c entry_loc entry_kind (fr_handle d) (fr_root_end d) position))
          (found_entry (h_node h))))))"

definition fat_root_get_node_by_name ::
  "('z fs_scheme) fs_calls \<Rightarrow> ptr \<Rightarrow> u8 list \<Rightarrow> ptr \<Rightarrow> ptr \<Rightarrow> ('z fs_scheme, ptr) kmon" where
  "fat_root_get_node_by_name c entry_loc old handle outer_name =
     bindK (get_handle handle) (\<lambda>h.
     bindK (lookupK fat_root_at (h_node h)) (\<lambda>d.
     bindK (getK (\<lambda>s. name_to_fat (mem_str s outer_name) old)) (\<lambda>name.
     thenK (file_seek (fr_handle d) (fr_root_begin d))
       (bindK (loopK (scan_entries c entry_loc (entry_named name) (fr_handle d) (fr_root_end d) (fr_root_begin d)))
          (found_entry (h_node h))))))"

section \<open>Reading a file\<close>

record fat_progress =
  fp_buffer :: ptr
  fp_completed :: u16
  fp_cluster :: u16
  fp_offset :: u16
  fp_left :: Uint64

text \<open>The place of an entry of the allocation table, and the entry in the word that is read there.\<close>

definition table_position :: "u16 \<Rightarrow> Uint64 \<Rightarrow> Uint64" where
  "table_position cluster fat_begin = add64 (init64 0 0 0 (cluster + cluster div 2)) fat_begin"

definition table_entry :: "u16 \<Rightarrow> u16 \<Rightarrow> u16" where
  "table_entry cluster w = (if cluster mod 2 \<noteq> 0 then drop_bit 4 w else w AND 0x0fff)"

definition cluster_position :: "u8 \<Rightarrow> Uint64 \<Rightarrow> u16 \<Rightarrow> u16 \<Rightarrow> Uint64" where
  "cluster_position pot root_end cluster offset =
     add64_16 (add64 (shl64 (init64 0 0 0 (cluster - 2)) (ucast pot)) root_end) offset"

definition chunk_size :: "u8 \<Rightarrow> u16 \<Rightarrow> u16 \<Rightarrow> u16 \<Rightarrow> u16 \<Rightarrow> u16" where
  "chunk_size pot offset next_cluster end_offset wanted =
     (let chunk = push_bit (unat pot) 1 - offset;
          chunk = (if next_cluster \<ge> 0xff8 \<and> offset + chunk > end_offset then end_offset - offset else chunk)
      in if chunk > wanted then wanted else chunk)"

definition read_cluster ::
  "('z fs_scheme) fs_calls \<Rightarrow> ptr \<Rightarrow> fat_root \<Rightarrow> u16 \<Rightarrow> u16 \<Rightarrow> fat_progress \<Rightarrow> ('z fs_scheme, fat_progress) kmon" where
  "read_cluster c cluster_loc root end_offset count g =
     thenK (file_seek (fr_handle root) (table_position (fp_cluster g) (fr_fat_begin root)))
    (thenK (file_read c (fr_handle root) cluster_loc 2)
    (bindK (getK (\<lambda>s. table_entry (fp_cluster g) (peekw 0x0050 cluster_loc s))) (\<lambda>next_cluster.
       if cmp64_16 (fp_left g) 0 \<noteq> 0
       then retK (g\<lparr>fp_left := dec64 (fp_left g), fp_cluster := next_cluster\<rparr>)
       else
         thenK (file_seek (fr_handle root)
             (cluster_position (fr_cluster_pot root) (fr_root_end root) (fp_cluster g) (fp_offset g)))
        (bindK (file_read c (fr_handle root) (fp_buffer g)
             (chunk_size (fr_cluster_pot root) (fp_offset g) next_cluster end_offset (count - fp_completed g))) (\<lambda>got.
         let got = got AND FILE_IO_RESULT_SIZE_MASK in
         retK (g\<lparr>fp_buffer := fp_buffer g + got, fp_completed := fp_completed g + got, fp_offset := 0,
                 fp_cluster := next_cluster\<rparr>))))))"

partial_function (option) read_clusters ::
  "('z fs_scheme) fs_calls \<Rightarrow> ptr \<Rightarrow> fat_root \<Rightarrow> u16 \<Rightarrow> u16 \<Rightarrow> fat_progress \<Rightarrow> 'z fs_scheme
    \<Rightarrow> (kerror + fat_progress \<times> 'z fs_scheme) option" where
  "read_clusters c cluster_loc root end_offset count g s =
     (if fp_completed g < count \<and> fp_cluster g < 0xff7 then
        case read_cluster c cluster_loc root end_offset count g s of
          Inl e \<Rightarrow> Some (Inl e)
        | Inr (g, s1) \<Rightarrow> read_clusters c cluster_loc root end_offset count g s1
      else Some (Inr (g, s)))"

definition fat_read_file ::
  "('z fs_scheme) fs_calls \<Rightarrow> ptr \<Rightarrow> ptr \<Rightarrow> ptr \<Rightarrow> ptr \<Rightarrow> u16 \<Rightarrow> ('z fs_scheme, u16) kmon" where
  "fat_read_file c entry_loc cluster_loc handle buffer count =
     bindK (get_handle handle) (\<lambda>h.
     bindK (lookupK fat_file_at (h_node h)) (\<lambda>file.
     bindK (lookupK fat_root_at (ff_root file)) (\<lambda>root.
     bindK (lookupK position_at handle) (\<lambda>position.
     bindK (shr64K position (ucast (fr_cluster_pot root))) (\<lambda>(left, offset).
     thenK (file_seek (fr_handle root) (ff_entry_position file))
    (thenK (file_read c (fr_handle root) entry_loc SIZEOF_ENTRY)
    (bindK (getK (entry_at entry_loc)) (\<lambda>entry.
     bindK (shr64K (init64 0 0 0 (de_size entry)) (ucast (fr_cluster_pot root))) (\<lambda>(_, end_offset).
     bindK (loopK (read_clusters c cluster_loc root end_offset count
        \<lparr>fp_buffer = buffer, fp_completed = 0, fp_cluster = de_cluster_lo entry, fp_offset = offset,
         fp_left = left\<rparr>)) (\<lambda>g.
     bindK (lookupK position_at handle) (\<lambda>position.
     thenK (set_position handle (add64_16 position (fp_completed g)))
       (retK (fp_completed g)))))))))))))"

section \<open>Mounting\<close>

definition create_fat_fs ::
  "('z fs_scheme) fs_calls \<Rightarrow> ptr \<Rightarrow> parameters \<Rightarrow> fat_root \<Rightarrow> ptr \<Rightarrow> ('z fs_scheme, ptr) kmon" where
  "create_fat_fs c empty_name old_params old_root data =
     bindK (directory_create_node empty_name 0 (Some fat_root_dir_ops)) (\<lambda>directory.
     bindK (file_open c data HANDLE_READ) (\<lambda>handle.
     bindK (malloc SIZEOF_PARAMETERS) (\<lambda>params.
     bindK (realloc_object directory SIZEOF_FAT_ROOT) (\<lambda>root_directory.
     bindK (if directory \<noteq> 0 \<and> params \<noteq> 0 \<and> handle \<noteq> 0
            then bindK (fat_read_parameters c old_params handle) (\<lambda>p.
                   case parse_params p old_root of None \<Rightarrow> failK Hang | Some d \<Rightarrow> retK d)
            else retK old_root) (\<lambda>d.
     thenK (modifyK (\<lambda>s. s\<lparr>fat_root_at := (fat_root_at s)(root_directory \<mapsto> d\<lparr>fr_handle := handle\<rparr>)\<rparr>))
    (thenK (free params) (retK root_directory)))))))"

section \<open>What the names become\<close>

lemma upper_part_stops:
  assumes "\<forall>c \<in> set xs. c \<noteq> 0x2e" and "length xs \<le> n"
  shows "upper_part n (xs @ 0x2e # ys) = (map toupper xs, if length xs = n then 0x2e # ys else 0x2e # ys)"
  using assms
proof (induction xs arbitrary: n)
  case Nil
  then show ?case by (cases n) auto
next
  case (Cons x xs)
  then show ?case by (cases n) auto
qed

lemma upper_part_full:
  "\<forall>c \<in> set xs. c \<noteq> 0x2e \<Longrightarrow> upper_part (length xs) (xs @ ys) = (map toupper xs, ys)"
  by (induction xs) auto

lemma toupper_facts: "\<not> isupper c \<Longrightarrow> tolower (toupper c) = c" "c \<noteq> 0x20 \<Longrightarrow> toupper c \<noteq> 0x20"
proof -
  have "unat (c - 32) = unat c - 32" if "islower c"
    using that by (simp add: islower_def word_le_nat_alt unat_sub)
  then show "\<not> isupper c \<Longrightarrow> tolower (toupper c) = c" "c \<noteq> 0x20 \<Longrightarrow> toupper c \<noteq> 0x20"
    by (auto simp: toupper_def tolower_def islower_def isupper_def word_le_nat_alt)
qed

lemma lower_part_upper:
  assumes "\<forall>c \<in> set xs. c \<noteq> 0x20 \<and> \<not> isupper c"
  shows "lower_part (length xs + k) (map toupper xs @ ys) = xs @ lower_part k ys"
  using assms
proof (induction xs)
  case (Cons x xs)
  have "toupper x \<noteq> 0x20" "tolower (toupper x) = x"
    using Cons.prems toupper_facts [of x] by auto
  then show ?case using Cons by simp
qed simp

lemma lower_part_spaces: "lower_part n (replicate n 0x20 @ ys) = []"
  by (cases n) auto

text \<open>
  C25: an 8.3 name in lower case with an extension of three characters comes back from a directory
  entry as it went in; the name is padded with blanks.
\<close>

theorem fat_name_roundtrip:
  assumes "length base \<le> 8" and "length ext = 3"
    and "\<forall>c \<in> set (base @ ext). c \<noteq> 0x2e \<and> c \<noteq> 0x20 \<and> \<not> isupper c"
  shows "name_from_fat (name_to_fat (base @ [0x2e] @ ext @ [0] @ rest) old) = base @ [0x2e] @ ext @ [0]"
proof -
  have "upper_part 8 (base @ 0x2e # ext @ [0] @ rest) = (map toupper base, 0x2e # ext @ [0] @ rest)"
    using assms upper_part_stops [of base 8 "ext @ [0] @ rest"] by auto
  moreover have "upper_part 3 (ext @ [0] @ rest) = (map toupper ext, [0] @ rest)"
    using assms(2,3) upper_part_full [of ext "[0] @ rest"] by auto
  ultimately have fat: "name_to_fat (base @ [0x2e] @ ext @ [0] @ rest) old
      = map toupper base @ replicate (8 - length base) 0x20 @ map toupper ext @ drop 11 old"
    using assms(1,2) by (simp add: name_to_fat_def Let_def)
  have "lower_part 8 (map toupper base @ replicate (8 - length base) 0x20 @ map toupper ext @ drop 11 old) = base"
    using assms lower_part_upper [of base "8 - length base"] lower_part_spaces by auto
  moreover have "lower_part 3 (map toupper ext @ drop 11 old) = ext"
    using assms lower_part_upper [of ext 0 "drop 11 old"] by auto
  ultimately show ?thesis using assms(1) unfolding fat name_from_fat_def by simp
qed

text \<open>
  The conversion does not stop at the end of the string: with a shorter extension the terminator
  becomes part of the name, so that it never equals a name that is padded with blanks.
\<close>

lemma fat_name_short_extension:
  assumes "length base \<le> 8" and "length ext < 3" and "\<forall>c \<in> set (base @ ext). c \<noteq> 0x2e"
  shows "0 \<in> set (take 11 (name_to_fat (base @ [0x2e] @ ext @ [0] @ rest) old))"
proof -
  have "upper_part n (xs @ 0 # ys) = (map toupper xs @ 0 # fst (upper_part (n - Suc (length xs)) ys), snd (upper_part (n - Suc (length xs)) ys))"
    if "length xs < n" "\<forall>c \<in> set xs. c \<noteq> 0x2e" for n xs ys
    using that
  proof (induction xs arbitrary: n)
    case Nil
    then show ?case by (cases n) (auto simp: toupper_def islower_def split: prod.split)
  next
    case (Cons x xs)
    then show ?case by (cases n) auto
  qed
  from this [of ext 3 rest] assms(2,3) obtain z zs where e: "upper_part 3 (ext @ 0 # rest) = (map toupper ext @ 0 # z, zs)" by auto
  have "upper_part 8 (base @ 0x2e # ext @ [0] @ rest) = (map toupper base, 0x2e # ext @ [0] @ rest)"
    using assms upper_part_stops [of base 8 "ext @ [0] @ rest"] by auto
  then have "name_to_fat (base @ [0x2e] @ ext @ [0] @ rest) old
      = (map toupper base @ replicate (8 - length base) 0x20) @ (map toupper ext @ [0]) @ z
        @ drop (length (map toupper base @ replicate (8 - length base) 0x20 @ map toupper ext @ 0 # z)) old"
    using assms(1) e by (simp add: name_to_fat_def Let_def)
  moreover have "length (map toupper base @ replicate (8 - length base) 0x20) + length (map toupper ext @ [0]) \<le> 11"
    using assms(1,2) by simp
  ultimately show ?thesis by (simp add: take_Cons')
qed

section \<open>The 12-bit allocation table\<close>

text \<open>The table on the disk: each pair of 12-bit entries takes three bytes.\<close>

fun pack12 :: "u16 list \<Rightarrow> u8 list" where
  "pack12 [] = []"
| "pack12 [a] = [lo8 a, lo8 (drop_bit 8 a)]"
| "pack12 (a # b # es) = lo8 a # lo8 (drop_bit 8 a OR push_bit 4 (b AND 0x0f)) # lo8 (drop_bit 4 b) # pack12 es"

lemma high_bits:
  assumes "a < 0x1000" and "bit (a :: u16) k"
  shows "k < 12"
proof (rule ccontr)
  assume "\<not> k < 12"
  then have "(2 :: nat) ^ 12 \<le> 2 ^ k" by (intro power_increasing) simp_all
  then have "unat a div 2 ^ k = 0" using assms(1) by (intro div_less) (simp add: less16_iff)
  moreover have "bit (unat a) k" using assms(2) bit_imp_le_length [OF assms(2)] by (simp add: bit_simps)
  ultimately show False by (simp add: bit_iff_odd)
qed

lemma table_entry_even:
  assumes "even (unat c)" and "a < 0x1000"
  shows "table_entry c (word_of_bytes (lo8 a) (lo8 (drop_bit 8 a OR push_bit 4 b))) = a"
proof -
  have "c mod 2 = 0" using assms(1) by (simp add: word_unat_eq_iff unat_mod16 even_iff_mod_2_eq_zero)
  moreover have m: "(0x0fff :: u16) = mask 12" by (simp add: mask_eq_exp_minus_1)
  have "word_of_bytes (lo8 a) (lo8 (drop_bit 8 a OR push_bit 4 b)) AND 0x0fff = a"
    unfolding m by (intro bit_word_eqI) (auto simp: word_of_bytes_def lo8_def bit_simps not_less dest: high_bits [OF assms(2)])
  ultimately show ?thesis by (simp add: table_entry_def)
qed

lemma table_entry_odd:
  assumes "odd (unat c)" and "a < 0x1000" and "b < 0x1000"
  shows "table_entry c (word_of_bytes (lo8 (drop_bit 8 a OR push_bit 4 (b AND 0x0f))) (lo8 (drop_bit 4 b))) = b"
proof -
  have "c mod 2 \<noteq> 0" using assms(1) by (simp add: word_unat_eq_iff unat_mod16 even_iff_mod_2_eq_zero)
  moreover have m: "(0xf :: u16) = mask 4" by (simp add: mask_eq_exp_minus_1)
  have "bit (drop_bit 4 (word_of_bytes (lo8 (drop_bit 8 a OR push_bit 4 (b AND mask 4))) (lo8 (drop_bit 4 b)))) k = bit b k"
    for k
    using high_bits [OF assms(2), of "k + 12"] high_bits [OF assms(3), of k]
    by (cases "k < 4"; cases "k < 12") (auto simp: word_of_bytes_def lo8_def bit_simps ac_simps dest: high_bits [OF assms(2)])
  then have "drop_bit 4 (word_of_bytes (lo8 (drop_bit 8 a OR push_bit 4 (b AND 0x0f))) (lo8 (drop_bit 4 b))) = b"
    unfolding m by (intro bit_word_eqI) blast
  ultimately show ?thesis by (simp add: table_entry_def)
qed

text \<open>
  Decoding the word at offset \<open>i + i div 2\<close> of a packed table yields entry \<open>i\<close>, for even
  and for odd \<open>i\<close>.
\<close>

theorem table_entry_pack:
  assumes "i < length es" and "length es < 65536" and "\<forall>e \<in> set es. e < 0x1000"
  shows "table_entry (of_nat i) (word_of_bytes (pack12 es ! (i + i div 2)) (pack12 es ! (i + i div 2 + 1))) = es ! i"
proof -
  have "table_entry (of_nat (2 * j + i)) (word_of_bytes (pack12 es ! (i + i div 2)) (pack12 es ! (i + i div 2 + 1))) = es ! i"
    if "i < length es" "2 * j + i < 65536" "\<forall>e \<in> set es. e < 0x1000" for j i
    using that
  proof (induction es arbitrary: i j rule: pack12.induct)
    case (2 a)
    have "even (unat (of_nat (2 * j) :: u16))" using 2 by (subst unat_of_nat_16) simp_all
    then show ?case using 2 table_entry_even [of "of_nat (2 * j)" a 0] by simp
  next
    case (3 a b es)
    consider "i = 0" | "i = 1" | k where "i = Suc (Suc k)" by (cases i rule: nat.exhaust) (auto, metis One_nat_def nat.exhaust)
    then show ?case
    proof cases
      case 1
      have "even (unat (of_nat (2 * j) :: u16))" using 3(3) by (subst unat_of_nat_16) simp_all
      then show ?thesis using 1 3(4) table_entry_even [of "of_nat (2 * j)" a "b AND 0xf"] by simp
    next
      case 2
      have "odd (unat (of_nat (2 * j + 1) :: u16))" using 2 3(3) by (subst unat_of_nat_16) simp_all
      then show ?thesis using 2 3(4) table_entry_odd [of "of_nat (2 * j + 1)" a b] by simp
    next
      case (3 k)
      have "2 * j + i = 2 * (j + 1) + k" using 3 by simp
      moreover have "i + i div 2 = Suc (Suc (Suc (k + k div 2)))" using 3 by simp
      ultimately show ?thesis using "3.IH" [of k "j + 1"] "3.prems" 3 by simp
    qed
  qed simp
  from this [of i 0] assms show ?thesis by simp
qed

section \<open>What the boot sector says\<close>

lemma unat_ucast_8_16: "unat (ucast (x :: u8) :: u16) = unat x"
  using unsigned_less [of x, where ?'a = nat] by (simp add: unsigned_ucast_eq take_bit_eq_mod)

lemma cluster_bits_power: "j < 16 \<Longrightarrow> cluster_bits pot (2 ^ j) = Some (pot + of_nat j)"
proof (induction j arbitrary: pot)
  case 0
  show ?case by (subst cluster_bits.simps) simp
next
  case (Suc j)
  have "(2 ^ Suc j :: u16) AND 1 = 0" by (simp only: and_one_eq power_Suc) (simp add: even_iff_mod_2_eq_zero [symmetric])
  moreover have "drop_bit 1 (2 ^ Suc j :: u16) = 2 ^ j"
    using Suc.prems by (intro bit_word_eqI) (auto simp: bit_simps)
  ultimately have "cluster_bits pot (2 ^ Suc j) = cluster_bits (pot + 1) (2 ^ j)"
    by (subst cluster_bits.simps) simp
  then show ?case using Suc by (simp add: ac_simps)
qed

text \<open>
  For a cluster whose size comes out as 0 the loop never ends; 128 sectors of 512 bytes are 65536
  bytes, which is 0 as an \<open>int\<close>.
\<close>

lemma cluster_bits_zero: "cluster_bits pot 0 = None"
proof -
  have "n \<noteq> 0" if "cluster_bits p n = Some y" for p n y
    by (rule cluster_bits.raw_induct [OF _ that, of "\<lambda>_ n _. n \<noteq> 0"]) (auto split: if_splits, blast)
  then show ?thesis by (cases "cluster_bits pot 0") auto
qed

lemma parse_params_hangs:
  "sectors_per_cluster p = 128 \<Longrightarrow> bytes_per_sector p = 512 \<Longrightarrow> parse_params p d = None"
proof -
  assume p: "sectors_per_cluster p = 128" "bytes_per_sector p = 512"
  have "ucast (sectors_per_cluster p) * bytes_per_sector p = (0 :: u16)"
    by (simp add: word_unat_eq_iff unat_mult16 unat_ucast_8_16) (simp add: p)
  then show ?thesis by (simp only: parse_params_def cluster_bits_zero option.map)
qed


section \<open>Witnesses\<close>

theorem fat_name_roundtrip_witness:
  "name_from_fat (name_to_fat ([0x73, 0x68, 0x65, 0x6c, 0x6c, 0x2e, 0x62, 0x69, 0x6e, 0] :: u8 list) (replicate 11 0))
    = [0x73, 0x68, 0x65, 0x6c, 0x6c, 0x2e, 0x62, 0x69, 0x6e, 0]"
  using fat_name_roundtrip [of "[0x73, 0x68, 0x65, 0x6c, 0x6c]" "[0x62, 0x69, 0x6e]" "[]" "replicate 11 0"]
  by (simp add: isupper_def)

theorem table_entry_pack_witness: "table_entry 1 (word_of_bytes (pack12 [0x123, 0xabc] ! 1) (pack12 [0x123, 0xabc] ! 2)) = 0xabc"
  using table_entry_pack [of 1 "[0x123, 0xabc]"] by simp

text \<open>The parameters of a floppy disk of 1440 KB.\<close>

definition floppy_parameters :: parameters where
  "floppy_parameters = \<lparr>bytes_per_sector = 512, sectors_per_cluster = 1, reserved_sectors = 1, fats = 2, root_entries = 224,
     sectors_per_fat = 9, hidden_sectors = 0, total_sectors = 2880\<rparr>"


end
