(* ===== verification/Devices.thy ===== *)
theory Devices
  imports Fat
begin

text \<open>
  The file systems that live in memory and the device files: \<^verbatim>\<open>kernel/fs/ramfs/ramfs.c\<close>,
  \<^verbatim>\<open>kernel/fs/devfs/devfs.c\<close>, the creation of the device files in \<^verbatim>\<open>kernel/char/screen.c\<close>,
  \<^verbatim>\<open>kernel/char/keyb.c\<close> and \<^verbatim>\<open>kernel/block/floppy.c\<close>, and \<open>vfs_create_filesystem\<close>.

  This theory also closes the knot of the operation tables: \<open>calls n\<close> says what the functions in
  the tables do, where \<open>n\<close> bounds how many file systems lie on top of each other.
\<close>

unbundle bit_operations_syntax

section \<open>What the code finds outside of itself\<close>

text \<open>
  Addresses that the compiler and the linker choose (string literals, local variables, functions),
  the contents of uninitialised memory, and what happens while the floppy driver sleeps.
\<close>

record 's environment =
  e_literal :: "string \<Rightarrow> ptr"
  e_function :: "string \<Rightarrow> u16"
  e_entry :: ptr
  e_cluster :: ptr
  e_fat_name :: "u8 list"
  e_parameters :: parameters
  e_fat_root :: fat_root
  e_halt :: "nat \<Rightarrow> 's \<Rightarrow> 's"
  e_others :: "('s, unit) kmon"
  e_data_rate :: bool

section \<open>Tables of operations\<close>

definition no_file_ops :: file_ops where
  "no_file_ops = \<lparr>fo_open = Null, fo_read = Null, fo_write = Null\<rparr>"

definition screen_ops :: file_ops where "screen_ops = no_file_ops\<lparr>fo_write := Screen_write\<rparr>"

definition keyb_ops :: file_ops where "keyb_ops = no_file_ops\<lparr>fo_read := Keyb_read\<rparr>"

definition floppy_ops :: block_file_ops where
  "floppy_ops = \<lparr>bo_read = Floppy_read, bo_write = Null\<rparr>"

definition ramfs_dir_ops :: directory_ops where
  "ramfs_dir_ops = \<lparr>do_open = Null, do_get_next_node = Null, do_find_node = Null, do_add_node = Null\<rparr>"

definition ramfs_file_ops :: file_ops where "ramfs_file_ops = no_file_ops"

definition screen_write_file :: "ptr \<Rightarrow> u16 \<Rightarrow> ('z fs_scheme, u16) kmon" where
  "screen_write_file buffer count s = Inr (screen_write (bytes_at 0x0050 buffer (unat count) (mem s)) s)"

definition keyb_read_file :: "ptr \<Rightarrow> u16 \<Rightarrow> ('z fs_scheme, u16) kmon" where
  "keyb_read_file buffer count s =
     (case keyb_read count s of ((n, chars), s) \<Rightarrow>
        Inr (n, s\<lparr>mem := store_bytes 0x0050 buffer chars (mem s)\<rparr>))"

definition block_calls :: "('z fs_scheme) environment \<Rightarrow> ('z fs_scheme) block_calls" where
  "block_calls env f handle buffer block =
     (if f = Floppy_read then floppy_read (e_halt env) (e_others env) (e_data_rate env) buffer block
      else failK (BadPtr 0))"

definition null_calls :: "'s fs_calls" where
  "null_calls =
     \<lparr>c_file_open = \<lambda>f file mode. failK (BadPtr 0), c_file_read = \<lambda>f handle buffer count. failK Hang,
      c_file_write = \<lambda>f handle buffer count. failK Hang, c_dir_open = \<lambda>f directory mode. failK (BadPtr 0),
      c_get_next_node = \<lambda>f handle current. failK Hang, c_find_node = \<lambda>f handle name. failK Hang,
      c_add_node = \<lambda>f directory node. failK (BadPtr 0)\<rparr>"

primrec calls :: "nat \<Rightarrow> ('z fs_scheme) environment \<Rightarrow> ('z fs_scheme) fs_calls" where
  "calls 0 env = null_calls"
| "calls (Suc n) env = null_calls\<lparr>
     c_file_read := \<lambda>f handle buffer count.
       (case f of
          Keyb_read \<Rightarrow> keyb_read_file buffer count
        | Blockfile_read \<Rightarrow> blockfile_read (block_calls env) handle buffer count
        | Fat_read_file \<Rightarrow> fat_read_file (calls n env) (e_entry env) (e_cluster env) handle buffer count
        | _ \<Rightarrow> failK (BadPtr 0)),
     c_file_write := \<lambda>f handle buffer count.
       (case f of
          Screen_write \<Rightarrow> screen_write_file buffer count
        | Blockfile_write \<Rightarrow> blockfile_write handle buffer count
        | _ \<Rightarrow> failK (BadPtr 0)),
     c_get_next_node := \<lambda>f handle current.
       (if f = Fat_root_get_next_node then fat_root_get_next_node (calls n env) (e_entry env) handle current
        else failK (BadPtr 0)),
     c_find_node := \<lambda>f handle name.
       (if f = Fat_root_get_node_by_name
        then fat_root_get_node_by_name (calls n env) (e_entry env) (e_fat_name env) handle name
        else failK (BadPtr 0))\<rparr>"

section \<open>File systems in memory\<close>

definition SIZEOF_RAMFS_FILE :: u16 where "SIZEOF_RAMFS_FILE = 20"

text \<open>The local variable hides the parameter: the file is the null pointer.\<close>

definition ramfs_allocate_file_for_node :: "ptr \<Rightarrow> ('z fs_scheme, ptr) kmon" where
  "ramfs_allocate_file_for_node file =
     (let file = 0 in
      bindK (realloc_object file SIZEOF_RAMFS_FILE) (\<lambda>ramfs_file.
        if file = 0 then retK 0 else retK ramfs_file))"

definition ramfs_directory_add_node :: "ptr \<Rightarrow> ptr \<Rightarrow> ('z fs_scheme, ptr) kmon" where
  "ramfs_directory_add_node dir node =
     bindK (get_node node) (\<lambda>n.
       if n_flags n AND FILE \<noteq> 0 then
         bindK (get_file node) (\<lambda>ops.
           if ops \<noteq> None then failK (Panic ''ops set'')
           else
             thenK (modifyK (\<lambda>s. s\<lparr>file_at := (file_at s)(node \<mapsto> Some ramfs_file_ops)\<rparr>))
               (ramfs_allocate_file_for_node node))
       else if n_flags n AND DIRECTORY \<noteq> 0 then
         bindK (get_directory node) (\<lambda>d.
           if d_ops d \<noteq> None then failK (Panic ''ops set'')
           else thenK (upd_directory node (\<lambda>d. d\<lparr>d_ops := Some ramfs_dir_ops\<rparr>)) (retK node))
       else retK node)"

definition ramfs_create :: "('z fs_scheme) environment \<Rightarrow> ('z fs_scheme, ptr) kmon" where
  "ramfs_create env = directory_create_node (e_literal env '''') STATIC (Some ramfs_dir_ops)"

definition devfs_init :: "('z fs_scheme) environment \<Rightarrow> ('z fs_scheme, unit) kmon" where
  "devfs_init env =
     bindK (directory_create_node (e_literal env '''') STATIC None) (\<lambda>d.
       modifyK (\<lambda>s. s\<lparr>devfs_root := d\<rparr>))"

definition devfs_get_root :: "('z fs_scheme, ptr) kmon" where
  "devfs_get_root = getK devfs_root"

definition vfs_create_filesystem ::
  "('z fs_scheme) fs_calls \<Rightarrow> ('z fs_scheme) environment \<Rightarrow> ptr \<Rightarrow> ptr \<Rightarrow> ('z fs_scheme, ptr) kmon" where
  "vfs_create_filesystem c env type node =
     bindK (getK (\<lambda>s. mem_str s type)) (\<lambda>name.
       if strcmp (char_int True) name [0x66, 0x61, 0x74, 0] = 0
       then create_fat_fs c (e_literal env '''') (e_parameters env) (e_fat_root env) node
       else if strcmp (char_int True) name [0x72, 0x61, 0x6d, 0] = 0 then ramfs_create env
       else if strcmp (char_int True) name [0x64, 0x65, 0x76, 0] = 0 then devfs_get_root
       else retK 0)"

section \<open>Device files\<close>

definition screen_init_device ::
  "('z fs_scheme) fs_calls \<Rightarrow> ('z fs_scheme) environment \<Rightarrow> ('z fs_scheme, unit) kmon" where
  "screen_init_device c env =
     bindK devfs_get_root (\<lambda>devfs.
     bindK (directory_open c devfs HANDLE_WRITE) (\<lambda>handle.
     bindK (file_create_node (e_literal env ''screen'') STATIC (Some screen_ops)) (\<lambda>screen.
       whenK (handle \<noteq> 0)
         (thenK (if screen \<noteq> 0 then directory_add_node c handle screen else retK 0)
            (directory_close handle)))))"

definition keyb_init ::
  "('z fs_scheme) fs_calls \<Rightarrow> ('z fs_scheme) environment \<Rightarrow> ('z fs_scheme, unit) kmon" where
  "keyb_init c env =
     bindK devfs_get_root (\<lambda>devfs.
     bindK (directory_open c devfs HANDLE_WRITE) (\<lambda>handle.
     bindK (file_create_node (e_literal env ''keyboard'') STATIC (Some keyb_ops)) (\<lambda>keyb.
     thenK (irq_capture 1 (e_function env ''keyb_func''))
       (whenK (handle \<noteq> 0)
         (thenK (if keyb \<noteq> 0 then directory_add_node c handle keyb else retK 0)
            (directory_close handle))))))"

definition add_floppy ::
  "('z fs_scheme) fs_calls \<Rightarrow> ptr \<Rightarrow> ptr \<Rightarrow> ('z fs_scheme, unit) kmon" where
  "add_floppy c handle name =
     bindK (blockfile_create_node name STATIC (Some floppy_ops) SEC_POT) (\<lambda>file.
       thenK (if file \<noteq> 0 then directory_add_node c handle file else retK 0) (retK ()))"

definition floppy_create_files ::
  "('z fs_scheme) fs_calls \<Rightarrow> ('z fs_scheme) environment \<Rightarrow> ('z fs_scheme, unit) kmon" where
  "floppy_create_files c env =
     bindK devfs_get_root (\<lambda>devfs.
     bindK (directory_open c devfs HANDLE_WRITE) (\<lambda>handle.
       if handle = 0 then retK ()
       else
         bindK (getK drives) (\<lambda>ds.
         thenK (whenK (ds ! 0 = 0x04) (add_floppy c handle (e_literal env ''floppy0'')))
        (thenK (whenK (ds ! 1 = 0x04) (add_floppy c handle (e_literal env ''floppy1'')))
           (directory_close handle)))))"

definition floppy_init ::
  "('z fs_scheme) fs_calls \<Rightarrow> ('z fs_scheme) environment \<Rightarrow> ('z fs_scheme, unit) kmon" where
  "floppy_init c env s =
     (case floppy_detect s of (found, s) \<Rightarrow> if found then floppy_create_files c env s else Inr ((), s))"

end
