(* ===== verification/Syscall.thy ===== *)
theory Syscall
  imports Devices Fork
begin

text \<open>
  System calls, \<^verbatim>\<open>kernel/syscall.c\<close>, and the end of a task, \<open>task_exit\<close> of \<^verbatim>\<open>kernel/task.c\<close>, which
  closes what the task has open.  A system call reads its arguments from the registers that the
  task has left on its stack and puts its result there.
\<close>

unbundle bit_operations_syntax

section \<open>Registers\<close>

definition DX :: u16 where "DX = 6"
definition CX :: u16 where "CX = 8"
definition BX :: u16 where "BX = 10"
definition AX :: u16 where "AX = 12"

section \<open>The end of a task\<close>

definition close_handle :: "ptr \<Rightarrow> nat \<Rightarrow> ('z fs_scheme, unit) kmon" where
  "close_handle table i =
     bindK (getK (\<lambda>s. slot s table (of_nat i))) (\<lambda>handle.
       if handle = 0 then retK ()
       else bindK (get_handle handle) (\<lambda>h.
         if h_flags h AND DIRECTORY \<noteq> 0 then
           thenK (directory_close handle) (modifyK (set_slot table (of_nat i) 0))
         else if h_flags h AND FILE \<noteq> 0 then
           thenK (file_close handle) (modifyK (set_slot table (of_nat i) 0))
         else retK ()))"

fun close_handles :: "ptr \<Rightarrow> nat list \<Rightarrow> ('z fs_scheme, unit) kmon" where
  "close_handles table [] = retK ()"
| "close_handles table (i # is) = thenK (close_handle table i) (close_handles table is)"

definition task_exit :: "('z fs_scheme) halted \<Rightarrow> ptr \<Rightarrow> ('z fs_scheme, unit) kmon" where
  "task_exit hlt task =
     bindK (get_task task) (\<lambda>t.
     thenK (modifyK (free_segment (t_segment t)))
    (thenK (close_handles (t_handles t) [0..<unat (t_handle_count t)])
    (thenK (free (t_handles t))
    (thenK (upd_task task (\<lambda>t. t\<lparr>t_handle_count := 0, t_state := EXITED\<rparr>))
    (thenK (free (t_stack t))
    (thenK (upd_task task (\<lambda>t. t\<lparr>t_stack := 0\<rparr>))
    (thenK (whenK (t_waiting_for_exit t \<noteq> 0) (task_wakeup (t_waiting_for_exit t)))
       (task_schedule hlt))))))))"

section \<open>Arguments\<close>

definition get_int64 :: "ptr \<Rightarrow> u16 \<Rightarrow> ('z tasks_scheme, ptr) kmon" where
  "get_int64 task reg =
     bindK (task_get_register task reg) (\<lambda>addr.
     bindK (malloc 8) (\<lambda>n.
       if n = 0 then retK 0 else thenK (task_get_memory task addr n 8) (retK n)))"

text \<open>The loop that measures a string of the task; it does not end when there is no terminator.\<close>

partial_function (option) string_size :: "(nat \<Rightarrow> u8) \<Rightarrow> u16 \<Rightarrow> u16 \<Rightarrow> u16 \<Rightarrow> u16 option" where
  "string_size m seg addr n =
     (if m (linear seg addr) \<noteq> 0 then string_size m seg (addr + 1) (n + 1) else Some (n + 1))"

definition get_string :: "ptr \<Rightarrow> u16 \<Rightarrow> ('z tasks_scheme, ptr) kmon" where
  "get_string task reg =
     bindK (task_get_register task reg) (\<lambda>addr.
     bindK (get_task task) (\<lambda>t.
     bindK (getK (\<lambda>s. string_size (mem s) (t_segment t) addr 0)) (\<lambda>found.
       case found of
         None \<Rightarrow> failK Hang
       | Some n \<Rightarrow>
           bindK (malloc n) (\<lambda>str.
             if str = 0 then retK 0
             else bindK (task_get_register task reg) (\<lambda>addr.
                    thenK (task_get_memory task addr str n) (retK str))))))"

section \<open>Calls\<close>

definition sys_exit :: "ptr \<Rightarrow> ('z fs_scheme, u16) kmon" where
  "sys_exit task = bindK (task_get_register task BX) (\<lambda>code. retK (- 1))"

definition open_mode :: "u16 \<Rightarrow> u16" where
  "open_mode mode =
     (if mode AND 1 \<noteq> 0 then HANDLE_READ else 0) OR (if mode AND 2 \<noteq> 0 then HANDLE_WRITE else 0)"

definition sys_open_file :: "('z fs_scheme) fs_calls \<Rightarrow> ptr \<Rightarrow> ('z fs_scheme, u16) kmon" where
  "sys_open_file c task =
     bindK (get_string task BX) (\<lambda>path.
     bindK (task_get_register task CX) (\<lambda>mode.
     bindK (if path \<noteq> 0 then vfs_get_node_for_path c path else retK 0) (\<lambda>node.
     bindK (if node \<noteq> 0 then file_open c node (open_mode mode) else retK 0) (\<lambda>handle.
     bindK (if handle \<noteq> 0 then task_add_handle task handle else retK 0) (\<lambda>i.
     thenK (free path) (retK i))))))"

definition sys_close_file :: "ptr \<Rightarrow> ('z fs_scheme, u16) kmon" where
  "sys_close_file task =
     bindK (task_get_register task BX) (\<lambda>i.
     bindK (task_get_handle task i) (\<lambda>handle.
     thenK (whenK (handle \<noteq> 0) (thenK (file_close handle) (task_remove_handle task i)))
       (retK 0)))"

definition sys_read_file :: "('z fs_scheme) fs_calls \<Rightarrow> ptr \<Rightarrow> ('z fs_scheme, u16) kmon" where
  "sys_read_file c task =
     bindK (task_get_register task BX) (\<lambda>i.
     bindK (task_get_register task CX) (\<lambda>task_buffer.
     bindK (task_get_register task DX) (\<lambda>count.
     bindK (task_get_handle task i) (\<lambda>handle.
     bindK (if handle \<noteq> 0 then malloc count else retK 0) (\<lambda>buffer.
       if buffer \<noteq> 0 then
         bindK (file_read c handle buffer count) (\<lambda>got.
         thenK (task_set_memory task task_buffer buffer got)
        (thenK (free buffer) (retK got)))
       else retK 0)))))"

definition sys_write_file :: "('z fs_scheme) fs_calls \<Rightarrow> ptr \<Rightarrow> ('z fs_scheme, u16) kmon" where
  "sys_write_file c task =
     bindK (task_get_register task BX) (\<lambda>i.
     bindK (task_get_register task CX) (\<lambda>task_buffer.
     bindK (task_get_register task DX) (\<lambda>count.
     bindK (task_get_handle task i) (\<lambda>handle.
     bindK (if handle \<noteq> 0 then malloc count else retK 0) (\<lambda>buffer.
       if buffer \<noteq> 0 then
         thenK (task_get_memory task task_buffer buffer count)
        (bindK (file_write c handle buffer count) (\<lambda>done.
         thenK (free buffer) (retK done)))
       else retK 0)))))"

text \<open>A 64-bit number in the memory of a task, least significant limb first.\<close>

definition int64_at :: "u16 \<Rightarrow> u16 \<Rightarrow> 'z machine_scheme \<Rightarrow> Uint64" where
  "int64_at seg addr s =
     U64 (peekw seg addr s) (peekw seg (addr + 2) s) (peekw seg (addr + 4) s) (peekw seg (addr + 6) s)"

definition sys_seek :: "ptr \<Rightarrow> ('z fs_scheme, u16) kmon" where
  "sys_seek task =
     bindK (task_get_register task BX) (\<lambda>i.
     bindK (task_get_register task CX) (\<lambda>task_buffer.
     bindK (task_get_handle task i) (\<lambda>handle.
     bindK (get_task task) (\<lambda>t.
     bindK (getK (int64_at (t_segment t) task_buffer)) (\<lambda>position.
     thenK (whenK (handle \<noteq> 0) (file_seek handle position)) (retK 0))))))"

definition sys_remove :: "ptr \<Rightarrow> ('z fs_scheme, u16) kmon" where
  "sys_remove task = retK (- 1)"

definition sys_mount ::
  "('z fs_scheme) fs_calls \<Rightarrow> ('z fs_scheme) environment \<Rightarrow> ptr \<Rightarrow> ('z fs_scheme, u16) kmon" where
  "sys_mount c env task =
     bindK (get_string task BX) (\<lambda>destination_path.
     bindK (get_string task CX) (\<lambda>type.
     bindK (get_string task DX) (\<lambda>source_path.
     bindK (vfs_get_node_for_path c source_path) (\<lambda>source_node.
     bindK (vfs_get_node_for_path c destination_path) (\<lambda>destination_node.
     bindK (vfs_create_filesystem c env type source_node) (\<lambda>file_system.
     thenK (directory_redirect destination_node file_system) (retK 0)))))))"

text \<open>
  \<open>tree\<close> of \<^verbatim>\<open>kernel/start.c\<close> prints what is below a node; \<open>n\<close> bounds the recursion.  The handle
  is freed, and not closed.
\<close>

fun tree :: "nat \<Rightarrow> ('z fs_scheme) fs_calls \<Rightarrow> ptr \<Rightarrow> ('z fs_scheme, unit) kmon"
  and tree_children :: "nat \<Rightarrow> ('z fs_scheme) fs_calls \<Rightarrow> ptr \<Rightarrow> ptr \<Rightarrow> ('z fs_scheme, unit) kmon" where
  "tree 0 c node = failK Hang"
| "tree (Suc n) c node =
     bindK (get_node node) (\<lambda>nd.
       if n_flags nd AND DIRECTORY \<noteq> 0 then
         bindK (directory_open c node HANDLE_READ) (\<lambda>handle.
         bindK (directory_get_next_node c handle 0) (\<lambda>child.
         thenK (tree_children n c handle child) (free_handle handle)))
       else retK ())"
| "tree_children 0 c handle child = failK Hang"
| "tree_children (Suc n) c handle child =
     (if child = 0 then retK ()
      else
        thenK (tree n c child)
          (bindK (directory_get_next_node c handle child) (tree_children n c handle)))"

definition sys_unmount :: "nat \<Rightarrow> ('z fs_scheme) fs_calls \<Rightarrow> ptr \<Rightarrow> ('z fs_scheme, u16) kmon" where
  "sys_unmount n c task = bindK (getK vfs_root) (\<lambda>root. thenK (tree n c root) (retK (- 1)))"

definition sys_fork :: "('z fs_scheme) environment \<Rightarrow> ptr \<Rightarrow> ('z fs_scheme, u16) kmon" where
  "sys_fork env task = fork (e_function env ''kernel_exit'')"

text \<open>The loop that loads a program to the start of the segment of the task.\<close>

partial_function (option) load_program ::
  "('z fs_scheme) fs_calls \<Rightarrow> ptr \<Rightarrow> ptr \<Rightarrow> ptr \<Rightarrow> u16 \<Rightarrow> 'z fs_scheme \<Rightarrow> (kerror + 'z fs_scheme) option" where
  "load_program c task handle buffer addr s =
     (case file_read c handle buffer 512 s of
        Inl e \<Rightarrow> Some (Inl e)
      | Inr (result, s1) \<Rightarrow>
          (let got = result AND FILE_IO_RESULT_SIZE_MASK in
           case task_set_memory task addr buffer got s1 of
             Inl e \<Rightarrow> Some (Inl e)
           | Inr (_, s2) \<Rightarrow>
               if got > 0 \<and> result AND FILE_IO_RESULT_STATUS_MASK = 0
               then load_program c task handle buffer (addr + got) s2
               else Some (Inr s2)))"

definition sys_exec :: "('z fs_scheme) fs_calls \<Rightarrow> ptr \<Rightarrow> ('z fs_scheme, u16) kmon" where
  "sys_exec c task =
     bindK (get_string task BX) (\<lambda>path.
     bindK (get_string task CX) (\<lambda>param.
     bindK (if path \<noteq> 0
            then bindK (vfs_get_node_for_path c path) (\<lambda>node. thenK (free path) (retK node))
            else retK 0) (\<lambda>node.
     bindK (if node \<noteq> 0 then file_open c node HANDLE_READ else retK 0) (\<lambda>handle.
     bindK (if node \<noteq> 0 then malloc 512 else retK 0) (\<lambda>buffer.
     thenK (whenK (handle \<noteq> 0 \<and> buffer \<noteq> 0 \<and> param \<noteq> 0)
         (thenK (runK (load_program c task handle buffer 0))
            (bindK (getK (\<lambda>s. mem_str s param)) exec)))
    (thenK (whenK (buffer \<noteq> 0) (free buffer))
    (thenK (whenK (handle \<noteq> 0) (file_close handle)) (retK 0))))))))"

text \<open>The function has no \<open>return\<close>; \<open>result\<close> is what the caller finds in the result register.\<close>

definition sys_sleep ::
  "('z fs_scheme) environment \<Rightarrow> u16 \<Rightarrow> ptr \<Rightarrow> ('z fs_scheme, u16) kmon" where
  "sys_sleep env result task =
     bindK (task_get_register task BX) (\<lambda>milliseconds.
     thenK (clock_set_wakeup task milliseconds)
    (thenK (task_sleep (e_halt env) task)
    (thenK (e_others env) (retK result))))"

definition sys_create_path :: "ptr \<Rightarrow> ('z fs_scheme, u16) kmon" where
  "sys_create_path task = retK (- 1)"

definition sys_wait_for_task :: "('z fs_scheme) environment \<Rightarrow> ptr \<Rightarrow> ('z fs_scheme, u16) kmon" where
  "sys_wait_for_task env task =
     bindK (task_get_register task BX) (\<lambda>segment.
     bindK (segment_to_task segment) (\<lambda>other.
     thenK (whenK (other \<noteq> 0) (upd_task other (\<lambda>t. t\<lparr>t_waiting_for_exit := task\<rparr>)))
    (thenK (task_sleep (e_halt env) task)
    (thenK (e_others env) (retK 0)))))"

section \<open>Dispatch\<close>

definition NUM_SYSCALLS :: u16 where "NUM_SYSCALLS = 14"

definition syscall_table ::
  "nat \<Rightarrow> ('z fs_scheme) environment \<Rightarrow> u16 \<Rightarrow> (ptr \<Rightarrow> ('z fs_scheme, u16) kmon) list" where
  "syscall_table n env result =
     (let c = calls n env in
      [sys_exit, sys_open_file c, sys_close_file, sys_read_file c, sys_write_file c, sys_seek, sys_remove,
       sys_mount c env, sys_unmount n c, sys_fork env, sys_exec c, sys_sleep env result, sys_create_path,
       sys_wait_for_task env])"

text \<open>The call of the function with the number in \<open>ax\<close>, whose result goes to \<open>ax\<close>.\<close>

definition syscall_call :: "(ptr \<Rightarrow> ('z fs_scheme, u16) kmon) list \<Rightarrow> ('z fs_scheme, unit) kmon" where
  "syscall_call table =
     bindK (getK current_task) (\<lambda>cur.
     bindK (task_get_register cur AX) (\<lambda>i.
     bindK (if i < NUM_SYSCALLS then (table ! unat i) cur else retK (- 1)) (\<lambda>result.
     bindK (getK current_task) (\<lambda>cur. task_set_register cur AX result))))"

definition syscall_func ::
  "nat \<Rightarrow> ('z fs_scheme) environment \<Rightarrow> u16 \<Rightarrow> ('z fs_scheme, unit) kmon" where
  "syscall_func n env result = syscall_call (syscall_table n env result)"

definition syscall_init :: "('z fs_scheme) environment \<Rightarrow> ('z fs_scheme, unit) kmon" where
  "syscall_init env = sys_capture (e_function env ''syscall_func'')"

end
