(* ===== verification/Start.thy ===== *)
theory Start
  imports Syscall
begin

text \<open>
  The start of the kernel, \<^verbatim>\<open>kernel/start.c\<close>: the order in which the parts are initialised, the
  first directories, and the mount of the device file system.
\<close>

unbundle bit_operations_syntax

text \<open>The walk over the nodes in memory; \<open>n\<close> bounds the recursion.  It changes nothing.\<close>

fun print_cached_nodes :: "nat \<Rightarrow> ptr \<Rightarrow> ('z fs_scheme, unit) kmon"
  and print_cached_children :: "nat \<Rightarrow> ptr \<Rightarrow> ('z fs_scheme, unit) kmon" where
  "print_cached_nodes 0 node = failK Hang"
| "print_cached_nodes (Suc n) node =
     bindK (get_node node) (\<lambda>nd.
       if n_flags nd AND DIRECTORY \<noteq> 0 then
         bindK (get_directory node) (\<lambda>d.
         bindK (get_directory (if d_redirect d \<noteq> 0 then d_redirect d else node)) (\<lambda>d.
           print_cached_children n (d_child d)))
       else retK ())"
| "print_cached_children 0 child = failK Hang"
| "print_cached_children (Suc n) child =
     (if child = 0 then retK ()
      else
        thenK (print_cached_nodes n child)
          (bindK (get_node child) (\<lambda>nd. print_cached_children n (n_next nd))))"

text \<open>The kernel ends at \<open>_end\<close>; the heap goes from there to \<open>0xf000\<close>.\<close>

definition init_devices ::
  "('z fs_scheme) fs_calls \<Rightarrow> ('z fs_scheme) environment \<Rightarrow> (nat \<Rightarrow> u16) \<Rightarrow> ('z fs_scheme, unit) kmon" where
  "init_devices c env stub =
     thenK (modifyK init_serial)
    (thenK (modifyK screen_init)
    (thenK (malloc_init (e_literal env ''_end'') 0xf000)
    (thenK (intr_init stub (e_function env ''intr_quick''))
    (thenK (devfs_init env)
    (thenK (screen_init_device c env)
    (thenK (clock_init (e_function env ''clock_func''))
    (thenK (keyb_init c env)
    (thenK (floppy_init c env)
    (thenK (syscall_init env) task_init)))))))))"

definition make_root ::
  "('z fs_scheme) fs_calls \<Rightarrow> ('z fs_scheme) environment \<Rightarrow> ('z fs_scheme, ptr) kmon" where
  "make_root c env =
     bindK (ramfs_create env) (\<lambda>root.
     thenK (vfs_set_root root)
    (bindK (directory_open c root HANDLE_WRITE) (\<lambda>handle.
     thenK (bindK (directory_create_node (e_literal env ''devices'') STATIC None) (directory_add_node c handle))
    (thenK (bindK (directory_create_node (e_literal env ''floppy'') STATIC None) (directory_add_node c handle))
    (thenK (directory_close handle) (retK root))))))"

definition main ::
  "nat \<Rightarrow> ('z fs_scheme) environment \<Rightarrow> (nat \<Rightarrow> u16) \<Rightarrow> ('z fs_scheme, unit) kmon" where
  "main n env stub =
     (let c = calls n env in
      thenK (init_devices c env stub)
     (bindK (make_root c env) (\<lambda>root.
      bindK (vfs_get_node_for_path c (e_literal env ''/devices'')) (\<lambda>dir.
        if dir = 0 then failK (Panic ''cannot find mountpoint for devfs'')
        else
          bindK devfs_get_root (\<lambda>devfs.
          thenK (directory_redirect dir devfs)
         (thenK (tree n c root) (print_cached_nodes n root)))))))"

end
