(* ===== verification/FatRead.thy ===== *)
theory FatRead
  imports Fat
begin

text \<open>
  Reading files of a FAT volume: what a file contains is read off the bytes of the device, along
  the chain of its clusters, and \<open>fat_read_file\<close> computes it.  The proofs rely on the contract of
  \<open>image_file\<close> alone; the properties hold for the block files of the kernel.
\<close>

unbundle bit_operations_syntax

section \<open>The contents of a file\<close>

definition image_word :: "(nat \<Rightarrow> u8) \<Rightarrow> nat \<Rightarrow> u16" where
  "image_word img p = word_of_bytes (img p) (img (Suc p))"

definition entry_offset :: "fat_root \<Rightarrow> u16 \<Rightarrow> nat" where
  "entry_offset root cl = val64 (fr_fat_begin root) + (unat cl + unat cl div 2)"

definition next_cluster :: "(nat \<Rightarrow> u8) \<Rightarrow> fat_root \<Rightarrow> u16 \<Rightarrow> u16" where
  "next_cluster img root cl = table_entry cl (image_word img (entry_offset root cl))"

definition data_offset :: "fat_root \<Rightarrow> nat \<Rightarrow> u16 \<Rightarrow> nat" where
  "data_offset root B cl = val64 (fr_root_end root) + (unat cl - 2) * B"

definition cluster_data :: "(nat \<Rightarrow> u8) \<Rightarrow> fat_root \<Rightarrow> nat \<Rightarrow> u16 \<Rightarrow> u8 list" where
  "cluster_data img root B cl = map img [data_offset root B cl..<data_offset root B cl + B]"

text \<open>The clusters of a file, in order; the last one is marked as such in the table.\<close>

fun chain :: "(u16 \<Rightarrow> u16) \<Rightarrow> u16 list \<Rightarrow> bool" where
  "chain nx [] = False"
| "chain nx [cl] \<longleftrightarrow> 2 \<le> cl \<and> cl < 0xff7 \<and> 0xff8 \<le> nx cl"
| "chain nx (cl # cl' # cls) \<longleftrightarrow> 2 \<le> cl \<and> cl < 0xff7 \<and> nx cl = cl' \<and> chain nx (cl' # cls)"

definition file_bytes :: "(nat \<Rightarrow> u8) \<Rightarrow> fat_root \<Rightarrow> nat \<Rightarrow> u16 list \<Rightarrow> nat \<Rightarrow> u8 list" where
  "file_bytes img root B cls n = take n (concat (map (cluster_data img root B) cls))"

text \<open>A volume whose clusters are the blocks of its device.\<close>

definition layout_ok :: "fat_root \<Rightarrow> nat \<Rightarrow> bool" where
  "layout_ok root B \<longleftrightarrow> unat (fr_cluster_pot root) \<le> 11 \<and> B = 2 ^ unat (fr_cluster_pot root)
     \<and> val64 (fr_root_end root) mod B = 0 \<and> val64 (fr_root_end root) < 2 ^ 31 \<and> val64 (fr_fat_begin root) < 2 ^ 31"

text \<open>The entry of the cluster does not lie across two blocks.\<close>

definition entry_in_block :: "fat_root \<Rightarrow> nat \<Rightarrow> u16 \<Rightarrow> bool" where
  "entry_in_block root B cl \<longleftrightarrow> entry_offset root cl mod B + 2 \<le> B"

section \<open>Positions\<close>

lemma limbs_below:
  assumes "val64 x < 2 ^ 31"
  shows "i1 x \<noteq> 0xffff" "i2 x \<noteq> 0xffff" "i3 x \<noteq> 0xffff"
proof -
  have "unat (i1 x) < 0xffff" "unat (i2 x) < 0xffff" "unat (i3 x) < 0xffff"
    using assms by (simp_all add: val64_expand)
  then show "i1 x \<noteq> 0xffff" "i2 x \<noteq> 0xffff" "i3 x \<noteq> 0xffff" by auto
qed

lemma table_position_value:
  assumes "layout_ok root B" and "cl < 0xff7"
  shows "val64 (table_position cl (fr_fat_begin root)) = entry_offset root cl"
proof -
  have cl: "unat cl < 0xff7" using assms(2) by (simp add: less16_iff)
  have fb: "val64 (fr_fat_begin root) < 2 ^ 31" using assms(1) by (simp add: layout_ok_def)
  have "unat (cl + cl div 2) = unat cl + unat cl div 2"
    using cl by (subst unat_add16_small) (simp_all add: unat_div16)
  then have "val64 (table_position cl (fr_fat_begin root)) = (unat cl + unat cl div 2 + val64 (fr_fat_begin root)) mod 2 ^ 64"
    by (simp add: table_position_def add64_value [OF limbs_below [OF fb]])
  also have "\<dots> = unat cl + unat cl div 2 + val64 (fr_fat_begin root)" using cl fb by simp
  finally show ?thesis by (simp add: entry_offset_def)
qed

lemma cluster_position_value:
  assumes "layout_ok root B" and "2 \<le> cl" and "cl < 0xff7"
  shows "val64 (cluster_position (fr_cluster_pot root) (fr_root_end root) cl offset) = data_offset root B cl + unat offset"
proof -
  let ?p = "fr_cluster_pot root" and ?e = "fr_root_end root"
  have re: "val64 ?e < 2 ^ 31" and B: "B = 2 ^ unat ?p" and p: "unat ?p \<le> 11" using assms(1) by (auto simp: layout_ok_def)
  have cl: "unat (cl - 2) = unat cl - 2" "unat cl < 0xff7" using assms(2,3) by (simp_all add: unat_sub16_le le16_iff less16_iff)
  have "B \<le> 2 ^ 11" unfolding B using p by (intro power_increasing) simp_all
  then have small: "(unat cl - 2) * B \<le> 0xff7 * 2 ^ 11" using cl(2) by (intro mult_le_mono) simp_all
  have "val64 (shl64 (init64 0 0 0 (cl - 2)) (ucast ?p)) = (unat cl - 2) * B"
    using small by (simp add: shl64_correct unat_ucast_8_16 cl(1) B)
  then have "val64 (add64 (shl64 (init64 0 0 0 (cl - 2)) (ucast ?p)) ?e) = (unat cl - 2) * B + val64 ?e"
    using small re by (simp add: add64_value [OF limbs_below [OF re]])
  then show ?thesis
    using small re unat_lt_65536 [of offset] by (simp add: cluster_position_def add64_16_correct data_offset_def)
qed

lemma peekw_bytes: "bytes_at 0x0050 p 2 (mem s) = [a, b] \<Longrightarrow> peekw 0x0050 p s = word_of_bytes a b"
  by (simp add: bytes_at_Suc numeral_2_eq_2 peekw_def)

lemma thenK_assoc: "thenK a (thenK b m) = thenK (thenK a b) m"
  by (auto simp: thenK_def bindK_def fun_eq_iff split: sum.split prod.split)

lemma thenK_bindK: "thenK a (bindK b f) = bindK (thenK a b) f"
  by (auto simp: thenK_def bindK_def fun_eq_iff split: sum.split prod.split)

lemma cluster_len:
  assumes "layout_ok root B"
  shows "unat (push_bit (unat (fr_cluster_pot root)) 1 :: u16) = B" and "B \<le> 2048" and "0 < B"
proof -
  have p: "unat (fr_cluster_pot root) \<le> 11" and B: "B = 2 ^ unat (fr_cluster_pot root)" using assms by (auto simp: layout_ok_def)
  have "B \<le> 2 ^ 11" unfolding B using p by (intro power_increasing) simp_all
  then show le: "B \<le> 2048" by simp
  show "0 < B" by (simp add: B)
  have "push_bit (unat (fr_cluster_pot root)) 1 = (of_nat B :: u16)" by (simp add: push_bit_eq_mult B)
  then show "unat (push_bit (unat (fr_cluster_pot root)) 1 :: u16) = B" using le by (simp only:) (intro unat_of_nat_16, simp)
qed

text \<open>How much of a cluster is read: up to its end, or up to the end of the file in the last one.\<close>

lemma chunk_size_value:
  assumes "layout_ok root B" and "unat offset < B" and "unat offset < unat end_offset" and "unat end_offset < B"
  shows "unat (chunk_size (fr_cluster_pot root) offset nx end_offset wanted) =
    min ((if 0xff8 \<le> nx then unat end_offset else B) - unat offset) (unat wanted)"
proof -
  let ?l = "push_bit (unat (fr_cluster_pot root)) 1 :: u16"
  note B = cluster_len [OF assms(1)]
  have l: "unat (?l - offset) = B - unat offset" using assms(2) B(1) by (simp add: unat_sub16_le)
  have e: "unat (end_offset - offset) = unat end_offset - unat offset" using assms(3) by (simp add: unat_sub16_le)
  have "unat (offset + (?l - offset)) = B" using B(1) by simp
  then have "end_offset < offset + (?l - offset)" using assms(4) by (simp only: less16_iff)
  then show ?thesis using l e unfolding chunk_size_def Let_def by (auto simp: less16_iff min_def)
qed

lemma chunk_size_inner:
  assumes "layout_ok root B" and "unat offset < B" and "\<not> 0xff8 \<le> nx"
  shows "unat (chunk_size (fr_cluster_pot root) offset nx end_offset wanted) = min (B - unat offset) (unat wanted)"
proof -
  have "unat (push_bit (unat (fr_cluster_pot root)) 1 - offset) = B - unat offset"
    using assms(2) cluster_len(1) [OF assms(1)] by (simp add: unat_sub16_le)
  then show ?thesis using assms(3) unfolding chunk_size_def Let_def by (auto simp: less16_iff min_def)
qed

text \<open>
  When the length of a file is a multiple of the cluster size, the last cluster counts as empty and
  is never read.
\<close>

lemma chunk_size_full_cluster:
  assumes "layout_ok root B" and "0xff8 \<le> nx"
  shows "chunk_size (fr_cluster_pot root) 0 nx 0 wanted = 0"
proof -
  have "(0 :: u16) < push_bit (unat (fr_cluster_pot root)) 1" using cluster_len [OF assms(1)] by (simp add: less16_iff)
  then show ?thesis using assms(2) by (simp add: chunk_size_def Let_def)
qed

lemma masked_size: "unat n \<le> 2048 \<Longrightarrow> n AND FILE_IO_RESULT_SIZE_MASK = n"
proof -
  assume n: "unat n \<le> 2048"
  have m: "FILE_IO_RESULT_SIZE_MASK = (mask 12 :: u16)" by (simp add: FILE_IO_RESULT_SIZE_MASK_def mask_eq_exp_minus_1)
  have "n < 0x1000" using n by (simp add: less16_iff)
  show ?thesis unfolding m
    by (intro bit_word_eqI) (auto simp: bit_simps dest: high_bits [OF \<open>n < 0x1000\<close>])
qed

section \<open>All the rounds\<close>

lemma offset_later: "(a :: u16) + of_nat j + of_nat i = a + of_nat (j + i)"
  by (simp add: add.assoc)

lemma far_later: "far a n b k \<Longrightarrow> j \<le> n \<Longrightarrow> far (a + of_nat j) (n - j) b k"
  unfolding far_def offset_later by (auto dest: less_diff_conv [THEN iffD1] simp: add.commute simp del: of_nat_add)

lemma far_before: "far a n b k \<Longrightarrow> j \<le> n \<Longrightarrow> far a j b k"
  by (simp add: far_def)

lemma offsets_differ: "i < 65536 \<Longrightarrow> k < 65536 \<Longrightarrow> i \<noteq> k \<Longrightarrow> (of_nat i :: u16) \<noteq> of_nat k"
  by (metis unat_of_nat_16)

lemma far_earlier:
  assumes "n \<le> 65536" and "j \<le> n"
  shows "far (a + of_nat j) (n - j) a j"
  unfolding far_def offset_later
proof (intro allI impI)
  fix i k assume "i < n - j" and "k < j"
  then show "a + of_nat (j + i) \<noteq> a + of_nat k"
    unfolding add_left_cancel using assms by (intro offsets_differ) simp_all
qed

lemma buffer_ok_less: "buffer_ok s a n \<Longrightarrow> j \<le> n \<Longrightarrow> buffer_ok s a j"
  by (auto simp: buffer_ok_def far_def)

lemma buffer_ok_later:
  assumes "buffer_ok s a n" and "j \<le> n"
  shows "buffer_ok s (a + of_nat j) (n - j)"
  using assms far_later [OF _ assms(2)] unfolding buffer_ok_def offset_later by (auto simp del: of_nat_add)

lemma cluster_data_part:
  "p + n \<le> B \<Longrightarrow> map img [data_offset root B cl + p..<data_offset root B cl + p + n] = take n (drop p (cluster_data img root B cl))"
  by (simp add: cluster_data_def drop_map take_map drop_upt take_upt)

lemma length_cluster_data [simp]: "length (cluster_data img root B cl) = B"
  by (simp add: cluster_data_def)

lemma file_bytes_Cons:
  "B \<le> n \<Longrightarrow> file_bytes img root B (cl # cls) n = cluster_data img root B cl @ file_bytes img root B cls (n - B)"
  by (simp add: file_bytes_def)

lemma length_file_bytes:
  assumes "chain nx cls" and "0 < B" and "n div B = length (tl cls)"
  shows "length (file_bytes img root B cls n) = n"
proof -
  have "length (concat (map (cluster_data img root B) cls)) = length cls * B" by (induction cls) simp_all
  moreover have "length cls = Suc (n div B)" using assms(1,3) by (cases cls) simp_all
  moreover have "n < Suc (n div B) * B" using assms(2) dividend_less_div_times [of B n] by simp
  ultimately show ?thesis by (simp add: file_bytes_def)
qed

lemma cluster_chain_head: "chain nx (cl # cls) \<Longrightarrow> 2 \<le> cl \<and> cl < 0xff7"
  by (cases cls) auto

section \<open>One round\<close>

context image_file
begin

lemma read_table:
  assumes "ok s" and "layout_ok root B" and "cl < 0xff7" and "entry_in_block root B cl" and "buffer_ok s loc 2"
  defines "run \<equiv> thenK (file_seek dev (table_position cl (fr_fat_begin root))) (file_read c dev loc 2)"
  shows "run s = Inl (Panic ''out of mem'')
    \<or> (\<exists>t. run s = Inr (2, t) \<and> undisturbed ok dev (far loc 2) s t
        \<and> table_entry cl (peekw 0x0050 loc t) = next_cluster img root cl)"
proof -
  note pos = table_position_value [OF assms(2,3)]
  have two: "unat (2 :: u16) = 2" by simp
  have "entry_offset root cl mod B + 2 \<le> B" using assms(4) by (simp add: entry_in_block_def)
  then have "run s = Inl (Panic ''out of mem'')
    \<or> (\<exists>t. run s = Inr (2, t) \<and> undisturbed ok dev (far loc 2) s t
        \<and> bytes_at 0x0050 loc 2 (mem t) = map img [entry_offset root cl..<entry_offset root cl + 2])"
    using seek_read [OF assms(1), of loc 2 "table_position cl (fr_fat_begin root)"] assms(5) pos two by (simp add: run_def)
  then show ?thesis
    by (auto simp: next_cluster_def image_word_def upt_rec dest!: peekw_bytes)
qed

text \<open>A cluster that lies before the position is skipped.\<close>

lemma read_cluster_skip:
  assumes "ok s" and "layout_ok root B" and "fr_handle root = dev" and "fp_cluster g < 0xff7"
    and "entry_in_block root B (fp_cluster g)" and "buffer_ok s loc 2" and "0 < val64 (fp_left g)"
  shows "read_cluster c loc root end_offset count g s = Inl (Panic ''out of mem'')
    \<or> (\<exists>t. read_cluster c loc root end_offset count g s
          = Inr (g\<lparr>fp_left := dec64 (fp_left g), fp_cluster := next_cluster img root (fp_cluster g)\<rparr>, t)
        \<and> undisturbed ok dev (far loc 2) s t)"
proof -
  have "cmp64_16 (fp_left g) 0 \<noteq> 0" using assms(7) by (simp add: cmp64_16_correct)
  then show ?thesis
    using read_table [OF assms(1,2,4,5,6)]
    by (auto simp: read_cluster_def assms(3) thenK_assoc kernel_simps)
qed

text \<open>Otherwise a part of the cluster is read to the buffer.\<close>

lemma read_cluster_part:
  fixes g :: fat_progress and root :: fat_root and loc :: ptr and count end_offset :: u16
  defines "cl \<equiv> fp_cluster g"
  defines "n \<equiv> chunk_size (fr_cluster_pot root) (fp_offset g) (next_cluster img root cl) end_offset (count - fp_completed g)"
  assumes "ok s" and "layout_ok root B" and "fr_handle root = dev" and "2 \<le> cl" and "cl < 0xff7"
    and "entry_in_block root B cl" and "buffer_ok s loc 2" and "val64 (fp_left g) = 0"
    and "0 < n" and "unat (fp_offset g) + unat n \<le> B" and "buffer_ok s (fp_buffer g) (unat n)"
  shows "read_cluster c loc root end_offset count g s = Inl (Panic ''out of mem'')
    \<or> (\<exists>t. read_cluster c loc root end_offset count g s
          = Inr (g\<lparr>fp_buffer := fp_buffer g + n, fp_completed := fp_completed g + n, fp_offset := 0,
              fp_cluster := next_cluster img root cl\<rparr>, t)
        \<and> undisturbed ok dev (\<lambda>a k. far loc 2 a k \<and> far (fp_buffer g) (unat n) a k) s t
        \<and> bytes_at 0x0050 (fp_buffer g) (unat n) (mem t)
          = map img [data_offset root B cl + unat (fp_offset g)..<data_offset root B cl + unat (fp_offset g) + unat n])"
proof -
  have zero: "cmp64_16 (fp_left g) 0 = 0" using assms(10) by (simp add: cmp64_16_correct)
  have B: "B \<le> 2048" using cluster_len(2) [OF assms(4)] .
  have mask: "n AND FILE_IO_RESULT_SIZE_MASK = n" using assms(12) B by (intro masked_size) simp
  let ?pos = "cluster_position (fr_cluster_pot root) (fr_root_end root) cl (fp_offset g)"
  have pos: "val64 ?pos = data_offset root B cl + unat (fp_offset g)" by (rule cluster_position_value [OF assms(4,6,7)])
  have "val64 (fr_root_end root) mod B = 0" using assms(4) unfolding layout_ok_def by blast
  then have "data_offset root B cl mod B = 0" unfolding data_offset_def by (simp add: mod_add_left_eq [symmetric])
  moreover have "unat (fp_offset g) < B" using assms(11,12) by (simp add: less16_iff)
  ultimately have "val64 ?pos mod B + unat n \<le> B" unfolding pos using assms(12) by (simp add: mod_add_left_eq [symmetric])
  note read = seek_read [OF _ _ assms(11) this]
  from read_table [OF assms(3,4,7,8,9)]
  consider (oom) "thenK (file_seek dev (table_position cl (fr_fat_begin root))) (file_read c dev loc 2) s = Inl (Panic ''out of mem'')"
    | (table) t where "thenK (file_seek dev (table_position cl (fr_fat_begin root))) (file_read c dev loc 2) s = Inr (2, t)"
        "undisturbed ok dev (far loc 2) s t" "table_entry cl (peekw 0x0050 loc t) = next_cluster img root cl"
    by blast
  then show ?thesis
  proof cases
    case oom
    then show ?thesis by (simp add: read_cluster_def assms(5) thenK_assoc kernel_simps cl_def)
  next
    case table
    have first: "read_cluster c loc root end_offset count g s =
      bindK (thenK (file_seek dev ?pos) (file_read c dev (fp_buffer g) n))
        (\<lambda>got. let got = got AND FILE_IO_RESULT_SIZE_MASK in
           retK (g\<lparr>fp_buffer := fp_buffer g + got, fp_completed := fp_completed g + got, fp_offset := 0,
                 fp_cluster := next_cluster img root cl\<rparr>)) t"
      using table(1,3) zero by (simp add: read_cluster_def assms(5) thenK_assoc thenK_bindK kernel_simps cl_def n_def)
    from read [OF undisturbed_ok [OF table(2)] undisturbed_buffer [OF table(2) assms(13)]]
    consider "thenK (file_seek dev ?pos) (file_read c dev (fp_buffer g) n) t = Inl (Panic ''out of mem'')"
      | u where "thenK (file_seek dev ?pos) (file_read c dev (fp_buffer g) n) t = Inr (n, u)"
          "undisturbed ok dev (far (fp_buffer g) (unat n)) t u"
          "bytes_at 0x0050 (fp_buffer g) (unat n) (mem u) = map img [val64 ?pos..<val64 ?pos + unat n]"
      by blast
    then show ?thesis
    proof cases
      case 1
      then show ?thesis by (simp add: first kernel_simps)
    next
      case 2
      have "undisturbed ok dev (\<lambda>a k. far loc 2 a k \<and> far (fp_buffer g) (unat n) a k) s u"
        by (rule undisturbed_trans [OF undisturbed_weaken [OF table(2)] undisturbed_weaken [OF 2(2)]]) simp_all
      then show ?thesis using 2(1,3) by (simp add: first kernel_simps mask pos)
    qed
  qed
qed

end

text \<open>What \<open>read_clusters\<close> reads when it stands before cluster \<open>l\<close> of the chain, at \<open>o'\<close> in it.\<close>

definition clusters_result ::
  "('z fs_scheme \<Rightarrow> bool) \<Rightarrow> ptr \<Rightarrow> ptr \<Rightarrow> u16 \<Rightarrow> fat_progress \<Rightarrow> u8 list \<Rightarrow> 'z fs_scheme
     \<Rightarrow> (kerror + fat_progress \<times> 'z fs_scheme) option \<Rightarrow> bool" where
  "clusters_result ok dev loc count g D s r \<longleftrightarrow> r = Some (Inl (Panic ''out of mem''))
     \<or> (\<exists>g' t. r = Some (Inr (g', t)) \<and> fp_completed g' = fp_completed g + of_nat (length D)
          \<and> undisturbed ok dev (\<lambda>a k. far loc 2 a k \<and> far (fp_buffer g) (unat (count - fp_completed g)) a k) s t
          \<and> bytes_at 0x0050 (fp_buffer g) (length D) (mem t) = D)"

context image_file
begin

lemma read_clusters_done:
  "fp_completed g = count \<Longrightarrow> ok s \<Longrightarrow> clusters_result ok dev loc count g [] s (read_clusters c loc root e count g s)"
  by (subst read_clusters.simps) (simp add: clusters_result_def undisturbed_refl)

lemma read_clusters_end:
  "0xff7 \<le> fp_cluster g \<Longrightarrow> read_clusters c loc root e count g s = Some (Inr (g, s))"
  by (subst read_clusters.simps) (simp add: not_less [symmetric])

text \<open>A cluster is read, and the rest of the chain after it.\<close>

lemma read_clusters_part:
  fixes g :: fat_progress and root :: fat_root and loc :: ptr and count end_offset n :: u16
  defines "cl \<equiv> fp_cluster g"
  defines "n \<equiv> chunk_size (fr_cluster_pot root) (fp_offset g) (next_cluster img root cl) end_offset (count - fp_completed g)"
  defines "g' \<equiv> g\<lparr>fp_buffer := fp_buffer g + n, fp_completed := fp_completed g + n, fp_offset := 0,
              fp_cluster := next_cluster img root cl\<rparr>"
  assumes s: "ok s" and root: "layout_ok root B" "fr_handle root = dev" and cl: "2 \<le> cl" "cl < 0xff7"
    and entry: "entry_in_block root B cl" and loc: "buffer_ok s loc 2" and left: "val64 (fp_left g) = 0"
    and n: "0 < n" "unat (fp_offset g) + unat n \<le> B" "n \<le> count - fp_completed g"
    and count: "fp_completed g < count"
    and buf: "buffer_ok s (fp_buffer g) (unat (count - fp_completed g))"
    and apart: "far (fp_buffer g) (unat (count - fp_completed g)) loc 2"
    and rest: "\<And>t. undisturbed ok dev (\<lambda>a k. far loc 2 a k \<and> far (fp_buffer g) (unat n) a k) s t
      \<Longrightarrow> clusters_result ok dev loc count g' D t (read_clusters c loc root end_offset count g' t)"
  shows "clusters_result ok dev loc count g (take (unat n) (drop (unat (fp_offset g)) (cluster_data img root B cl)) @ D) s
    (read_clusters c loc root end_offset count g s)"
proof -
  let ?m = "unat (count - fp_completed g)" and ?C = "take (unat n) (drop (unat (fp_offset g)) (cluster_data img root B cl))"
  have m: "unat n \<le> ?m" using n(3) by (simp add: le16_iff)
  have lenC: "length ?C = unat n" using n(2) by simp
  from read_cluster_part [OF s root cl [unfolded cl_def] entry [unfolded cl_def] loc left, of end_offset count]
  consider (oom) "read_cluster c loc root end_offset count g s = Inl (Panic ''out of mem'')"
    | (part) t where "read_cluster c loc root end_offset count g s = Inr (g', t)"
        "undisturbed ok dev (\<lambda>a k. far loc 2 a k \<and> far (fp_buffer g) (unat n) a k) s t"
        "bytes_at 0x0050 (fp_buffer g) (unat n) (mem t) = ?C"
    using n(1,2) buffer_ok_less [OF buf m] cluster_data_part [OF n(2)] unfolding n_def g'_def cl_def by auto
  then show ?thesis
  proof cases
    case oom
    then show ?thesis using count cl by (subst read_clusters.simps) (simp add: clusters_result_def cl_def)
  next
    case part
    have run: "read_clusters c loc root end_offset count g s = read_clusters c loc root end_offset count g' t"
      using part(1) count cl by (subst read_clusters.simps) (simp add: cl_def)
    have left_over: "unat (count - fp_completed g') = ?m - unat n" "fp_buffer g' = fp_buffer g + of_nat (unat n)"
      using unat_sub16_le [OF m] by (simp_all add: g'_def diff_diff_eq)
    show ?thesis using rest [OF part(2)] unfolding run clusters_result_def
    proof (elim disjE exE conjE, goal_cases)
      case (2 g'' u)
      let ?P = "\<lambda>a k. far loc 2 a k \<and> far (fp_buffer g) ?m a k"
      have first: "undisturbed ok dev ?P s t" by (rule undisturbed_weaken [OF part(2)]) (auto dest: far_before [OF _ m])
      have second: "undisturbed ok dev ?P t u"
        by (rule undisturbed_weaken [OF 2(3)]) (auto simp: left_over dest: far_later [OF _ m])
      have "bytes_at 0x0050 (fp_buffer g) (unat n) (mem u) = bytes_at 0x0050 (fp_buffer g) (unat n) (mem t)"
      proof (rule undisturbed_bytes [OF 2(3) undisturbed_buffer [OF part(2) buffer_ok_less [OF buf m]]])
        show "far loc 2 (fp_buffer g) (unat n) \<and> far (fp_buffer g') (unat (count - fp_completed g')) (fp_buffer g) (unat n)"
          unfolding left_over using far_sym [OF far_before [OF apart m]] far_earlier [OF _ m] unat_lt_65536 by (auto intro: less_imp_le)
      qed
      then have "bytes_at 0x0050 (fp_buffer g) (length (?C @ D)) (mem u) = ?C @ D"
        unfolding length_append lenC bytes_at_add using 2(4) part(3) left_over(2) by simp
      moreover have "fp_completed g'' = fp_completed g + of_nat (length (?C @ D))" unfolding length_append lenC 2(2) by (simp add: g'_def)
      ultimately show ?case using 2(1) undisturbed_trans [OF first second] by blast
    qed simp
  qed
qed

text \<open>A cluster is skipped, and the rest of the chain is read.\<close>

lemma read_clusters_skip:
  fixes g :: fat_progress and root :: fat_root
  defines "g' \<equiv> g\<lparr>fp_left := dec64 (fp_left g), fp_cluster := next_cluster img root (fp_cluster g)\<rparr>"
  assumes "ok s" and "layout_ok root B" and "fr_handle root = dev" and "fp_cluster g < 0xff7"
    and "entry_in_block root B (fp_cluster g)" and "buffer_ok s loc 2" and "0 < val64 (fp_left g)"
    and "fp_completed g < count"
    and rest: "\<And>t. undisturbed ok dev (far loc 2) s t
      \<Longrightarrow> clusters_result ok dev loc count g' D t (read_clusters c loc root end_offset count g' t)"
  shows "clusters_result ok dev loc count g D s (read_clusters c loc root end_offset count g s)"
proof -
  from read_cluster_skip [OF assms(2-8), of end_offset count]
  consider (oom) "read_cluster c loc root end_offset count g s = Inl (Panic ''out of mem'')"
    | (skip) t where "read_cluster c loc root end_offset count g s = Inr (g', t)" "undisturbed ok dev (far loc 2) s t"
    unfolding g'_def by blast
  then show ?thesis
  proof cases
    case oom
    then show ?thesis using assms(5,9) by (subst read_clusters.simps) (simp add: clusters_result_def)
  next
    case skip
    have run: "read_clusters c loc root end_offset count g s = read_clusters c loc root end_offset count g' t"
      using skip(1) assms(5,9) by (subst read_clusters.simps) simp
    have same: "fp_buffer g' = fp_buffer g" "fp_completed g' = fp_completed g" by (simp_all add: g'_def)
    have weak: "undisturbed ok dev (\<lambda>a k. far loc 2 a k \<and> far b m a k) s t" for b m
      by (rule undisturbed_weaken [OF skip(2)]) simp
    show ?thesis using rest [OF skip(2)] undisturbed_trans [OF weak] unfolding run clusters_result_def same by blast
  qed
qed

text \<open>The last cluster of a chain.\<close>

lemma read_clusters_last:
  fixes g :: fat_progress and root :: fat_root and loc :: ptr and count end_offset :: u16
  defines "cl \<equiv> fp_cluster g" and "m \<equiv> unat (count - fp_completed g)"
  assumes "ok s" and "layout_ok root B" and "fr_handle root = dev" and "2 \<le> cl" and "cl < 0xff7"
    and last: "0xff8 \<le> next_cluster img root cl" and "entry_in_block root B cl" and "buffer_ok s loc 2"
    and "val64 (fp_left g) = 0" and "fp_completed g < count"
    and "unat (fp_offset g) < unat end_offset" and "unat end_offset < B"
    and "buffer_ok s (fp_buffer g) m" and "far (fp_buffer g) m loc 2"
  shows "clusters_result ok dev loc count g
    (take m (drop (unat (fp_offset g)) (take (unat end_offset) (cluster_data img root B cl)))) s
    (read_clusters c loc root end_offset count g s)"
proof -
  define n where "n = chunk_size (fr_cluster_pot root) (fp_offset g) (next_cluster img root cl) end_offset (count - fp_completed g)"
  have n: "unat n = min (unat end_offset - unat (fp_offset g)) m"
    unfolding n_def m_def using last chunk_size_value [OF assms(4) _ assms(13,14)] assms(13,14) by simp
  have "0 < m" unfolding m_def using assms(12) by (simp add: less16_iff unat_sub16_le le16_iff)
  then have bounds: "0 < n" "unat (fp_offset g) + unat n \<le> B" "n \<le> count - fp_completed g"
    using n assms(13,14) by (simp_all add: less16_iff le16_iff m_def)
  have "clusters_result ok dev loc count g (take (unat n) (drop (unat (fp_offset g)) (cluster_data img root B cl)) @ []) s
    (read_clusters c loc root end_offset count g s)"
  proof (rule read_clusters_part [of s root g loc end_offset count "[]", folded cl_def, folded n_def])
    fix t assume "undisturbed ok dev (\<lambda>a k. far loc 2 a k \<and> far (fp_buffer g) (unat n) a k) s t"
    then have "ok t" by (rule undisturbed_ok)
    moreover have "0xff7 \<le> next_cluster img root cl" using last by (simp add: le16_iff)
    ultimately show "clusters_result ok dev loc count (g\<lparr>fp_buffer := fp_buffer g + n, fp_completed := fp_completed g + n,
        fp_offset := 0, fp_cluster := next_cluster img root cl\<rparr>) [] t (read_clusters c loc root end_offset count
        (g\<lparr>fp_buffer := fp_buffer g + n, fp_completed := fp_completed g + n, fp_offset := 0,
           fp_cluster := next_cluster img root cl\<rparr>) t)"
      by (subst read_clusters_end) (simp_all add: clusters_result_def undisturbed_refl)
  qed (use assms(3-16) bounds in \<open>simp_all add: m_def\<close>)
  then show ?thesis by (simp add: drop_take min.commute n)
qed

text \<open>What one round takes from the cluster, and what it leaves to the rounds after it.\<close>

lemma round_data:
  assumes "o' < B" and "length xs = B" and "n = min (B - o') m"
  shows "take m (drop o' (xs @ ys)) = take n (drop o' xs) @ take (m - n) ys"
  using assms by (cases "m \<le> B - o'") (simp_all add: min_def)

lemma round_left:
  fixes done' count n :: u16
  assumes "done' \<le> count" and n: "unat n \<le> unat (count - done')"
  shows "unat (count - (done' + n)) = unat (count - done') - unat n" and "done' + n \<le> count"
proof -
  have c: "unat done' + unat n \<le> unat count"
    using n assms(1) by (simp add: le16_iff unat_sub16_le)
  then have "unat (done' + n) = unat done' + unat n"
    using unat_lt_65536 [of count] by (intro unat_add16_small) linarith
  then show "done' + n \<le> count" using c by (simp add: le16_iff)
  show "unat (count - (done' + n)) = unat (count - done') - unat n"
    using unat_sub16_le [OF n] by (simp add: diff_diff_eq)
qed

lemma read_clusters_chain:
  fixes g :: fat_progress and root :: fat_root and loc :: ptr and count end_offset :: u16
  assumes root: "layout_ok root B" "fr_handle root = dev" and e: "0 < unat end_offset" "unat end_offset < B"
  shows "chain (next_cluster img root) cls \<Longrightarrow> \<forall>cl\<in>set cls. entry_in_block root B cl \<Longrightarrow> fp_cluster g = cls ! 0
    \<Longrightarrow> val64 (fp_left g) < 65536 \<Longrightarrow> unat (fp_offset g) < B
    \<Longrightarrow> val64 (fp_left g) * B + unat (fp_offset g) < length (tl cls) * B + unat end_offset
    \<Longrightarrow> fp_completed g \<le> count \<Longrightarrow> ok s \<Longrightarrow> buffer_ok s loc 2
    \<Longrightarrow> buffer_ok s (fp_buffer g) (unat (count - fp_completed g)) \<Longrightarrow> far (fp_buffer g) (unat (count - fp_completed g)) loc 2
    \<Longrightarrow> clusters_result ok dev loc count g
        (take (unat (count - fp_completed g)) (drop (val64 (fp_left g) * B + unat (fp_offset g))
           (file_bytes img root B cls (length (tl cls) * B + unat end_offset)))) s
        (read_clusters c loc root end_offset count g s)"
proof (induction "next_cluster img root" cls arbitrary: g s rule: chain.induct)
  case (2 cl)
  then have less: "fp_completed g < count \<or> fp_completed g = count" by auto
  have left: "val64 (fp_left g) = 0" using 2(6) e by (cases "val64 (fp_left g)") auto
  from less show ?case
  proof
    assume "fp_completed g < count"
    then show ?thesis
      using read_clusters_last [OF 2(8) root _ _ _ _ 2(9) left _ _ e(2) 2(10,11)] 2 left by (simp add: file_bytes_def)
  next
    assume all: "fp_completed g = count"
    show ?thesis using read_clusters_done [OF all 2(8)] all by simp
  qed
next
  case (3 cl cl' cls)
  let ?m = "unat (count - fp_completed g)" and ?o = "unat (fp_offset g)" and ?F = "\<lambda>cls. file_bytes img root B cls (length (tl cls) * B + unat end_offset)"
  have F: "?F (cl # cl' # cls) = cluster_data img root B cl @ ?F (cl' # cls)" by (simp add: file_bytes_Cons)
  have cl: "2 \<le> cl" "cl < 0xff7" "next_cluster img root cl = cl'" "chain (next_cluster img root) (cl' # cls)" "fp_cluster g = cl"
    using 3(2,4) by simp_all
  have entry: "entry_in_block root B cl" and entries: "\<forall>cl\<in>set (cl' # cls). entry_in_block root B cl" using 3(3) by simp_all
  consider (all) "fp_completed g = count" | (skip) "fp_completed g < count" "0 < val64 (fp_left g)"
    | (part) "fp_completed g < count" "val64 (fp_left g) = 0" using 3(8) by fastforce
  then show ?case
  proof cases
    case all
    then show ?thesis using read_clusters_done [OF all 3(9)] by simp
  next
    case skip
    have left: "val64 (dec64 (fp_left g)) = val64 (fp_left g) - 1" by (rule dec64_correct [OF skip(2) 3(5)])
    obtain l where l: "val64 (fp_left g) = Suc l" using skip(2) by (cases "val64 (fp_left g)") auto
    have data: "drop (val64 (fp_left g) * B + ?o) (?F (cl # cl' # cls)) = drop (l * B + ?o) (?F (cl' # cls))"
      unfolding F l by (simp add: add.assoc)
    show ?thesis unfolding data
    proof (rule read_clusters_skip [OF 3(9) root cl(2) [folded cl(5)] entry [folded cl(5)] 3(10) skip(2,1)], unfold cl(5,3))
      fix t assume t: "undisturbed ok dev (far loc 2) s t"
      let ?g = "g\<lparr>fp_left := dec64 (fp_left g), fp_cluster := cl'\<rparr>"
      show "clusters_result ok dev loc count ?g (take ?m (drop (l * B + ?o) (?F (cl' # cls)))) t
        (read_clusters c loc root end_offset count ?g t)"
        using 3(1) [OF cl(4) entries, of ?g t] left l 3(5-12) undisturbed_ok [OF t] undisturbed_buffer [OF t] by simp
    qed
  next
    case part
    have le: "next_cluster img root cl < 0xff7" using cluster_chain_head [OF cl(4)] cl(3) by simp
    define n where "n = chunk_size (fr_cluster_pot root) (fp_offset g) (next_cluster img root cl) end_offset (count - fp_completed g)"
    have n: "unat n = min (B - ?o) ?m"
      unfolding n_def using chunk_size_inner [OF root(1) 3(6)] le by (simp add: not_le less_trans [OF le])
    have "0 < ?m" using part(1) by (simp add: less16_iff unat_sub16_le)
    then have bounds: "0 < n" "?o + unat n \<le> B" "unat n \<le> ?m" using n 3(6) by (simp_all add: less16_iff)
    have data: "take ?m (drop (val64 (fp_left g) * B + ?o) (?F (cl # cl' # cls))) =
      take (unat n) (drop ?o (cluster_data img root B cl)) @ take (?m - unat n) (?F (cl' # cls))"
      unfolding F part(2) using round_data [OF 3(6) _ n, of "cluster_data img root B cl"] by (simp del: drop_append take_append)
    let ?g = "g\<lparr>fp_buffer := fp_buffer g + n, fp_completed := fp_completed g + n, fp_offset := 0, fp_cluster := cl'\<rparr>"
    have rest: "unat (count - fp_completed ?g) = ?m - unat n" "fp_completed ?g \<le> count"
      using round_left [OF 3(8) bounds(3)] by simp_all
    show ?thesis unfolding data
    proof (rule read_clusters_part [of s root g loc end_offset count, unfolded cl(5), folded n_def, unfolded cl(3),
          OF 3(9) root cl(1,2) entry 3(10) part(2) bounds(1,2) _ part(1) 3(11,12)])
      fix t assume t: "undisturbed ok dev (\<lambda>a k. far loc 2 a k \<and> far (fp_buffer g) (unat n) a k) s t"
      have later: "buffer_ok t (fp_buffer g + n) (?m - unat n)" "far (fp_buffer g + n) (?m - unat n) loc 2"
        using undisturbed_buffer [OF t buffer_ok_later [OF 3(11) bounds(3)]] far_later [OF 3(12) bounds(3)] by simp_all
      show "clusters_result ok dev loc count ?g (take (?m - unat n) (?F (cl' # cls))) t
        (read_clusters c loc root end_offset count ?g t)"
        using 3(1) [OF cl(4) entries, of ?g t] rest part(2) e later undisturbed_ok [OF t] undisturbed_buffer [OF t 3(10)] by simp
    qed (use bounds(3) in \<open>simp add: le16_iff\<close>)
  qed
qed simp

end

section \<open>Reading a file\<close>

text \<open>
  The directory entry at \<open>ep\<close> describes a file of \<open>len\<close> bytes in the clusters \<open>cls\<close>, whose length is
  not a multiple of the cluster size.
\<close>

definition file_on_volume :: "(nat \<Rightarrow> u8) \<Rightarrow> fat_root \<Rightarrow> nat \<Rightarrow> nat \<Rightarrow> u16 list \<Rightarrow> nat \<Rightarrow> bool" where
  "file_on_volume img root B ep cls len \<longleftrightarrow> chain (next_cluster img root) cls \<and> cls ! 0 = image_word img (ep + 26)
     \<and> (\<forall>cl\<in>set cls. entry_in_block root B cl) \<and> len = unat (image_word img (ep + 28))
     \<and> len div B = length (tl cls) \<and> len mod B \<noteq> 0 \<and> ep mod B + 32 \<le> B"

text \<open>A handle of a file of the volume.\<close>

definition fat_handle :: "'z fs_scheme \<Rightarrow> ptr \<Rightarrow> fat_file \<Rightarrow> fat_root \<Rightarrow> Uint64 \<Rightarrow> bool" where
  "fat_handle s h file root pos \<longleftrightarrow> (\<exists>r. handle_at s h = Some r \<and> fat_file_at s (h_node r) = Some file)
     \<and> fat_root_at s (ff_root file) = Some root \<and> position_at s h = Some pos \<and> h \<noteq> fr_handle root"

lemma entry_at_bytes:
  assumes "bytes_at 0x0050 p 32 (mem s) = map img [ep..<ep + 32]"
  shows "de_cluster_lo (entry_at p s) = image_word img (ep + 26)" "de_size (entry_at p s) = image_word img (ep + 28)"
proof -
  have word: "peekw 0x0050 (p + of_nat k) s = image_word img (ep + k)" if "k + 2 \<le> 32" for k
  proof -
    have "bytes_at 0x0050 (p + of_nat k) 2 (mem s) = map img [ep + k..<ep + k + 2]"
      using bytes_at_part [OF that] assms that by (simp add: drop_map take_map drop_upt take_upt)
    then show ?thesis by (auto simp: image_word_def upt_rec dest!: peekw_bytes)
  qed
  show "de_cluster_lo (entry_at p s) = image_word img (ep + 26)" using word [of 26] by (simp add: entry_at_def)
  show "de_size (entry_at p s) = image_word img (ep + 28)" using word [of 28] by (simp add: entry_at_def)
qed

context image_file
begin

lemma fat_read_rest:
  assumes "clusters_result ok dev loc count g D t (read_clusters c loc root e count g t)" and "fp_completed g = 0"
    and "position_at t h = Some pos" and "h \<noteq> dev" and "length D < 65536"
  defines "run \<equiv> bindK (loopK (read_clusters c loc root e count g)) (\<lambda>g. bindK (lookupK position_at h) (\<lambda>position.
      thenK (set_position h (add64_16 position (fp_completed g))) (retK (fp_completed g))))"
  shows "run t = Inl (Panic ''out of mem'')
    \<or> (\<exists>n u. run t = Inr (n, u\<lparr>position_at := (position_at u)(h \<mapsto> add64_16 pos n)\<rparr>) \<and> unat n = length D
        \<and> undisturbed ok dev (\<lambda>a k. far loc 2 a k \<and> far (fp_buffer g) (unat count) a k) t u
        \<and> bytes_at 0x0050 (fp_buffer g) (unat n) (mem u) = D)"
proof -
  from assms(1) consider (oom) "read_clusters c loc root e count g t = Some (Inl (Panic ''out of mem''))"
    | (read) g' u where "read_clusters c loc root e count g t = Some (Inr (g', u))" "fp_completed g' = of_nat (length D)"
        "undisturbed ok dev (\<lambda>a k. far loc 2 a k \<and> far (fp_buffer g) (unat count) a k) t u"
        "bytes_at 0x0050 (fp_buffer g) (length D) (mem u) = D"
    using assms(2) by (auto simp: clusters_result_def)
  then show ?thesis
  proof cases
    case oom
    then show ?thesis by (simp add: run_def kernel_simps loopK_def)
  next
    case read
    have n: "unat (of_nat (length D) :: u16) = length D" using assms(5) by (rule unat_of_nat_16)
    have "position_at u h = Some pos" using read(3) assms(3,4) by (simp add: undisturbed_def)
    then have "run t = Inr (of_nat (length D), u\<lparr>position_at := (position_at u)(h \<mapsto> add64_16 pos (of_nat (length D)))\<rparr>)"
      using read(1,2) by (simp add: run_def kernel_simps loopK_def set_position_def)
    then show ?thesis using read(3,4) n by (intro disjI2 exI [of _ "of_nat (length D)"] exI [of _ u]) simp
  qed
qed

lemma fat_read_file_ok:
  assumes s: "ok s" and h: "fat_handle s h ff root pos" and root: "layout_ok root B" "fr_handle root = dev"
    and vol: "file_on_volume img root B (val64 (ff_entry_position ff)) cls len" and pos: "val64 pos < len"
    and entry: "buffer_ok s entry_loc 32" and loc: "buffer_ok s loc 2"
    and buf: "buffer_ok s buffer (unat count)" and apart: "far buffer (unat count) loc 2"
  shows "fat_read_file c entry_loc loc h buffer count s = Inl (Panic ''out of mem'')
    \<or> (\<exists>n t. fat_read_file c entry_loc loc h buffer count s
            = Inr (n, t\<lparr>position_at := (position_at t)(h \<mapsto> add64_16 pos n)\<rparr>)
        \<and> unat n = min (unat count) (len - val64 pos)
        \<and> bytes_at 0x0050 buffer (unat n) (mem t) = take (unat count) (drop (val64 pos) (file_bytes img root B cls len))
        \<and> undisturbed ok dev (\<lambda>a k. far entry_loc 32 a k \<and> far loc 2 a k \<and> far buffer (unat count) a k) s t)"
proof -
  let ?ep = "ff_entry_position ff" and ?E = "unat (32 :: u16)"
    and ?P = "\<lambda>a k. far entry_loc 32 a k \<and> far loc 2 a k \<and> far buffer (unat count) a k"
  obtain r where r: "handle_at s h = Some r" "fat_file_at s (h_node r) = Some ff" "fat_root_at s (ff_root ff) = Some root"
    "position_at s h = Some pos" "h \<noteq> dev" using h root(2) by (auto simp: fat_handle_def)
  have f: "chain (next_cluster img root) cls" "cls ! 0 = image_word img (val64 ?ep + 26)" "\<forall>cl\<in>set cls. entry_in_block root B cl"
    "len = unat (image_word img (val64 ?ep + 28))" "len div B = length (tl cls)" "len mod B \<noteq> 0" "val64 ?ep mod B + ?E \<le> B"
    using vol unfolding file_on_volume_def by simp_all (elim conjE; simp)+
  have pot: "(ucast (fr_cluster_pot root) :: u16) \<le> 16" "unat (ucast (fr_cluster_pot root) :: u16) = unat (fr_cluster_pot root)"
    and B: "B = 2 ^ unat (fr_cluster_pot root)"
    using root(1) by (simp_all add: layout_ok_def le16_iff unat_ucast_8_16)
  obtain left offset where lo: "shr64 pos (ucast (fr_cluster_pot root)) = Inr (left, offset)"
    "val64 left = val64 pos div B" "unat offset = val64 pos mod B"
    using shr64_correct [OF pot(1), of pos] unfolding pot(2) B by blast
  define D where "D = take (unat count) (drop (val64 pos) (file_bytes img root B cls len))"
  define g where "g = \<lparr>fp_buffer = buffer, fp_completed = 0, fp_cluster = cls ! 0, fp_offset = offset, fp_left = left\<rparr>"
  have g: "fp_buffer g = buffer" "fp_completed g = 0" "fp_cluster g = cls ! 0" "fp_offset g = offset" "fp_left g = left"
    by (simp_all add: g_def)
  have "0 < B" by (simp add: B)
  from seek_read [OF s, of entry_loc 32 ?ep] entry f(7)
  consider (oom) "thenK (file_seek dev ?ep) (file_read c dev entry_loc 32) s = Inl (Panic ''out of mem'')"
    | (found) t where "thenK (file_seek dev ?ep) (file_read c dev entry_loc 32) s = Inr (32, t)"
        "undisturbed ok dev (far entry_loc 32) s t"
        "bytes_at 0x0050 entry_loc 32 (mem t) = map img [val64 ?ep..<val64 ?ep + 32]"
    by auto
  then show ?thesis
  proof cases
    case oom
    then show ?thesis using r lo(1)
      by (simp add: fat_read_file_def kernel_simps shr64K_def thenK_assoc root(2) SIZEOF_ENTRY_def)
  next
    case found
    note de = entry_at_bytes [OF found(3)]
    obtain q e where qe: "shr64 (init64 0 0 0 (image_word img (val64 ?ep + 28))) (ucast (fr_cluster_pot root)) = Inr (q, e)"
      "unat e = len mod B"
      using shr64_correct [OF pot(1), of "init64 0 0 0 (image_word img (val64 ?ep + 28))"]
      unfolding pot(2) B f(4) by (auto simp: init64_def val64_expand)
    have len: "(length cls - Suc 0) * B + len mod B = len" using f(5) div_mult_mod_eq [of len B] by simp
    have "len < 65536" using f(4) unat_lt_65536 by simp
    then have left: "val64 pos div B < 65536" using pos div_le_dividend [of "val64 pos" B] by linarith
    have rounds: "clusters_result ok dev loc count g D t (read_clusters c loc root e count g t)"
      using read_clusters_chain [OF root _ _ f(1,3), of e g count t loc] found(2) f(6) qe(2) \<open>0 < B\<close> loc buf apart pos left
      by (simp add: g len lo undisturbed_ok undisturbed_buffer D_def)
    have position: "position_at t h = Some pos" using found(2) r(4,5) by (simp add: undisturbed_def)
    have D: "length D = min (unat count) (len - val64 pos)"
      unfolding D_def using length_file_bytes [OF f(1) \<open>0 < B\<close> f(5)] by simp
    then have small: "length D < 65536" using unat_lt_65536 [of count] by simp
    define rest where "rest = bindK (loopK (read_clusters c loc root e count g)) (\<lambda>g. bindK (lookupK position_at h) (\<lambda>position.
      thenK (set_position h (add64_16 position (fp_completed g))) (retK (fp_completed g))))"
    have "fat_read_file c entry_loc loc h buffer count s = rest t"
      using r found(1) de qe(1) lo(1)
      by (simp add: fat_read_file_def kernel_simps shr64K_def thenK_assoc root(2) SIZEOF_ENTRY_def rest_def g_def f(2))
    moreover have "undisturbed ok dev ?P s u"
      if "undisturbed ok dev (\<lambda>a k. far loc 2 a k \<and> far buffer (unat count) a k) t u" for u
      by (rule undisturbed_trans [OF undisturbed_weaken [OF found(2)] undisturbed_weaken [OF that]]) simp_all
    ultimately show ?thesis
      using fat_read_rest [OF rounds g(2) position r(5) small, folded rest_def] D g(1)
      by (simp add: D_def [symmetric]) blast
  qed
qed

end


text \<open>
  Beyond the end of the file, in its last cluster, the number of bytes that are left wraps around:
  the bytes behind the file are read.
\<close>

lemma chunk_size_past_end:
  "chunk_size 9 6 0xfff 5 100 = 100"
  by (simp add: chunk_size_def Let_def)

section \<open>Witnesses\<close>

text \<open>A volume with one file of five bytes, in cluster 2.\<close>

definition hello_image :: "nat \<Rightarrow> u8" where
  "hello_image p = (if p = 0x203 then 0xff else if p = 0x204 then 0x0f else if p = 0x41a then 2 else if p = 0x41c then 5
     else if p = 0x600 then 0x68 else if p = 0x601 then 0x65 else if p = 0x602 then 0x6c else if p = 0x603 then 0x6c
     else if p = 0x604 then 0x6f else 0)"

definition hello_disk :: disk where
  "hello_disk f n = map hello_image [n * 512..<n * 512 + 512]"

definition hello_driver :: "fs block_calls" where
  "hello_driver f h p block s = Inr (1, s\<lparr>mem := store_bytes 0x0050 p (hello_disk 0x500 (val64 block)) (mem s)\<rparr>)"

definition hello_calls :: "fs fs_calls" where
  "hello_calls = no_calls\<lparr>c_file_read := (\<lambda>g h p n. blockfile_read hello_driver h p n)\<rparr>"

definition hello_root :: fat_root where
  "hello_root = \<lparr>fr_root_begin = U64 0x400 0 0 0, fr_root_end = U64 0x600 0 0 0, fr_fat_begin = U64 0x200 0 0 0,
     fr_data_begin = U64 0 0 0 0, fr_cluster_pot = 9, fr_handle = 0x800\<rparr>"

definition hello_volume :: fs where
  "hello_volume = some_disk\<lparr>file_at := [0x500 \<mapsto> Some block_ops],
     handle_at := (handle_at some_disk)(0x840 \<mapsto> \<lparr>h_flags = FILE OR HANDLE_READ, h_node = 0x580\<rparr>),
     position_at := (position_at some_disk)(0x840 \<mapsto> U64 1 0 0 0),
     fat_file_at := [0x580 \<mapsto> \<lparr>ff_root = 0x600, ff_entry_position = U64 0x400 0 0 0\<rparr>],
     fat_root_at := [0x600 \<mapsto> hello_root]\<rparr>"

lemma hello_image_block: "block_image hello_disk 0x500 512 p = hello_image p"
proof -
  have "p div 512 * 512 + p mod 512 = p" by simp
  then show ?thesis by (simp add: block_image_def hello_disk_def)
qed

lemma hello_heap: "heap_inv hello_volume" "live hello_volume = live some_disk" "reserved hello_volume x = reserved some_disk x"
  using some_disk_ok(1) by (simp_all add: hello_volume_def heap_inv_def reserved_def live_def block_addr_def)

lemma hello_buffer:
  assumes "unat a + n \<le> 0x1000"
  shows "buffer_ok hello_volume a n"
proof -
  have "reserved some_disk a" if "a < 0x1000" for a
    using that by (simp add: reserved_def some_disk_def) (simp add: take_block_def demo_heap_def)
  then have "reserved hello_volume (unat (a + of_nat i))" if "i < n" for i
    using that assms by (simp add: hello_heap unat_add16_small unat_of_nat take_bit_eq_mod)
  moreover have "(0, k) \<notin> live hello_volume" for k
    using live_bounded [OF some_disk_ok(1), of "(0, k)"] by (auto simp: hello_heap)
  ultimately show ?thesis by (simp add: buffer_ok_def hello_volume_def)
qed

lemma hello_ready: "block_ready hello_driver hello_calls hello_disk 0x800 0x500 9 hello_volume"
proof -
  have cache: "cache_ok hello_disk hello_volume"
    by (simp add: cache_ok_def CACHED_BLOCKS_def entry_ok_def hello_volume_def)
  have "length (hello_disk g n) = 512" for g n by (simp add: hello_disk_def)
  then have device: "device_ok hello_disk hello_volume"
    by (simp add: device_ok_def hello_volume_def block_bytes_def)
  have "delivers hello_driver Floppy_read hello_disk"
    by (simp add: delivers_def hello_driver_def same_objects_def same_tables_def hello_disk_def)
  then show ?thesis using hello_heap(1) cache device by (simp add: block_ready_def hello_calls_def hello_volume_def)
qed

lemma hello_root_handle [simp]: "fr_handle hello_root = 0x800"
  by (simp add: hello_root_def)

lemma hello_layout: "layout_ok hello_root (2 ^ 9)"
  by (simp add: layout_ok_def hello_root_def val64_expand)

lemma hello_file:
  "file_on_volume (block_image hello_disk 0x500 (2 ^ 9)) hello_root (2 ^ 9)
     (val64 (ff_entry_position \<lparr>ff_root = 0x600, ff_entry_position = U64 0x400 0 0 0\<rparr>)) [2] 5"
  by (simp add: hello_image_block file_on_volume_def hello_root_def val64_expand image_word_def hello_image_def next_cluster_def
      entry_in_block_def entry_offset_def table_entry_def word_of_bytes_def)

lemma hello_contents:
  "take 100 (drop (Suc 0) (file_bytes (block_image hello_disk 0x500 512) hello_root 512 [2] 5)) = [0x65, 0x6c, 0x6c, 0x6f]"
  by (simp add: hello_image_block file_bytes_def cluster_data_def data_offset_def hello_root_def val64_expand take_map take_upt
      upt_rec hello_image_def)


end
