(* ===== verification/SyscallRead.thy ===== *)
theory SyscallRead
  imports Syscall FatRead
begin

text \<open>
  What the system calls do for a task: the read of a file from the FAT volume down to the memory
  of the task, and the calls that are refused.
\<close>

unbundle bit_operations_syntax

section \<open>Reading for a task\<close>

text \<open>The registers of a task, and its handle with the number \<open>i\<close>.\<close>

definition has_register :: "'z tasks_scheme \<Rightarrow> ptr \<Rightarrow> u16 \<Rightarrow> u16 \<Rightarrow> bool" where
  "has_register s p reg v \<longleftrightarrow> (\<exists>t. task_at s p = Some t \<and> peekw (t_segment t) (t_user_sp t + reg) s = v)"

lemma has_register_get: "has_register s p reg v \<Longrightarrow> task_get_register p reg s = Inr (v, s)"
  by (auto simp: has_register_def task_get_register_def kernel_simps)

lemma task_set_memory_copies:
  assumes "segments s p = Some (segment_of i)" and "i < 8"
  shows "\<exists>t. task_set_memory p addr src n s = Inr ((), t) \<and> t = s\<lparr>mem := mem t\<rparr>
    \<and> bytes_at (segment_of i) addr (unat n) (mem t) = bytes_at 0x0050 src (unat n) (mem s)
    \<and> (\<forall>a. (\<forall>j < unat n. a \<noteq> linear (segment_of i) (addr + of_nat j)) \<longrightarrow> mem t a = mem s a)"
proof -
  obtain t where t: "task_at s p = Some t" "t_segment t = segment_of i" using assms(1) by (auto simp: segments_def)
  show ?thesis
    using farmemcpy_copies [of n "segment_of i" addr "0x0050" src s] kernel_segment_apart [OF assms(2)] t movsb_other
    by (auto simp: task_set_memory_def kernel_simps) (simp_all add: farmemcpy_def movsb_other)
qed

text \<open>A read that fills the buffer of the kernel fills the buffer of the task.\<close>

lemma sys_read_file_ok:
  assumes heap: "heap_inv s" and seg: "segments s p = Some (segment_of i)" "i < 8"
    and regs: "has_register s p BX num" "has_register s p CX addr" "has_register s p DX count"
    and h: "task_get_handle p num s = Inr (h, s)" "h \<noteq> 0"
    and read: "\<And>b s1. malloc count s = Inr (b, s1) \<Longrightarrow> file_read c h b count s1 = Inl (Panic ''out of mem'')
      \<or> (\<exists>n u. file_read c h b count s1 = Inr (n, u) \<and> Q n b s1 u \<and> heap_inv u \<and> live s1 \<subseteq> live u
           \<and> segments u = segments s1 \<and> bytes_at 0x0050 b (unat n) (mem u) = D)"
  shows "sys_read_file c p s = Inl (Panic ''out of mem'')
    \<or> (\<exists>n b s1 u w. malloc count s = Inr (b, s1) \<and> sys_read_file c p s = Inr (n, w) \<and> Q n b s1 u \<and> heap_inv w
         \<and> w = u\<lparr>mem := mem w, bitmap := bitmap w, used_bytes := used_bytes w\<rparr>
         \<and> bytes_at (segment_of i) addr (unat n) (mem w) = D
         \<and> (\<forall>a. (\<forall>j < unat n. a \<noteq> linear (segment_of i) (addr + of_nat j)) \<longrightarrow> mem w a = mem u a))"
proof -
  note regs = regs [THEN has_register_get]
  show ?thesis
  proof (cases "malloc count s")
    case (Inl e)
    then show ?thesis using malloc_panic [OF heap Inl] by (simp add: sys_read_file_def regs h kernel_simps)
  next
    case (Inr v)
    then obtain b s1 where m: "malloc count s = Inr (b, s1)" by (cases v) auto
    have b: "b \<noteq> 0" by (rule heap_alloc.alloc_nonnull [OF heap m])
    obtain k where k: "(unat b, k) \<in> live s1" using heap_alloc.alloc_fresh [OF heap m] by blast
    have seg1: "segments s1 = segments s" using malloc_frame [OF m] by auto
    from read [OF m] consider (oom) "file_read c h b count s1 = Inl (Panic ''out of mem'')"
      | (read) n u where "file_read c h b count s1 = Inr (n, u)" "Q n b s1 u" "heap_inv u" "live s1 \<subseteq> live u"
          "segments u = segments s1" "bytes_at 0x0050 b (unat n) (mem u) = D" by blast
    then show ?thesis
    proof cases
      case oom
      then show ?thesis by (simp add: sys_read_file_def regs h m b kernel_simps)
    next
      case read
      have "segments u p = Some (segment_of i)" using read(5) seg1 seg(1) by simp
      then obtain v where v: "task_set_memory p addr b n u = Inr ((), v)" "v = u\<lparr>mem := mem v\<rparr>"
        "bytes_at (segment_of i) addr (unat n) (mem v) = D" "\<And>a. (\<forall>j < unat n. a \<noteq> linear (segment_of i) (addr + of_nat j)) \<Longrightarrow> mem v a = mem u a"
        using task_set_memory_copies [of u p i addr b n] seg(2) read(6) by auto
      have "heap_inv v" "(unat b, k) \<in> live v" using read(3,4) k by (subst v(2); auto)+
      then obtain w where w: "free b v = Inr ((), w)" "heap_inv w" using heap_alloc.release_range by blast
      obtain bm us where "w = v\<lparr>bitmap := bm, used_bytes := us\<rparr>" using free_frame [OF w(1)] by blast
      moreover obtain m where "v = u\<lparr>mem := m\<rparr>" using v(2) by blast
      ultimately have same: "mem w = mem v" "w = u\<lparr>mem := mem w, bitmap := bitmap w, used_bytes := used_bytes w\<rparr>"
        by simp_all
      have "sys_read_file c p s = Inr (n, w)" by (simp add: sys_read_file_def regs h m b read(1) v(1) w(1) kernel_simps)
      then show ?thesis using m read(2) w(2) same v(3,4) by auto
    qed
  qed
qed

lemma block_ready_malloc:
  assumes "block_ready rd c disk dev f e s" and "malloc n s = Inr (b, s1)"
  shows "block_ready rd c disk dev f e s1"
proof -
  have heap: "heap_inv s" using assms(1) by (simp add: block_ready_def)
  obtain bm us where s1: "s1 = s\<lparr>bitmap := bm, used_bytes := us\<rparr>" using malloc_frame [OF assms(2)] by blast
  have "entry_ok disk s x \<Longrightarrow> entry_ok disk s1 x" for x
    by (rule entry_ok_keep [OF _ heap_alloc.alloc_keeps [OF heap assms(2)]]) (simp_all add: s1)
  then have "cache_ok disk s1" using assms(1) by (simp add: block_ready_def cache_ok_def s1)
  then show ?thesis
    using assms(1) heap_alloc.alloc_ok [OF heap assms(2)] unfolding block_ready_def device_ok_def by (simp add: s1)
qed

lemma malloc_buffer:
  assumes "block_ready rd c disk dev f e s" and "malloc n s = Inr (b, s1)"
  shows "buffer_ok s1 b (unat n)" and "buffer_ok s a k \<Longrightarrow> buffer_ok s1 a k" and "buffer_ok s a k \<Longrightarrow> far b (unat n) a k"
proof -
  have heap: "heap_inv s" and cache: "cache_ok disk s" using assms(1) by (simp_all add: block_ready_def)
  obtain bm us where s1: "s1 = s\<lparr>bitmap := bm, used_bytes := us\<rparr>" using malloc_frame [OF assms(2)] by blast
  obtain K where K: "unat n \<le> K" "live s1 = insert (unat b, K) (live s)" and heap1: "heap_inv s1" and "b \<noteq> 0"
    using heap_alloc.alloc_fresh [OF heap assms(2)] by blast
  have top: "unat b + K < 65536" using live_bounded [OF heap1, of "(unat b, K)"] K(2) by simp
  show "buffer_ok s a k \<Longrightarrow> buffer_ok s1 a k" by (rule fetched_buffer_ok [OF heap assms(2)]) (simp_all add: s1)
  show "buffer_ok s a k \<Longrightarrow> far b (unat n) a k"
    by (rule far_sym [OF far_less [OF buffer_far_fresh [OF heap assms(2) K(2)] K(1)]]) (simp add: buffer_ok_def)
  have "reserved s1 (unat (b + of_nat j))" if "j < unat n" for j
  proof -
    have "unat (b + of_nat j) = unat b + j"
      using that K(1) top by (subst unat_add16_small) (simp_all add: unat_of_nat take_bit_eq_mod)
    then show ?thesis using that K by (auto simp: reserved_def)
  qed
  moreover have "far b (unat n) (cb_buffer x) k" if x: "x \<in> set (block_cache s1)" and k: "(unat (cb_buffer x), k) \<in> live s1" for x k
  proof -
    have x: "entry_ok disk s x" using cache x by (simp add: cache_ok_def s1)
    have "cb_buffer x \<noteq> 0" using k live_bounded [OF heap1 k] by auto
    then obtain l where l: "(unat (cb_buffer x), l) \<in> live s" using x by (auto simp: entry_ok_def)
    then have "b \<noteq> cb_buffer x" by (rule heap_alloc.alloc_address_fresh [OF heap assms(2)])
    then have k': "(unat (cb_buffer x), k) \<in> live s" using k K(2) by (auto simp: word_unat_eq_iff)
    then obtain j where "unat n \<le> j" "apart (unat b, j) (unat (cb_buffer x), k)"
      using heap_alloc.alloc_apart [OF heap assms(2)] by blast
    then show ?thesis using top K(1) live_bounded [OF heap k'] by (intro apart_far) (auto simp: apart_def)
  qed
  ultimately show "buffer_ok s1 b (unat n)" by (simp add: buffer_ok_def)
qed

lemma undisturbed_heap:
  assumes "undisturbed (block_ready rd c disk dev f e) dev P s t"
  shows "heap_inv (t\<lparr>position_at := q\<rparr>)" and "live s \<subseteq> live t" and "segments t = segments s" and "user_view t = user_view s"
  using assms by (simp_all add: undisturbed_def same_tables_def block_ready_def heap_inv_def)

text \<open>What the memory of the kernel keeps when the memory of a task is written.\<close>

lemma bytes_at_kernel:
  assumes "\<And>a. (\<forall>off. a \<noteq> linear (segment_of i) off) \<Longrightarrow> m a = m' a" and "i < 8"
  shows "bytes_at 0x0050 a k m = bytes_at 0x0050 a k m'"
  unfolding bytes_at_def using kernel_segment_apart [OF assms(2)] by (intro map_cong refl assms(1)) (metis)

text \<open>
  A task that reads a file of a FAT volume on a block device gets, unless memory runs out, the
  bytes of the file from the position of its handle on in its own memory, and their number as the
  result; the position advances by that number.  The same task runs afterwards, with the stack
  it had, no other byte outside the kernel has changed, and neither has any buffer of the kernel
  apart from the two that the file system works with.
\<close>

theorem sys_read_file_fat:
  assumes ready: "block_ready rd c' disk dev f e s"
    and reader: "\<forall>h b k. c_file_read c Fat_read_file h b k = fat_read_file c' entry_loc loc h b k"
    and seg: "segments s p = Some (segment_of i)" "i < 8"
    and regs: "has_register s p BX num" "has_register s p CX addr" "has_register s p DX count"
    and h: "task_get_handle p num s = Inr (h, s)" "h \<noteq> 0"
      "handle_at s h = Some \<lparr>h_flags = FILE OR HANDLE_READ, h_node = nd\<rparr>" "file_at s nd = Some (Some fat_file_ops)"
    and vol: "fat_handle s h ff root pos" "layout_ok root (2 ^ e)" "fr_handle root = dev"
      "file_on_volume (block_image disk f (2 ^ e)) root (2 ^ e) (val64 (ff_entry_position ff)) cls len" "val64 pos < len"
    and locs: "buffer_ok s entry_loc 32" "buffer_ok s loc 2"
  shows "sys_read_file c p s = Inl (Panic ''out of mem'')
    \<or> (\<exists>n w. sys_read_file c p s = Inr (n, w) \<and> unat n = min (unat count) (len - val64 pos)
        \<and> bytes_at (segment_of i) addr (unat n) (mem w)
          = take (unat count) (drop (val64 pos) (file_bytes (block_image disk f (2 ^ e)) root (2 ^ e) cls len))
        \<and> position_at w h = Some (add64_16 pos n) \<and> current_task w = current_task s \<and> task_view w = task_view s
        \<and> (\<forall>a. outside_kernel a \<longrightarrow> (\<forall>j < unat n. a \<noteq> linear (segment_of i) (addr + of_nat j)) \<longrightarrow> mem w a = mem s a)
        \<and> (\<forall>a k. buffer_ok s a k \<longrightarrow> far entry_loc 32 a k \<longrightarrow> far loc 2 a k
             \<longrightarrow> bytes_at 0x0050 a k (mem w) = bytes_at 0x0050 a k (mem s)))"
proof -
  let ?D = "take (unat count) (drop (val64 pos) (file_bytes (block_image disk f (2 ^ e)) root (2 ^ e) cls len))"
  let ?Q = "\<lambda>n b s1 u. unat n = min (unat count) (len - val64 pos) \<and> position_at u h = Some (add64_16 pos n)
    \<and> user_view u = user_view s1 \<and> (\<forall>a k. buffer_ok s1 a k \<longrightarrow> far entry_loc 32 a k \<longrightarrow> far loc 2 a k \<longrightarrow> far b (unat count) a k
             \<longrightarrow> bytes_at 0x0050 a k (mem u) = bytes_at 0x0050 a k (mem s1))"
  have heap: "heap_inv s" using ready by (simp add: block_ready_def)
  have read: "file_read c h b count s1 = Inl (Panic ''out of mem'')
      \<or> (\<exists>n u. file_read c h b count s1 = Inr (n, u) \<and> ?Q n b s1 u \<and> heap_inv u \<and> live s1 \<subseteq> live u
           \<and> segments u = segments s1 \<and> bytes_at 0x0050 b (unat n) (mem u) = ?D)"
    if m: "malloc count s = Inr (b, s1)" for b s1
  proof -
    obtain bm us where s1: "s1 = s\<lparr>bitmap := bm, used_bytes := us\<rparr>" using malloc_frame [OF m] by blast
    have handle: "fat_handle s1 h ff root pos" using vol(1) by (simp add: fat_handle_def s1)
    have run: "file_read c h b count s1 = fat_read_file c' entry_loc loc h b count s1"
      using reader h(3,4) by (simp add: s1 file_read_def kernel_simps get_file_def c_bool_def fat_file_ops_def TYPE_MASK_def
          FILE_def ATTRIBUTE_MASK_def HANDLE_READ_def)
    note buf = malloc_buffer [OF ready m]
    note block_file_image.fat_read_file_ok [OF block_ready_malloc [OF ready m] handle vol(2-5) buf(2) [OF locs(1)]
        buf(2) [OF locs(2)] buf(1) buf(3) [OF locs(2)], folded run]
    then consider (oom) "file_read c h b count s1 = Inl (Panic ''out of mem'')"
      | (read) n t where "file_read c h b count s1 = Inr (n, t\<lparr>position_at := (position_at t)(h \<mapsto> add64_16 pos n)\<rparr>)"
          "unat n = min (unat count) (len - val64 pos)" "bytes_at 0x0050 b (unat n) (mem t) = ?D"
          "undisturbed (block_ready rd c' disk dev f e) dev (\<lambda>a k. far entry_loc 32 a k \<and> far loc 2 a k \<and> far b (unat count) a k) s1 t"
      by blast
    then show ?thesis
    proof cases
      case read
      note kept = undisturbed_heap(1) [OF read(4), where q = "(position_at t)(h \<mapsto> add64_16 pos n)"] undisturbed_heap(2-) [OF read(4)]
        undisturbed_bytes [OF read(4)]
      show ?thesis
        by (rule disjI2, rule exI [of _ n], rule exI [of _ "t\<lparr>position_at := (position_at t)(h \<mapsto> add64_16 pos n)\<rparr>"]) (use read(1-3) kept in \<open>simp\<close>)
    qed simp
  qed
  from sys_read_file_ok [where Q = ?Q and D = ?D, OF heap seg regs h(1,2) read]
  consider (oom) "sys_read_file c p s = Inl (Panic ''out of mem'')"
    | (read) n b s1 u w where "malloc count s = Inr (b, s1)" "sys_read_file c p s = Inr (n, w)" "?Q n b s1 u"
        "w = u\<lparr>mem := mem w, bitmap := bitmap w, used_bytes := used_bytes w\<rparr>"
        "bytes_at (segment_of i) addr (unat n) (mem w) = ?D"
        "\<And>a. \<forall>j < unat n. a \<noteq> linear (segment_of i) (addr + of_nat j) \<Longrightarrow> mem w a = mem u a"
    by blast
  then show ?thesis
  proof cases
    case read
    obtain bm us where s1: "s1 = s\<lparr>bitmap := bm, used_bytes := us\<rparr>" using malloc_frame [OF read(1)] by blast
    have view: "user_view u = user_view s" using read(3) by (simp add: s1)
    have w: "position_at w = position_at u" "current_task w = current_task u" "task_view w = task_view u"
      by (subst read(4), simp add: task_view_def fun_eq_iff)+
    have "bytes_at 0x0050 a k (mem w) = bytes_at 0x0050 a k (mem s)"
      if "buffer_ok s a k" "far entry_loc 32 a k" "far loc 2 a k" for a k
    proof -
      have "bytes_at 0x0050 a k (mem w) = bytes_at 0x0050 a k (mem u)" by (rule bytes_at_kernel [OF read(6) seg(2)]) blast
      also have "\<dots> = bytes_at 0x0050 a k (mem s1)" using read(3) that malloc_buffer(2,3) [OF ready read(1) that(1)] by blast
      finally show ?thesis by (simp add: s1)
    qed
    then show ?thesis
      using read(2,3,5,6) w user_viewD [OF view] by (intro disjI2 exI [of _ n] exI [of _ w]) simp
  qed simp
qed

section \<open>Calls that are refused\<close>

lemma task_get_handle_none:
  "task_at s p = Some t \<Longrightarrow> \<not> num - 1 < ucast (t_handle_count t) \<Longrightarrow> task_get_handle p num s = Inr (0, s)"
  by (simp add: task_get_handle_def kernel_simps)

lemma minus_one_16: "(- 1 :: u16) = 0xffff"
  by simp

lemma syscall_result:
  assumes "task_at s (current_task s) = Some t" and "has_register s (current_task s) AX n" and "n < NUM_SYSCALLS"
    and "(syscall_table fuel env r ! unat n) (current_task s) s = Inr (v, s)"
  shows "syscall_func fuel env r s = Inr ((), pokew (t_segment t) (t_user_sp t + AX) v s)"
  using assms by (simp add: syscall_func_def syscall_call_def kernel_simps task_set_register_def has_register_get [OF assms(2)])

text \<open>
  A system call with a number that does not exist puts \<open>0xffff\<close> into the result register of
  the task and changes nothing else.
\<close>

theorem syscall_func_unknown:
  assumes "task_at s (current_task s) = Some t" and "has_register s (current_task s) AX n" and "14 \<le> n"
  shows "syscall_func fuel env r s = Inr ((), pokew (t_segment t) (t_user_sp t + AX) 0xffff s)"
  using assms(1,3)
  by (simp add: syscall_func_def syscall_call_def kernel_simps task_set_register_def has_register_get [OF assms(2)] NUM_SYSCALLS_def not_less
      minus_one_16)

lemma syscall_no_handle:
  assumes "task_at s (current_task s) = Some t" and "has_register s (current_task s) AX n" and "n \<in> {2, 3, 4, 5}"
    and "has_register s (current_task s) BX num" and "unat (t_handle_count t) \<le> unat (num - 1)"
  shows "syscall_func fuel env r s = Inr ((), pokew (t_segment t) (t_user_sp t + AX) 0 s)"
proof (rule syscall_result [OF assms(1,2)])
  have none: "task_get_handle (current_task s) num s = Inr (0, s)"
    using assms(5) by (intro task_get_handle_none [OF assms(1)]) (simp add: slot_less_iff)
  have regs: "\<exists>v. task_get_register (current_task s) reg s = Inr (v, s)" for reg
    using assms(1) by (simp add: task_get_register_def kernel_simps)
  then obtain cx dx where cd: "task_get_register (current_task s) CX s = Inr (cx, s)" "task_get_register (current_task s) DX s = Inr (dx, s)"
    by blast
  have "sys_close_file (current_task s) s = Inr (0, s)" "sys_read_file c (current_task s) s = Inr (0, s)"
    "sys_write_file c (current_task s) s = Inr (0, s)" "sys_seek (current_task s) s = Inr (0, s)" for c
    using assms(1) none cd has_register_get [OF assms(4)]
    by (simp_all add: sys_close_file_def sys_read_file_def sys_write_file_def sys_seek_def kernel_simps)
  then show "(syscall_table fuel env r ! unat n) (current_task s) s = Inr (0, s)"
    using assms(3) by (auto simp: syscall_table_def Let_def)
  show "n < NUM_SYSCALLS" using assms(3) by (auto simp: NUM_SYSCALLS_def)
qed

text \<open>
  closing, reading, writing and seeking with a number that is not one of the handles of the task
  puts 0 into its result register and changes nothing else: no buffer is lost and no file is
  touched.
\<close>

theorem syscall_bad_handle:
  assumes "task_at s (current_task s) = Some t" and "has_register s (current_task s) AX n" and "n \<in> {2, 3, 4, 5}"
    and "has_register s (current_task s) BX num" and "unat (t_handle_count t) \<le> unat (num - 1)"
  shows "syscall_func fuel env r s = Inr ((), pokew (t_segment t) (t_user_sp t + AX) 0 s)"
  using assms by (rule syscall_no_handle)

section \<open>Witnesses\<close>

text \<open>A task that is about to read 100 bytes from its first handle, on the volume of \<open>hello_volume\<close>.\<close>

definition hello_task :: task where
  "hello_task = \<lparr>t_user_sp = 0x100, t_stack_top = 0, t_segment = segment_of 0, t_state = RUNNING, t_kernel_sp = 0, t_stack = 0,
     t_handles = 0xc00, t_handle_count = 1, t_waiting_for_exit = 0, t_next = 0\<rparr>"

definition hello_reader :: fs where
  "hello_reader = pokew 0x1050 (0x100 + BX) 1 (pokew 0x1050 (0x100 + CX) 0x2000 (pokew 0x1050 (0x100 + DX) 100
     (pokew 0x0050 0xc00 0x840
       (hello_volume\<lparr>file_at := (file_at hello_volume)(0x580 \<mapsto> Some fat_file_ops), task_at := [0x700 \<mapsto> hello_task]\<rparr>))))"

definition reader_calls :: "fs fs_calls" where
  "reader_calls = no_calls\<lparr>c_file_read := (\<lambda>g h b n. fat_read_file hello_calls 0xa00 0xb00 h b n)\<rparr>"

lemma segment_of_0: "segment_of 0 = 0x1050"
  by (simp add: segment_of_def)

lemma hello_reader_registers:
  "has_register hello_reader 0x700 BX 1" "has_register hello_reader 0x700 CX 0x2000" "has_register hello_reader 0x700 DX 100"
  "task_get_handle 0x700 1 hello_reader = Inr (0x840, hello_reader)"
  by (simp_all add: has_register_def hello_reader_def hello_task_def segment_of_0 BX_def CX_def DX_def AX_def pokew_def peekw_def
      linear_def task_get_handle_def kernel_simps slot_def slot_addr_def)

lemma hello_reader_eq:
  "\<exists>m. hello_reader = hello_volume\<lparr>mem := m, file_at := (file_at hello_volume)(0x580 \<mapsto> Some fat_file_ops),
     task_at := [0x700 \<mapsto> hello_task]\<rparr>"
  by (rule exI [of _ "mem hello_reader"]) (simp add: hello_reader_def pokew_def)

lemma hello_reader_ready:
  "block_ready hello_driver hello_calls hello_disk 0x800 0x500 9 hello_reader"
  "unat a + n \<le> 0x1000 \<Longrightarrow> buffer_ok hello_reader a n"
proof -
  obtain m where eq: "hello_reader = hello_volume\<lparr>mem := m, file_at := (file_at hello_volume)(0x580 \<mapsto> Some fat_file_ops),
     task_at := [0x700 \<mapsto> hello_task]\<rparr>" using hello_reader_eq by blast
  have heap: "heap_inv hello_reader = heap_inv hello_volume" "live hello_reader = live hello_volume"
    "reserved hello_reader x = reserved hello_volume x" for x
    by (simp_all add: eq heap_inv_def reserved_def live_def block_addr_def)
  have "cache_ok hello_disk hello_reader"
    by (simp add: cache_ok_def CACHED_BLOCKS_def entry_ok_def eq hello_volume_def)
  moreover have "device_ok hello_disk hello_reader = device_ok hello_disk hello_volume" by (simp add: device_ok_def eq)
  ultimately show "block_ready hello_driver hello_calls hello_disk 0x800 0x500 9 hello_reader"
    using hello_ready heap(1) unfolding block_ready_def by (simp add: eq)
  have "block_cache hello_reader = block_cache hello_volume" by (simp add: eq)
  then show "unat a + n \<le> 0x1000 \<Longrightarrow> buffer_ok hello_reader a n"
    using hello_buffer [of a n] heap(2,3) by (simp add: buffer_ok_def)
qed

theorem sys_read_file_fat_witness:
  "sys_read_file reader_calls 0x700 hello_reader = Inl (Panic ''out of mem'')
    \<or> (\<exists>w. sys_read_file reader_calls 0x700 hello_reader = Inr (4, w)
        \<and> bytes_at 0x1050 0x2000 4 (mem w) = [0x65, 0x6c, 0x6c, 0x6f])"
proof -
  define ff where "ff = \<lparr>ff_root = 0x600, ff_entry_position = U64 0x400 0 0 0\<rparr>"
  obtain m where eq: "hello_reader = hello_volume\<lparr>mem := m, file_at := (file_at hello_volume)(0x580 \<mapsto> Some fat_file_ops),
     task_at := [0x700 \<mapsto> hello_task]\<rparr>" using hello_reader_eq by blast
  have objects: "segments hello_reader 0x700 = Some (segment_of 0)" "fat_handle hello_reader 0x840 ff hello_root (U64 1 0 0 0)"
    "handle_at hello_reader 0x840 = Some \<lparr>h_flags = FILE OR HANDLE_READ, h_node = 0x580\<rparr>"
    "file_at hello_reader 0x580 = Some (Some fat_file_ops)"
    by (simp_all add: eq segments_def hello_task_def fat_handle_def hello_volume_def hello_root_def ff_def)
  have four: "n = 4" if "unat n = 4" for n :: u16 using that by (simp add: word_unat_eq_iff)
  show ?thesis
    using sys_read_file_fat [OF hello_reader_ready(1) _ objects(1) _ hello_reader_registers _ objects(3,4,2) hello_layout _
        hello_file [folded ff_def] _ hello_reader_ready(2) hello_reader_ready(2), of reader_calls "0xa00" "0xb00"]
    by (auto simp: reader_calls_def val64_expand hello_contents segment_of_0 dest!: four)
qed

text \<open>The task in a system call with the number \<open>n\<close> and a first argument.\<close>

definition calling :: "u16 \<Rightarrow> u16 \<Rightarrow> fs" where
  "calling n arg = pokew 0x1050 (0x100 + AX) n (pokew 0x1050 (0x100 + BX) arg (hello_reader\<lparr>current_task := 0x700\<rparr>))"

lemma calling_task:
  "current_task (calling n arg) = 0x700" "task_at (calling n arg) 0x700 = Some hello_task"
  "has_register (calling n arg) 0x700 AX n" "has_register (calling n arg) 0x700 BX arg"
  by (simp_all add: calling_def hello_reader_def pokew_def has_register_def peekw_def hello_task_def segment_of_0
      AX_def BX_def linear_def)

theorem syscall_func_unknown_witness:
  "\<forall>env r. syscall_func 3 env r (calling 99 1) = Inr ((), pokew 0x1050 0x10c 0xffff (calling 99 1))"
  using syscall_func_unknown [of "calling 99 1" hello_task 99 3] calling_task [of 99 1]
  by (simp add: hello_task_def segment_of_0 AX_def)

theorem syscall_bad_handle_witness:
  "\<forall>env r. syscall_func 3 env r (calling 3 7) = Inr ((), pokew 0x1050 0x10c 0 (calling 3 7))"
  using syscall_bad_handle [of "calling 3 7" hello_task 3 7 3] calling_task [of 3 7]
  by (simp add: hello_task_def segment_of_0 AX_def)

end
