(* ===== verification/UserCall.thy ===== *)
theory UserCall
  imports SyscallRead
begin

text \<open>
  A system call from the side of the program: the functions of \<^verbatim>\<open>init/sys.c\<close> put their arguments
  into registers and raise interrupt \<^verbatim>\<open>0x80\<close>; \<open>kernel_enter\<close> of \<^verbatim>\<open>kernel/gate.s\<close> saves the
  registers on the stack of the program, where \<open>task_get_register\<close> finds them, and \<open>kernel_exit\<close>
  takes them from there again.  The assembly is modelled on the registers and the stack.
\<close>

unbundle bit_operations_syntax

section \<open>Registers and stack of a program\<close>

record cpu =
  r_ax :: u16
  r_bx :: u16
  r_cx :: u16
  r_dx :: u16
  r_si :: u16
  r_di :: u16
  r_bp :: u16
  r_sp :: u16

definition push_word :: "u16 \<Rightarrow> u16 \<Rightarrow> u16 \<times> 'z machine_scheme \<Rightarrow> u16 \<times> 'z machine_scheme" where
  "push_word seg v = (\<lambda>(sp, s). (sp - 2, pokew seg (sp - 2) v s))"

definition push_words :: "u16 \<Rightarrow> u16 list \<Rightarrow> u16 \<times> 'z machine_scheme \<Rightarrow> u16 \<times> 'z machine_scheme" where
  "push_words seg = fold (push_word seg)"

section \<open>Into the kernel and back\<close>

text \<open>
  The interrupt and the call of \<open>kernel_enter\<close> have pushed the flags, the code segment and two
  addresses; the kernel runs on the stack of the task.
\<close>

definition kernel_enter :: "u16 list \<Rightarrow> cpu \<Rightarrow> ('z tasks_scheme, unit) kmon" where
  "kernel_enter pushed c =
     bindK (getK current_task) (\<lambda>p.
     bindK (get_task p) (\<lambda>t.
     bindK (getK (\<lambda>s. push_words (t_segment t)
       (pushed @ [r_ax c, r_bx c, r_cx c, r_dx c, r_si c, r_di c, r_bp c]) (r_sp c, s))) (\<lambda>(sp, s1).
     thenK (modifyK (\<lambda>s. s1))
    (thenK (upd_task p (\<lambda>t. t\<lparr>t_user_sp := sp\<rparr>))
       (modifyK (\<lambda>s. s\<lparr>cpu_sp := t_stack_top t\<rparr>))))))"

text \<open>The registers are popped, the return address is dropped, and \<open>iret\<close> takes three words.\<close>

definition kernel_exit :: "('z tasks_scheme, cpu) kmon" where
  "kernel_exit =
     bindK (getK current_task) (\<lambda>p.
     bindK (get_task p) (\<lambda>t.
       getK (\<lambda>s. let reg = (\<lambda>k. peekw (t_segment t) (t_user_sp t + k) s) in
         \<lparr>r_ax = reg 12, r_bx = reg 10, r_cx = reg 8, r_dx = reg 6, r_si = reg 4, r_di = reg 2, r_bp = reg 0,
          r_sp = t_user_sp t + 14 + 2 + 6\<rparr>)))"

definition int80 ::
  "(u16 \<Rightarrow> u16 \<Rightarrow> ('z irqs_scheme, unit) kmon) \<Rightarrow> u16 list \<Rightarrow> cpu \<Rightarrow> ('z irqs_scheme, cpu) kmon" where
  "int80 call pushed c = thenK (kernel_enter pushed c) (thenK (intr_dispatcher call 24) kernel_exit)"

section \<open>The stubs\<close>

text \<open>The arguments go to \<open>bx\<close>, \<open>cx\<close> and \<open>dx\<close>, whose old values are kept on the stack.\<close>

fun load_args :: "u16 list \<Rightarrow> cpu \<Rightarrow> cpu" where
  "load_args [a] c = c\<lparr>r_bx := a\<rparr>"
| "load_args [a, b] c = c\<lparr>r_bx := a, r_cx := b\<rparr>"
| "load_args [a, b, d] c = c\<lparr>r_bx := a, r_cx := b, r_dx := d\<rparr>"
| "load_args _ c = c"

definition user_entry :: "u16 \<Rightarrow> u16 list \<Rightarrow> u16 \<Rightarrow> cpu \<Rightarrow> 'z machine_scheme \<Rightarrow> cpu \<times> 'z machine_scheme" where
  "user_entry num args seg c s =
     (let (sp, s1) = push_words seg (r_bp c # take (length args) [r_bx c, r_cx c, r_dx c]) (r_sp c, s)
      in (load_args args (c\<lparr>r_bp := r_sp c - 2, r_sp := sp, r_ax := num\<rparr>), s1))"

definition user_leave :: "nat \<Rightarrow> u16 \<Rightarrow> cpu \<Rightarrow> 'z machine_scheme \<Rightarrow> cpu" where
  "user_leave n seg c s =
     (let top = (\<lambda>k. peekw seg (r_sp c + 2 * of_nat k) s);
          c = c\<lparr>r_bp := top n, r_sp := r_sp c + 2 * of_nat (Suc n)\<rparr>
      in if n = 1 then c\<lparr>r_bx := top 0\<rparr>
         else if n = 2 then c\<lparr>r_cx := top 0, r_bx := top 1\<rparr>
         else if n = 3 then c\<lparr>r_dx := top 0, r_cx := top 1, r_bx := top 2\<rparr>
         else c)"

definition user_call ::
  "(u16 \<Rightarrow> u16 \<Rightarrow> ('z irqs_scheme, unit) kmon) \<Rightarrow> u16 list \<Rightarrow> u16 \<Rightarrow> u16 list \<Rightarrow> cpu \<Rightarrow> ('z irqs_scheme, cpu) kmon" where
  "user_call call pushed num args c =
     bindK (getK current_task) (\<lambda>p.
     bindK (get_task p) (\<lambda>t.
     bindK (getK (user_entry num args (t_segment t) c)) (\<lambda>(c1, s1).
     thenK (modifyK (\<lambda>s. s1))
    (bindK (int80 call pushed c1) (\<lambda>c2.
     getK (user_leave (length args) (t_segment t) c2))))))"

text \<open>The functions of \<^verbatim>\<open>init/sys.c\<close>.\<close>

abbreviation stub where "stub num args \<equiv> (\<lambda>call pushed. user_call call pushed num args)"

definition user_sys_exit where "user_sys_exit code = stub 0 [code]"
definition user_sys_open_file where "user_sys_open_file path mode = stub 1 [path, mode]"
definition user_sys_close_file where "user_sys_close_file handle = stub 2 [handle]"
definition user_sys_read_file where "user_sys_read_file handle buffer count = stub 3 [handle, buffer, count]"
definition user_sys_write_file where "user_sys_write_file handle buffer count = stub 4 [handle, buffer, count]"
definition user_sys_seek where "user_sys_seek handle position = stub 5 [handle, position]"
definition user_sys_remove where "user_sys_remove = stub 6 []"
definition user_sys_mount where "user_sys_mount destination_path type source_path = stub 7 [destination_path, type, source_path]"
definition user_sys_unmount where "user_sys_unmount = stub 8 []"
definition user_sys_fork where "user_sys_fork = stub 9 []"
definition user_sys_exec where "user_sys_exec path arg = stub 10 [path, arg]"
definition user_sys_sleep where "user_sys_sleep milliseconds = stub 11 [milliseconds]"
definition user_sys_wait_for_task where "user_sys_wait_for_task task = stub 13 [task]"

section \<open>Words on the stack\<close>

lemma peekw_pokew_apart:
  assumes "1 < unat w" and "unat w < 65535"
  shows "peekw seg (b + w) (pokew seg b v s) = peekw seg (b + w) s"
proof -
  have "w \<noteq> 0" "w \<noteq> 1" "w \<noteq> - 1" using assms by auto
  then show ?thesis by (intro peekw_pokew_other) (auto simp: eq_neg_iff_add_eq_0 add.assoc)
qed

lemma push_words_snoc: "push_words seg (vs @ [v]) x = push_word seg v (push_words seg vs x)"
  by (simp add: push_words_def)

lemma push_words_sp: "fst (push_words seg vs (sp, s)) = sp - 2 * of_nat (length vs)"
proof (induction vs rule: rev_induct)
  case (snoc v vs)
  then show ?case by (simp add: push_words_snoc push_word_def case_prod_beta algebra_simps)
qed (simp add: push_words_def)

lemma push_words_read:
  assumes "i < length vs" and "length vs < 32768"
  shows "peekw seg (sp - 2 * of_nat (Suc i)) (snd (push_words seg vs (sp, s))) = vs ! i"
  using assms
proof (induction vs rule: rev_induct)
  case (snoc v vs)
  have step: "snd (push_words seg (vs @ [v]) (sp, s))
      = pokew seg (sp - 2 * of_nat (Suc (length vs))) v (snd (push_words seg vs (sp, s)))"
  proof -
    have "fst (push_words seg vs (sp, s)) - 2 = sp - 2 * of_nat (Suc (length vs))" by (simp add: push_words_sp algebra_simps)
    then show ?thesis by (simp add: push_words_snoc push_word_def case_prod_beta del: of_nat_Suc)
  qed
  show ?case
  proof (cases "i = length vs")
    case True
    then show ?thesis unfolding step by (simp add: peekw_pokew del: of_nat_Suc)
  next
    case False
    then have i: "i < length vs" using snoc.prems(1) by simp
    define d where "d = length vs - i"
    have d: "0 < d" "2 * d < 65535" "length vs = i + d" using i snoc.prems(2) by (simp_all add: d_def)
    define w :: u16 where "w = of_nat (2 * d)"
    have "unat w = 2 * d" unfolding w_def using d(2) by (intro unat_of_nat_16) simp
    then have w: "1 < unat w" "unat w < 65535" using d(1,2) by simp_all
    have "sp - 2 * of_nat (Suc i) = (sp - 2 * of_nat (Suc (length vs))) + w" unfolding w_def d(3) by (simp add: algebra_simps)
    then have "peekw seg (sp - 2 * of_nat (Suc i)) (pokew seg (sp - 2 * of_nat (Suc (length vs))) v x)
        = peekw seg (sp - 2 * of_nat (Suc i)) x" for x :: "'a machine_scheme"
      by (simp only: peekw_pokew_apart [OF w])
    then show ?thesis unfolding step using snoc.IH i snoc.prems(2) by (simp add: nth_append del: of_nat_Suc)
  qed
qed simp

lemma push_words_append: "push_words seg (vs @ ws) x = push_words seg ws (push_words seg vs x)"
  by (simp add: push_words_def)

lemma push_words_frame: "\<exists>m. snd (push_words seg vs (sp, s)) = s\<lparr>mem := m\<rparr>"
proof (induction vs rule: rev_induct)
  case Nil
  show ?case by (rule exI [of _ "mem s"]) (simp add: push_words_def)
next
  case (snoc v vs)
  then show ?case by (auto simp: push_words_snoc push_word_def case_prod_beta pokew_def)
qed

lemma push_words_outside:
  assumes "\<And>off. a \<noteq> linear seg off"
  shows "mem (snd (push_words seg vs (sp, s))) a = mem s a"
  using assms
  by (induction vs rule: rev_induct) (simp_all add: push_words_snoc push_word_def case_prod_beta pokew_def, simp add: push_words_def)

section \<open>What the kernel sees\<close>

text \<open>All that is pushed on the way from the program to the dispatcher, and the state there.\<close>

definition call_words :: "u16 list \<Rightarrow> u16 \<Rightarrow> u16 list \<Rightarrow> cpu \<Rightarrow> u16 list" where
  "call_words pushed num args c =
     (let c1 = load_args args c in
      r_bp c # take (length args) [r_bx c, r_cx c, r_dx c] @ pushed
        @ [num, r_bx c1, r_cx c1, r_dx c1, r_si c, r_di c, r_sp c - 2])"

definition in_kernel :: "u16 list \<Rightarrow> u16 \<Rightarrow> u16 list \<Rightarrow> cpu \<Rightarrow> task \<Rightarrow> 'z tasks_scheme \<Rightarrow> 'z tasks_scheme" where
  "in_kernel pushed num args c t s =
     (let (sp, s1) = push_words (t_segment t) (call_words pushed num args c) (r_sp c, s)
      in s1\<lparr>task_at := (task_at s)(current_task s \<mapsto> t\<lparr>t_user_sp := sp\<rparr>), cpu_sp := t_stack_top t\<rparr>)"

lemma load_args_fields [simp]:
  "r_ax (load_args args c) = r_ax c" "r_si (load_args args c) = r_si c" "r_di (load_args args c) = r_di c"
  "r_bp (load_args args c) = r_bp c" "r_sp (load_args args c) = r_sp c"
  by (induction args c rule: load_args.induct) simp_all

lemma load_args_words [simp]:
  "r_bx (load_args args (c\<lparr>r_bp := x, r_sp := y, r_ax := z\<rparr>)) = r_bx (load_args args c)"
  "r_cx (load_args args (c\<lparr>r_bp := x, r_sp := y, r_ax := z\<rparr>)) = r_cx (load_args args c)"
  "r_dx (load_args args (c\<lparr>r_bp := x, r_sp := y, r_ax := z\<rparr>)) = r_dx (load_args args c)"
  by (induction args c rule: load_args.induct) simp_all

lemma user_call_enters:
  assumes "current_task s = p" and "task_at s p = Some t"
  shows "user_call call pushed num args c s =
    bindK (thenK (intr_dispatcher call 24) kernel_exit) (\<lambda>c2. getK (user_leave (length args) (t_segment t) c2))
      (in_kernel pushed num args c t s)"
proof -
  obtain sp s1 where e: "push_words (t_segment t) (r_bp c # take (length args) [r_bx c, r_cx c, r_dx c]) (r_sp c, s) = (sp, s1)"
    by (cases "push_words (t_segment t) (r_bp c # take (length args) [r_bx c, r_cx c, r_dx c]) (r_sp c, s)")
  obtain m where s1: "s1 = s\<lparr>mem := m\<rparr>" using push_words_frame [of "t_segment t" _ "r_sp c" s] e by (metis snd_conv)
  let ?rest = "pushed @ [num, r_bx (load_args args c), r_cx (load_args args c), r_dx (load_args args c), r_si c, r_di c, r_sp c - 2]"
  obtain sp2 s2 where f: "push_words (t_segment t) ?rest (sp, s1) = (sp2, s2)" by (cases "push_words (t_segment t) ?rest (sp, s1)")
  obtain m2 where s2: "s2 = s1\<lparr>mem := m2\<rparr>" using push_words_frame [of "t_segment t" _ sp s1] f by (metis snd_conv)
  have w: "call_words pushed num args c = (r_bp c # take (length args) [r_bx c, r_cx c, r_dx c]) @ ?rest"
    by (simp add: call_words_def Let_def)
  have "push_words (t_segment t) (call_words pushed num args c) (r_sp c, s) = (sp2, s2)"
    by (simp only: w push_words_append [of _ "r_bp c # take (length args) [r_bx c, r_cx c, r_dx c]"] e f)
  then have "in_kernel pushed num args c t s
      = s2\<lparr>task_at := (task_at s)(p \<mapsto> t\<lparr>t_user_sp := sp2\<rparr>), cpu_sp := t_stack_top t\<rparr>"
    using assms(1) by (simp add: in_kernel_def)
  moreover have i: "int80 call pushed (load_args args (c\<lparr>r_bp := r_sp c - 2, r_sp := sp, r_ax := num\<rparr>)) s1
      = thenK (intr_dispatcher call 24) kernel_exit (s2\<lparr>task_at := (task_at s)(p \<mapsto> t\<lparr>t_user_sp := sp2\<rparr>), cpu_sp := t_stack_top t\<rparr>)"
    using assms f by (simp add: int80_def kernel_enter_def kernel_simps s1 s2)
  moreover have "user_call call pushed num args c s = bindK (int80 call pushed (load_args args (c\<lparr>r_bp := r_sp c - 2, r_sp := sp, r_ax := num\<rparr>)))
      (\<lambda>c2. getK (user_leave (length args) (t_segment t) c2)) s1"
    using assms e by (simp add: user_call_def user_entry_def kernel_simps)
  ultimately show ?thesis by (simp add: bindK_def)
qed

lemma pushed_word:
  assumes "j < length vs" and "length vs < 32768"
  shows "peekw seg (sp - 2 * of_nat (length vs) + 2 * of_nat j) (snd (push_words seg vs (sp, s))) = rev vs ! j"
proof -
  define i where "i = length vs - Suc j"
  have i: "i < length vs" "length vs = Suc i + j" using assms(1) by (simp_all add: i_def)
  have "sp - 2 * of_nat (length vs) + 2 * of_nat j = sp - 2 * of_nat (Suc i)" unfolding i(2) by (simp add: algebra_simps)
  then have "peekw seg (sp - 2 * of_nat (length vs) + 2 * of_nat j) (snd (push_words seg vs (sp, s))) = vs ! i"
    by (simp only: push_words_read [OF i(1) assms(2)])
  then show ?thesis using assms(1) by (simp only: rev_nth i_def)
qed

lemma call_words_length:
  "length args \<le> 3 \<Longrightarrow> length pushed = 4 \<Longrightarrow> length (call_words pushed num args c) = length args + 12"
  by (simp add: call_words_def Let_def)

lemma in_kernel_word:
  assumes "length args \<le> 3" and "length pushed = 4" and "j < length args + 12"
  shows "peekw (t_segment t) (r_sp c - 2 * of_nat (length args + 12) + 2 * of_nat j) (in_kernel pushed num args c t s)
    = rev (call_words pushed num args c) ! j"
proof -
  note len = call_words_length [OF assms(1,2), of num c]
  have mem: "mem (in_kernel pushed num args c t s) = mem (snd (push_words (t_segment t) (call_words pushed num args c) (r_sp c, s)))"
    by (simp add: in_kernel_def case_prod_beta)
  show ?thesis
    using pushed_word [of j "call_words pushed num args c" "t_segment t" "r_sp c" s] assms unfolding len
    by (simp add: peekw_def mem)
qed

lemma in_kernel_task:
  assumes "length args \<le> 3" and "length pushed = 4"
  shows "task_at (in_kernel pushed num args c t s) (current_task s)
    = Some (t\<lparr>t_user_sp := r_sp c - 2 * of_nat (length args + 12)\<rparr>)"
  using push_words_sp [of "t_segment t" "call_words pushed num args c" "r_sp c" s] call_words_length [OF assms, of num c]
  by (simp add: in_kernel_def case_prod_beta)

text \<open>The last words that are pushed.\<close>

lemma call_words_last:
  assumes "length args \<le> 3" and "length pushed = 4" and "j < 7"
  shows "rev (call_words pushed num args c) ! j
    = [r_sp c - 2, r_di c, r_si c, r_dx (load_args args c), r_cx (load_args args c), r_bx (load_args args c), num] ! j"
  using assms(3) by (simp add: call_words_def Let_def nth_append nth_Cons')

lemma call_registers:
  assumes "length args \<le> 3" and "length pushed = 4"
  shows "has_register (in_kernel pushed num args c t s) (current_task s) AX num
    \<and> (\<forall>i < length args. has_register (in_kernel pushed num args c t s) (current_task s) ([BX, CX, DX] ! i) (args ! i))"
proof -
  have reg: "has_register (in_kernel pushed num args c t s) (current_task s) (2 * of_nat j)
      ([r_sp c - 2, r_di c, r_si c, r_dx (load_args args c), r_cx (load_args args c), r_bx (load_args args c), num] ! j)" if "j < 7" for j
    using in_kernel_task [OF assms(1,2), of num c t s] in_kernel_word [OF assms(1,2), of j t c num s]
      call_words_last [OF assms(1,2) that, of num c] that
    by (simp add: has_register_def)
  have "length args = 0 \<or> length args = 1 \<or> length args = 2 \<or> length args = 3" using assms(1) by arith
  then show ?thesis
    using reg [of 6] reg [of 5] reg [of 4] reg [of 3]
    by (auto simp: AX_def BX_def CX_def DX_def length_Suc_conv numeral_eq_Suc less_Suc_eq)
qed

text \<open>
  In the kernel, a function of the system call library has put the number of the call and its
  arguments where the handlers look for them.
\<close>

theorem user_call_passes:
  assumes "length args \<le> 3" and "length pushed = 4" and "task_at s (current_task s) = Some t"
  shows "user_call call pushed num args c s
      = bindK (thenK (intr_dispatcher call 24) kernel_exit) (\<lambda>c2. getK (user_leave (length args) (t_segment t) c2))
          (in_kernel pushed num args c t s)
    \<and> has_register (in_kernel pushed num args c t s) (current_task s) AX num
    \<and> (\<forall>i < length args. has_register (in_kernel pushed num args c t s) (current_task s) ([BX, CX, DX] ! i) (args ! i))"
  using user_call_enters [OF refl assms(3)] call_registers [OF assms(1,2)] by blast

text \<open>
  The way back: a handler that leaves the stack of the program alone, apart from the word of
  \<open>ax\<close>, leaves the registers of the program alone, apart from \<open>ax\<close>.
\<close>

lemma rev_call_words:
  assumes "length pushed = 4"
  shows "rev (call_words pushed num args c) =
    [r_sp c - 2, r_di c, r_si c, r_dx (load_args args c), r_cx (load_args args c), r_bx (load_args args c), num] @ rev pushed
      @ rev (take (length args) [r_bx c, r_cx c, r_dx c]) @ [r_bp c]"
  by (simp add: call_words_def Let_def)

lemma args_cases:
  fixes args :: "u16 list"
  assumes "length args \<le> 3"
  obtains "args = []" | a where "args = [a]" | a b where "args = [a, b]" | a b d where "args = [a, b, d]"
  using assms by (cases "(args, undefined :: cpu)" rule: load_args.cases) auto

lemma stack_words_apart:
  assumes "j < 15" and "j \<noteq> 6"
  shows "peekw seg (b + 2 * of_nat j) (pokew seg (b + AX) v x) = peekw seg (b + 2 * of_nat j) x"
proof -
  have "j \<in> {0, 1, 2, 3, 4, 5, 7, 8, 9, 10, 11, 12, 13, 14}" using assms by simp presburger
  then show ?thesis by (intro peekw_pokew_other) (auto simp: AX_def)
qed

lemma user_call_back:
  assumes args: "length args \<le> 3" "length pushed = 4" and t: "task_at s (current_task s) = Some t"
    and handled: "intr_dispatcher call 24 (in_kernel pushed num args c t s) = Inr ((), s2)"
    and task: "current_task s2 = current_task s" "task_at s2 (current_task s) = Some t2"
      "t_segment t2 = t_segment t" "t_user_sp t2 = r_sp c - 2 * of_nat (length args + 12)"
    and stack: "\<And>j. j < length args + 12 \<Longrightarrow> j \<noteq> 6 \<Longrightarrow>
      peekw (t_segment t) (r_sp c - 2 * of_nat (length args + 12) + 2 * of_nat j) s2
        = peekw (t_segment t) (r_sp c - 2 * of_nat (length args + 12) + 2 * of_nat j) (in_kernel pushed num args c t s)"
    and ax: "has_register s2 (current_task s) AX v"
  shows "user_call call pushed num args c s = Inr (c\<lparr>r_ax := v\<rparr>, s2)"
proof -
  have word: "peekw (t_segment t) (r_sp c - 2 * of_nat (length args + 12) + 2 * of_nat j) s2 = rev (call_words pushed num args c) ! j"
    if "j < length args + 12" "j \<noteq> 6" for j
    using stack [OF that] in_kernel_word [OF args that(1), of t c num s] by simp
  have "peekw (t_segment t) (r_sp c - 2 * of_nat (length args + 12) + 12) s2 = v"
    using ax task by (simp add: has_register_def AX_def)
  note words = this word [of 0] word [of 1] word [of 2] word [of 3] word [of 4] word [of 5]
    word [of 11] word [of 12] word [of 13] word [of 14]
  have call: "user_call call pushed num args c s
      = bindK kernel_exit (\<lambda>c2. getK (user_leave (length args) (t_segment t) c2)) s2"
    unfolding user_call_enters [OF refl t] using handled by (simp add: bindK_def thenK_def)
  show ?thesis
    unfolding call using words task args(2)
    by (cases rule: args_cases [OF args(1)])
      (simp_all add: rev_call_words nth_append kernel_exit_def kernel_simps user_leave_def Let_def)
qed

lemma in_kernel_frame:
  "\<exists>m. in_kernel pushed num args c t s
    = s\<lparr>mem := m, task_at := (task_at s)(current_task s \<mapsto> t\<lparr>t_user_sp := r_sp c - 2 * of_nat (length (call_words pushed num args c))\<rparr>),
        cpu_sp := t_stack_top t\<rparr>
    \<and> (\<forall>a. (\<forall>off. a \<noteq> linear (t_segment t) off) \<longrightarrow> m a = mem s a)"
proof -
  let ?ws = "call_words pushed num args c"
  obtain m where m: "snd (push_words (t_segment t) ?ws (r_sp c, s)) = s\<lparr>mem := m\<rparr>"
    using push_words_frame [of "t_segment t" ?ws "r_sp c" s] by blast
  moreover have "m a = mem s a" if "\<forall>off. a \<noteq> linear (t_segment t) off" for a
    using push_words_outside [of a "t_segment t" ?ws "r_sp c" s] that m by simp
  ultimately show ?thesis
    by (intro exI [of _ m]) (simp add: in_kernel_def case_prod_beta push_words_sp)
qed

lemma kernel_stack_intact:
  "task_at s (current_task s) = Some t \<Longrightarrow> peekw 0x0050 (t_stack t) s = KERNEL_STACK_GUARD
    \<Longrightarrow> task_check_kernel_stack s = Inr ((), s)"
  by (simp add: task_check_kernel_stack_def kernel_simps)

text \<open>
  A program whose system call is answered with a result sees it in \<open>ax\<close> and keeps every other
  register and its stack pointer, whatever the kernel used of them; the memory outside the segment
  of the program that the handler leaves alone is left alone by the way in and out as well.
\<close>

theorem user_call_returns:
  assumes args: "length args \<le> 3" "length pushed = 4" and t: "task_at s (current_task s) = Some t"
    and seg: "t_segment t = segment_of i" "i < 8"
    and guard: "peekw 0x0050 (t_stack t) s = KERNEL_STACK_GUARD"
    and func: "func_table s ! 24 = f" "f \<noteq> 0"
    and handler: "call f 24 (in_kernel pushed num args c t s)
      = Inr ((), pokew (t_segment t) (r_sp c - 2 * of_nat (length args + 12) + AX) v (in_kernel pushed num args c t s))"
  shows "\<exists>s2. user_call call pushed num args c s = Inr (c\<lparr>r_ax := v\<rparr>, s2)
    \<and> (\<forall>a. (\<forall>off. a \<noteq> linear (t_segment t) off) \<longrightarrow> mem s2 a = mem s a)"
proof -
  define w where "w = in_kernel pushed num args c t s"
  define s2 where "s2 = pokew (t_segment t) (r_sp c - 2 * of_nat (length args + 12) + AX) v w"
  obtain m where w: "w = s\<lparr>mem := m, task_at := (task_at s)(current_task s \<mapsto> t\<lparr>t_user_sp := r_sp c - 2 * of_nat (length args + 12)\<rparr>),
        cpu_sp := t_stack_top t\<rparr>"
      "\<And>a. (\<forall>off. a \<noteq> linear (t_segment t) off) \<Longrightarrow> m a = mem s a"
    using in_kernel_frame [of pushed num args c t s] unfolding call_words_length [OF args] w_def by blast
  have apart: "linear 0x0050 a \<noteq> linear (segment_of i) off" for a off
    using kernel_segment_apart [OF seg(2), of off a] by simp
  have frame: "mem s2 a = mem s a" if "\<forall>off. a \<noteq> linear (t_segment t) off" for a
    using that w by (simp add: s2_def pokew_def)
  have kernel: "peekw 0x0050 a w = peekw 0x0050 a s" "peekw 0x0050 a s2 = peekw 0x0050 a s" for a
    using w(2) frame apart by (simp_all add: peekw_def w(1) seg(1))
  have check: "task_check_kernel_stack w = Inr ((), w)" "task_check_kernel_stack s2 = Inr ((), s2)"
    using guard by (auto intro!: kernel_stack_intact [of _ "t\<lparr>t_user_sp := r_sp c - 2 * of_nat (length args + 12)\<rparr>"] simp: kernel)
      (simp_all add: s2_def w(1) pokew_def)
  have "call f 24 w = Inr ((), s2)" using handler unfolding w_def s2_def .
  moreover have "func_table w = func_table s" by (simp add: w(1))
  ultimately have "intr_dispatcher call 24 w = Inr ((), s2)"
    using func check by (simp add: intr_dispatcher_def kernel_simps)
  moreover have "peekw (t_segment t) (r_sp c - 2 * of_nat (length args + 12) + 2 * of_nat j) s2
      = peekw (t_segment t) (r_sp c - 2 * of_nat (length args + 12) + 2 * of_nat j) w" if "j < length args + 12" "j \<noteq> 6" for j
    unfolding s2_def using that args(1) by (intro stack_words_apart) simp_all
  moreover have "current_task s2 = current_task s"
    "task_at s2 (current_task s) = Some (t\<lparr>t_user_sp := r_sp c - 2 * of_nat (length args + 12)\<rparr>)"
    by (simp_all add: s2_def w(1) pokew_def)
  moreover from this have "has_register s2 (current_task s) AX v"
    by (simp add: has_register_def) (simp add: s2_def peekw_pokew)
  ultimately have "user_call call pushed num args c s = Inr (c\<lparr>r_ax := v\<rparr>, s2)"
    unfolding w_def by (intro user_call_back [OF args t, where ?t2.0 = "t\<lparr>t_user_sp := r_sp c - 2 * of_nat (length args + 12)\<rparr>"])
      simp_all
  then show ?thesis using frame by blast
qed

lemma no_handle_call:
  assumes "length args \<le> 3" and "length pushed = 4" and "args \<noteq> []" and "n \<in> {2, 3, 4, 5}"
    and "unat (t_handle_count t) \<le> unat (args ! 0 - 1)"
  shows "syscall_func fuel env r (in_kernel pushed n args c t s)
    = Inr ((), pokew (t_segment t) (r_sp c - 2 * of_nat (length args + 12) + AX) 0 (in_kernel pushed n args c t s))"
proof -
  have cur: "current_task (in_kernel pushed n args c t s) = current_task s"
    using in_kernel_frame [of pushed n args c t s] by auto
  note task = in_kernel_task [OF assms(1,2), of n c t s]
  have regs: "has_register (in_kernel pushed n args c t s) (current_task s) AX n"
    "has_register (in_kernel pushed n args c t s) (current_task s) BX (args ! 0)"
    using call_registers [OF assms(1,2), of n c t s] assms(3) by auto
  show ?thesis
    using syscall_no_handle [of "in_kernel pushed n args c t s", unfolded cur, OF task regs(1) assms(4) regs(2)] assms(5) by simp
qed


section \<open>Witnesses\<close>

text \<open>A program that runs in the task of \<open>hello_reader\<close>, with the handler of system calls installed.\<close>

definition hello_program :: fs where
  "hello_program = hello_reader\<lparr>current_task := 0x700, task_at := [0x700 \<mapsto> hello_task\<lparr>t_stack := 0xd00\<rparr>],
     func_table := replicate 24 0 @ [0x1234]\<rparr>"

definition hello_cpu :: cpu where
  "hello_cpu = \<lparr>r_ax = 0x11, r_bx = 0x22, r_cx = 0x33, r_dx = 0x44, r_si = 0x55, r_di = 0x66, r_bp = 0x7ff0, r_sp = 0x7f00\<rparr>"

definition guarded_program :: fs where
  "guarded_program = pokew 0x0050 0xd00 KERNEL_STACK_GUARD hello_program"

lemma guarded_program:
  "task_at guarded_program (current_task guarded_program) = Some (hello_task\<lparr>t_stack := 0xd00\<rparr>)"
  "current_task guarded_program = 0x700" "func_table guarded_program ! 24 = 0x1234"
  "peekw 0x0050 0xd00 guarded_program = KERNEL_STACK_GUARD"
  by (simp_all add: guarded_program_def hello_program_def pokew_def nth_append)
    (simp add: peekw_def linear_def KERNEL_STACK_GUARD_def)

theorem user_call_passes_witness:
  "has_register (in_kernel [0x202, 0x1050, 0x99, 0x77] 3 [1, 0x2000, 100] hello_cpu (hello_task\<lparr>t_stack := 0xd00\<rparr>) guarded_program) 0x700 BX 1"
  using user_call_passes [of "[1, 0x2000, 100]" "[0x202, 0x1050, 0x99, 0x77]" guarded_program "hello_task\<lparr>t_stack := 0xd00\<rparr>" undefined 3 hello_cpu]
    guarded_program by auto


theorem user_call_returns_witness:
  "\<exists>s2. user_call (\<lambda>f num s. Inr ((), pokew 0x1050 0x7ef4 5 s)) [0x202, 0x1050, 0x99, 0x77] 9 [] hello_cpu guarded_program
    = Inr (hello_cpu\<lparr>r_ax := 5\<rparr>, s2)"
  using user_call_returns [OF _ _ guarded_program(1), of "[]" "[0x202, 0x1050, 0x99, 0x77]" 0 _
      "\<lambda>f num s. Inr ((), pokew 0x1050 0x7ef4 5 s)" 9 hello_cpu 5] guarded_program
  by (auto simp: hello_task_def segment_of_0 hello_cpu_def AX_def)

end
