(* ===== verification/Gate.thy ===== *)
theory Gate
  imports UserCall
begin

text \<open>
  Interrupts at any moment: \<^verbatim>\<open>kernel/int_stub.s\<close> and all of \<^verbatim>\<open>kernel/gate.s\<close>.  An interrupt that is taken in
  a program goes to the stack of the task in the kernel and back to the program; one that is taken in
  the kernel stays on its stack.
\<close>

unbundle bit_operations_syntax

section \<open>The way in and out\<close>

record seg_cpu = cpu +
  r_ss :: u16
  r_ds :: u16
  r_es :: u16

definition all_words :: "u16 list \<Rightarrow> 'c cpu_scheme \<Rightarrow> u16 list" where
  "all_words pushed c = pushed @ [r_ax c, r_bx c, r_cx c, r_dx c, r_si c, r_di c, r_bp c]"

text \<open>
  \<open>kernel_enter\<close> on either stack: \<open>pushed\<close> are the words of the interrupt and the return address of
  the call of \<open>kernel_enter\<close>.  It stops in a loop when \<open>ds\<close> is not the kernel's.  The stack pointer of
  the kernel is \<open>cpu_sp\<close>.  The words that compiled functions push for themselves, below those of the
  stubs, are not in the model.
\<close>

definition gate_enter :: "u16 list \<Rightarrow> seg_cpu \<Rightarrow> ('z tasks_scheme, seg_cpu) kmon" where
  "gate_enter pushed c =
     bindK (if r_ss c = 0x0050
        then bindK (getK (\<lambda>s. push_words 0x0050 (all_words pushed c) (r_sp c, s))) (\<lambda>(sp, s1).
             thenK (modifyK (\<lambda>s. s1\<lparr>cpu_sp := sp\<rparr>)) (retK c))
        else thenK (kernel_enter pushed (cpu.truncate c)) (retK (c\<lparr>r_ss := 0x0050, r_ds := 0x0050, r_es := 0x0050\<rparr>)))
       (\<lambda>c. if r_ds c \<noteq> 0x0050 then failK Hang else retK c)"

text \<open>
  \<open>kernel_exit\<close>: an empty stack of the kernel means that the task goes on; the frame is at its stack
  pointer.  Otherwise the frame is on the stack of the kernel.
\<close>

definition pop_frame :: "u16 \<Rightarrow> u16 \<Rightarrow> 'z machine_scheme \<Rightarrow> seg_cpu \<Rightarrow> seg_cpu" where
  "pop_frame seg sp s c =
     (let reg = (\<lambda>k. peekw seg (sp + k) s) in
      c\<lparr>r_ax := reg 12, r_bx := reg 10, r_cx := reg 8, r_dx := reg 6, r_si := reg 4, r_di := reg 2, r_bp := reg 0,
        r_sp := sp + 14 + 2 + 6\<rparr>)"

definition kernel_exit_force :: "seg_cpu \<Rightarrow> ('z tasks_scheme, seg_cpu) kmon" where
  "kernel_exit_force c =
     bindK (getK current_task) (\<lambda>p.
     bindK (get_task p) (\<lambda>t.
       getK (\<lambda>s. pop_frame (t_segment t) (t_user_sp t) s
         (c\<lparr>r_ss := t_segment t, r_ds := t_segment t, r_es := t_segment t\<rparr>))))"

definition gate_exit :: "seg_cpu \<Rightarrow> ('z tasks_scheme, seg_cpu) kmon" where
  "gate_exit c =
     bindK (getK current_task) (\<lambda>p.
     bindK (get_task p) (\<lambda>t.
     bindK (getK cpu_sp) (\<lambda>sp.
       if sp = t_stack_top t then kernel_exit_force c
       else bindK (getK (\<lambda>s. pop_frame 0x0050 sp s c)) (\<lambda>c.
            thenK (modifyK (\<lambda>s. s\<lparr>cpu_sp := r_sp c\<rparr>)) (retK c)))))"

text \<open>A handler of \<^verbatim>\<open>int_stub.s\<close>, which pushes its number for the dispatcher and drops it afterwards.\<close>

definition intr_handler ::
  "(u16 \<Rightarrow> u16 \<Rightarrow> ('z irqs_scheme, unit) kmon) \<Rightarrow> u16 \<Rightarrow> u16 list \<Rightarrow> seg_cpu \<Rightarrow> ('z irqs_scheme, seg_cpu) kmon" where
  "intr_handler call num pushed c =
     bindK (gate_enter pushed c) (\<lambda>c.
     thenK (modifyK (pushw num))
    (thenK (intr_dispatcher call num)
    (thenK (modifyK dropw) (gate_exit c))))"

section \<open>The state of the dispatcher\<close>

text \<open>
  Where the frame is, and the state in which the dispatcher starts.
\<close>

definition frame_seg :: "seg_cpu \<Rightarrow> task \<Rightarrow> u16" where
  "frame_seg c t = (if r_ss c = 0x0050 then 0x0050 else t_segment t)"

definition frame_at :: "u16 list \<Rightarrow> seg_cpu \<Rightarrow> u16" where
  "frame_at pushed c = r_sp c - 2 * of_nat (length pushed + 7)"

definition interrupted :: "u16 list \<Rightarrow> u16 \<Rightarrow> seg_cpu \<Rightarrow> task \<Rightarrow> 'z tasks_scheme \<Rightarrow> 'z tasks_scheme" where
  "interrupted pushed num c t s =
     (let s1 = snd (push_words (frame_seg c t) (all_words pushed c) (r_sp c, s)) in
      pushw num (if r_ss c = 0x0050 then s1\<lparr>cpu_sp := frame_at pushed c\<rparr>
        else s1\<lparr>task_at := (task_at s)(current_task s \<mapsto> t\<lparr>t_user_sp := frame_at pushed c\<rparr>), cpu_sp := t_stack_top t\<rparr>))"

lemma truncate_words [simp]:
  "r_ax (cpu.truncate c) = r_ax c" "r_bx (cpu.truncate c) = r_bx c" "r_cx (cpu.truncate c) = r_cx c"
  "r_dx (cpu.truncate c) = r_dx c" "r_si (cpu.truncate c) = r_si c" "r_di (cpu.truncate c) = r_di c"
  "r_bp (cpu.truncate c) = r_bp c" "r_sp (cpu.truncate c) = r_sp c"
  by (simp_all add: cpu.truncate_def)

lemma all_words_length [simp]: "length (all_words pushed c) = length pushed + 7"
  by (simp add: all_words_def)

lemma intr_handler_enters:
  assumes t: "task_at s (current_task s) = Some t" and ds: "r_ss c = 0x0050 \<Longrightarrow> r_ds c = 0x0050"
  shows "intr_handler call num pushed c s =
    thenK (intr_dispatcher call num) (thenK (modifyK dropw)
      (gate_exit (if r_ss c = 0x0050 then c else c\<lparr>r_ss := 0x0050, r_ds := 0x0050, r_es := 0x0050\<rparr>)))
      (interrupted pushed num c t s)"
proof -
  have sp: "fst (push_words (frame_seg c t) (all_words pushed c) (r_sp c, s)) = frame_at pushed c"
    by (simp add: push_words_sp frame_at_def)
  obtain s1 where push: "push_words (frame_seg c t) (all_words pushed c) (r_sp c, s) = (frame_at pushed c, s1)"
    using sp by (cases "push_words (frame_seg c t) (all_words pushed c) (r_sp c, s)") auto
  obtain m where s1: "s1 = s\<lparr>mem := m\<rparr>" using push_words_frame [of "frame_seg c t" _ "r_sp c" s] push by (metis snd_conv)
  show ?thesis
  proof (cases "r_ss c = 0x0050")
    case True
    then have "gate_enter pushed c s = Inr (c, s1\<lparr>cpu_sp := frame_at pushed c\<rparr>)"
      using push ds by (simp add: gate_enter_def frame_seg_def kernel_simps)
    then show ?thesis using True push by (simp add: intr_handler_def interrupted_def kernel_simps)
  next
    case False
    then have "gate_enter pushed c s = Inr (c\<lparr>r_ss := 0x0050, r_ds := 0x0050, r_es := 0x0050\<rparr>,
        s1\<lparr>task_at := (task_at s)(current_task s \<mapsto> t\<lparr>t_user_sp := frame_at pushed c\<rparr>), cpu_sp := t_stack_top t\<rparr>)"
      using push t s1 by (simp add: gate_enter_def kernel_enter_def frame_seg_def all_words_def kernel_simps)
    then show ?thesis using False push by (simp add: intr_handler_def interrupted_def kernel_simps)
  qed
qed

lemma frame_word:
  assumes "length pushed = 4" and "j < 7" and "r_ss c \<noteq> 0x0050 \<Longrightarrow> t_segment t = segment_of i \<and> i < 8"
  shows "peekw (frame_seg c t) (frame_at pushed c + 2 * of_nat j) (interrupted pushed num c t s)
    = [r_bp c, r_di c, r_si c, r_dx c, r_cx c, r_bx c, r_ax c] ! j"
proof -
  let ?s1 = "snd (push_words (frame_seg c t) (all_words pushed c) (r_sp c, s))"
  define b where "b = (if r_ss c = 0x0050 then frame_at pushed c else t_stack_top t) - 2"
  have mem: "mem (interrupted pushed num c t s) = mem (pokew 0x0050 b num ?s1)"
    by (simp add: interrupted_def pushw_def pokew_def b_def Let_def)
  have "peekw (frame_seg c t) (frame_at pushed c + 2 * of_nat j) (pokew 0x0050 b num ?s1)
      = peekw (frame_seg c t) (frame_at pushed c + 2 * of_nat j) ?s1"
  proof (cases "r_ss c = 0x0050")
    case True
    define w :: u16 where "w = of_nat (2 * Suc j)"
    have "unat w = 2 * Suc j" unfolding w_def using assms(2) by (intro unat_of_nat_16) simp
    then have w: "1 < unat w" "unat w < 65535" using assms(2) by simp_all
    have at: "frame_at pushed c + 2 * of_nat j = b + w" and seg: "frame_seg c t = 0x0050"
      using True by (simp_all add: b_def w_def frame_seg_def)
    show ?thesis unfolding at seg by (rule peekw_pokew_apart [OF w])
  next
    case False
    then have apart: "linear (t_segment t) x \<noteq> linear 0x0050 y" for x y using assms(3) kernel_segment_apart by simp
    show ?thesis using False by (simp add: frame_seg_def peekw_def pokew_def apart)
  qed
  moreover have "peekw (frame_seg c t) (frame_at pushed c + 2 * of_nat j) ?s1 = rev (all_words pushed c) ! j"
    using pushed_word [of j "all_words pushed c" "frame_seg c t" "r_sp c" s] assms(1,2) by (simp add: frame_at_def)
  moreover have "rev (all_words pushed c) ! j = [r_bp c, r_di c, r_si c, r_dx c, r_cx c, r_bx c, r_ax c] ! j"
  proof -
    have "rev (all_words pushed c) = [r_bp c, r_di c, r_si c, r_dx c, r_cx c, r_bx c, r_ax c] @ rev pushed"
      by (simp add: all_words_def)
    then show ?thesis using assms(2) by (simp only: nth_append) simp
  qed
  moreover have "peekw seg a (interrupted pushed num c t s) = peekw seg a (pokew 0x0050 b num ?s1)" for seg a
    by (simp only: peekw_def mem)
  ultimately show ?thesis by (simp only:)
qed

text \<open>
  An interrupt is not noticed by what it interrupts, a program or the kernel itself: when the
  handler leaves the seven words of the frame, the task and the depth of the stack as they were, every register,
  the stack pointer and the segments come back, whatever the handler did to the registers.
\<close>

lemma interrupt_returns:
  assumes t: "task_at s (current_task s) = Some t" and pushed: "length pushed = 4"
    and kernel: "r_ss c = 0x0050 \<Longrightarrow> r_ds c = 0x0050 \<and> frame_at pushed c \<noteq> t_stack_top t"
    and program: "r_ss c \<noteq> 0x0050 \<Longrightarrow>
      r_ss c = t_segment t \<and> r_ds c = t_segment t \<and> r_es c = t_segment t \<and> t_segment t = segment_of i \<and> i < 8"
    and handled: "intr_dispatcher call num (interrupted pushed num c t s) = Inr ((), s2)"
    and depth: "cpu_sp s2 = cpu_sp (interrupted pushed num c t s)"
    and task: "current_task s2 = current_task s" "task_at s2 (current_task s) = Some t2"
      "t_segment t2 = t_segment t" "t_stack_top t2 = t_stack_top t" "r_ss c \<noteq> 0x0050 \<Longrightarrow> t_user_sp t2 = frame_at pushed c"
    and frame: "\<And>j. j < 7 \<Longrightarrow> peekw (frame_seg c t) (frame_at pushed c + 2 * of_nat j) s2
      = peekw (frame_seg c t) (frame_at pushed c + 2 * of_nat j) (interrupted pushed num c t s)"
  shows "\<exists>x. intr_handler call num pushed c s = Inr (c, s2\<lparr>cpu_sp := x\<rparr>)"
proof -
  have words: "peekw (frame_seg c t) (frame_at pushed c + 2 * of_nat j) (dropw s2)
      = [r_bp c, r_di c, r_si c, r_dx c, r_cx c, r_bx c, r_ax c] ! j" if "j < 7" for j
  proof -
    have "t_segment t = segment_of i \<and> i < 8" if "r_ss c \<noteq> 0x0050" using program that by blast
    from frame_word [OF pushed that this, where num = num and s = s] frame [OF that]
    have "peekw (frame_seg c t) (frame_at pushed c + 2 * of_nat j) s2 = [r_bp c, r_di c, r_si c, r_dx c, r_cx c, r_bx c, r_ax c] ! j"
      by simp
    then show ?thesis by (simp add: dropw_def peekw_def)
  qed
  note words = words [of 0] words [of 1] words [of 2] words [of 3] words [of 4] words [of 5] words [of 6]
  have pop: "pop_frame (frame_seg c t) (frame_at pushed c) (dropw s2) c' = c"
    if "r_ss c' = r_ss c" "r_ds c' = r_ds c" "r_es c' = r_es c" for c'
    using words that pushed by (auto simp: pop_frame_def Let_def frame_at_def)
  have sp: "cpu_sp (dropw s2) = (if r_ss c = 0x0050 then frame_at pushed c else t_stack_top t)"
    using depth by (simp add: dropw_def interrupted_def pushw_def Let_def pokew_def)
  have d: "current_task (dropw s2) = current_task s" "task_at (dropw s2) (current_task s) = Some t2" "mem (dropw s2) = mem s2"
    using task(1,2) by (simp_all add: dropw_def)
  have enters: "intr_handler call num pushed c s = gate_exit (if r_ss c = 0x0050 then c else c\<lparr>r_ss := 0x0050, r_ds := 0x0050, r_es := 0x0050\<rparr>) (dropw s2)"
    using intr_handler_enters [OF t, of c call num pushed] kernel handled by (simp add: thenK_Inr kernel_simps)
  show ?thesis
  proof (cases "r_ss c = 0x0050")
    case True
    then show ?thesis
      using enters d kernel pop [of c] sp task(4)
      by (intro exI [of _ "r_sp c"]) (simp add: gate_exit_def kernel_simps frame_seg_def, simp add: dropw_def)
  next
    case False
    then show ?thesis
      using enters d program sp task(3-5) pop [of "c\<lparr>r_ds := t_segment t, r_es := t_segment t\<rparr>"]
        pop [of "c\<lparr>r_ss := t_segment t, r_ds := t_segment t, r_es := t_segment t\<rparr>"]
      by (intro exI [of _ "cpu_sp s2 + 2"]) (simp add: gate_exit_def kernel_exit_force_def kernel_simps frame_seg_def, simp add: dropw_def)
  qed
qed

text \<open>
  A hardware interrupt for which no task waits, with a handler that works on the data of its driver only.
\<close>

lemma irq_dispatch_quiet:
  assumes num: "8 \<le> num" "num < 24" and guard: "task_check_kernel_stack w = Inr ((), w)"
    and quiet: "irq_events w ! unat (num - 8) = 0"
    and handler: "func_table w ! unat num = 0 \<and> w' = w \<or> func_table w ! unat num \<noteq> 0 \<and> call (func_table w ! unat num) (num - 8) w = Inr ((), w')"
      "mem w' = mem w" "cpu_sp w' = cpu_sp w" "current_task w' = current_task w" "task_at w' = task_at w" "irq_events w' = irq_events w"
  shows "intr_dispatcher call num w = Inr ((), outb 0x20 0x20 (if num \<ge> 16 then outb 0xA0 0x20 w' else w'))"
proof -
  have n: "num \<noteq> 24" "num - 8 + 8 = num" "(num - 8 \<ge> 8) = (num \<ge> 16)" using num by (auto simp: word_le_nat_alt word_less_nat_alt unat_sub16_le)
  have wait: "resume_loop 0 w' = Some (Inr w')" by (subst resume_loop.simps) simp
  have same: "w'\<lparr>irq_events := (irq_events w')[unat (num - 8) := 0]\<rparr> = w'"
  proof -
    have "(irq_events w')[unat (num - 8) := 0] = irq_events w'"
      using quiet list_update_id [of "irq_events w'" "unat (num - 8)"] by (simp add: handler(6))
    then show ?thesis by simp
  qed
  define s2 where "s2 = outb 0x20 0x20 (if num \<ge> 16 then outb 0xA0 0x20 w' else w')"
  have rest: "thenK (irq_resume_waiting_tasks (num - 8))
      (thenK (whenK (num - 8 \<ge> 8) (modifyK (outb 0xA0 0x20))) (modifyK (outb 0x20 0x20))) w' = Inr ((), s2)"
    unfolding n(3) s2_def using quiet wait same
    by (cases "num \<ge> 16") (simp_all add: kernel_simps irq_resume_waiting_tasks_def runK_def handler(6))
  have irq: "irq_handler call (num - 8) w = Inr ((), s2)"
    using handler(1)
  proof (elim disjE conjE)
    assume "func_table w ! unat num = 0" "w' = w"
    then show ?thesis using rest by (simp add: irq_handler_def n(2) kernel_simps)
  next
    assume "func_table w ! unat num \<noteq> 0" "call (func_table w ! unat num) (num - 8) w = Inr ((), w')"
    then show ?thesis using rest by (simp add: irq_handler_def n(2) kernel_simps)
  qed
  have s2: "mem s2 = mem w" "cpu_sp s2 = cpu_sp w" "current_task s2 = current_task w" "task_at s2 = task_at w"
    using handler(2-5) by (simp_all add: s2_def outb_def)
  have "task_check_kernel_stack s2 = Inr ((), s2)"
    using guard s2 by (auto simp: task_check_kernel_stack_def peekw_def bindK_def getK_def lookupK_def get_task_def retK_def failK_def split: option.splits if_splits)
  then have "intr_dispatcher call num w = Inr ((), s2)"
    using guard irq n(1) num(1) by (simp add: intr_dispatcher_def kernel_simps)
  then show ?thesis by (simp only: s2_def)
qed

section \<open>A key\<close>

lemma keyb_func_same:
  "mem (keyb_func s) = mem s" "cpu_sp (keyb_func s) = cpu_sp s" "current_task (keyb_func s) = current_task s"
  "task_at (keyb_func s) = task_at s" "irq_events (keyb_func s) = irq_events s" "port_out (keyb_func s) = port_out s"
  by (simp_all add: keyb_func_def inb_def Let_def)

lemma interrupted_frame:
  "\<exists>m v x. interrupted pushed num c t s = s\<lparr>mem := m, task_at := v, cpu_sp := x\<rparr>
    \<and> v (current_task s) = (if r_ss c = 0x0050 then task_at s (current_task s) else Some (t\<lparr>t_user_sp := frame_at pushed c\<rparr>))"
proof -
  define u where "u = interrupted pushed num c t s"
  obtain m where m: "snd (push_words (frame_seg c t) (all_words pushed c) (r_sp c, s)) = s\<lparr>mem := m\<rparr>"
    using push_words_frame by blast
  have "u = s\<lparr>mem := mem u, task_at := task_at u, cpu_sp := cpu_sp u\<rparr>"
    by (rule tasks.equality) (simp_all add: u_def interrupted_def pushw_def pokew_def Let_def m)
  moreover have "task_at u (current_task s) = (if r_ss c = 0x0050 then task_at s (current_task s) else Some (t\<lparr>t_user_sp := frame_at pushed c\<rparr>))"
    by (simp add: u_def interrupted_def pushw_def pokew_def Let_def m)
  ultimately show ?thesis unfolding u_def by blast
qed

text \<open>The bytes that are pushed.\<close>

lemma push_words_other:
  "2 * length vs \<le> unat (sp - 1 - off) \<Longrightarrow> mem (snd (push_words seg vs (sp, s))) (linear seg off) = mem s (linear seg off)"
proof (induction vs rule: rev_induct)
  case (snoc v vs)
  have len: "2 * length vs + 2 < 65536" using snoc.prems unat_lt_65536 [of "sp - 1 - off"] by simp
  have neq: "off \<noteq> sp - 1 - of_nat k" if "k < 2 * length vs + 2" for k
  proof
    assume "off = sp - 1 - of_nat k"
    then have "sp - 1 - off = of_nat k" by simp
    moreover have "unat (of_nat k :: u16) = k" using that len by (intro unat_of_nat_16) simp
    ultimately show False using snoc.prems that by simp
  qed
  have "off \<noteq> fst (push_words seg vs (sp, s)) - 2" "off \<noteq> fst (push_words seg vs (sp, s)) - 2 + 1"
    using neq [of "2 * length vs + 1"] neq [of "2 * length vs"] by (simp_all add: push_words_sp algebra_simps)
  then show ?case using snoc by (simp add: push_words_snoc push_word_def case_prod_beta pokew_def linear_inject)
qed (simp add: push_words_def)

lemma interrupted_other:
  assumes "length pushed = 4" and "r_ss c = frame_seg c t" and "24 \<le> unat (r_sp c - 1 - off)"
    and "r_ss c \<noteq> 0x0050 \<Longrightarrow> t_segment t = segment_of i \<and> i < 8"
  shows "mem (interrupted pushed num c t s) (linear (r_ss c) off) = mem s (linear (r_ss c) off)"
proof -
  let ?s1 = "snd (push_words (frame_seg c t) (all_words pushed c) (r_sp c, s))"
  define b where "b = (if r_ss c = 0x0050 then frame_at pushed c else t_stack_top t) - 2"
  have "mem (interrupted pushed num c t s) = mem (pokew 0x0050 b num ?s1)"
    by (simp add: interrupted_def pushw_def pokew_def b_def Let_def)
  moreover have "linear (r_ss c) off \<noteq> linear 0x0050 b \<and> linear (r_ss c) off \<noteq> linear 0x0050 (b + 1)"
  proof (cases "r_ss c = 0x0050")
    case True
    have "off \<noteq> b" "off \<noteq> b + 1" using assms(3) True by (auto simp: b_def frame_at_def assms(1))
    then show ?thesis using True by (simp add: linear_inject)
  next
    case False
    then have "frame_seg c t = t_segment t" by (simp add: frame_seg_def)
    then have "r_ss c = segment_of i" "i < 8" using assms(2,4) False by simp_all
    then show ?thesis using kernel_segment_apart by simp
  qed
  moreover have "mem ?s1 (linear (r_ss c) off) = mem s (linear (r_ss c) off)"
    unfolding assms(2) using assms(1,3) by (intro push_words_other) simp
  ultimately show ?thesis by (simp add: pokew_def)
qed


section \<open>Witness\<close>

text \<open>The program of \<open>guarded_program\<close> runs while the key with the code 30 is pressed.\<close>

definition key_state :: fs where
  "key_state = guarded_program\<lparr>func_table := (replicate 25 0)[9 := 0x1234], irq_events := replicate 16 0,
     keyb_buf := replicate 8 0, buffer_used := 0, is_esc := False, shift_l := False, shift_r := False, altgr := False, caps := False,
     port_in := \<lambda>_ _. 30\<rparr>"

definition key_cpu :: seg_cpu where
  "key_cpu = cpu.extend hello_cpu (seg_cpu.fields 0x1050 0x1050 0x1050)"

lemma key_cpu_fields: "r_ss key_cpu = 0x1050" "r_ds key_cpu = 0x1050" "r_es key_cpu = 0x1050" "r_sp key_cpu = 0x7f00"
  by (simp_all add: key_cpu_def hello_cpu_def cpu.defs seg_cpu.defs)

lemma key_guard:
  "peekw 0x0050 0xd00 (interrupted [0x202, 0x1050, 0x99, 0x77] 9 key_cpu (hello_task\<lparr>t_stack := 0xd00\<rparr>) key_state) = KERNEL_STACK_GUARD"
proof -
  let ?t = "hello_task\<lparr>t_stack := 0xd00\<rparr>" and ?ws = "[0x202, 0x1050, 0x99, 0x77] :: u16 list"
  have seg: "t_segment ?t = 0x1050" "t_stack_top ?t = 0" by (simp_all add: hello_task_def segment_of_0)
  let ?s1 = "snd (push_words 0x1050 (all_words ?ws key_cpu) (r_sp key_cpu, key_state))"
  have apart: "linear 0x0050 y \<noteq> linear 0x1050 x" for x y
    using kernel_segment_apart [of 0 x y] by (simp add: segment_of_0)
  have "mem ?s1 (linear 0x0050 y) = mem guarded_program (linear 0x0050 y)" for y
    using push_words_outside [of "linear 0x0050 y" "0x1050" _ _ key_state] apart by (simp add: key_state_def)
  then have "peekw 0x0050 0xd00 (pokew 0x0050 (- 2) 9 ?s1) = peekw 0x0050 0xd00 guarded_program"
    by (simp add: peekw_def pokew_def linear_inject)
  moreover have "mem (interrupted ?ws 9 key_cpu ?t key_state) = mem (pokew 0x0050 (- 2) 9 ?s1)"
    by (simp add: interrupted_def key_cpu_fields frame_seg_def seg pushw_def pokew_def Let_def)
  ultimately show ?thesis using guarded_program(4) by (simp add: peekw_def)
qed


end
