(* ===== verification/UserRead.thy ===== *)
theory UserRead
  imports UserCall
begin

text \<open>
  A read from end to end: a program calls \<^verbatim>\<open>sys_read_file\<close> of \<^verbatim>\<open>init/sys.c\<close>, the gate of the kernel
  saves its registers, the system call runs through the file, the FAT volume, the block cache and
  the driver, and the program finds the bytes of the file in its buffer and their number in \<open>ax\<close>.
\<close>

unbundle bit_operations_syntax

section \<open>What the way into the kernel writes\<close>

lemma pokew_elsewhere:
  "a \<noteq> linear seg off \<Longrightarrow> a \<noteq> linear seg (off + 1) \<Longrightarrow> mem (pokew seg off v s) a = mem s a"
  by (simp add: pokew_def)

lemma push_words_elsewhere:
  "(\<And>j. j < 2 * length vs \<Longrightarrow> a \<noteq> linear seg (sp - of_nat (Suc j))) \<Longrightarrow> mem (snd (push_words seg vs (sp, s))) a = mem s a"
proof (induction vs rule: rev_induct)
  case (snoc v vs)
  have "mem (snd (push_words seg vs (sp, s))) a = mem s a" by (rule snoc.IH) (use snoc.prems in simp)
  moreover have "a \<noteq> linear seg (sp - 2 * of_nat (length vs) - 2)" "a \<noteq> linear seg (sp - 2 * of_nat (length vs) - 2 + 1)"
    using snoc.prems [of "Suc (2 * length vs)"] snoc.prems [of "2 * length vs"] by (simp_all add: algebra_simps)
  ultimately show ?case
    by (simp add: push_words_snoc push_word_def case_prod_beta push_words_sp pokew_elsewhere)
qed (simp add: push_words_def)

text \<open>The bytes that a call pushes: up to 30 below the stack pointer.\<close>

definition call_stack :: "nat \<Rightarrow> u16 \<Rightarrow> u16 \<Rightarrow> nat set" where
  "call_stack n seg sp = {linear seg (sp - of_nat (Suc j)) | j. j < 2 * (n + 12)}"

lemma in_kernel_memory:
  assumes "length args \<le> 3" and "length pushed = 4" and "a \<notin> call_stack (length args) (t_segment t) (r_sp c)"
  shows "mem (in_kernel pushed num args c t s) a = mem s a"
proof -
  have "mem (snd (push_words (t_segment t) (call_words pushed num args c) (r_sp c, s))) a = mem s a"
    using assms(3) by (intro push_words_elsewhere) (auto simp: call_stack_def call_words_length [OF assms(1,2)] simp del: of_nat_Suc)
  then show ?thesis by (simp add: in_kernel_def case_prod_beta)
qed

lemma call_stack_word:
  assumes "j < n + 12"
  shows "linear seg (sp - 2 * of_nat (n + 12) + 2 * of_nat j) \<in> call_stack n seg sp"
    and "linear seg (sp - 2 * of_nat (n + 12) + 2 * of_nat j + 1) \<in> call_stack n seg sp"
proof -
  obtain d where d: "n + 12 = Suc (j + d)" using assms by (metis less_imp_Suc_add add_Suc_right)
  have "sp - 2 * of_nat (n + 12) + 2 * of_nat j = sp - of_nat (Suc (2 * d + 1))"
    "sp - 2 * of_nat (n + 12) + 2 * of_nat j + 1 = sp - of_nat (Suc (2 * d))"
    unfolding d by (simp_all add: algebra_simps)
  moreover have "2 * d + 1 < 2 * (n + 12)" "2 * d < 2 * (n + 12)" using d by simp_all
  ultimately show "linear seg (sp - 2 * of_nat (n + 12) + 2 * of_nat j) \<in> call_stack n seg sp"
    "linear seg (sp - 2 * of_nat (n + 12) + 2 * of_nat j + 1) \<in> call_stack n seg sp"
    unfolding call_stack_def by (metis (mono_tags, lifting) mem_Collect_eq)+
qed

section \<open>A handler that writes to the program\<close>

text \<open>
  A handler may change the kernel and the memory of the program: the program gets its result and
  its registers back as long as its own stack frame and the guard of its kernel stack are left alone.
\<close>

lemma user_call_through:
  assumes args: "length args \<le> 3" "length pushed = 4" and t: "task_at s (current_task s) = Some t"
    and seg: "t_segment t = segment_of i" "i < 8"
    and guard: "peekw 0x0050 (t_stack t) s = KERNEL_STACK_GUARD" and func: "func_table s ! 24 = f" "f \<noteq> 0"
    and handler: "call f 24 (in_kernel pushed num args c t s)
      = Inr ((), pokew (t_segment t) (r_sp c - 2 * of_nat (length args + 12) + AX) v w)"
    and w: "current_task w = current_task s" "task_view w = task_view (in_kernel pushed num args c t s)"
      "\<And>a. a \<in> call_stack (length args) (t_segment t) (r_sp c) \<Longrightarrow> mem w a = mem (in_kernel pushed num args c t s) a"
      "bytes_at 0x0050 (t_stack t) 2 (mem w) = bytes_at 0x0050 (t_stack t) 2 (mem s)"
  shows "user_call call pushed num args c s
    = Inr (c\<lparr>r_ax := v\<rparr>, pokew (t_segment t) (r_sp c - 2 * of_nat (length args + 12) + AX) v w)"
proof -
  let ?k = "in_kernel pushed num args c t s" and ?sp = "r_sp c - 2 * of_nat (length args + 12)"
  define s2 where "s2 = pokew (t_segment t) (?sp + AX) v w"
  obtain m where k: "?k = s\<lparr>mem := m, task_at := (task_at s)(current_task s \<mapsto> t\<lparr>t_user_sp := ?sp\<rparr>), cpu_sp := t_stack_top t\<rparr>"
      "\<And>a. (\<forall>off. a \<noteq> linear (t_segment t) off) \<Longrightarrow> m a = mem s a"
    using in_kernel_frame [of pushed num args c t s] unfolding call_words_length [OF args] by blast
  have "task_view w (current_task s) = Some (t_segment t, ?sp, t_stack t)" by (simp add: w(2) task_view_def k(1))
  then obtain t2 where t2: "task_at w (current_task s) = Some t2" "t_segment t2 = t_segment t" "t_user_sp t2 = ?sp" "t_stack t2 = t_stack t"
    by (auto simp: task_view_def)
  have guards: "peekw 0x0050 (t_stack t) ?k = KERNEL_STACK_GUARD" "peekw 0x0050 (t_stack t) s2 = KERNEL_STACK_GUARD"
  proof -
    have bytes: "bytes_at 0x0050 (t_stack t) 2 (mem ?k) = bytes_at 0x0050 (t_stack t) 2 (mem s)"
      by (rule bytes_at_kernel [OF _ seg(2)]) (use k(2) in \<open>simp add: k(1) seg(1)\<close>)
    have "bytes_at 0x0050 (t_stack t) 2 (mem s2) = bytes_at 0x0050 (t_stack t) 2 (mem w)"
      unfolding s2_def seg(1) by (rule bytes_at_kernel [OF _ seg(2)]) (simp add: pokew_elsewhere)
    with w(4) bytes guard show "peekw 0x0050 (t_stack t) ?k = KERNEL_STACK_GUARD" "peekw 0x0050 (t_stack t) s2 = KERNEL_STACK_GUARD"
      by (simp_all add: peekw_def bytes_at_def numeral_2_eq_2)
  qed
  have cur: "current_task ?k = current_task s" "current_task s2 = current_task s" "task_at s2 = task_at w" "func_table ?k = func_table s"
    using w(1) by (simp_all add: k(1) s2_def pokew_def)
  have check: "task_check_kernel_stack ?k = Inr ((), ?k)" "task_check_kernel_stack s2 = Inr ((), s2)"
    using guards t2 cur by (auto intro!: kernel_stack_intact simp: k(1))
  have "intr_dispatcher call 24 ?k = Inr ((), s2)"
    using func check handler [folded s2_def] cur by (simp add: intr_dispatcher_def kernel_simps)
  moreover have "peekw (t_segment t) (?sp + 2 * of_nat j) s2 = peekw (t_segment t) (?sp + 2 * of_nat j) ?k"
    if "j < length args + 12" "j \<noteq> 6" for j
  proof -
    have "peekw (t_segment t) (?sp + 2 * of_nat j) s2 = peekw (t_segment t) (?sp + 2 * of_nat j) w"
      unfolding s2_def using that args(1) by (intro stack_words_apart) simp_all
    then show ?thesis using w(3) call_stack_word [OF that(1)] by (simp add: peekw_def)
  qed
  moreover have "has_register s2 (current_task s) AX v"
    using t2 cur by (simp add: has_register_def) (simp add: s2_def peekw_pokew)
  ultimately show ?thesis
    unfolding s2_def [symmetric] using t2 cur by (intro user_call_back [OF args t, where ?t2.0 = t2]) simp_all
qed

text \<open>A system call whose function returns a result, or panics, in the state that the call has brought about.\<close>

lemma syscall_enters:
  assumes "current_task k = p" and "has_register k p AX num" and "num < NUM_SYSCALLS"
  shows "syscall_call table k = bindK ((table ! unat num) p)
    (\<lambda>n. bindK (getK current_task) (\<lambda>cur. task_set_register cur AX n)) k"
  using assms(1,3) by (simp add: syscall_call_def kernel_simps has_register_get [OF assms(2)])

lemma in_kernel_call:
  assumes args: "length args \<le> 3" "length pushed = 4" and num: "num < NUM_SYSCALLS"
  shows "syscall_call table (in_kernel pushed num args c t s) = bindK ((table ! unat num) (current_task s))
    (\<lambda>n. bindK (getK current_task) (\<lambda>cur. task_set_register cur AX n)) (in_kernel pushed num args c t s)"
proof (rule syscall_enters [OF _ _ num])
  show "current_task (in_kernel pushed num args c t s) = current_task s" using in_kernel_frame [of pushed num args c t s] by auto
  show "has_register (in_kernel pushed num args c t s) (current_task s) AX num" using call_registers [OF args] by blast
qed

lemma user_call_served:
  assumes args: "length args \<le> 3" "length pushed = 4" and t: "task_at s (current_task s) = Some t"
    and seg: "t_segment t = segment_of i" "i < 8"
    and guard: "peekw 0x0050 (t_stack t) s = KERNEL_STACK_GUARD" and func: "func_table s ! 24 = f" "f \<noteq> 0"
    and call: "call f 24 = syscall_call table" "num < NUM_SYSCALLS"
    and run: "(table ! unat num) (current_task s) (in_kernel pushed num args c t s) = Inr (v, w)"
    and w: "current_task w = current_task s" "task_view w = task_view (in_kernel pushed num args c t s)"
      "\<And>a. a \<in> call_stack (length args) (t_segment t) (r_sp c) \<Longrightarrow> mem w a = mem (in_kernel pushed num args c t s) a"
      "bytes_at 0x0050 (t_stack t) 2 (mem w) = bytes_at 0x0050 (t_stack t) 2 (mem s)"
  shows "\<exists>m. user_call call pushed num args c s = Inr (c\<lparr>r_ax := v\<rparr>, w\<lparr>mem := m\<rparr>)
    \<and> (\<forall>a. a \<notin> call_stack (length args) (t_segment t) (r_sp c) \<longrightarrow> m a = mem w a)"
proof -
  let ?sp = "r_sp c - 2 * of_nat (length args + 12)"
  let ?u = "pokew (t_segment t) (?sp + AX) v w"
  have "task_at (in_kernel pushed num args c t s) (current_task s) = Some (t\<lparr>t_user_sp := ?sp\<rparr>)"
    by (rule in_kernel_task [OF args])
  then have "task_view w (current_task s) = Some (t_segment t, ?sp, t_stack t)" by (simp add: w(2) task_view_def)
  then obtain t2 where t2: "task_at w (current_task s) = Some t2" "t_segment t2 = t_segment t" "t_user_sp t2 = ?sp"
    by (auto simp: task_view_def)
  have "syscall_call table (in_kernel pushed num args c t s) = Inr ((), ?u)"
    using run w(1) t2 by (simp add: in_kernel_call [OF args call(2)] kernel_simps task_set_register_def)
  then have "user_call call pushed num args c s = Inr (c\<lparr>r_ax := v\<rparr>, ?u)"
    using w call(1) by (intro user_call_through [OF args t seg guard func]) simp_all
  moreover have "mem ?u a = mem w a" if "a \<notin> call_stack (length args) (t_segment t) (r_sp c)" for a
    using that call_stack_word [of 6 "length args" "t_segment t" "r_sp c"] by (intro pokew_elsewhere) (auto simp: AX_def)
  ultimately show ?thesis by (intro exI [of _ "mem ?u"]) (simp add: pokew_def)
qed

lemma user_call_panics:
  assumes args: "length args \<le> 3" "length pushed = 4" and t: "task_at s (current_task s) = Some t"
    and seg: "t_segment t = segment_of i" "i < 8"
    and guard: "peekw 0x0050 (t_stack t) s = KERNEL_STACK_GUARD" and func: "func_table s ! 24 = f" "f \<noteq> 0"
    and call: "call f 24 = syscall_call table" "num < NUM_SYSCALLS"
    and run: "(table ! unat num) (current_task s) (in_kernel pushed num args c t s) = Inl e"
  shows "user_call call pushed num args c s = Inl e"
proof -
  let ?k = "in_kernel pushed num args c t s"
  obtain m where k: "?k = s\<lparr>mem := m, task_at := (task_at s)(current_task s \<mapsto> t\<lparr>t_user_sp := r_sp c - 2 * of_nat (length (call_words pushed num args c))\<rparr>),
        cpu_sp := t_stack_top t\<rparr>"
      "\<And>a. (\<forall>off. a \<noteq> linear (t_segment t) off) \<Longrightarrow> m a = mem s a"
    using in_kernel_frame [of pushed num args c t s] by blast
  have "m (linear 0x0050 a) = mem s (linear 0x0050 a)" for a
    using k(2) kernel_segment_apart [OF seg(2), symmetric] by (simp add: seg(1))
  then have "task_check_kernel_stack ?k = Inr ((), ?k)"
    using guard by (auto intro!: kernel_stack_intact simp: k(1) peekw_def)
  moreover have "syscall_call table ?k = Inl e" using run by (simp add: in_kernel_call [OF args call(2)] kernel_simps)
  moreover have "func_table ?k = func_table s" by (simp add: k(1))
  ultimately show ?thesis
    using func call(1) unfolding user_call_enters [OF refl t] by (simp add: intr_dispatcher_def kernel_simps)
qed

section \<open>The read\<close>

text \<open>On the way into the kernel nothing happens to the kernel.\<close>

lemma block_ready_frame:
  assumes ready: "block_ready rd c disk dev f e s" and k: "k = s\<lparr>mem := m, task_at := x, cpu_sp := y\<rparr>"
    and kernel: "\<And>a n. bytes_at 0x0050 a n m = bytes_at 0x0050 a n (mem s)"
  shows "block_ready rd c disk dev f e k" and "buffer_ok k a n = buffer_ok s a n"
proof -
  have lv: "live k = live s" "heap_inv k = heap_inv s" "reserved k a = reserved s a" for a
    by (simp_all add: k live_def block_addr_def heap_inv_def reserved_def)
  have "entry_ok disk s e' \<Longrightarrow> entry_ok disk k e'" for e'
    by (rule entry_ok_keep) (use lv kernel in \<open>simp_all add: k\<close>)
  then have "cache_ok disk k" using ready by (simp add: block_ready_def cache_ok_def k)
  then show "block_ready rd c disk dev f e k"
    using ready lv unfolding block_ready_def device_ok_def by (simp add: k)
  show "buffer_ok k a n = buffer_ok s a n" unfolding buffer_ok_def lv by (simp add: k)
qed

lemma kernel_word: "(\<And>a n. bytes_at 0x0050 a n m = bytes_at 0x0050 a n (mem s)) \<Longrightarrow> mem k = m \<Longrightarrow> peekw 0x0050 a k = peekw 0x0050 a s"
  by (drule meta_spec [of _ a], drule meta_spec [of _ 2]) (simp add: peekw_def bytes_at_def numeral_2_eq_2)

text \<open>The read, as the kernel does it in the state that the call has brought about.\<close>

lemma read_in_kernel:
  fixes buffer count :: u16 and c :: cpu
  assumes task: "task_at s (current_task s) = Some t" "t_segment t = segment_of i" "i < 8" and pushed: "length pushed = 4"
    and ready: "block_ready rd c' disk dev g e s"
    and reader: "\<forall>h b k. c_file_read fc Fat_read_file h b k = fat_read_file c' entry_loc loc h b k"
    and h: "task_get_handle (current_task s) num s = Inr (h, s)" "h \<noteq> 0"
      "handle_at s h = Some \<lparr>h_flags = FILE OR HANDLE_READ, h_node = nd\<rparr>" "file_at s nd = Some (Some fat_file_ops)"
    and vol: "fat_handle s h ff root pos" "layout_ok root (2 ^ e)" "fr_handle root = dev"
      "file_on_volume (block_image disk g (2 ^ e)) root (2 ^ e) (val64 (ff_entry_position ff)) cls len" "val64 pos < len"
    and locs: "buffer_ok s entry_loc 32" "buffer_ok s loc 2"
  defines "k \<equiv> in_kernel pushed 3 [num, buffer, count] c t s"
  shows "sys_read_file fc (current_task s) k = Inl (Panic ''out of mem'')
    \<or> (\<exists>n w. sys_read_file fc (current_task s) k = Inr (n, w) \<and> unat n = min (unat count) (len - val64 pos)
        \<and> bytes_at (t_segment t) buffer (unat n) (mem w)
          = take (unat count) (drop (val64 pos) (file_bytes (block_image disk g (2 ^ e)) root (2 ^ e) cls len))
        \<and> position_at w h = Some (add64_16 pos n) \<and> current_task w = current_task s \<and> task_view w = task_view k
        \<and> (\<forall>a. outside_kernel a \<longrightarrow> (\<forall>j < unat n. a \<noteq> linear (t_segment t) (buffer + of_nat j)) \<longrightarrow> mem w a = mem k a)
        \<and> (\<forall>a n. buffer_ok s a n \<longrightarrow> far entry_loc 32 a n \<longrightarrow> far loc 2 a n \<longrightarrow> bytes_at 0x0050 a n (mem w) = bytes_at 0x0050 a n (mem s)))"
proof -
  let ?args = "[num, buffer, count]" and ?p = "current_task s"
  have len3: "length ?args \<le> 3" by simp
  note regs = call_registers [OF len3 pushed, of 3 c t s, folded k_def]
  obtain m sp where k: "k = s\<lparr>mem := m, task_at := (task_at s)(?p \<mapsto> t\<lparr>t_user_sp := sp\<rparr>), cpu_sp := t_stack_top t\<rparr>"
      "\<And>a. (\<forall>off. a \<noteq> linear (t_segment t) off) \<Longrightarrow> m a = mem s a"
    using in_kernel_frame [of pushed 3 ?args c t s] unfolding k_def by blast
  have kernel: "bytes_at 0x0050 a n m = bytes_at 0x0050 a n (mem s)" for a n
    by (rule bytes_at_kernel [OF _ task(3)]) (use k(2) task(2) in simp)
  note ready_k = block_ready_frame [OF ready k(1) kernel]
  have "peekw 0x0050 a k = peekw 0x0050 a s" for a by (rule kernel_word [OF kernel]) (simp add: k(1))
  moreover have "task_at k ?p = Some (t\<lparr>t_user_sp := sp\<rparr>)" by (simp add: k(1))
  ultimately have handle: "task_get_handle ?p num k = Inr (h, k)"
    using h(1) task(1) by (auto simp: task_get_handle_def kernel_simps slot_def split: if_splits)
  have r: "has_register k ?p BX num" "has_register k ?p CX buffer" "has_register k ?p DX count"
    using regs by (auto simp: nth_Cons')
  have "segments k ?p = Some (segment_of i)" "fat_handle k h ff root pos"
    using task(2) vol(1) by (simp_all add: segments_def fat_handle_def k(1))
  from sys_read_file_fat [OF ready_k(1) reader this(1) task(3) r handle h(2) _ _ this(2) vol(2-5), where nd = nd, unfolded ready_k(2)]
  show ?thesis using h(3,4) locs kernel task(2) by (simp add: k(1))
qed


section \<open>Witness\<close>

text \<open>The program of \<open>guarded_program\<close> reads the rest of its file; the volume is ready for it.\<close>

lemma guarded_eq:
  "\<exists>m. guarded_program = hello_volume\<lparr>mem := m, file_at := (file_at hello_volume)(0x580 \<mapsto> Some fat_file_ops),
     task_at := [0x700 \<mapsto> hello_task\<lparr>t_stack := 0xd00\<rparr>], current_task := 0x700, func_table := replicate 24 0 @ [0x1234]\<rparr>"
proof -
  obtain m where eq: "hello_reader = hello_volume\<lparr>mem := m, file_at := (file_at hello_volume)(0x580 \<mapsto> Some fat_file_ops),
     task_at := [0x700 \<mapsto> hello_task]\<rparr>" using hello_reader_eq by blast
  obtain m' where "guarded_program = hello_reader\<lparr>current_task := 0x700, task_at := [0x700 \<mapsto> hello_task\<lparr>t_stack := 0xd00\<rparr>],
     func_table := replicate 24 0 @ [0x1234], mem := m'\<rparr>" by (simp add: guarded_program_def hello_program_def pokew_def)
  note g = this
  show ?thesis by (rule exI [of _ m'], unfold g eq, rule fs.equality) simp_all
qed

lemma guarded_ready:
  "block_ready hello_driver hello_calls hello_disk 0x800 0x500 9 guarded_program"
  "unat a + n \<le> 0x1000 \<Longrightarrow> buffer_ok guarded_program a n"
proof -
  obtain m where eq: "guarded_program = hello_volume\<lparr>mem := m, file_at := (file_at hello_volume)(0x580 \<mapsto> Some fat_file_ops),
     task_at := [0x700 \<mapsto> hello_task\<lparr>t_stack := 0xd00\<rparr>], current_task := 0x700, func_table := replicate 24 0 @ [0x1234]\<rparr>"
    using guarded_eq by blast
  have heap: "heap_inv guarded_program = heap_inv hello_volume" "live guarded_program = live hello_volume"
    "reserved guarded_program x = reserved hello_volume x" for x
    by (simp_all add: eq heap_inv_def reserved_def live_def block_addr_def)
  have "cache_ok hello_disk guarded_program"
    by (simp add: cache_ok_def CACHED_BLOCKS_def entry_ok_def eq hello_volume_def)
  moreover have "device_ok hello_disk guarded_program = device_ok hello_disk hello_volume" by (simp add: device_ok_def eq)
  ultimately show "block_ready hello_driver hello_calls hello_disk 0x800 0x500 9 guarded_program"
    using hello_ready heap(1) unfolding block_ready_def by (simp add: eq)
  have "block_cache guarded_program = block_cache hello_volume" by (simp add: eq)
  then show "unat a + n \<le> 0x1000 \<Longrightarrow> buffer_ok guarded_program a n"
    using hello_buffer [of a n] heap(2,3) by (simp add: buffer_ok_def)
qed

lemma guarded_handle: "task_get_handle 0x700 1 guarded_program = Inr (0x840, guarded_program)"
  by (simp add: guarded_program_def hello_program_def hello_reader_def hello_task_def pokew_def peekw_def linear_def
      KERNEL_STACK_GUARD_def task_get_handle_def kernel_simps slot_def slot_addr_def SIZEOF_TASK_HANDLE_def)

lemma far_below: "unat a + n \<le> unat b \<Longrightarrow> unat b + k < 65536 \<Longrightarrow> far a n b k"
  by (rule apart_far) (auto simp: apart_def)

lemma hello_stack_apart: "j < 100 \<Longrightarrow> linear 0x1050 (0x2000 + of_nat j) \<notin> call_stack 3 0x1050 0x7f00"
proof
  assume j: "j < 100" and "linear 0x1050 (0x2000 + of_nat j) \<in> call_stack 3 0x1050 0x7f00"
  then obtain i where i: "i < 30" "(0x2000 :: u16) + of_nat j = 0x7f00 - of_nat (Suc i)"
    by (auto simp: call_stack_def linear_inject)
  then have "of_nat (Suc (i + j)) = (0x5f00 :: u16)" by (simp add: algebra_simps)
  moreover have "unat (of_nat (Suc (i + j)) :: u16) = Suc (i + j)" using i(1) j by (intro unat_of_nat_16) simp
  ultimately show False using i(1) j by simp
qed

definition reader_table :: "(ptr \<Rightarrow> (fs, u16) kmon) list" where
  "reader_table = [sys_exit, sys_open_file reader_calls, sys_close_file, sys_read_file reader_calls]"


end
