(* ===== verification/UserHeap.thy ===== *)
theory UserHeap
  imports Prelude
begin

text \<open>
  The allocator of the user programs, \<^verbatim>\<open>init/memory.c\<close>: a doubly linked list of blocks that lie one
  after the other between \<open>first\<close> and \<open>overblock\<close>, each with a header in front of its bytes.

  \<open>headers\<close> holds the header that lies at an address.  \<open>pool_list\<close> reads the headers as a list of
  blocks; the lemmas show that allocation is first fit on that list and that freeing joins a block
  with all the free blocks around it.
\<close>

unbundle bit_operations_syntax

section \<open>State and operations\<close>

record block_header =
  bh_prev :: u16
  bh_next :: u16
  bh_free :: bool

record user_pool =
  headers :: "u16 \<Rightarrow> block_header"
  pool_first :: u16
  overblock :: u16

definition SIZEOF_HEADER :: u16 where "SIZEOF_HEADER = 6"

definition upd_header :: "u16 \<Rightarrow> (block_header \<Rightarrow> block_header) \<Rightarrow> user_pool \<Rightarrow> user_pool" where
  "upd_header p f s = s\<lparr>headers := (headers s)(p := f (headers s p))\<rparr>"

text \<open>The two loops of \<open>mergeFreeBlocks\<close>; they do not end on a cyclic list.\<close>

partial_function (option) first_free_from :: "user_pool \<Rightarrow> u16 \<Rightarrow> u16 option" where
  "first_free_from s p =
     (if bh_prev (headers s p) \<noteq> 0 \<and> bh_free (headers s (bh_prev (headers s p)))
      then first_free_from s (bh_prev (headers s p)) else Some p)"

partial_function (option) last_free_from :: "user_pool \<Rightarrow> u16 \<Rightarrow> u16 option" where
  "last_free_from s p =
     (if p \<noteq> overblock s \<and> bh_free (headers s p) then last_free_from s (bh_next (headers s p)) else Some p)"

definition mergeFreeBlocks :: "u16 \<Rightarrow> user_pool \<Rightarrow> user_pool option" where
  "mergeFreeBlocks block s =
     (case first_free_from s block of
        None \<Rightarrow> None
      | Some first_free \<Rightarrow>
          (case last_free_from s block of
             None \<Rightarrow> None
           | Some last_free \<Rightarrow>
               Some (upd_header last_free (\<lambda>h. h\<lparr>bh_prev := first_free\<rparr>)
                 (upd_header first_free (\<lambda>h. h\<lparr>bh_next := last_free\<rparr>) s))))"

definition clearMemory :: "u16 \<Rightarrow> u16 \<Rightarrow> user_pool \<Rightarrow> user_pool" where
  "clearMemory p count s = s\<lparr>headers := (\<lambda>a. if unat (a - p) + 6 \<le> unat count
     then \<lparr>bh_prev = 0, bh_next = 0, bh_free = False\<rparr> else headers s a)\<rparr>"

definition user_malloc_init :: "u16 \<Rightarrow> u16 \<Rightarrow> user_pool \<Rightarrow> user_pool" where
  "user_malloc_init start end' s =
     (let s = s\<lparr>pool_first := start, overblock := end' + 1\<rparr>;
          s = clearMemory (pool_first s) (overblock s - pool_first s - 1) s
      in upd_header (pool_first s) (\<lambda>h. h\<lparr>bh_prev := 0, bh_next := overblock s, bh_free := True\<rparr>) s)"

definition split_block :: "u16 \<Rightarrow> u16 \<Rightarrow> user_pool \<Rightarrow> user_pool" where
  "split_block cur count s =
     (let new_head = cur + SIZEOF_HEADER + count; nx = bh_next (headers s cur);
          s = upd_header new_head (\<lambda>h. \<lparr>bh_prev = cur, bh_next = nx, bh_free = True\<rparr>) s;
          s = (if bh_next (headers s cur) \<noteq> overblock s
               then upd_header (bh_next (headers s cur)) (\<lambda>h. h\<lparr>bh_prev := new_head\<rparr>) s else s)
      in upd_header cur (\<lambda>h. h\<lparr>bh_next := new_head\<rparr>) s)"

definition take_curr :: "u16 \<Rightarrow> u16 \<Rightarrow> u16 \<Rightarrow> user_pool \<Rightarrow> user_pool" where
  "take_curr cur curr_size count s =
     upd_header cur (\<lambda>h. h\<lparr>bh_free := False\<rparr>)
       (if curr_size > SIZEOF_HEADER + count then split_block cur count s else s)"

partial_function (option) alloc_from :: "u16 \<Rightarrow> user_pool \<Rightarrow> u16 \<Rightarrow> (u16 \<times> user_pool) option" where
  "alloc_from count s cur =
     (if cur = overblock s then Some (0, s)
      else let h = headers s cur; curr_size = bh_next h - cur - SIZEOF_HEADER in
        if bh_free h \<and> \<not> curr_size < count then Some (cur + SIZEOF_HEADER, take_curr cur curr_size count s)
        else if bh_next h \<noteq> 0 then alloc_from count s (bh_next h)
        else Some (0, s))"

definition allocateMemory :: "u16 \<Rightarrow> user_pool \<Rightarrow> (u16 \<times> user_pool) option" where
  "allocateMemory count s = alloc_from count s (pool_first s)"

partial_function (option) free_from :: "u16 \<Rightarrow> user_pool \<Rightarrow> u16 \<Rightarrow> user_pool option" where
  "free_from block s cur =
     (if cur = overblock s then Some s
      else if cur = block - SIZEOF_HEADER
      then mergeFreeBlocks cur (upd_header cur (\<lambda>h. h\<lparr>bh_free := True\<rparr>) s)
      else if bh_next (headers s cur) \<noteq> 0 then free_from block s (bh_next (headers s cur))
      else Some s)"

definition freeMemory :: "u16 \<Rightarrow> user_pool \<Rightarrow> user_pool option" where
  "freeMemory block s = free_from block s (pool_first s)"

section \<open>The pool as a list of blocks\<close>

text \<open>A block is its address, the number of its bytes and whether it is free.\<close>

type_synonym block = "nat \<times> nat \<times> bool"

fun pool_chain :: "(u16 \<Rightarrow> block_header) \<Rightarrow> u16 \<Rightarrow> u16 \<Rightarrow> nat \<Rightarrow> block list \<Rightarrow> bool" where
  "pool_chain h pr p end' [] \<longleftrightarrow> unat p = end'"
| "pool_chain h pr p end' ((a, n, f) # bs) \<longleftrightarrow> unat p = a \<and> bh_prev (h p) = pr \<and> bh_free (h p) = f
     \<and> unat (bh_next (h p)) = a + 6 + n \<and> pool_chain h p (bh_next (h p)) end' bs"

definition pool_list :: "user_pool \<Rightarrow> block list \<Rightarrow> bool" where
  "pool_list s bs \<longleftrightarrow> pool_first s \<noteq> 0 \<and> pool_chain (headers s) 0 (pool_first s) (unat (overblock s)) bs"

text \<open>First fit; a block that is large enough for another header is split.\<close>

fun place :: "nat \<Rightarrow> block list \<Rightarrow> (nat \<times> block list) option" where
  "place n [] = None"
| "place n ((a, k, f) # bs) =
     (if f \<and> n \<le> k
      then Some (a + 6, (if n + 6 < k then [(a, n, False), (a + 6 + n, k - n - 6, True)] else [(a, k, False)]) @ bs)
      else map_option (\<lambda>(p, bs'). (p, (a, k, f) # bs')) (place n bs))"

text \<open>A freed block becomes one with the free blocks on both sides.\<close>

abbreviation block_free :: "block \<Rightarrow> bool" where "block_free \<equiv> snd \<circ> snd"

definition bytes_of :: "block list \<Rightarrow> nat" where
  "bytes_of bs = (\<Sum>(a, n, f) \<leftarrow> bs. n + 6)"

lemma bytes_of_simps [simp]: "bytes_of [] = 0" "bytes_of ((a, n, f) # bs) = n + 6 + bytes_of bs" "bytes_of (xs @ ys) = bytes_of xs + bytes_of ys"
  by (simp_all add: bytes_of_def)

definition coalesce :: "block list \<Rightarrow> block \<Rightarrow> block list \<Rightarrow> block list" where
  "coalesce xs b ys =
     (let run = rev (takeWhile block_free (rev xs)) @ b # takeWhile block_free ys
      in rev (dropWhile block_free (rev xs)) @ (fst (hd run), bytes_of run - 6, True) # dropWhile block_free ys)"

fun release :: "nat \<Rightarrow> block list \<Rightarrow> block list \<Rightarrow> block list" where
  "release p xs [] = xs"
| "release p xs ((a, k, f) # ys) =
     (if a + 6 = p then coalesce xs (a, k, True) ys else release p (xs @ [(a, k, f)]) ys)"

section \<open>Chains\<close>

lemma pool_chain_le: "pool_chain h pr p e bs \<Longrightarrow> unat p \<le> e"
  by (induction bs arbitrary: pr p) force+

lemma pool_chain_less: "pool_chain h pr p e bs \<Longrightarrow> bs \<noteq> [] \<Longrightarrow> unat p < e"
  using pool_chain_le [of h p "bh_next (h p)" e "tl bs"] by (cases bs) auto

lemma pool_chain_end: "pool_chain h pr p (unat q) bs \<Longrightarrow> p = q \<longleftrightarrow> bs = []"
  by (cases "bs = []") (auto dest: pool_chain_less simp: word_unat_eq_iff)

lemma pool_chain_cong:
  "pool_chain h pr p e bs \<Longrightarrow> (\<And>a. unat p \<le> unat a \<Longrightarrow> unat a < e \<Longrightarrow> g a = h a) \<Longrightarrow> pool_chain g pr p e bs"
proof (induction bs arbitrary: pr p)
  case (Cons b bs)
  obtain a n f where b: "b = (a, n, f)" by (cases b)
  have "unat p < e" using pool_chain_less [OF Cons.prems(1)] by simp
  then have "g p = h p" using Cons.prems(2) by simp
  moreover have "pool_chain g p (bh_next (h p)) e bs"
    using Cons.prems b by (intro Cons.IH) auto
  ultimately show ?case using Cons.prems(1) b by simp
qed simp

text \<open>A chain behind another block.\<close>

lemma pool_chain_prev:
  assumes "pool_chain h pr p (unat q) bs"
  shows "pool_chain (if p \<noteq> q then h(p := (h p)\<lparr>bh_prev := pr'\<rparr>) else h) pr' p (unat q) bs"
proof (cases bs)
  case Nil
  then show ?thesis using assms by simp
next
  case (Cons b bs')
  obtain a n f where b: "b = (a, n, f)" by (cases b)
  have "p \<noteq> q" using pool_chain_end [OF assms] Cons by simp
  moreover have "pool_chain (h(p := (h p)\<lparr>bh_prev := pr'\<rparr>)) p (bh_next (h p)) (unat q) bs'"
  proof (rule pool_chain_cong)
    show "pool_chain h p (bh_next (h p)) (unat q) bs'" using assms by (simp add: Cons b)
    show "(h(p := (h p)\<lparr>bh_prev := pr'\<rparr>)) x = h x" if "unat (bh_next (h p)) \<le> unat x" for x
      using that assms by (auto simp: Cons b)
  qed
  ultimately show ?thesis using assms unfolding Cons b by simp
qed

lemma SIZEOF_HEADER_value [simp]: "unat SIZEOF_HEADER = 6"
  by (simp add: SIZEOF_HEADER_def)

lemma curr_size_value:
  assumes "unat nx = unat p + 6 + n"
  shows "unat (nx - p - SIZEOF_HEADER) = n"
proof -
  have "unat (nx - p) = 6 + n" using assms by (simp add: unat_sub16_le)
  then show ?thesis by (simp add: unat_sub16_le)
qed

section \<open>Allocation\<close>

lemma split_block_chain:
  fixes s :: user_pool and p count :: u16
  assumes chain: "pool_chain (headers s) pr p (unat (overblock s)) ((a, k, True) # bs)" and fits: "unat count + 6 < k"
  defines "s' \<equiv> upd_header p (\<lambda>h. h\<lparr>bh_free := False\<rparr>) (split_block p count s)"
  shows "pool_chain (headers s') pr p (unat (overblock s)) ((a, unat count, False) # (a + 6 + unat count, k - unat count - 6, True) # bs)"
    and "overblock s' = overblock s" and "pool_first s' = pool_first s"
    and "\<And>x. unat x < unat p \<Longrightarrow> headers s' x = headers s x"
proof -
  let ?h = "headers s" and ?q = "overblock s"
  define nx where "nx = bh_next (?h p)"
  define new where "new = p + SIZEOF_HEADER + count"
  have p: "unat p = a" "bh_prev (?h p) = pr" "unat nx = a + 6 + k" "pool_chain ?h p nx (unat ?q) bs"
    using chain by (simp_all add: nx_def)
  have "unat (p + SIZEOF_HEADER) = a + 6" using p(1,3) unat_lt_65536 [of nx] by (simp add: unat_add16_small)
  then have new: "unat new = a + 6 + unat count"
    unfolding new_def using p(3) fits unat_lt_65536 [of nx] by (subst unat_add16_small) simp_all
  have ne: "p \<noteq> new" "p \<noteq> nx" "new \<noteq> nx" using p(1,3) new fits by auto
  define g where "g = (if nx \<noteq> ?q then ?h(nx := (?h nx)\<lparr>bh_prev := new\<rparr>) else ?h)"
  have s': "headers s' = g(new := \<lparr>bh_prev = p, bh_next = nx, bh_free = True\<rparr>, p := (?h p)\<lparr>bh_next := new, bh_free := False\<rparr>)"
    and fields: "overblock s' = ?q" "pool_first s' = pool_first s"
    unfolding s'_def split_block_def upd_header_def g_def new_def [symmetric] nx_def [symmetric] Let_def
    using ne by (auto simp: fun_eq_iff nx_def [symmetric])
  have "pool_chain g new nx (unat ?q) bs" unfolding g_def by (rule pool_chain_prev [OF p(4)])
  then have "pool_chain (headers s') new nx (unat ?q) bs"
    by (rule pool_chain_cong) (use p(1,3) new fits in \<open>auto simp: s'\<close>)
  then show "pool_chain (headers s') pr p (unat ?q) ((a, unat count, False) # (a + 6 + unat count, k - unat count - 6, True) # bs)"
    using p new ne fits by (simp add: s')
  show "overblock s' = ?q" "pool_first s' = pool_first s" by (rule fields)+
  show "headers s' x = ?h x" if "unat x < unat p" for x
    using that p(1,3) new by (auto simp: s' g_def)
qed

text \<open>The first block fits.\<close>

lemma alloc_from_here:
  assumes chain: "pool_chain (headers s) pr p (unat (overblock s)) ((a, k, True) # bs)" and fit: "unat count \<le> k"
  shows "case place (unat count) ((a, k, True) # bs) of
      None \<Rightarrow> False
    | Some (q, bs') \<Rightarrow> \<exists>s' r. alloc_from count s p = Some (r, s') \<and> unat r = q
        \<and> pool_chain (headers s') pr p (unat (overblock s)) bs' \<and> overblock s' = overblock s \<and> pool_first s' = pool_first s
        \<and> (\<forall>x. unat x < unat p \<longrightarrow> headers s' x = headers s x)"
proof -
  have ne: "p \<noteq> overblock s" using pool_chain_end [OF chain] by simp
  define nx where "nx = bh_next (headers s p)"
  have p: "unat p = a" "bh_prev (headers s p) = pr" "bh_free (headers s p)" "unat nx = a + 6 + k"
    "pool_chain (headers s) p nx (unat (overblock s)) bs" using chain by (simp_all add: nx_def)
  have size: "unat (nx - p - SIZEOF_HEADER) = k" using curr_size_value [of nx p k] p(1,4) by simp
  have nx: "nx \<noteq> 0" using p(4) by auto
  let ?t = "take_curr p (nx - p - SIZEOF_HEADER) count s"
  have run: "alloc_from count s p = Some (p + SIZEOF_HEADER, ?t)"
    using fit ne p(3) size by (subst alloc_from.simps) (simp add: nx_def [symmetric] less16_iff Let_def)
  have r: "unat (p + SIZEOF_HEADER) = a + 6" using p(1,4) unat_lt_65536 [of nx] by (simp add: unat_add16_small)
  have "unat (SIZEOF_HEADER + count) = 6 + unat count"
    using fit p(4) unat_lt_65536 [of nx] by (subst unat_add16_small) simp_all
  then have big: "SIZEOF_HEADER + count < nx - p - SIZEOF_HEADER \<longleftrightarrow> unat count + 6 < k" using size by (simp add: less16_iff add.commute)
  show ?thesis
  proof (cases "unat count + 6 < k")
    case True
    from split_block_chain [OF chain True] show ?thesis using fit True run r big by (auto simp: take_curr_def)
  next
    case False
    then have t: "?t = upd_header p (\<lambda>h. h\<lparr>bh_free := False\<rparr>) s" using big by (simp add: take_curr_def)
    have "pool_chain (headers ?t) p nx (unat (overblock s)) bs"
      by (rule pool_chain_cong [OF p(5)]) (use p(1,4) in \<open>auto simp: t upd_header_def\<close>)
    then show ?thesis using fit False run r p by (simp add: t upd_header_def nx_def [symmetric])
  qed
qed

lemma alloc_from_place:
  assumes "pool_chain (headers s) pr p (unat (overblock s)) bs"
  shows "case place (unat count) bs of
      None \<Rightarrow> alloc_from count s p = Some (0, s)
    | Some (q, bs') \<Rightarrow> \<exists>s' r. alloc_from count s p = Some (r, s') \<and> unat r = q
        \<and> pool_chain (headers s') pr p (unat (overblock s)) bs' \<and> overblock s' = overblock s \<and> pool_first s' = pool_first s
        \<and> (\<forall>x. unat x < unat p \<longrightarrow> headers s' x = headers s x)"
  using assms
proof (induction bs arbitrary: pr p)
  case Nil
  then have "p = overblock s" using pool_chain_end by blast
  then show ?case by (subst alloc_from.simps) simp
next
  case (Cons b bs)
  obtain a k f where b: "b = (a, k, f)" by (cases b)
  have ne: "p \<noteq> overblock s" using pool_chain_end [OF Cons.prems] by simp
  define nx where "nx = bh_next (headers s p)"
  have p: "unat p = a" "bh_prev (headers s p) = pr" "bh_free (headers s p) = f" "unat nx = a + 6 + k"
    "pool_chain (headers s) p nx (unat (overblock s)) bs" using Cons.prems b by (simp_all add: nx_def)
  show ?case
  proof (cases "f \<and> unat count \<le> k")
    case True
    then have b: "b = (a, k, True)" using b by simp
    show ?thesis
      using alloc_from_here [OF Cons.prems [unfolded b], of count] True unfolding b by (simp only: split: option.splits) simp
  next
    case False
    have size: "unat (nx - p - SIZEOF_HEADER) = k" using curr_size_value [of nx p k] p(1,4) by simp
    have "nx \<noteq> 0" using p(4) by auto
    then have run: "alloc_from count s p = alloc_from count s nx"
      using False ne p(3) size by (subst alloc_from.simps) (auto simp: nx_def [symmetric] less16_iff Let_def)
    show ?thesis
    proof (cases "place (unat count) bs")
      case None
      then show ?thesis using Cons.IH [OF p(5)] False unfolding b run by auto
    next
      case (Some v)
      obtain q bs' where v: "v = (q, bs')" by (cases v)
      obtain s' r where r: "alloc_from count s nx = Some (r, s')" "unat r = q"
        "pool_chain (headers s') p nx (unat (overblock s)) bs'" "overblock s' = overblock s" "pool_first s' = pool_first s"
        "\<And>x. unat x < unat nx \<Longrightarrow> headers s' x = headers s x"
        using Cons.IH [OF p(5)] Some v by auto
      have "headers s' x = headers s x" if "unat x \<le> unat p" for x using that p(1,4) by (intro r(6)) simp
      then have "pool_chain (headers s') pr p (unat (overblock s)) ((a, k, f) # bs')" using p r(3) by (simp add: nx_def)
      then show ?thesis using False Some v r p(1,4) unfolding b run by auto
    qed
  qed
qed

section \<open>Freeing\<close>

text \<open>A part of a chain: from \<open>p\<close> with the block \<open>pr\<close> before it to \<open>q\<close> with \<open>pr'\<close> before it.\<close>

fun pool_seg :: "(u16 \<Rightarrow> block_header) \<Rightarrow> u16 \<Rightarrow> u16 \<Rightarrow> block list \<Rightarrow> u16 \<Rightarrow> u16 \<Rightarrow> bool" where
  "pool_seg h pr p [] pr' q \<longleftrightarrow> pr = pr' \<and> p = q"
| "pool_seg h pr p ((a, n, f) # bs) pr' q \<longleftrightarrow> unat p = a \<and> bh_prev (h p) = pr \<and> bh_free (h p) = f
     \<and> unat (bh_next (h p)) = a + 6 + n \<and> pool_seg h p (bh_next (h p)) bs pr' q"

lemma pool_chain_append:
  "pool_chain h pr p e (xs @ ys) \<longleftrightarrow> (\<exists>pr' q. pool_seg h pr p xs pr' q \<and> pool_chain h pr' q e ys)"
proof (induction xs arbitrary: pr p)
  case (Cons b xs)
  then show ?case by (cases b) simp
qed simp

lemma pool_seg_append:
  "pool_seg h pr p (xs @ ys) pr'' q'' \<longleftrightarrow> (\<exists>pr' q. pool_seg h pr p xs pr' q \<and> pool_seg h pr' q ys pr'' q'')"
proof (induction xs arbitrary: pr p)
  case (Cons b xs)
  then show ?case by (cases b) simp
qed simp

lemma pool_seg_value: "pool_seg h pr p bs pr' q \<Longrightarrow> unat q = unat p + bytes_of bs"
  by (induction bs arbitrary: pr p) auto

lemma pool_seg_cong:
  "pool_seg h pr p bs pr' q \<Longrightarrow> (\<And>a. unat p \<le> unat a \<Longrightarrow> unat a < unat q \<Longrightarrow> g a = h a) \<Longrightarrow> pool_seg g pr p bs pr' q"
proof (induction bs arbitrary: pr p)
  case (Cons b bs)
  obtain a n f where b: "b = (a, n, f)" by (cases b)
  have "unat p < unat q" using pool_seg_value [OF Cons.prems(1)] b by simp
  then have "g p = h p" using Cons.prems(2) by simp
  moreover have "pool_seg g p (bh_next (h p)) bs pr' q"
    using Cons.prems b by (intro Cons.IH) auto
  ultimately show ?case using Cons.prems(1) b by simp
qed simp

lemma first_free_from_seg:
  "pool_seg (headers s) pr p xs pr' q \<Longrightarrow> \<forall>b \<in> set xs. block_free b \<Longrightarrow> p \<noteq> 0 \<Longrightarrow> bh_prev (headers s q) = pr'
    \<Longrightarrow> pr = 0 \<or> \<not> bh_free (headers s pr) \<Longrightarrow> first_free_from s q = Some p"
proof (induction xs arbitrary: pr' q rule: rev_induct)
  case Nil
  then show ?case by (subst first_free_from.simps) auto
next
  case (snoc b xs)
  obtain a n f where b: "b = (a, n, f)" by (cases b)
  obtain pr1 where q: "pool_seg (headers s) pr p xs pr1 pr'" "bh_prev (headers s pr') = pr1" "bh_free (headers s pr')"
    using snoc.prems(1,2) by (auto simp: pool_seg_append b)
  have "pr' \<noteq> 0" using pool_seg_value [OF q(1)] snoc.prems(3) by (auto simp: unat_eq_zero)
  then have "first_free_from s q = first_free_from s pr'"
    using snoc.prems(4) q(3) by (subst first_free_from.simps) simp
  then show ?case using snoc.IH [OF q(1) _ snoc.prems(3) q(2) snoc.prems(5)] snoc.prems(2) by auto
qed

lemma last_free_from_chain:
  "pool_chain (headers s) pr p (unat (overblock s)) ys \<Longrightarrow> \<exists>pr' q. last_free_from s p = Some q
    \<and> pool_seg (headers s) pr p (takeWhile block_free ys) pr' q
    \<and> pool_chain (headers s) pr' q (unat (overblock s)) (dropWhile block_free ys)"
proof (induction ys arbitrary: pr p)
  case Nil
  then have "p = overblock s" using pool_chain_end by blast
  then show ?case by (subst last_free_from.simps) simp
next
  case (Cons b ys)
  obtain a n f where b: "b = (a, n, f)" by (cases b)
  have ne: "p \<noteq> overblock s" using pool_chain_end [OF Cons.prems] by simp
  show ?case
  proof (cases f)
    case True
    then have "last_free_from s p = last_free_from s (bh_next (headers s p))"
      using ne Cons.prems b by (subst last_free_from.simps) simp
    then show ?thesis using Cons.IH [of p "bh_next (headers s p)"] Cons.prems b True by auto
  next
    case False
    then have "last_free_from s p = Some p" using ne Cons.prems b by (subst last_free_from.simps) simp
    then show ?thesis using Cons.prems b False by auto
  qed
qed

lemma pool_seg_last: "pool_seg h pr p (xs @ [(a, n, f)]) pr' q \<Longrightarrow> bh_free (h pr') = f \<and> unat pr' = a"
  by (auto simp: pool_seg_append)

text \<open>Joining a run of free blocks.\<close>

lemma join_run:
  fixes s :: user_pool
  assumes keep: "pool_seg (headers s) 0 p0 keep pk p" and run: "pool_seg (headers s) pk p run pr q" "run \<noteq> []" "block_free (hd run)"
    and rest: "pool_chain (headers s) pr q (unat (overblock s)) rest"
  defines "s' \<equiv> upd_header q (\<lambda>h. h\<lparr>bh_prev := p\<rparr>) (upd_header p (\<lambda>h. h\<lparr>bh_next := q\<rparr>) s)"
  shows "pool_chain (headers s') 0 p0 (unat (overblock s)) (keep @ (fst (hd run), bytes_of run - 6, True) # rest)"
proof -
  let ?h = "headers s" and ?h' = "headers s'"
  obtain a n bs where r: "run = (a, n, True) # bs" using run(2,3) by (cases run) auto
  have q: "unat q = unat p + bytes_of run" by (rule pool_seg_value [OF run(1)])
  have big: "6 \<le> bytes_of run" by (simp add: r)
  then have less: "unat p < unat q" and ne: "p \<noteq> q" using q by auto
  have h': "?h' = ?h(p := (?h p)\<lparr>bh_next := q\<rparr>, q := (?h q)\<lparr>bh_prev := p\<rparr>)"
    using ne by (simp add: s'_def upd_header_def)
  have "pool_seg ?h' 0 p0 keep pk p"
    using keep by (rule pool_seg_cong) (use less in \<open>auto simp: h'\<close>)
  moreover have "pool_chain ?h' p q (unat (overblock s)) rest"
  proof (rule pool_chain_cong [OF pool_chain_prev [OF rest, of p]])
    show "?h' x = (if q \<noteq> overblock s then ?h(q := (?h q)\<lparr>bh_prev := p\<rparr>) else ?h) x"
      if "unat q \<le> unat x" "unat x < unat (overblock s)" for x
      using that less by (auto simp: h')
  qed
  moreover have "unat p = a" "bh_prev (?h p) = pk" "bh_free (?h p)" using run(1) by (simp_all add: r)
  ultimately show ?thesis
    unfolding pool_chain_append
    by - (rule exI [of _ pk], rule exI [of _ p], use ne q big in \<open>simp add: h' r\<close>)
qed

lemma pool_seg_split_free:
  assumes "pool_seg h 0 p0 xs pr p"
  shows "\<exists>pk q. pool_seg h 0 p0 (rev (dropWhile block_free (rev xs))) pk q
    \<and> pool_seg h pk q (rev (takeWhile block_free (rev xs))) pr p \<and> (pk = 0 \<or> \<not> bh_free (h pk))"
proof -
  let ?keep = "rev (dropWhile block_free (rev xs))" and ?left = "rev (takeWhile block_free (rev xs))"
  have xs: "xs = ?keep @ ?left" by (metis rev_append rev_rev_ident takeWhile_dropWhile_id)
  obtain pk q where seg: "pool_seg h 0 p0 ?keep pk q" "pool_seg h pk q ?left pr p"
    using assms by (subst (asm) xs) (auto simp: pool_seg_append)
  have "pk = 0 \<or> \<not> bh_free (h pk)"
  proof (cases "dropWhile block_free (rev xs)")
    case Nil
    show ?thesis using seg(1) unfolding Nil by simp
  next
    case (Cons b bs)
    obtain a n f where b: "b = (a, n, f)" by (cases b)
    have "\<not> f" using hd_dropWhile [of block_free "rev xs"] Cons b by simp
    then show ?thesis using seg(1) pool_seg_last [of h 0 p0 "rev bs" a n f pk q] by (simp add: Cons b)
  qed
  then show ?thesis using seg by blast
qed

lemma merge_free_chain:
  assumes "pool_seg (headers s) 0 p0 xs pr p" and "pool_chain (headers s) pr p (unat (overblock s)) ((a, k, True) # ys)" and "p0 \<noteq> 0"
  shows "\<exists>s'. mergeFreeBlocks p s = Some s' \<and> overblock s' = overblock s \<and> pool_first s' = pool_first s
    \<and> pool_chain (headers s') 0 p0 (unat (overblock s)) (coalesce xs (a, k, True) ys)"
proof -
  obtain pk q where left: "pool_seg (headers s) 0 p0 (rev (dropWhile block_free (rev xs))) pk q"
    "pool_seg (headers s) pk q (rev (takeWhile block_free (rev xs))) pr p" "pk = 0 \<or> \<not> bh_free (headers s pk)"
    using pool_seg_split_free [OF assms(1)] by blast
  have "q \<noteq> 0" using pool_seg_value [OF left(1)] assms(3) by (auto simp: unat_eq_zero)
  have free: "\<forall>b \<in> set (rev (takeWhile block_free (rev xs))). block_free b" by (metis set_rev set_takeWhileD)
  have "bh_prev (headers s p) = pr" using assms(2) by simp
  then have first: "first_free_from s p = Some q" by (rule first_free_from_seg [OF left(2) free \<open>q \<noteq> 0\<close> _ left(3)])
  obtain pr' z where last: "last_free_from s p = Some z"
    "pool_seg (headers s) pr p (takeWhile block_free ((a, k, True) # ys)) pr' z"
    "pool_chain (headers s) pr' z (unat (overblock s)) (dropWhile block_free ys)"
    using last_free_from_chain [OF assms(2)] by auto
  let ?run = "rev (takeWhile block_free (rev xs)) @ (a, k, True) # takeWhile block_free ys"
  have run: "pool_seg (headers s) pk q ?run pr' z" using left(2) last(2) unfolding pool_seg_append by auto
  have "block_free (hd ?run)"
  proof (cases "rev (takeWhile block_free (rev xs))")
    case (Cons b bs)
    then have "b \<in> set (takeWhile block_free (rev xs))" by (metis list.set_intros(1) set_rev)
    then show ?thesis using Cons set_takeWhileD by fastforce
  qed simp
  then show ?thesis
    using join_run [OF left(1) run _ _ last(3)] first last(1)
    by (auto simp: mergeFreeBlocks_def upd_header_def coalesce_def Let_def)
qed

lemma free_from_release:
  assumes "pool_seg (headers s) 0 p0 xs pr p" and "pool_chain (headers s) pr p (unat (overblock s)) ys" and "p0 \<noteq> 0"
  shows "\<exists>s'. free_from block s p = Some s' \<and> overblock s' = overblock s \<and> pool_first s' = pool_first s
    \<and> pool_chain (headers s') 0 p0 (unat (overblock s)) (release (unat block) xs ys)"
  using assms(1,2)
proof (induction ys arbitrary: xs pr p)
  case Nil
  then have "p = overblock s" using pool_chain_end by blast
  moreover have "pool_chain (headers s) 0 p0 (unat (overblock s)) (xs @ [])" using Nil pool_chain_append by blast
  ultimately show ?case by (subst free_from.simps) simp
next
  case (Cons b ys)
  obtain a k f where b: "b = (a, k, f)" by (cases b)
  have ne: "p \<noteq> overblock s" using pool_chain_end [OF Cons.prems(2)] by simp
  define nx where "nx = bh_next (headers s p)"
  have p: "unat p = a" "bh_prev (headers s p) = pr" "bh_free (headers s p) = f" "unat nx = a + 6 + k"
    "pool_chain (headers s) p nx (unat (overblock s)) ys" using Cons.prems(2) b by (simp_all add: nx_def)
  have "unat (p + SIZEOF_HEADER) = a + 6" using p(1,4) unat_lt_65536 [of nx] by (simp add: unat_add16_small)
  moreover have "p = block - SIZEOF_HEADER \<longleftrightarrow> p + SIZEOF_HEADER = block" by (auto simp: algebra_simps)
  ultimately have this_one: "p = block - SIZEOF_HEADER \<longleftrightarrow> a + 6 = unat block" by (simp add: word_unat_eq_iff)
  show ?case
  proof (cases "a + 6 = unat block")
    case True
    let ?t = "upd_header p (\<lambda>h. h\<lparr>bh_free := True\<rparr>) s"
    have less: "unat p0 \<le> unat x \<Longrightarrow> unat x < unat p \<Longrightarrow> headers ?t x = headers s x" for x by (auto simp: upd_header_def)
    have "pool_seg (headers ?t) 0 p0 xs pr p" using Cons.prems(1) less by (rule pool_seg_cong)
    moreover have "pool_chain (headers ?t) p nx (unat (overblock s)) ys"
      using p(5) by (rule pool_chain_cong) (use p(1,4) in \<open>auto simp: upd_header_def\<close>)
    then have "pool_chain (headers ?t) pr p (unat (overblock s)) ((a, k, True) # ys)"
      using p by (simp add: upd_header_def nx_def)
    ultimately show ?thesis
      using merge_free_chain [of ?t p0 xs pr p a k ys] assms(3) True this_one ne unfolding b
      by (subst free_from.simps) (auto simp: upd_header_def)
  next
    case False
    have "pool_seg (headers s) 0 p0 (xs @ [(a, k, f)]) p nx"
      using Cons.prems(1) p(1-4) by (auto simp: pool_seg_append nx_def)
    moreover have "free_from block s p = free_from block s nx"
      using False this_one ne p(4) by (subst free_from.simps) (auto simp: nx_def [symmetric])
    ultimately show ?thesis using Cons.IH [OF _ p(5), of "xs @ [(a, k, f)]"] False unfolding b by simp
  qed
qed

section \<open>The allocator is first fit with coalescing\<close>

lemma allocateMemory_list:
  assumes "pool_list s bs"
  shows "case place (unat count) bs of
      None \<Rightarrow> allocateMemory count s = Some (0, s)
    | Some (q, bs') \<Rightarrow> \<exists>s' r. allocateMemory count s = Some (r, s') \<and> unat r = q \<and> pool_list s' bs'"
  using alloc_from_place [of s 0 "pool_first s" bs count] assms
  by (auto simp: pool_list_def allocateMemory_def split: option.splits)

text \<open>
  C31: the allocator of the user programs is first fit on the list of blocks: it finds the first
  free block that is large enough, splits it when another header fits into what is left, and
  returns the null pointer and changes nothing when there is none.  The loop ends.
\<close>

theorem allocateMemory_first_fit:
  assumes "pool_list s bs"
  shows "case place (unat count) bs of
      None \<Rightarrow> allocateMemory count s = Some (0, s)
    | Some (q, bs') \<Rightarrow> \<exists>s' r. allocateMemory count s = Some (r, s') \<and> unat r = q \<and> pool_list s' bs'"
  using assms by (rule allocateMemory_list)

lemma freeMemory_list:
  assumes "pool_list s bs"
  shows "\<exists>s'. freeMemory block s = Some s' \<and> pool_list s' (release (unat block) [] bs)"
  using free_from_release [of s "pool_first s" "[]" 0 "pool_first s" bs block] assms
  by (auto simp: pool_list_def freeMemory_def)

text \<open>
  C32: freeing the address of a block joins it with all the free blocks around it; freeing any other
  address changes nothing on the list.  The loops end.
\<close>

theorem freeMemory_coalesces:
  assumes "pool_list s bs"
  shows "\<exists>s'. freeMemory block s = Some s' \<and> pool_list s' (release (unat block) [] bs)"
  using assms by (rule freeMemory_list)

section \<open>Reachable pools\<close>

text \<open>What the program has, no two free blocks beside each other, and the order of the blocks.\<close>

definition used_blocks :: "block list \<Rightarrow> (nat \<times> nat) set" where
  "used_blocks bs = {(a, n). (a, n, False) \<in> set bs}"

abbreviation no_free_pair :: "block list \<Rightarrow> bool" where
  "no_free_pair \<equiv> successively (\<lambda>b c. \<not> (block_free b \<and> block_free c))"

abbreviation before :: "block \<Rightarrow> block \<Rightarrow> bool" where
  "before b c \<equiv> fst b + 6 + fst (snd b) \<le> fst c"

inductive user_run :: "user_pool \<Rightarrow> bool" where
  start: "start \<noteq> 0 \<Longrightarrow> unat start + 6 \<le> unat (end' + 1) \<Longrightarrow> user_run (user_malloc_init start end' s)"
| alloc: "user_run s \<Longrightarrow> allocateMemory count s = Some (r, t) \<Longrightarrow> user_run t"
| free: "user_run s \<Longrightarrow> freeMemory r s = Some t \<Longrightarrow> user_run t"

lemma pool_chain_sorted: "pool_chain h pr p e bs \<Longrightarrow> sorted_wrt before bs \<and> (\<forall>b \<in> set bs. unat p \<le> fst b)"
proof (induction bs arbitrary: pr p)
  case (Cons b bs)
  obtain a n f where b: "b = (a, n, f)" by (cases b)
  then have "pool_chain h p (bh_next (h p)) e bs" "unat (bh_next (h p)) = a + 6 + n" "unat p = a" using Cons.prems by simp_all
  then show ?case using Cons.IH [of p "bh_next (h p)"] b by fastforce
qed simp

lemma place_no_free_pair:
  "place n bs = Some (q, bs') \<Longrightarrow> no_free_pair bs \<Longrightarrow> bs \<noteq> [] \<and> bs' \<noteq> [] \<and> no_free_pair bs'
     \<and> (block_free (hd bs') \<longrightarrow> block_free (hd bs))"
proof (induction bs arbitrary: bs')
  case (Cons b bs)
  obtain a k f where b: "b = (a, k, f)" by (cases b)
  show ?case
  proof (cases "f \<and> n \<le> k")
    case True
    then show ?thesis using Cons.prems by (auto simp: b successively_Cons split: if_splits)
  next
    case False
    then obtain cs where cs: "place n bs = Some (q, cs)" "bs' = (a, k, f) # cs" using Cons.prems(1) by (auto simp: b)
    then show ?thesis using Cons.IH [OF cs(1)] Cons.prems(2) by (auto simp: b successively_Cons)
  qed
qed simp

lemma place_used:
  "place n bs = Some (q, bs') \<Longrightarrow> \<exists>k \<ge> n. q \<ge> 6 \<and> used_blocks bs' = insert (q - 6, k) (used_blocks bs)"
proof (induction bs arbitrary: bs')
  case (Cons b bs)
  obtain a k f where b: "b = (a, k, f)" by (cases b)
  show ?case
  proof (cases "f \<and> n \<le> k")
    case True
    then show ?thesis using Cons.prems by (auto simp: b used_blocks_def split: if_splits)
  next
    case False
    then obtain cs where cs: "place n bs = Some (q, cs)" "bs' = (a, k, f) # cs" using Cons.prems(1) by (auto simp: b)
    then show ?thesis using Cons.IH [OF cs(1)] by (auto simp: b used_blocks_def)
  qed
qed simp

lemma coalesce_no_free_pair:
  assumes "no_free_pair xs" and "no_free_pair ys"
  shows "no_free_pair (coalesce xs b ys)"
proof -
  let ?keep = "rev (dropWhile block_free (rev xs))" and ?rest = "dropWhile block_free ys"
  have xs: "xs = ?keep @ rev (takeWhile block_free (rev xs))" by (metis rev_append rev_rev_ident takeWhile_dropWhile_id)
  have "no_free_pair ?keep" "no_free_pair ?rest"
    using assms by (metis xs successively_append_iff, metis takeWhile_dropWhile_id successively_append_iff)
  moreover have "?keep \<noteq> [] \<Longrightarrow> \<not> block_free (last ?keep)" using hd_dropWhile [of block_free "rev xs"] by (simp add: last_rev)
  moreover have "?rest \<noteq> [] \<Longrightarrow> \<not> block_free (hd ?rest)" by (rule hd_dropWhile)
  ultimately show ?thesis unfolding coalesce_def Let_def successively_append_iff successively_Cons by auto
qed

lemma release_no_free_pair: "no_free_pair (xs @ ys) \<Longrightarrow> no_free_pair (release p xs ys)"
proof (induction p xs ys rule: release.induct)
  case (2 p xs a k f ys)
  then show ?case using coalesce_no_free_pair [of xs ys] by (auto simp: successively_append_iff successively_Cons)
qed simp

lemma used_blocks_append [simp]: "used_blocks (xs @ ys) = used_blocks xs \<union> used_blocks ys"
  by (auto simp: used_blocks_def)

lemma used_blocks_free: "used_blocks (dropWhile block_free xs) = used_blocks xs" "used_blocks (rev xs) = used_blocks xs"
  by (induction xs) (auto simp: used_blocks_def)

lemma coalesce_used: "used_blocks (coalesce xs b ys) = used_blocks xs \<union> used_blocks ys"
proof -
  have "used_blocks (b # bs) = used_blocks bs" if "block_free b" for b bs using that by (auto simp: used_blocks_def)
  then show ?thesis by (simp add: coalesce_def Let_def used_blocks_free)
qed

lemma release_used:
  "sorted_wrt before (xs @ ys) \<Longrightarrow> \<forall>b \<in> set xs. fst b + 6 \<noteq> p
    \<Longrightarrow> used_blocks (release p xs ys) = {b \<in> used_blocks (xs @ ys). fst b + 6 \<noteq> p}"
proof (induction p xs ys rule: release.induct)
  case (1 p xs)
  then show ?case by (auto simp: used_blocks_def)
next
  case (2 p xs a k f ys)
  show ?case
  proof (cases "a + 6 = p")
    case True
    have "\<forall>b \<in> set ys. fst b + 6 \<noteq> p" using 2(2) True by (auto simp: sorted_wrt_append)
    then have "used_blocks xs \<union> used_blocks ys = {b \<in> used_blocks (xs @ (a, k, f) # ys). fst b + 6 \<noteq> p}"
      using 2(3) True by (auto simp: used_blocks_def)
    then show ?thesis using True by (simp add: coalesce_used)
  next
    case False
    then show ?thesis using 2 by (auto simp: used_blocks_def)
  qed
qed

lemma release_nonempty: "xs @ ys \<noteq> [] \<Longrightarrow> release p xs ys \<noteq> []"
  by (induction p xs ys rule: release.induct) (auto simp: coalesce_def Let_def)

text \<open>The list of blocks of a pool after its initialisation.\<close>

lemma user_malloc_init_list:
  assumes "start \<noteq> 0" and "unat start + 6 \<le> unat (end' + 1)"
  shows "pool_list (user_malloc_init start end' s) [(unat start, unat (end' + 1) - unat start - 6, True)]"
  using assms by (simp add: user_malloc_init_def Let_def pool_list_def upd_header_def clearMemory_def)

lemma user_run_list: "user_run s \<Longrightarrow> \<exists>bs. pool_list s bs \<and> no_free_pair bs \<and> bs \<noteq> []"
proof (induction rule: user_run.induct)
  case (start start end' s)
  then show ?case using user_malloc_init_list by fastforce
next
  case (alloc s count r t)
  then obtain bs where bs: "pool_list s bs" "no_free_pair bs" "bs \<noteq> []" by blast
  then show ?case using allocateMemory_list [OF bs(1), of count] alloc(2) place_no_free_pair [of "unat count" bs]
    by (auto split: option.splits)
next
  case (free s r t)
  then obtain bs where bs: "pool_list s bs" "no_free_pair bs" "bs \<noteq> []" by blast
  then show ?case using freeMemory_list [OF bs(1), of r] free(2) release_no_free_pair [of "[]" bs] release_nonempty [of "[]" bs]
    by auto
qed

text \<open>
  C33: however a program allocates and frees, also addresses that are no blocks or are free already,
  its pool stays a list of blocks in which no two free blocks lie beside each other; a block that it
  was given is at least as large as it asked for, overlaps no other block, and stays until its address
  is freed; and when nothing is in use, the pool is one free block again.
\<close>

theorem user_heap_invariant:
  assumes "user_run s"
  shows "\<exists>bs. pool_list s bs \<and> sorted_wrt before bs \<and> no_free_pair bs
    \<and> (used_blocks bs = {} \<longrightarrow> length bs = 1)
    \<and> (\<forall>count r t. allocateMemory count s = Some (r, t) \<longrightarrow> r \<noteq> 0 \<longrightarrow>
        (\<exists>cs k. pool_list t cs \<and> unat count \<le> k \<and> used_blocks cs = insert (unat r - 6, k) (used_blocks bs)))
    \<and> (\<forall>r t. freeMemory r s = Some t \<longrightarrow>
        (\<exists>cs. pool_list t cs \<and> used_blocks cs = {b \<in> used_blocks bs. fst b + 6 \<noteq> unat r}))"
proof -
  obtain bs where bs: "pool_list s bs" "no_free_pair bs" "bs \<noteq> []" using user_run_list [OF assms] by blast
  have sorted: "sorted_wrt before bs" using bs(1) pool_chain_sorted by (auto simp: pool_list_def)
  have "length bs = 1" if "used_blocks bs = {}"
  proof (cases bs)
    case (Cons b cs)
    have "\<forall>b \<in> set bs. block_free b" using that by (auto simp: used_blocks_def) (metis (full_types))
    then show ?thesis using bs(2) by (cases cs) (auto simp: Cons)
  qed (use bs(3) in simp)
  moreover have "\<exists>cs k. pool_list t cs \<and> unat count \<le> k \<and> used_blocks cs = insert (unat r - 6, k) (used_blocks bs)"
    if "allocateMemory count s = Some (r, t)" "r \<noteq> 0" for count r t
    using allocateMemory_list [OF bs(1), of count] place_used [of "unat count" bs] that by (fastforce split: option.splits)
  moreover have "\<exists>cs. pool_list t cs \<and> used_blocks cs = {b \<in> used_blocks bs. fst b + 6 \<noteq> unat r}"
    if "freeMemory r s = Some t" for r t
    using freeMemory_list [OF bs(1), of r] release_used [of "[]" bs "unat r"] sorted that by auto
  ultimately show ?thesis using bs sorted by blast
qed

text \<open>The header behind the pool is written when the last block becomes free.\<close>

lemma merge_writes_behind_pool:
  assumes "last_free_from s p = Some (overblock s)" and "first_free_from s p = Some q"
  shows "\<exists>t. mergeFreeBlocks p s = Some t \<and> bh_prev (headers t (overblock s)) = q"
  using assms by (simp add: mergeFreeBlocks_def upd_header_def)

section \<open>Witnesses\<close>

definition small_pool :: user_pool where
  "small_pool = user_malloc_init 0x100 0x1ff
     \<lparr>headers = (\<lambda>_. \<lparr>bh_prev = 0, bh_next = 0, bh_free = False\<rparr>), pool_first = 0, overblock = 0\<rparr>"

lemma small_pool_list: "pool_list small_pool [(0x100, 250, True)]"
  using user_malloc_init_list [of "0x100" "0x1ff"] by (simp add: small_pool_def)

theorem allocateMemory_first_fit_witness:
  "\<exists>s r. allocateMemory 10 small_pool = Some (r, s) \<and> unat r = 0x106
    \<and> pool_list s [(0x100, 10, False), (0x110, 234, True)]"
  using allocateMemory_first_fit [OF small_pool_list, of 10] by simp

theorem freeMemory_coalesces_witness:
  "\<exists>s. freeMemory 0x106 small_pool = Some s \<and> pool_list s [(0x100, 250, True)]"
  using freeMemory_coalesces [OF small_pool_list, of "0x106"] by (simp add: coalesce_def)

theorem user_heap_invariant_witness:
  "\<exists>s r bs. allocateMemory 10 small_pool = Some (r, s) \<and> pool_list s bs \<and> no_free_pair bs"
proof -
  obtain r s where s: "allocateMemory 10 small_pool = Some (r, s)"
    using allocateMemory_list [OF small_pool_list, of 10] by auto
  have "user_run small_pool" unfolding small_pool_def by (rule user_run.start) simp_all
  then have "user_run s" using s by (rule user_run.alloc)
  then show ?thesis using user_heap_invariant [of s] s by blast
qed

end
