(* ===== verification/UserShell.thy ===== *)
theory UserShell
  imports CString
begin

text \<open>
  User programs: the line editor and the command interpreter of \<^verbatim>\<open>init/shell.c\<close> and the copying loop
  of \<^verbatim>\<open>init/type.c\<close>.  The row of the shell is the memory from
  its first byte on, so that an index out of range is an access to other variables.
\<close>

unbundle bit_operations_syntax

section \<open>The line editor of the shell\<close>

record line_state =
  row :: "u16 \<Rightarrow> u8"
  row_size :: u16
  line_ready :: bool
  echo :: "u8 list"

definition ROW_LENGTH :: nat where "ROW_LENGTH = 80"

text \<open>What is done with a character that was read; \<open>printf\<close> shows it.\<close>

definition editor_key :: "u8 \<Rightarrow> line_state \<Rightarrow> line_state" where
  "editor_key c s =
     (if c = 0x0a then s\<lparr>line_ready := True, echo := echo s @ [c]\<rparr>
      else if c = 0x08 then
        s\<lparr>row_size := row_size s - 1, row := (row s)(row_size s - 1 := 0), echo := echo s @ [0x08, 0x20, 0x08]\<rparr>
      else s\<lparr>row := (row s)(row_size s := c, row_size s + 1 := 0), row_size := row_size s + 1, echo := echo s @ [c]\<rparr>)"

text \<open>
  The loop that waits for a line: \<open>Some c\<close> is a read that returned a character, \<open>None\<close> one that
  returned nothing.  The result is \<open>None\<close> while the line is not complete.
\<close>

fun edit_loop :: "u8 option list \<Rightarrow> line_state \<Rightarrow> (line_state \<times> u8 option list) option" where
  "edit_loop [] s = None"
| "edit_loop (None # reads) s = edit_loop reads s"
| "edit_loop (Some c # reads) s =
     (let s = editor_key c s in if line_ready s then Some (s, reads) else edit_loop reads s)"

definition read_line :: "u8 option list \<Rightarrow> line_state \<Rightarrow> (line_state \<times> u8 option list) option" where
  "read_line reads s = edit_loop reads (s\<lparr>line_ready := False, row_size := 0\<rparr>)"

text \<open>The bytes of the row, and the string at an index of it.\<close>

definition row_from :: "(u16 \<Rightarrow> u8) \<Rightarrow> nat \<Rightarrow> u8 list" where
  "row_from r i = map (\<lambda>k. r (of_nat k)) [i..<ROW_LENGTH]"

section \<open>What a user types\<close>

text \<open>The characters that the reads returned.\<close>

fun keys :: "u8 option list \<Rightarrow> u8 list" where
  "keys [] = []"
| "keys (None # reads) = keys reads"
| "keys (Some c # reads) = c # keys reads"

text \<open>The line after some keys: a backspace takes the last character back.\<close>

definition typed :: "u8 list \<Rightarrow> u8 list" where
  "typed cs = foldl (\<lambda>line c. if c = 0x08 then butlast line else line @ [c]) [] cs"

text \<open>No backspace on an empty line, and never more characters than the row holds.\<close>

fun fits_from :: "nat \<Rightarrow> u8 list \<Rightarrow> bool" where
  "fits_from n [] \<longleftrightarrow> True"
| "fits_from n (c # cs) \<longleftrightarrow>
     (if c = 0x08 then 0 < n \<and> fits_from (n - 1) cs else n + 1 < ROW_LENGTH \<and> fits_from (n + 1) cs)"

definition holds_line :: "(u16 \<Rightarrow> u8) \<Rightarrow> u8 list \<Rightarrow> bool" where
  "holds_line r line \<longleftrightarrow> length line < ROW_LENGTH \<and> (\<forall>i < length line. r (of_nat i) = line ! i) \<and> r (of_nat (length line)) = 0"

lemma row_index: "i < 65536 \<Longrightarrow> j < 65536 \<Longrightarrow> (of_nat i :: u16) = of_nat j \<longleftrightarrow> i = j"
  by (simp add: word_unat_eq_iff unat_of_nat take_bit_eq_mod)

lemma cstr_append: "0 \<notin> set line \<Longrightarrow> cstr (line @ 0 # ys) = line"
  by (induction line) (simp_all add: cstr_def)

lemma holds_line_string:
  assumes "holds_line r line" and "0 \<notin> set line"
  shows "cstr (row_from r 0) = line"
proof -
  have "row_from r 0 = line @ 0 # map (\<lambda>k. r (of_nat k)) [Suc (length line)..<ROW_LENGTH]"
    using assms(1) unfolding row_from_def holds_line_def
    by (intro nth_equalityI) (auto simp: nth_append nth_Cons' less_Suc_eq)
  then show ?thesis using assms(2) by (simp add: cstr_append)
qed

text \<open>One key in the row.\<close>

lemma editor_key_append:
  assumes "holds_line (row s) line \<or> line = []" and "row_size s = of_nat (length line)"
    and "length line + 1 < ROW_LENGTH" and "c \<notin> {0x08, 0x0a}"
  shows "holds_line (row (editor_key c s)) (line @ [c]) \<and> row_size (editor_key c s) = of_nat (length (line @ [c]))
    \<and> (\<forall>i. ROW_LENGTH \<le> unat i \<longrightarrow> row (editor_key c s) i = row s i) \<and> line_ready (editor_key c s) = line_ready s"
proof -
  have len: "length line < 79" using assms(3) by (simp add: ROW_LENGTH_def)
  have idx: "(of_nat i :: u16) = of_nat j \<longleftrightarrow> i = j" if "i \<le> 79" "j \<le> 79" for i j using that by (simp add: row_index)
  have unat: "unat (of_nat i :: u16) = i" if "i \<le> 79" for i using that by (simp add: unat_of_nat take_bit_eq_mod)
  have suc: "(1 + of_nat i :: u16) = of_nat (Suc i)" for i by simp
  show ?thesis
    using assms len
    by (auto simp: editor_key_def holds_line_def nth_append idx ROW_LENGTH_def add.commute suc unat simp del: of_nat_Suc)
qed

lemma editor_key_backspace:
  assumes "holds_line (row s) line \<or> line = []" and "row_size s = of_nat (length line)" and "line \<noteq> []"
  shows "holds_line (row (editor_key 0x08 s)) (butlast line) \<and> row_size (editor_key 0x08 s) = of_nat (length (butlast line))
    \<and> (\<forall>i. ROW_LENGTH \<le> unat i \<longrightarrow> row (editor_key 0x08 s) i = row s i) \<and> line_ready (editor_key 0x08 s) = line_ready s"
proof -
  have holds: "holds_line (row s) line" "length line \<le> 79" using assms(1,3) by (auto simp: holds_line_def ROW_LENGTH_def)
  obtain n where n: "length line = Suc n" using assms(3) by (cases line) auto
  have idx: "(of_nat i :: u16) = of_nat j \<longleftrightarrow> i = j" if "i \<le> 79" "j \<le> 79" for i j using that by (simp add: row_index)
  have unat: "unat (of_nat i :: u16) = i" if "i \<le> 79" for i using that by (simp add: unat_of_nat take_bit_eq_mod)
  have "row_size s - 1 = of_nat n" using assms(2) n by simp
  then show ?thesis
    using holds n by (auto simp: editor_key_def holds_line_def nth_butlast idx ROW_LENGTH_def unat)
qed

lemma edit_loop_typed:
  assumes "holds_line (row s) line \<or> line = []" and "row_size s = of_nat (length line)" and "\<not> line_ready s"
    and "fits_from (length line) (keys reads)" and "0x0a \<notin> set (keys reads)"
  shows "\<exists>t. edit_loop (reads @ Some 0x0a # rest) s = Some (t, rest)
    \<and> (\<forall>i. ROW_LENGTH \<le> unat i \<longrightarrow> row t i = row s i)
    \<and> (if keys reads = [] then row t = row s
       else holds_line (row t) (foldl (\<lambda>line c. if c = 0x08 then butlast line else line @ [c]) line (keys reads)))"
  using assms
proof (induction reads arbitrary: s line)
  case Nil
  then show ?case by (simp add: editor_key_def)
next
  case (Cons e reads)
  show ?case
  proof (cases e)
    case None
    have "fits_from (length line) (keys reads)" "0x0a \<notin> set (keys reads)" using Cons.prems(4,5) None by simp_all
    from Cons.IH [OF Cons.prems(1-3) this] show ?thesis unfolding None by (simp only: keys.simps edit_loop.simps append_Cons)
  next
    case (Some c)
    define line' where "line' = (if c = 0x08 then butlast line else line @ [c])"
    have key: "holds_line (row (editor_key c s)) line' \<and> row_size (editor_key c s) = of_nat (length line')
        \<and> (\<forall>i. ROW_LENGTH \<le> unat i \<longrightarrow> row (editor_key c s) i = row s i) \<and> line_ready (editor_key c s) = line_ready s"
    proof (cases "c = 0x08")
      case True
      then have "line \<noteq> []" using Cons.prems(4) Some by auto
      have line': "line' = butlast line" using True by (simp add: line'_def)
      show ?thesis unfolding line' True by (rule editor_key_backspace [OF Cons.prems(1,2) \<open>line \<noteq> []\<close>])
    next
      case False
      then show ?thesis using editor_key_append [OF Cons.prems(1,2), of c] Cons.prems(4,5) Some
        by (simp only: line'_def if_False keys.simps fits_from.simps list.set) auto
    qed
    have "fits_from (length line') (keys reads)" "0x0a \<notin> set (keys reads)"
      using Cons.prems(4,5) Some by (auto simp: line'_def split: if_splits)
    with key Cons.prems(3) obtain t where t: "edit_loop (reads @ Some 0x0a # rest) (editor_key c s) = Some (t, rest)"
        "\<forall>i. ROW_LENGTH \<le> unat i \<longrightarrow> row t i = row (editor_key c s) i"
        "if keys reads = [] then row t = row (editor_key c s)
         else holds_line (row t) (foldl (\<lambda>line c. if c = 0x08 then butlast line else line @ [c]) line' (keys reads))"
      using Cons.IH [of "editor_key c s" line'] by auto
    then have "edit_loop ((e # reads) @ Some 0x0a # rest) s = Some (t, rest)"
      using key Cons.prems(3) Some by (simp add: Let_def)
    moreover have "\<forall>i. ROW_LENGTH \<le> unat i \<longrightarrow> row t i = row s i" using t(2) key by simp
    moreover have "holds_line (row t) (foldl (\<lambda>line c. if c = 0x08 then butlast line else line @ [c]) line (keys (e # reads)))"
      using t(3) key Some by (auto simp: line'_def split: if_splits)
    ultimately show ?thesis using Some by (intro exI [of _ t]) simp
  qed
qed

lemma set_typed: "set (foldl (\<lambda>line c. if c = 0x08 then butlast line else line @ [c]) line cs) \<subseteq> set line \<union> set cs"
proof (induction cs arbitrary: line)
  case (Cons c cs)
  show ?case using Cons [of "if c = 0x08 then butlast line else line @ [c]"] by (auto dest!: in_set_butlastD split: if_splits)
qed simp

lemma typed_line:
  assumes "cs = keys reads" and "cs \<noteq> []" and "fits_from 0 cs" and "0 \<notin> set cs" and "0x0a \<notin> set cs"
  shows "\<exists>t. read_line (reads @ Some 0x0a # rest) s = Some (t, rest) \<and> holds_line (row t) (typed cs) \<and> 0 \<notin> set (typed cs)
    \<and> (\<forall>i. ROW_LENGTH \<le> unat i \<longrightarrow> row t i = row s i)"
proof -
  have "0 \<notin> set (typed cs)" using set_typed [of "[]" cs] assms(4) by (auto simp: typed_def)
  then show ?thesis
    using edit_loop_typed [of "s\<lparr>line_ready := False, row_size := 0\<rparr>" "[]" reads rest] assms
    by (auto simp: read_line_def typed_def)
qed

text \<open>
  The line editor leaves in the row the line that was typed, with the characters taken back by
  backspaces removed, whatever reads without a character come between; it writes nothing behind the
  row, as long as no more is typed than fits and no backspace comes on an empty line.
\<close>

theorem read_line_typed:
  assumes "cs = keys reads" and "cs \<noteq> []" and "fits_from 0 cs" and "0 \<notin> set cs" and "0x0a \<notin> set cs"
  shows "\<exists>t. read_line (reads @ Some 0x0a # rest) s = Some (t, rest) \<and> cstr (row_from (row t) 0) = typed cs
    \<and> (\<forall>i. ROW_LENGTH \<le> unat i \<longrightarrow> row t i = row s i)"
  using typed_line [OF assms, of rest s] holds_line_string by blast

text \<open>An empty line leaves the row alone: the command of the last line is run again.\<close>

lemma empty_line_repeats: "read_line (Some 0x0a # reads) s = Some (t, rest) \<Longrightarrow> row t = row s"
  by (auto simp: read_line_def editor_key_def)

text \<open>A backspace on an empty line writes before the row, and the next character goes there.\<close>

lemma backspace_underflow:
  "row_size s = 0 \<Longrightarrow> row (editor_key 0x08 s) = (row s)(- 1 := 0) \<and> row_size (editor_key 0x08 s) = - 1"
  by (simp add: editor_key_def)

text \<open>The character that fills the row writes the terminator behind it.\<close>

lemma full_row_overflows:
  "row_size s = 79 \<Longrightarrow> c \<notin> {0x08, 0x0a} \<Longrightarrow> row (editor_key c s) 80 = 0"
  by (simp add: editor_key_def)

section \<open>Commands\<close>

text \<open>
  \<open>runCommand\<close> ends the command at the first space; the argument is the index behind it, or the
  literal empty string, here \<open>None\<close>.  The search does not end when there is neither a space nor a
  terminator.
\<close>

partial_function (option) command_end :: "(u16 \<Rightarrow> u8) \<Rightarrow> u16 \<Rightarrow> u16 option" where
  "command_end r i = (if r i \<noteq> 0x20 \<and> r i \<noteq> 0 then command_end r (i + 1) else Some i)"

definition split_command :: "(u16 \<Rightarrow> u8) \<Rightarrow> ((u16 \<Rightarrow> u8) \<times> u16 option) option" where
  "split_command r =
     (case command_end r 0 of
        None \<Rightarrow> None
      | Some i \<Rightarrow> if r i = 0x20 then Some (r(i := 0), Some (i + 1)) else Some (r, None))"

definition arg_string :: "(u16 \<Rightarrow> u8) \<Rightarrow> u16 option \<Rightarrow> u8 list" where
  "arg_string r arg = (case arg of None \<Rightarrow> [] | Some i \<Rightarrow> cstr (row_from r (unat i)))"

text \<open>
  What the shell uses of the system.  \<open>sys_exit\<close> comes back: the kernel only prints the code.
\<close>

record 's shell_calls =
  s_print :: "u8 list \<Rightarrow> ('s, unit) kmon"
  s_close_output :: "('s, unit) kmon"
  s_open_screen :: "('s, unit) kmon"
  s_fork :: "('s, u16) kmon"
  s_exec :: "u8 list \<Rightarrow> u8 list \<Rightarrow> ('s, unit) kmon"
  s_exit :: "u16 \<Rightarrow> ('s, unit) kmon"
  s_wait :: "u16 \<Rightarrow> ('s, unit) kmon"

definition ascii :: "string \<Rightarrow> u8 list" where
  "ascii cs = map (\<lambda>c. of_nat (of_char c)) cs"

definition run_command :: "(u8 \<Rightarrow> int) \<Rightarrow> 's shell_calls \<Rightarrow> u8 list \<Rightarrow> u8 list \<Rightarrow> ('s, u16) kmon" where
  "run_command ci c command arg =
     thenK (s_print c (ascii ''Got command: '' @ [0x22] @ command @ [0x22, 0x20, 0x22] @ arg @ [0x22, 0x0a]))
    (if strcmp ci (ascii ''exit'') command = 0 then retK 0
     else if strcmp ci (ascii ''pause'') command = 0 then retK 1
     else thenK (s_close_output c)
         (bindK (s_fork c) (\<lambda>task_id.
          thenK (if task_id = 0 then thenK (s_exec c command arg) (s_exit c 1)
                 else thenK (s_wait c task_id) (thenK (s_open_screen c) (s_print c (ascii ''Returning to shell...'' @ [0x0a]))))
            (retK 1))))"

definition runCommand :: "(u8 \<Rightarrow> int) \<Rightarrow> 's shell_calls \<Rightarrow> (u16 \<Rightarrow> u8) \<Rightarrow> ('s, u16) kmon" where
  "runCommand ci c r =
     (case split_command r of
        None \<Rightarrow> failK Hang
      | Some (r, arg) \<Rightarrow> run_command ci c (cstr (row_from r 0)) (arg_string r arg))"

lemma command_end_finds:
  assumes "\<forall>k < n. r (i + of_nat k) \<noteq> 0x20 \<and> r (i + of_nat k) \<noteq> 0" and "r (i + of_nat n) = 0x20 \<or> r (i + of_nat n) = 0"
  shows "command_end r i = Some (i + of_nat n)"
  using assms
proof (induction n arbitrary: i)
  case 0
  then show ?case by (subst command_end.simps) auto
next
  case (Suc n)
  have "command_end r i = command_end r (i + 1)"
    using Suc.prems(1) [rule_format, of 0] by (subst command_end.simps) simp
  moreover have "command_end r (i + 1) = Some (i + 1 + of_nat n)"
    using Suc.prems by (intro Suc.IH) (auto simp: add.assoc)
  ultimately show ?case by (simp add: add.assoc)
qed

text \<open>The word before the first space, and what comes after it.\<close>

definition word_of :: "u8 list \<Rightarrow> u8 list" where "word_of line = takeWhile (\<lambda>c. c \<noteq> 0x20) line"
definition rest_of :: "u8 list \<Rightarrow> u8 list" where "rest_of line = drop (Suc (length (word_of line))) line"

lemma cstr_row_from:
  assumes "\<forall>k < length w. r (of_nat (i + k)) = w ! k" and "r (of_nat (i + length w)) = 0"
    and "i + length w < ROW_LENGTH" and "0 \<notin> set w"
  shows "cstr (row_from r i) = w"
proof -
  have "row_from r i = w @ 0 # map (\<lambda>k. r (of_nat k)) [Suc (i + length w)..<ROW_LENGTH]"
    using assms(1-3) unfolding row_from_def
    by (intro nth_equalityI) (auto simp: nth_append nth_Cons' less_Suc_eq simp del: of_nat_add)
  then show ?thesis using assms(4) by (simp add: cstr_append)
qed

lemma split_command_correct:
  assumes "holds_line r line" and "0 \<notin> set line"
  shows "\<exists>r' arg. split_command r = Some (r', arg) \<and> cstr (row_from r' 0) = word_of line \<and> arg_string r' arg = rest_of line"
proof -
  define n where "n = length (word_of line)"
  have len: "length line < 80" and chars: "\<And>i. i < length line \<Longrightarrow> r (of_nat i) = line ! i" and nul: "r (of_nat (length line)) = 0"
    using assms(1) by (auto simp: holds_line_def ROW_LENGTH_def)
  have le: "n \<le> length line" by (simp add: n_def word_of_def length_takeWhile_le)
  have before: "line ! k \<noteq> 0x20 \<and> line ! k \<noteq> 0" if "k < n" for k
    using that le assms(2) takeWhile_nth [of k "\<lambda>c. c \<noteq> 0x20" line] nth_mem [of k line] nth_mem [of k "word_of line"]
    by (auto simp: n_def word_of_def dest: set_takeWhileD)
  have at: "n < length line \<Longrightarrow> line ! n = 0x20"
    using nth_length_takeWhile [of "\<lambda>c. c \<noteq> 0x20" line] by (simp add: n_def word_of_def)
  have word: "word_of line = take n line" unfolding n_def word_of_def by (rule takeWhile_eq_take)
  have "command_end r 0 = Some (0 + of_nat n)"
    using before chars at nul le by (intro command_end_finds) (auto simp: le_less)
  then have found: "command_end r 0 = Some (of_nat n)" by simp
  have idx: "(of_nat i :: u16) = of_nat j \<longleftrightarrow> i = j" if "i < 80" "j < 80" for i j using that by (simp add: row_index)
  show ?thesis
  proof (cases "n < length line")
    case False
    then have "n = length line" using le by simp
    then show ?thesis using found nul holds_line_string [OF assms] word
      by (simp add: split_command_def arg_string_def rest_of_def n_def [symmetric])
  next
    case True
    define r' where "r' = r(of_nat n := 0)"
    have r': "r' (of_nat i) = line ! i" if "i < length line" "i \<noteq> n" for i
      using that chars len True by (simp add: r'_def idx)
    have "split_command r = Some (r', Some (of_nat n + 1))"
      using found chars [OF True] at [OF True] by (simp add: split_command_def r'_def)
    moreover have "cstr (row_from r' 0) = word_of line"
      unfolding word using True assms(2) len r'
      by (intro cstr_row_from) (auto simp: ROW_LENGTH_def r'_def dest: in_set_takeD)
    moreover have "cstr (row_from r' (Suc n)) = rest_of line"
    proof (rule cstr_row_from)
      have "Suc n + length (rest_of line) = length line" using True by (simp add: rest_of_def n_def [symmetric])
      then show "r' (of_nat (Suc n + length (rest_of line))) = 0"
        using True nul len idx [of "length line" n] by (simp only: r'_def fun_upd_def) simp
    qed (use True assms(2) len r' in \<open>auto simp: rest_of_def n_def [symmetric] ROW_LENGTH_def dest: in_set_dropD simp del: of_nat_Suc of_nat_add\<close>)
    moreover have "unat (of_nat n + 1 :: u16) = Suc n"
      using True len by (simp add: unat_of_nat take_bit_eq_mod unat_add16)
    ultimately show ?thesis by (auto simp: arg_string_def)
  qed
qed


text \<open>A child whose program cannot be started does not end: \<open>sys_exit\<close> returns and the child goes on as a shell.\<close>

lemma failed_child_stays:
  assumes "s_print c (ascii ''Got command: '' @ [0x22] @ command @ [0x22, 0x20, 0x22] @ arg @ [0x22, 0x0a]) s = Inr ((), s)"
    and "strcmp ci (ascii ''exit'') command \<noteq> 0" and "strcmp ci (ascii ''pause'') command \<noteq> 0"
    and "s_close_output c s = Inr ((), s1)" and "s_fork c s1 = Inr (0, s2)"
    and "s_exec c command arg s2 = Inr ((), s3)" and "s_exit c 1 s3 = Inr ((), s3)"
  shows "run_command ci c command arg s = Inr (1, s3)"
  using assms by (simp add: run_command_def kernel_simps)

section \<open>Copying a file to the screen\<close>

text \<open>
  The loop of \<^verbatim>\<open>type.c\<close>: \<open>rd\<close> is a read into the buffer, with the bytes that are in it then, its result
  and the next state of the file; the bytes written to the screen are collected.
\<close>

partial_function (option) type_loop :: "('s \<Rightarrow> u8 list \<times> u16 \<times> 's) \<Rightarrow> 's \<Rightarrow> u8 list \<Rightarrow> u8 list option" where
  "type_loop rd s out =
     (let (buf, res, s) = rd s; out = out @ take (unat (res AND 0xfff)) buf in
      if unat (res AND 0xfff) > 0 then type_loop rd s out else Some out)"

definition type_file :: "('s \<Rightarrow> u8 list \<times> u16 \<times> 's) \<Rightarrow> 's \<Rightarrow> u8 list option" where
  "type_file rd s = map_option (\<lambda>out. out @ [0x0a]) (type_loop rd s [])"

text \<open>
  \<open>type\<close> ends and shows the whole file: if every read returns a part of what is left of it, and
  nothing only at its end, the screen receives the contents and a new line.
\<close>

lemma type_loop_copies:
  assumes "\<And>s buf res s'. rd s = (buf, res, s') \<Longrightarrow> unat (res AND 0xfff) \<le> length buf
      \<and> left s = take (unat (res AND 0xfff)) buf @ left s' \<and> (unat (res AND 0xfff) = 0 \<longrightarrow> left s = [])"
  shows "type_loop rd s out = Some (out @ left s)"
proof (induction "length (left s)" arbitrary: s out rule: less_induct)
  case less
  obtain buf res s' where rd: "rd s = (buf, res, s')" by (cases "rd s")
  note read = assms [OF rd]
  show ?case
  proof (cases "unat (res AND 0xfff) = 0")
    case True
    then have "left s = []" using read by blast
    then show ?thesis using True by (subst type_loop.simps) (simp add: rd)
  next
    case False
    then have "length (left s') < length (left s)" using read by (auto simp: min_def)
    from less.hyps [OF this] show ?thesis using False read by (subst type_loop.simps) (simp add: rd)
  qed
qed

theorem type_file_shows:
  assumes "\<And>s buf res s'. rd s = (buf, res, s') \<Longrightarrow> unat (res AND 0xfff) \<le> length buf
      \<and> left s = take (unat (res AND 0xfff)) buf @ left s' \<and> (unat (res AND 0xfff) = 0 \<longrightarrow> left s = [])"
  shows "type_file rd s = Some (left s @ [0x0a])"
  using type_loop_copies [of rd left s "[]", OF assms] by (simp add: type_file_def)

section \<open>Witnesses\<close>

definition fresh_row :: line_state where
  "fresh_row = \<lparr>row = (\<lambda>_. 0xff), row_size = 0x30, line_ready = True, echo = []\<rparr>"

text \<open>A user types \<open>type ab\<close>, takes the last character back, and presses enter.\<close>

definition some_reads :: "u8 option list" where
  "some_reads = [Some 0x74, None, Some 0x79, Some 0x70, Some 0x65, Some 0x20, None, None, Some 0x61, Some 0x62, Some 0x08]"

lemma some_reads_keys: "keys some_reads = [0x74, 0x79, 0x70, 0x65, 0x20, 0x61, 0x62, 0x08]"
  by (simp add: some_reads_def)

lemma some_reads_typed:
  "typed (keys some_reads) = [0x74, 0x79, 0x70, 0x65, 0x20, 0x61]" "fits_from 0 (keys some_reads)"
  by (simp_all add: some_reads_keys typed_def ROW_LENGTH_def)

theorem read_line_typed_witness:
  "\<exists>t. read_line (some_reads @ Some 0x0a # []) fresh_row = Some (t, []) \<and> cstr (row_from (row t) 0) = [0x74, 0x79, 0x70, 0x65, 0x20, 0x61]"
  using read_line_typed [OF refl, of some_reads "[]" fresh_row] some_reads_typed by (auto simp: some_reads_keys)


theorem type_file_shows_witness:
  "type_file (\<lambda>s. (take 2 s, of_nat (length (take 2 s)), drop 2 s)) [0x61, 0x62, 0x63] = Some [0x61, 0x62, 0x63, 0x0a]"
proof -
  have small: "unat (of_nat (length (take 2 s)) AND 0xfff :: u16) = length (take 2 s)" for s :: "u8 list"
  proof -
    have "length (take 2 s) \<in> {0, 1, 2}" by (cases s rule: remdups_adj.cases) auto
    then show ?thesis by auto
  qed
  have "type_file (\<lambda>s. (take 2 s, of_nat (length (take 2 s)), drop 2 s)) s = Some (s @ [0x0a])" for s :: "u8 list"
  proof (rule type_file_shows [where left = "\<lambda>s. s"])
    fix s buf s' :: "u8 list" and res :: u16
    assume "(take 2 s, of_nat (length (take 2 s)), drop 2 s) = (buf, res, s')"
    then have "buf = take 2 s" "unat (res AND 0xfff) = length buf" "s' = drop 2 s" using small [of s] by auto
    then show "unat (res AND 0xfff) \<le> length buf \<and> s = take (unat (res AND 0xfff)) buf @ s' \<and> (unat (res AND 0xfff) = 0 \<longrightarrow> s = [])"
      by (cases s rule: remdups_adj.cases) auto
  qed
  then show ?thesis by simp
qed

end
