(* ===== verification/UserPresent.thy ===== *)
theory UserPresent
  imports UserShell Machine
begin

text \<open>
  The presentation program \<^verbatim>\<open>init/present.c\<close>: it takes the first bytes of a file apart into rows and
  runs a row as a command whenever a key goes forward or back to it.
\<close>

unbundle bit_operations_syntax

section \<open>The rows of a presentation\<close>

text \<open>
  \<open>content\<close> is the array of the file's bytes at the address \<open>base\<close>, and \<open>rows\<close> is the array of pointers
  to the rows, on the stack.  \<open>memsetw\<close> of \<^verbatim>\<open>init/string.h\<close> works on segment \<^verbatim>\<open>0x0050\<close> whatever program
  uses it: \<open>clear_rows\<close> sets words of the kernel to 0, and the pointers stay what was on the stack.
\<close>

definition ROWS :: nat where "ROWS = 100"

definition clear_rows :: "ptr \<Rightarrow> 'z machine_scheme \<Rightarrow> 'z machine_scheme" where
  "clear_rows rows_at = farmemsetw rows_at 0 (of_nat ROWS) 0x0050"

text \<open>\<open>None\<close> is an access behind one of the arrays.\<close>

fun rows_loop :: "ptr \<Rightarrow> nat \<Rightarrow> nat \<Rightarrow> u8 list \<Rightarrow> nat \<Rightarrow> ptr list \<Rightarrow> (u8 list \<times> ptr list) option" where
  "rows_loop base 0 j content i rows = Some (content, rows)"
| "rows_loop base (Suc n) j content i rows =
     (if length content \<le> j then None
      else if content ! j = 0x0a then
        if i < ROWS then rows_loop base n (j + 1) (content[j := 0]) (i + 1) (rows[i := base + of_nat (j + 1)]) else None
      else rows_loop base n (j + 1) content i rows)"

definition present_rows :: "ptr \<Rightarrow> ptr list \<Rightarrow> u16 \<Rightarrow> u8 list \<Rightarrow> (u8 list \<times> ptr list) option" where
  "present_rows base rows res content = rows_loop base (unat (res AND 0xfff)) 0 content 1 (rows[0 := base])"

text \<open>The lines of a text, and where they start.\<close>

fun split_lines :: "u8 list \<Rightarrow> u8 list list" where
  "split_lines [] = [[]]"
| "split_lines (c # cs) =
     (if c = 0x0a then [] # split_lines cs else (c # hd (split_lines cs)) # tl (split_lines cs))"

fun line_starts :: "nat \<Rightarrow> u8 list \<Rightarrow> nat list" where
  "line_starts j [] = []"
| "line_starts j (c # cs) = (if c = 0x0a then (j + 1) # line_starts (j + 1) cs else line_starts (j + 1) cs)"

definition ended :: "u8 list \<Rightarrow> u8 list" where
  "ended cs = map (\<lambda>c. if c = 0x0a then 0 else c) cs"

lemma line_starts_length: "length (line_starts j cs) = length (filter ((=) 0x0a) cs)"
  by (induction cs arbitrary: j) auto

lemma rows_loop_starts:
  assumes "i + length (line_starts (length pre) cs) \<le> ROWS" and "length rows = ROWS"
  shows "rows_loop base (length cs) (length pre) (pre @ cs @ post) i rows
    = Some (pre @ ended cs @ post, take i rows @ map (\<lambda>j. base + of_nat j) (line_starts (length pre) cs)
        @ drop (i + length (line_starts (length pre) cs)) rows)"
  using assms
proof (induction cs arbitrary: pre i rows)
  case Nil
  then show ?case by (simp add: ended_def)
next
  case (Cons c cs)
  define c' where "c' = (if c = 0x0a then 0 else c)"
  have step: "rows_loop base (length (c # cs)) (length pre) (pre @ (c # cs) @ post) i rows
      = rows_loop base (length cs) (length (pre @ [c'])) ((pre @ [c']) @ cs @ post) (if c = 0x0a then i + 1 else i)
          (if c = 0x0a then rows[i := base + of_nat (length pre + 1)] else rows)"
    using Cons.prems by (auto simp: c'_def nth_append list_update_append)
  show ?case
  proof (cases "c = 0x0a")
    case True
    then have "i < ROWS" using Cons.prems(1) by simp
    then show ?thesis
      unfolding step using True Cons.prems Cons.IH [of "i + 1" "pre @ [c']" "rows[i := base + of_nat (length pre + 1)]"]
      by (simp add: c'_def ended_def take_Suc_conv_app_nth)
  next
    case False
    then show ?thesis
      unfolding step using Cons.prems Cons.IH [of i "pre @ [c']" rows] by (simp add: c'_def ended_def)
  qed
qed

lemma line_starts_below: "p \<in> set (line_starts j cs) \<Longrightarrow> p \<le> j + length cs"
proof (induction cs arbitrary: j)
  case (Cons c cs)
  then show ?case by (auto split: if_splits dest!: Cons.IH)
qed simp

lemma split_lines_nonempty: "split_lines cs \<noteq> []"
  by (cases cs) simp_all

lemma line_starts_above: "p \<in> set (line_starts k cs) \<Longrightarrow> k < p"
proof (induction cs arbitrary: k)
  case (Cons c cs)
  then show ?case by (auto split: if_splits dest!: Cons.IH)
qed simp

lemma split_lines_length: "length (split_lines cs) = Suc (length (line_starts j cs))"
proof (induction cs arbitrary: j)
  case (Cons c cs)
  then show ?case using Cons [of "Suc j"] by auto
qed simp

lemma ended_first: "0 \<notin> set cs \<Longrightarrow> cstr (ended cs @ 0 # post) = hd (split_lines cs)"
  by (induction cs) (auto simp: ended_def cstr_def)

lemma ended_rest:
  "0 \<notin> set cs \<Longrightarrow> map (\<lambda>p. cstr (drop (p - j) (ended cs @ 0 # post))) (line_starts j cs) = tl (split_lines cs)"
proof (induction cs arbitrary: j)
  case (Cons c cs)
  let ?rest = "ended cs @ 0 # post"
  have "drop (p - j) (ended (c # cs) @ 0 # post) = drop (p - (j + 1)) ?rest" if "p \<in> set (line_starts (j + 1) cs)" for p
    using line_starts_above [OF that] by (cases "p - j") (simp_all add: ended_def Suc_diff_Suc [symmetric])
  then have "map (\<lambda>p. cstr (drop (p - j) (ended (c # cs) @ 0 # post))) (line_starts (j + 1) cs)
      = map (\<lambda>p. cstr (drop (p - (j + 1)) ?rest)) (line_starts (j + 1) cs)"
    by (intro map_cong) (simp_all only:)
  also have "\<dots> = tl (split_lines cs)" using Cons by (intro Cons.IH) simp
  finally have "map (\<lambda>p. cstr (drop (p - j) (ended (c # cs) @ 0 # post))) (line_starts (j + 1) cs) = tl (split_lines cs)" .
  moreover have "cstr (drop 1 (ended (c # cs) @ 0 # post)) = hd (split_lines cs)"
    using ended_first Cons.prems by (simp add: ended_def)
  ultimately show ?case
    using Cons.prems split_lines_nonempty [of cs] by (auto simp: list.collapse)
qed simp


section \<open>Running the rows\<close>

text \<open>
  \<open>runCommand\<close> ends the command at its first space, in \<open>content\<close> itself; the rest of the row is the
  argument.
\<close>

fun word_end :: "u8 list \<Rightarrow> nat" where
  "word_end [] = 0"
| "word_end (c # cs) = (if c \<noteq> 0x20 \<and> c \<noteq> 0 then Suc (word_end cs) else 0)"

definition present_split :: "nat \<Rightarrow> u8 list \<Rightarrow> u8 list \<times> u8 list \<times> u8 list" where
  "present_split k content =
     (let i = k + word_end (drop k content) in
      if i < length content \<and> content ! i = 0x20
      then (content[i := 0], cstr (drop k (content[i := 0])), cstr (drop (i + 1) content))
      else (content, cstr (drop k content), []))"

definition present_command :: "(u8 \<Rightarrow> int) \<Rightarrow> 's shell_calls \<Rightarrow> u8 list \<Rightarrow> u8 list \<Rightarrow> ('s, u16) kmon" where
  "present_command ci c command arg =
     thenK (s_print c (ascii ''Got command: '' @ [0x22] @ command @ [0x22, 0x20, 0x22] @ arg @ [0x22, 0x0a]))
    (if strcmp ci (ascii ''exit'') command = 0 then retK 0
     else thenK (s_close_output c)
         (bindK (s_fork c) (\<lambda>task_id.
          thenK (if task_id = 0 then thenK (s_exec c command arg) (s_exit c 1)
                 else thenK (s_wait c task_id) (s_open_screen c))
            (retK 1))))"

definition present_run :: "(u8 \<Rightarrow> int) \<Rightarrow> 's shell_calls \<Rightarrow> nat \<Rightarrow> u8 list \<Rightarrow> ('s, u8 list) kmon" where
  "present_run ci c k content =
     (case present_split k content of (content, command, arg) \<Rightarrow>
        thenK (present_command ci c command arg) (retK content))"

text \<open>The keys that go forward and back.\<close>

definition present_key :: "ptr list \<Rightarrow> u8 \<Rightarrow> nat \<Rightarrow> nat" where
  "present_key rows c i =
     (if c = of_nat (of_char CHR ''n'') then if rows ! (i + 1) \<noteq> 0 then i + 1 else i
      else if c = of_nat (of_char CHR ''p'') then if i > 0 then i - 1 else i
      else i)"

text \<open>
  The loop over the keys, which never ends: \<open>reads\<close> are the results of the first reads, with
  \<open>None\<close> for a read without a key.  The result is the row shown after them.
\<close>

fun present_loop ::
  "(u8 \<Rightarrow> int) \<Rightarrow> 's shell_calls \<Rightarrow> ptr \<Rightarrow> ptr list \<Rightarrow> u8 option list \<Rightarrow> nat \<Rightarrow> u8 list \<Rightarrow> ('s, nat \<times> u8 list) kmon" where
  "present_loop ci c base rows [] i content = retK (i, content)"
| "present_loop ci c base rows (None # reads) i content = present_loop ci c base rows reads i content"
| "present_loop ci c base rows (Some key # reads) i content =
     (let i' = present_key rows key i in
      if i' = i then present_loop ci c base rows reads i content
      else bindK (present_run ci c (unat (rows ! i' - base)) content) (present_loop ci c base rows reads i'))"

text \<open>The program once the file is read: \<open>rows\<close> is what is on the stack, \<open>res\<close> the result of the read.\<close>

definition present_main ::
  "(u8 \<Rightarrow> int) \<Rightarrow> 's shell_calls \<Rightarrow> ptr \<Rightarrow> ptr list \<Rightarrow> u16 \<Rightarrow> u8 list \<Rightarrow> u8 option list \<Rightarrow> ('s, nat \<times> u8 list) kmon" where
  "present_main ci c base rows res content reads =
     (case present_rows base rows res content of
        None \<Rightarrow> failK Hang
      | Some (content, rows) \<Rightarrow>
          bindK (present_run ci c (unat (rows ! 0 - base)) content) (present_loop ci c base rows reads 0))"

text \<open>
  The presentation stays on the rows of the file as long as the pointer behind them happens to be
  null, whatever keys are pressed.
\<close>

theorem present_loop_stays:
  assumes "\<And>i. i < n \<Longrightarrow> rows ! i \<noteq> 0" and "rows ! n = 0" and "i < n"
    and "present_loop ci c base rows reads i content s = Inr ((i', content'), t)"
  shows "i' < n"
  using assms(3,4)
proof (induction reads arbitrary: i content s)
  case (Cons r reads)
  have key: "present_key rows k i < n" for k
    using assms(2) Cons.prems(1) by (cases "i + 1 = n") (auto simp: present_key_def)
  show ?case
  proof (cases r)
    case None
    then show ?thesis using Cons by simp
  next
    case (Some k)
    then show ?thesis
      using Cons.prems Cons.IH [OF key] Cons.IH [OF Cons.prems(1)] by (auto simp: Let_def split: if_splits)
  qed
qed (simp add: kernel_simps)

text \<open>A row that was run before has lost its argument.\<close>

lemma word_end_stop: "word_end cs < length cs \<Longrightarrow> cs ! word_end cs = 0x20 \<or> cs ! word_end cs = 0"
  by (induction cs) auto

lemma word_end_update: "word_end (cs[word_end cs := 0]) = word_end cs"
  by (induction cs) auto

lemma present_split_again:
  assumes "present_split k content = (content', command, arg)"
  shows "present_split k content' = (content', command, [])"
proof (cases "k \<le> length content")
  case True
  let ?i = "k + word_end (drop k content)"
  have "drop k (content[?i := 0]) = (drop k content)[word_end (drop k content) := 0]" using True by (simp add: drop_update_swap)
  then have "word_end (drop k (content[?i := 0])) = word_end (drop k content)" by (simp only: word_end_update)
  then show ?thesis using assms by (auto simp: present_split_def Let_def split: if_splits)
next
  case False
  then show ?thesis using assms by (simp add: present_split_def)
qed

section \<open>Witnesses\<close>


text \<open>Calls that all come back: the loop does, too.\<close>

definition some_calls :: "unit shell_calls" where
  "some_calls = \<lparr>s_print = \<lambda>_. retK (), s_close_output = retK (), s_open_screen = retK (), s_fork = retK 5,
     s_exec = \<lambda>_ _. retK (), s_exit = \<lambda>_. retK (), s_wait = \<lambda>_. retK ()\<rparr>"

lemma some_calls_loop: "\<exists>i' content'. present_loop ci some_calls base rows reads i content () = Inr ((i', content'), ())"
proof (induction reads arbitrary: i content)
  case (Cons r reads)
  have "\<exists>content'. present_run ci some_calls k content () = Inr (content', ())" for k
    by (auto simp: present_run_def present_command_def some_calls_def kernel_simps split: prod.split)
  then have "\<exists>i' content'. bindK (present_run ci some_calls k content) (present_loop ci some_calls base rows reads j) () = Inr ((i', content'), ())"
    for k j using Cons.IH by (metis bindK_Inr)
  then show ?case using Cons.IH by (cases r) (auto simp: Let_def)
qed (simp add: kernel_simps)

theorem present_loop_stays_witness:
  "\<exists>i content. present_loop sint some_calls 0x400 [0x400, 0x402, 0x404, 0] [Some 0x6e, None, Some 0x6e, Some 0x6e] 0 [0x61, 0, 0x62, 0, 0x63, 0] ()
     = Inr ((i, content), ()) \<and> i < 3"
proof -
  obtain i content where run: "present_loop sint some_calls 0x400 [0x400, 0x402, 0x404, 0] [Some 0x6e, None, Some 0x6e, Some 0x6e] 0
      [0x61, 0, 0x62, 0, 0x63, 0] () = Inr ((i, content), ())" using some_calls_loop by blast
  have "([0x400, 0x402, 0x404, 0] :: ptr list) ! i \<noteq> 0" if "i < 3" for i
    using that by (auto simp: less_Suc_eq numeral_3_eq_3)
  from present_loop_stays [OF this _ _ run] show ?thesis using run by simp
qed

end
