(* ===== verification/UserLib.thy ===== *)
theory UserLib
  imports UserRead UserHeap UserPresent
begin

text \<open>
  The library of the user programs above the system calls: files (\<^verbatim>\<open>init/io.c\<close>), the memory functions
  of \<^verbatim>\<open>init/string.c\<close>, formatted output (\<^verbatim>\<open>init/printf.c\<close>), the start of a program (\<^verbatim>\<open>init/crt0.c\<close>) and
  the first program (\<^verbatim>\<open>init/init.c\<close>).  A program is its registers, its pool, its objects and the kernel.
\<close>

unbundle bit_operations_syntax

section \<open>The memory functions\<close>

definition user_farmemcpy :: "u16 \<Rightarrow> u16 \<Rightarrow> u16 \<Rightarrow> u16 \<Rightarrow> u16 \<Rightarrow> 'z machine_scheme \<Rightarrow> 'z machine_scheme" where
  "user_farmemcpy dest src count destseg srcseg s = s\<lparr>mem := movsb (unat count) dest src destseg srcseg (mem s)\<rparr>"

definition user_memcpy :: "u16 \<Rightarrow> u16 \<Rightarrow> u16 \<Rightarrow> 'z machine_scheme \<Rightarrow> 'z machine_scheme" where
  "user_memcpy dest src count = user_farmemcpy dest src count 0x0050 0x0050"

definition user_farmemset :: "u16 \<Rightarrow> u16 \<Rightarrow> u16 \<Rightarrow> u16 \<Rightarrow> 'z machine_scheme \<Rightarrow> 'z machine_scheme" where
  "user_farmemset dest val count seg s = s\<lparr>mem := stosb (unat count) dest (lo8 val) seg (mem s)\<rparr>"

definition user_memset :: "u16 \<Rightarrow> u16 \<Rightarrow> u16 \<Rightarrow> 'z machine_scheme \<Rightarrow> 'z machine_scheme" where
  "user_memset dest val count = user_farmemset dest val count 0x0050"

definition user_farmemsetw :: "u16 \<Rightarrow> u16 \<Rightarrow> u16 \<Rightarrow> u16 \<Rightarrow> 'z machine_scheme \<Rightarrow> 'z machine_scheme" where
  "user_farmemsetw dest val count seg s = s\<lparr>mem := stosw (unat count) dest val seg (mem s)\<rparr>"

text \<open>
  \<open>memcpy\<close> and \<open>memset\<close> work on the segment of the kernel: a program that uses them finds its own memory as it was.
\<close>

lemma user_memory_functions_miss:
  assumes "outside_kernel a"
  shows "mem (user_memcpy dest src count s) a = mem s a" and "mem (user_memset dest val count s) a = mem s a"
  using assms stosb_outside [of a "0x0050"]
  by (simp_all add: user_memcpy_def user_farmemcpy_def user_memset_def user_farmemset_def outside_kernel_def [of a])

lemma user_memset_in_kernel: "bytes_at 0x0050 dest (unat count) (mem (user_memset dest val count s)) = replicate (unat count) (lo8 val)"
proof (rule nth_equalityI)
  fix i assume "i < length (bytes_at 0x0050 dest (unat count) (mem (user_memset dest val count s)))"
  then have i: "i < unat count" by (simp add: bytes_at_def)
  then have "unat (of_nat i :: u16) = i" using unat_lt_65536 [of count] by (intro unat_of_nat_16) linarith
  then show "bytes_at 0x0050 dest (unat count) (mem (user_memset dest val count s)) ! i = replicate (unat count) (lo8 val) ! i"
    using i by (simp add: user_memset_def user_farmemset_def bytes_at_def stosb_at)
qed (simp add: bytes_at_def)

section \<open>A program\<close>

text \<open>
  \<open>p_files\<close> are the \<open>FileHandle\<close> objects by their address, \<open>p_input\<close> and \<open>p_output\<close> the global
  variables.  Where the library calls a function of \<^verbatim>\<open>init/sys.c\<close>, the registers are \<open>p_cpu\<close>, and
  \<open>pushed\<close> gives what the interrupt of that call pushes.
\<close>

record 'k program =
  p_cpu :: cpu
  p_pool :: user_pool
  p_files :: "ptr \<Rightarrow> u16 option"
  p_input :: ptr
  p_output :: ptr
  p_kernel :: 'k

definition usys :: "(cpu \<Rightarrow> ('k, cpu) kmon) \<Rightarrow> ('k program, u16) kmon" where
  "usys f p = (case f (p_cpu p) (p_kernel p) of
       Inl e \<Rightarrow> Inl e
     | Inr (c, k) \<Rightarrow> Inr (r_ax c, p\<lparr>p_cpu := c, p_kernel := k\<rparr>))"

definition pool_alloc :: "u16 \<Rightarrow> ('k program, ptr) kmon" where
  "pool_alloc n p = (case allocateMemory n (p_pool p) of None \<Rightarrow> Inl Hang | Some (r, q) \<Rightarrow> Inr (r, p\<lparr>p_pool := q\<rparr>))"

definition pool_free :: "ptr \<Rightarrow> ('k program, unit) kmon" where
  "pool_free b p = (case freeMemory b (p_pool p) of None \<Rightarrow> Inl Hang | Some q \<Rightarrow> Inr ((), p\<lparr>p_pool := q\<rparr>))"

section \<open>Files\<close>

type_synonym 'k gate = "u16 \<Rightarrow> u16 \<Rightarrow> ('k, unit) kmon"

definition SIZEOF_USER_FILE :: u16 where "SIZEOF_USER_FILE = 2"

definition openFile ::
  "('z irqs_scheme) gate \<Rightarrow> (u16 \<Rightarrow> u16 list) \<Rightarrow> ptr \<Rightarrow> u16 \<Rightarrow> (('z irqs_scheme) program, ptr) kmon" where
  "openFile call pushed path mode =
     bindK (usys (user_sys_open_file path mode call (pushed 1))) (\<lambda>h.
       if h = 0 then retK 0
       else bindK (pool_alloc SIZEOF_USER_FILE) (\<lambda>handle.
         if handle = 0 then thenK (usys (user_sys_exit 0x5000 call (pushed 0))) (retK 0)
         else thenK (modifyK (\<lambda>p. p\<lparr>p_files := (p_files p)(handle \<mapsto> h)\<rparr>)) (retK handle)))"

definition closeFile ::
  "('z irqs_scheme) gate \<Rightarrow> (u16 \<Rightarrow> u16 list) \<Rightarrow> ptr \<Rightarrow> (('z irqs_scheme) program, unit) kmon" where
  "closeFile call pushed handle =
     bindK (lookupK p_files handle) (\<lambda>h.
     thenK (usys (user_sys_close_file h call (pushed 2))) (pool_free handle))"

definition readFile ::
  "('z irqs_scheme) gate \<Rightarrow> (u16 \<Rightarrow> u16 list) \<Rightarrow> ptr \<Rightarrow> ptr \<Rightarrow> u16 \<Rightarrow> (('z irqs_scheme) program, u16) kmon" where
  "readFile call pushed handle buffer count =
     bindK (lookupK p_files handle) (\<lambda>h. usys (user_sys_read_file h buffer count call (pushed 3)))"

definition seekFile ::
  "('z irqs_scheme) gate \<Rightarrow> (u16 \<Rightarrow> u16 list) \<Rightarrow> ptr \<Rightarrow> ptr \<Rightarrow> (('z irqs_scheme) program, u16) kmon" where
  "seekFile call pushed handle position =
     bindK (lookupK p_files handle) (\<lambda>h. usys (user_sys_seek h position call (pushed 5)))"

definition writeFile ::
  "('z irqs_scheme) gate \<Rightarrow> (u16 \<Rightarrow> u16 list) \<Rightarrow> ptr \<Rightarrow> ptr \<Rightarrow> u16 \<Rightarrow> (('z irqs_scheme) program, u16) kmon" where
  "writeFile call pushed handle buffer count =
     bindK (lookupK p_files handle) (\<lambda>h. usys (user_sys_write_file h buffer count call (pushed 4)))"

section \<open>Formatted output\<close>

text \<open>
  \<open>putch\<close> writes its parameter, a byte of the stack at the address \<open>at\<close> in the segment \<open>seg\<close>.
  \<open>vprintf\<close> is the same code as in the kernel.
\<close>

definition user_putch ::
  "('z irqs_scheme) gate \<Rightarrow> (u16 \<Rightarrow> u16 list) \<Rightarrow> u16 \<Rightarrow> ptr \<Rightarrow> u8 \<Rightarrow> (('z irqs_scheme) program, unit) kmon" where
  "user_putch call pushed seg at c =
     thenK (modifyK (\<lambda>p. p\<lparr>p_kernel := poke seg at c (p_kernel p)\<rparr>))
    (bindK (getK p_output) (\<lambda>output.
       if output \<noteq> 0 then thenK (writeFile call pushed output at 1) (retK ()) else retK ()))"

fun put_all :: "(u8 \<Rightarrow> ('s, unit) kmon) \<Rightarrow> u8 list \<Rightarrow> ('s, unit) kmon" where
  "put_all put [] = retK ()"
| "put_all put (c # cs) = thenK (put c) (put_all put cs)"

definition user_printf ::
  "('z irqs_scheme) gate \<Rightarrow> (u16 \<Rightarrow> u16 list) \<Rightarrow> u16 \<Rightarrow> ptr \<Rightarrow> (u16 \<Rightarrow> u8 list) \<Rightarrow> (u16 \<Rightarrow> u8) \<Rightarrow> u16 \<Rightarrow> u8 list
     \<Rightarrow> (('z irqs_scheme) program, unit) kmon" where
  "user_printf call pushed seg at str_at args ap fmt = put_all (user_putch call pushed seg at) (vprintf str_at args ap fmt)"

section \<open>Programs\<close>

text \<open>
  \<open>main\<close> of \<^verbatim>\<open>init/crt0.c\<close>: \<open>lit\<close> gives the address of a literal of the program, \<open>end'\<close> that of its
  end; a program without its devices stops in a loop, and so does one that has come to its end.
\<close>

definition READ :: u16 where "READ = 1"
definition WRITE :: u16 where "WRITE = 2"

definition crt0_main ::
  "('z irqs_scheme) gate \<Rightarrow> (u16 \<Rightarrow> u16 list) \<Rightarrow> (string \<Rightarrow> ptr) \<Rightarrow> ptr \<Rightarrow> ptr \<Rightarrow> (ptr \<Rightarrow> (('z irqs_scheme) program, u16) kmon)
     \<Rightarrow> (('z irqs_scheme) program, unit) kmon" where
  "crt0_main call pushed lit end' list rmmtosMain =
     thenK (modifyK (\<lambda>p. p\<lparr>p_pool := user_malloc_init end' 0xfdff (p_pool p)\<rparr>))
    (bindK (openFile call pushed (lit ''/devices/screen'') WRITE) (\<lambda>output.
     thenK (modifyK (\<lambda>p. p\<lparr>p_output := output\<rparr>))
    (bindK (openFile call pushed (lit ''/devices/keyboard'') READ) (\<lambda>input.
     thenK (modifyK (\<lambda>p. p\<lparr>p_input := input\<rparr>))
    (if output = 0 \<or> input = 0 then thenK (usys (user_sys_exit 255 call (pushed 0))) (failK Hang)
     else bindK (rmmtosMain list) (\<lambda>r. thenK (usys (user_sys_exit r call (pushed 0))) (failK Hang)))))))"

text \<open>\<open>main\<close> of \<^verbatim>\<open>init/init.c\<close>; \<open>sys_exec\<close> gets one argument of two, the other one is on the stack.\<close>

definition printstr ::
  "('z irqs_scheme) gate \<Rightarrow> (u16 \<Rightarrow> u16 list) \<Rightarrow> (string \<Rightarrow> ptr) \<Rightarrow> ptr \<Rightarrow> string \<Rightarrow> (('z irqs_scheme) program, u16) kmon" where
  "printstr call pushed lit f str = writeFile call pushed f (lit str) (strlen (ascii str))"

definition init_main ::
  "('z irqs_scheme) gate \<Rightarrow> (u16 \<Rightarrow> u16 list) \<Rightarrow> (string \<Rightarrow> ptr) \<Rightarrow> ptr \<Rightarrow> ptr \<Rightarrow> (('z irqs_scheme) program, u16) kmon" where
  "init_main call pushed lit end' stacked =
     thenK (modifyK (\<lambda>p. p\<lparr>p_pool := user_malloc_init end' 0xfdff (p_pool p)\<rparr>))
    (bindK (openFile call pushed (lit ''/devices/screen'') WRITE) (\<lambda>screen.
     thenK (printstr call pushed lit screen (''Mounting drives...'' @ [CHR 0x0a]))
    (thenK (usys (user_sys_mount (lit ''/floppy'') (lit ''fat'') (lit ''/devices/floppy0'') call (pushed 7)))
    (thenK (printstr call pushed lit screen (''Executing shell...'' @ [CHR 0x0a]))
    (thenK (closeFile call pushed screen)
    (thenK (usys (user_sys_exec (lit ''/floppy/shell.bin'') stacked call (pushed 10)))
           (usys (user_sys_exit 1 call (pushed 0)))))))))"

text \<open>
  \<open>printbuf\<close> writes a buffer in lines of 64 characters, with a dot for each control character.  Its
  array is on the stack, at \<open>buf\<close> in the segment \<open>seg\<close> of the program, and the literal of a line feed
  at \<open>nl\<close>; what is left of the array after the last line is written too.
\<close>

fun printbuf_loop ::
  "bool \<Rightarrow> ('z irqs_scheme) gate \<Rightarrow> (u16 \<Rightarrow> u16 list) \<Rightarrow> u16 \<Rightarrow> ptr \<Rightarrow> ptr \<Rightarrow> ptr \<Rightarrow> ptr \<Rightarrow> nat list
     \<Rightarrow> (('z irqs_scheme) program, unit) kmon" where
  "printbuf_loop is_signed call pushed seg f buf nl buffer [] = retK ()"
| "printbuf_loop is_signed call pushed seg f buf nl buffer (i # is) =
     thenK (if i mod 64 = 0 \<and> i \<noteq> 0
        then thenK (writeFile call pushed f buf 64) (thenK (writeFile call pushed f nl 1) (retK ())) else retK ())
    (thenK (modifyK (\<lambda>p. let c = peek seg (buffer + of_nat i) (p_kernel p);
          d = (if char_int is_signed c \<ge> 0x20 then c else 0x2e)
        in p\<lparr>p_kernel := poke seg (buf + of_nat (i mod 64)) d (p_kernel p)\<rparr>))
     (printbuf_loop is_signed call pushed seg f buf nl buffer is))"

definition printbuf ::
  "bool \<Rightarrow> ('z irqs_scheme) gate \<Rightarrow> (u16 \<Rightarrow> u16 list) \<Rightarrow> u16 \<Rightarrow> ptr \<Rightarrow> ptr \<Rightarrow> ptr \<Rightarrow> ptr \<Rightarrow> u16
     \<Rightarrow> (('z irqs_scheme) program, unit) kmon" where
  "printbuf is_signed call pushed seg f buf nl buffer n =
     thenK (printbuf_loop is_signed call pushed seg f buf nl buffer [0..<unat n])
    (thenK (writeFile call pushed f buf 64) (thenK (writeFile call pushed f nl 1) (retK ())))"

text \<open>The programs of \<^verbatim>\<open>init/hello.c\<close>, \<^verbatim>\<open>init/showmem.c\<close> and \<^verbatim>\<open>init/showtree.c\<close>.\<close>

definition hello_main ::
  "('z irqs_scheme) gate \<Rightarrow> (u16 \<Rightarrow> u16 list) \<Rightarrow> u16 \<Rightarrow> ptr \<Rightarrow> (u16 \<Rightarrow> u8 list) \<Rightarrow> (u16 \<Rightarrow> u8) \<Rightarrow> u16
     \<Rightarrow> (('z irqs_scheme) program, u16) kmon" where
  "hello_main call pushed seg at str_at args ap =
     thenK (user_printf call pushed seg at str_at args ap (ascii (''Hello world!'' @ [CHR 0x0a]))) (retK 0)"

definition showmem_main ::
  "('z irqs_scheme) gate \<Rightarrow> (u16 \<Rightarrow> u16 list) \<Rightarrow> (('z irqs_scheme) program, u16) kmon" where
  "showmem_main call pushed = thenK (usys (user_sys_remove call (pushed 6))) (retK 0)"

definition showtree_main ::
  "('z irqs_scheme) gate \<Rightarrow> (u16 \<Rightarrow> u16 list) \<Rightarrow> (('z irqs_scheme) program, u16) kmon" where
  "showtree_main call pushed = thenK (usys (user_sys_unmount call (pushed 8))) (retK 0)"

section \<open>Opening and closing\<close>

text \<open>Giving back the block that was placed last restores the list of blocks.\<close>

lemma bytes_of_free: "takeWhile block_free ys = [] \<Longrightarrow> dropWhile block_free ys = ys"
  by (cases ys) auto

lemma place_address: "place n bs = Some (q, bs') \<Longrightarrow> \<exists>b \<in> set bs. fst b + 6 = q"
  by (induction bs arbitrary: bs') (auto split: if_splits)

lemma release_place:
  assumes "place n bs = Some (q, bs')" and "no_free_pair (xs @ bs)" and "sorted_wrt before bs"
  shows "release q xs bs' = xs @ bs"
  using assms
proof (induction bs arbitrary: xs bs')
  case (Cons b bs)
  obtain a k f where b: "b = (a, k, f)" by (cases b)
  show ?case
  proof (cases "f \<and> n \<le> k")
    case True
    have left: "takeWhile block_free (rev xs) = []" and right: "takeWhile block_free bs = []"
      using Cons.prems(2) True by (auto simp: b successively_append_iff successively_Cons takeWhile_eq_Nil_iff hd_rev)
    have drop: "rev (dropWhile block_free (rev xs)) = xs" "dropWhile block_free bs = bs"
      using left right bytes_of_free by (metis rev_rev_ident, metis)
    show ?thesis
      using Cons.prems(1) True left right drop by (auto simp: b coalesce_def Let_def split: if_splits)
  next
    case False
    then obtain cs where cs: "place n bs = Some (q, cs)" "bs' = (a, k, f) # cs" using Cons.prems(1) by (auto simp: b)
    moreover have "a + 6 \<noteq> q" using place_address [OF cs(1)] Cons.prems(3) by (auto simp: b)
    ultimately show ?thesis using Cons.IH [of cs "xs @ [(a, k, f)]"] Cons.prems(2,3) by (simp add: b)
  qed
qed simp

text \<open>
  A file that is opened and closed: the kernel is asked to close the handle that it gave, and the
  pool is as it was before.
\<close>

lemma pool_allocs:
  assumes "pool_list (p_pool p) bs"
  shows "case place (unat n) bs of
      None \<Rightarrow> pool_alloc n p = Inr (0, p)
    | Some (q, bs') \<Rightarrow> \<exists>r u. pool_alloc n p = Inr (r, p\<lparr>p_pool := u\<rparr>) \<and> unat r = q \<and> r \<noteq> 0 \<and> pool_list u bs'"
  using allocateMemory_list [OF assms, of n] place_used [of "unat n" bs]
  by (fastforce simp: pool_alloc_def split: option.splits)

lemma open_cases:
  assumes run: "openFile call pushed path mode p = Inr (fh, p')" and pool: "pool_list (p_pool p) bs"
  obtains (refused) c k where "user_sys_open_file path mode call (pushed 1) (p_cpu p) (p_kernel p) = Inr (c, k)"
      "r_ax c = 0" "fh = 0" "p' = p\<lparr>p_cpu := c, p_kernel := k\<rparr>"
    | (full) c k c' k' where "user_sys_open_file path mode call (pushed 1) (p_cpu p) (p_kernel p) = Inr (c, k)"
      "r_ax c \<noteq> 0" "place 2 bs = None" "user_sys_exit 0x5000 call (pushed 0) c k = Inr (c', k')"
      "fh = 0" "p' = p\<lparr>p_cpu := c', p_kernel := k'\<rparr>"
    | (opened) c k u bs' where "user_sys_open_file path mode call (pushed 1) (p_cpu p) (p_kernel p) = Inr (c, k)"
      "r_ax c \<noteq> 0" "place 2 bs = Some (unat fh, bs')" "fh \<noteq> 0" "pool_list u bs'"
      "p' = p\<lparr>p_cpu := c, p_kernel := k, p_pool := u, p_files := (p_files p)(fh \<mapsto> r_ax c)\<rparr>"
proof -
  have "unat SIZEOF_USER_FILE = 2" by (simp add: SIZEOF_USER_FILE_def)
  obtain c k where sys: "user_sys_open_file path mode call (pushed 1) (p_cpu p) (p_kernel p) = Inr (c, k)"
    using run by (auto simp: openFile_def bindK_eq_Inr usys_def split: sum.splits)
  let ?p = "p\<lparr>p_cpu := c, p_kernel := k\<rparr>"
  note alloc = pool_allocs [of ?p bs SIZEOF_USER_FILE, unfolded \<open>unat SIZEOF_USER_FILE = 2\<close>]
  show thesis
  proof (cases "r_ax c = 0")
    case True
    then show thesis using run sys by (intro refused) (auto simp: openFile_def kernel_simps usys_def)
  next
    case h: False
    show thesis
    proof (cases "place 2 bs")
      case None
      then obtain c' k' where "user_sys_exit 0x5000 call (pushed 0) c k = Inr (c', k')"
        using run sys h alloc pool by (auto simp: openFile_def kernel_simps usys_def thenK_eq_Inr split: sum.splits)
      then show thesis using run sys h alloc pool None
        by (intro full [of c k c' k']) (auto simp: openFile_def kernel_simps usys_def)
    next
      case (Some v)
      then obtain q bs' where v: "place 2 bs = Some (q, bs')" by (cases v) auto
      then obtain r u where "pool_alloc SIZEOF_USER_FILE ?p = Inr (r, ?p\<lparr>p_pool := u\<rparr>)" "unat r = q" "r \<noteq> 0" "pool_list u bs'"
        using alloc pool by auto
      then show thesis using run sys h v
        by (intro opened [of c k bs' u]) (auto simp: openFile_def kernel_simps usys_def)
    qed
  qed
qed

section \<open>Programs with files\<close>

text \<open>
  What a program does with its library: \<open>F\<close> are the files that it has open, with the handle that the
  kernel gave for each, and \<open>G\<close> the other blocks that it has.
\<close>

inductive io_run ::
  "('z irqs_scheme) gate \<Rightarrow> (u16 \<Rightarrow> u16 list) \<Rightarrow> ('z irqs_scheme) program \<Rightarrow> (ptr \<Rightarrow> u16 option) \<Rightarrow> ptr set \<Rightarrow> bool"
  for call pushed where
  start: "end' \<noteq> 0 \<Longrightarrow> unat end' + 6 \<le> unat (bound + 1)
    \<Longrightarrow> io_run call pushed (p\<lparr>p_pool := user_malloc_init end' bound q\<rparr>) (\<lambda>_. None) {}"
| opens: "io_run call pushed p F G \<Longrightarrow> user_sys_open_file path mode call (pushed 1) (p_cpu p) (p_kernel p) = Inr (c, k)
    \<Longrightarrow> openFile call pushed path mode p = Inr (fh, p')
    \<Longrightarrow> io_run call pushed p' (if fh = 0 then F else F(fh \<mapsto> r_ax c)) G"
| closes: "io_run call pushed p F G \<Longrightarrow> F fh \<noteq> None \<Longrightarrow> closeFile call pushed fh p = Inr (u, p')
    \<Longrightarrow> io_run call pushed p' (F(fh := None)) G"
| uses: "io_run call pushed p F G \<Longrightarrow> F fh \<noteq> None
    \<Longrightarrow> oper \<in> {readFile call pushed fh buffer n, writeFile call pushed fh buffer n, seekFile call pushed fh buffer}
    \<Longrightarrow> oper p = Inr (r, p') \<Longrightarrow> io_run call pushed p' F G"
| allocs: "io_run call pushed p F G \<Longrightarrow> pool_alloc n p = Inr (r, p')
    \<Longrightarrow> io_run call pushed p' F (if r = 0 then G else insert r G)"
| frees: "io_run call pushed p F G \<Longrightarrow> b \<in> G \<Longrightarrow> pool_free b p = Inr (u, p') \<Longrightarrow> io_run call pushed p' F (G - {b})"

definition io_inv :: "'k program \<Rightarrow> (ptr \<Rightarrow> u16 option) \<Rightarrow> ptr set \<Rightarrow> block list \<Rightarrow> bool" where
  "io_inv p F G bs \<longleftrightarrow> pool_list (p_pool p) bs \<and> bs \<noteq> [] \<and> no_free_pair bs
     \<and> (\<forall>fh h. F fh = Some h \<longrightarrow> p_files p fh = Some h \<and> h \<noteq> 0) \<and> dom F \<inter> G = {}
     \<and> (\<lambda>(a, n). a + 6) ` used_blocks bs = unat ` (dom F \<union> G)
     \<and> (\<forall>fh \<in> dom F. \<exists>n \<ge> 2. (unat fh - 6, n) \<in> used_blocks bs)"

lemma pool_sorted: "pool_list q bs \<Longrightarrow> sorted_wrt before bs"
  using pool_chain_sorted by (auto simp: pool_list_def)

lemma io_invD:
  assumes "io_inv p F G bs"
  shows "pool_list (p_pool p) bs" and "bs \<noteq> []" and "no_free_pair bs" and "sorted_wrt before bs"
    and "F fh = Some h \<Longrightarrow> p_files p fh = Some h \<and> h \<noteq> 0" and "dom F \<inter> G = {}"
    and "(\<lambda>(a, n). a + 6) ` used_blocks bs = unat ` (dom F \<union> G)"
    and "F fh = Some h \<Longrightarrow> \<exists>n \<ge> 2. (unat fh - 6, n) \<in> used_blocks bs"
proof -
  note inv = assms [unfolded io_inv_def]
  show "pool_list (p_pool p) bs" using inv by (elim conjE)
  then show "sorted_wrt before bs" by (rule pool_sorted)
  show "bs \<noteq> []" using inv by (elim conjE)
  show "no_free_pair bs" using inv by (elim conjE)
  show "dom F \<inter> G = {}" using inv by (elim conjE)
  show "(\<lambda>(a, n). a + 6) ` used_blocks bs = unat ` (dom F \<union> G)" using inv by (elim conjE)
  show "p_files p fh = Some h \<and> h \<noteq> 0" if "F fh = Some h" using inv that by (elim conjE) blast
  show "\<exists>n \<ge> 2. (unat fh - 6, n) \<in> used_blocks bs" if "F fh = Some h" using inv that by (elim conjE) blast
qed

lemma before_inject: "sorted_wrt before bs \<Longrightarrow> x \<in> set bs \<Longrightarrow> y \<in> set bs \<Longrightarrow> fst x = fst y \<Longrightarrow> x = y"
proof (induction bs)
  case (Cons c bs)
  then show ?case by (cases "x = c"; cases "y = c") force+
qed simp

lemma place_was_free: "place n bs = Some (q, bs') \<Longrightarrow> \<exists>k. (q - 6, k, True) \<in> set bs \<and> 6 \<le> q"
proof (induction bs arbitrary: bs')
  case (Cons b bs)
  obtain a k f where b: "b = (a, k, f)" by (cases b)
  show ?case
  proof (cases "f \<and> n \<le> k")
    case True
    then show ?thesis using Cons.prems by (auto simp: b)
  next
    case False
    then obtain cs where "place n bs = Some (q, cs)" using Cons.prems by (auto simp: b)
    then show ?thesis using Cons.IH by fastforce
  qed
qed simp

text \<open>A block that is handed out is new, and it leaves the others alone.\<close>

lemma io_inv_place:
  assumes inv: "io_inv p F G bs" and place: "place n bs = Some (unat r, bs')"
  shows "r \<notin> dom F \<union> G" and "\<exists>k \<ge> n. used_blocks bs' = insert (unat r - 6, k) (used_blocks bs) \<and> 6 \<le> unat r"
    and "no_free_pair bs'" "bs' \<noteq> []"
proof -
  obtain k where k: "(unat r - 6, k, True) \<in> set bs" "6 \<le> unat r" using place_was_free [OF place] by blast
  have "a + 6 \<noteq> unat r" if "(a, m) \<in> used_blocks bs" for a m
  proof
    assume "a + 6 = unat r"
    then have "a = unat r - 6" by simp
    then show False using before_inject [OF io_invD(4) [OF inv] k(1), of "(a, m, False)"] that by (simp add: used_blocks_def)
  qed
  then have "unat r \<notin> (\<lambda>(a, n). a + 6) ` used_blocks bs" by force
  then show "r \<notin> dom F \<union> G" unfolding io_invD(7) [OF inv] by blast
  show "\<exists>k \<ge> n. used_blocks bs' = insert (unat r - 6, k) (used_blocks bs) \<and> 6 \<le> unat r"
    using place_used [OF place] by auto
  show "no_free_pair bs'" "bs' \<noteq> []" using place_no_free_pair [OF place io_invD(3) [OF inv]] by auto
qed

lemma io_inv_release:
  assumes inv: "io_inv p F G bs" and free: "pool_free b p' = Inr (u, p'')" "p_pool p' = p_pool p"
  obtains q where "p'' = p'\<lparr>p_pool := q\<rparr>" "pool_list q (release (unat b) [] bs)"
    "used_blocks (release (unat b) [] bs) = {x \<in> used_blocks bs. fst x + 6 \<noteq> unat b}"
    "no_free_pair (release (unat b) [] bs)" "release (unat b) [] bs \<noteq> []"
proof -
  obtain q where q: "freeMemory b (p_pool p) = Some q" "pool_list q (release (unat b) [] bs)"
    using freeMemory_list [OF io_invD(1) [OF inv], of b] by blast
  have "p'' = p'\<lparr>p_pool := q\<rparr>" using free q(1) by (simp add: pool_free_def)
  moreover have "used_blocks (release (unat b) [] bs) = {x \<in> used_blocks bs. fst x + 6 \<noteq> unat b}"
    using release_used [of "[]" bs "unat b"] io_invD(4) [OF inv] by simp
  moreover have "no_free_pair (release (unat b) [] bs)" "release (unat b) [] bs \<noteq> []"
    using release_no_free_pair [of "[]" bs "unat b"] release_nonempty [of "[]" bs "unat b"] io_invD(2,3) [OF inv] by simp_all
  ultimately show thesis using that q(2) by blast
qed

text \<open>What happens to the blocks when one is added or taken away.\<close>

lemma io_inv_add:
  assumes inv: "io_inv p F G bs" and place: "place n bs = Some (unat r, bs')" and pool: "pool_list (p_pool p') bs'"
  shows "p_files p' = p_files p \<Longrightarrow> io_inv p' F (insert r G) bs'"
    and "2 \<le> n \<Longrightarrow> h \<noteq> 0 \<Longrightarrow> p_files p' = (p_files p)(r \<mapsto> h) \<Longrightarrow> io_inv p' (F(r \<mapsto> h)) G bs'"
proof -
  note new = io_inv_place [OF inv place]
  obtain k where k: "n \<le> k" "used_blocks bs' = insert (unat r - 6, k) (used_blocks bs)" "6 \<le> unat r" using new(2) by blast
  have used: "(\<lambda>(a, n). a + 6) ` used_blocks bs' = insert (unat r) (unat ` (dom F \<union> G))"
    unfolding k(2) using io_invD(7) [OF inv] k(3) by simp
  have old: "\<exists>n \<ge> 2. (unat fh - 6, n) \<in> used_blocks bs'" if "F fh = Some x" for fh x
    using io_invD(8) [OF inv that] k(2) by blast
  show "io_inv p' F (insert r G) bs'" if "p_files p' = p_files p"
    unfolding io_inv_def using that pool new io_invD(5,6) [OF inv] used old by auto
  show "io_inv p' (F(r \<mapsto> h)) G bs'" if "2 \<le> n" "h \<noteq> 0" "p_files p' = (p_files p)(r \<mapsto> h)"
  proof -
    have large: "\<exists>m \<ge> 2. (unat fh - 6, m) \<in> used_blocks bs'" if "fh \<in> dom (F(r \<mapsto> h))" for fh
      using old [of fh] that k(1,2) \<open>2 \<le> n\<close> by (cases "fh = r") (auto intro: exI [of _ k])
    have "dom (F(r \<mapsto> h)) \<inter> G = {}" "unat ` (dom (F(r \<mapsto> h)) \<union> G) = insert (unat r) (unat ` (dom F \<union> G))"
      using new(1) io_invD(6) [OF inv] by auto
    moreover have "p_files p' fh = Some x \<and> x \<noteq> 0" if "(F(r \<mapsto> h)) fh = Some x" for fh x
      using that \<open>h \<noteq> 0\<close> \<open>p_files p' = (p_files p)(r \<mapsto> h)\<close> io_invD(5) [OF inv, of fh x] by (auto split: if_splits)
    ultimately show ?thesis
      unfolding io_inv_def using pool new(3,4) used large by (intro conjI allI impI ballI) (assumption | simp only: | blast)+
  qed
qed

lemma io_inv_remove:
  assumes inv: "io_inv p F G bs" and pool: "pool_list (p_pool p') cs" and files: "p_files p' = p_files p"
    and cs: "used_blocks cs = {x \<in> used_blocks bs. fst x + 6 \<noteq> unat b}" "no_free_pair cs" "cs \<noteq> []"
    and F: "F' = F(b := None)" "G' = G - {b}"
  shows "io_inv p' F' G' cs"
proof -
  have "(\<lambda>(a, n). a + 6) ` used_blocks cs = (\<lambda>(a, n). a + 6) ` used_blocks bs - {unat b}" unfolding cs(1) by force
  also have "\<dots> = unat ` (dom F' \<union> G')" unfolding io_invD(7) [OF inv] F by (auto simp: word_unat_eq_iff)
  finally have used: "(\<lambda>(a, n). a + 6) ` used_blocks cs = unat ` (dom F' \<union> G')" .
  have "\<exists>n \<ge> 2. (unat fh - 6, n) \<in> used_blocks cs" if fh: "F' fh = Some h" for fh h
  proof -
    have ne: "fh \<noteq> b" "F fh = Some h" using fh by (auto simp: F split: if_splits)
    from io_invD(8) [OF inv ne(2)] obtain n where n: "2 \<le> n" "(unat fh - 6, n) \<in> used_blocks bs" by blast
    have "unat fh \<in> (\<lambda>(a, n). a + 6) ` used_blocks bs" unfolding io_invD(7) [OF inv] using ne(2) by auto
    then have "6 \<le> unat fh" by auto
    then show ?thesis using n ne(1) unfolding cs(1) by (auto simp: word_unat_eq_iff)
  qed
  then show ?thesis unfolding io_inv_def using pool cs(2,3) used io_invD(5,6) [OF inv] files by (auto simp: F split: if_splits)
qed

lemma usys_Inr: "usys f p = Inr (r, p') \<Longrightarrow> \<exists>c k. p' = p\<lparr>p_cpu := c, p_kernel := k\<rparr>"
  by (auto simp: usys_def split: sum.splits)

lemma io_inv_kernel: "io_inv p F G bs \<Longrightarrow> io_inv (p\<lparr>p_cpu := c, p_kernel := k\<rparr>) F G bs"
  by (simp add: io_inv_def)

lemma io_inv_open:
  assumes inv: "io_inv p F G bs" and run: "openFile call pushed path mode p = Inr (fh, p')"
    and kernel: "user_sys_open_file path mode call (pushed 1) (p_cpu p) (p_kernel p) = Inr (c, k)"
  shows "\<exists>bs'. io_inv p' (if fh = 0 then F else F(fh \<mapsto> r_ax c)) G bs'"
proof (cases rule: open_cases [OF run io_invD(1) [OF inv], case_names refused full opened])
  case (opened c' k' u bs')
  then have "c' = c" using kernel by simp
  then have "p_files p' = (p_files p)(fh \<mapsto> r_ax c)" "p_pool p' = u" using opened(6) by simp_all
  then have "io_inv p' (F(fh \<mapsto> r_ax c)) G bs'"
    using opened(2,5) \<open>c' = c\<close> by (intro io_inv_add(2) [OF inv opened(3)]) simp_all
  then show ?thesis using opened(4) by auto
qed (auto intro: io_inv_kernel [OF inv])

lemma io_inv_close:
  assumes inv: "io_inv p F G bs" and here: "F fh \<noteq> None" and run: "closeFile call pushed fh p = Inr (u, p')"
  shows "\<exists>bs'. io_inv p' (F(fh := None)) G bs'"
proof -
  obtain h where h: "F fh = Some h" "p_files p fh = Some h" using here io_invD(5) [OF inv] by auto
  obtain r p1 where sys: "usys (user_sys_close_file h call (pushed 2)) p = Inr (r, p1)" and free: "pool_free fh p1 = Inr (u, p')"
    using run h(2) by (auto simp: closeFile_def kernel_simps lookupK_def thenK_eq_Inr)
  obtain c k where p1: "p1 = p\<lparr>p_cpu := c, p_kernel := k\<rparr>" using usys_Inr [OF sys] by blast
  from io_inv_release [OF inv free] p1 obtain q where q: "p' = p1\<lparr>p_pool := q\<rparr>" "pool_list q (release (unat fh) [] bs)"
    "used_blocks (release (unat fh) [] bs) = {x \<in> used_blocks bs. fst x + 6 \<noteq> unat fh}"
    "no_free_pair (release (unat fh) [] bs)" "release (unat fh) [] bs \<noteq> []" by auto
  have "fh \<notin> G" using io_invD(6) [OF inv] h(1) by blast
  then have "io_inv p' (F(fh := None)) G (release (unat fh) [] bs)"
    using q p1 by (intro io_inv_remove [OF inv _ _ q(3-5)]) simp_all
  then show ?thesis by blast
qed

lemma io_run_inv: "io_run call pushed p F G \<Longrightarrow> \<exists>bs. io_inv p F G bs"
proof (induction rule: io_run.induct)
  case (start end' bound q p)
  then show ?case using user_malloc_init_list [of end' bound q] by (fastforce simp: io_inv_def used_blocks_def)
next
  case (opens p F G path mode c k fh p')
  then show ?case using io_inv_open by blast
next
  case (closes p F G fh u p')
  then show ?case using io_inv_close by blast
next
  case (uses p F G fh oper buffer n r p')
  then obtain bs where inv: "io_inv p F G bs" by blast
  obtain c k where "p' = p\<lparr>p_cpu := c, p_kernel := k\<rparr>"
    using uses.hyps(3,4) by (auto simp: readFile_def writeFile_def seekFile_def bindK_eq_Inr lookupK_def split: option.splits dest!: usys_Inr)
  then show ?case using io_inv_kernel [OF inv] by auto
next
  case (allocs p F G n r p')
  then obtain bs where inv: "io_inv p F G bs" by blast
  note alloc = pool_allocs [OF io_invD(1) [OF inv], of n]
  show ?case
  proof (cases "place (unat n) bs")
    case None
    then have "r = 0" "p' = p" using alloc allocs.hyps(2) by simp_all
    then show ?thesis using inv by auto
  next
    case (Some v)
    then obtain q bs' where v: "place (unat n) bs = Some (q, bs')" by (cases v) auto
    then obtain u where u: "p' = p\<lparr>p_pool := u\<rparr>" "unat r = q" "r \<noteq> 0" "pool_list u bs'" using alloc allocs.hyps(2) by auto
    have "io_inv p' F (insert r G) bs'"
      using u v by (intro io_inv_add(1) [OF inv]) simp_all
    then show ?thesis using u(3) by auto
  qed
next
  case (frees p F G b u p')
  then obtain bs where inv: "io_inv p F G bs" by blast
  obtain q where q: "p' = p\<lparr>p_pool := q\<rparr>" "pool_list q (release (unat b) [] bs)"
    "used_blocks (release (unat b) [] bs) = {x \<in> used_blocks bs. fst x + 6 \<noteq> unat b}"
    "no_free_pair (release (unat b) [] bs)" "release (unat b) [] bs \<noteq> []" by (rule io_inv_release [OF inv frees.hyps(3) refl])
  have "F b = None" using io_invD(6) [OF inv] frees.hyps(2) by blast
  then have "io_inv p' F (G - {b}) (release (unat b) [] bs)"
    using q by (intro io_inv_remove [OF inv _ _ q(3-5)]) auto
  then show ?case by blast
qed


section \<open>Witness\<close>

text \<open>A program with a small pool opens a file; the kernel answers with the handle 5.\<close>

definition small_program :: "fs program" where
  "small_program = \<lparr>p_cpu = hello_cpu, p_pool = small_pool, p_files = \<lambda>_. None, p_input = 0, p_output = 0,
     p_kernel = guarded_program\<rparr>"

abbreviation answers_5 :: "fs gate" where "answers_5 \<equiv> \<lambda>f num s. Inr ((), pokew 0x1050 0x7ef0 5 s)"

abbreviation pushed_words :: "u16 \<Rightarrow> u16 list" where "pushed_words \<equiv> \<lambda>_. [0x202, 0x1050, 0x99, 0x77]"

lemma small_program_opens:
  "\<exists>k. user_sys_open_file 0x3000 1 answers_5 (pushed_words 1) hello_cpu guarded_program = Inr (hello_cpu\<lparr>r_ax := 5\<rparr>, k)"
  unfolding user_sys_open_file_def
  using user_call_returns [OF _ _ guarded_program(1), of "[0x3000, 1]" "[0x202, 0x1050, 0x99, 0x77]" 0 _ answers_5 1 hello_cpu 5] guarded_program
  by (auto simp: hello_task_def segment_of_0 hello_cpu_def AX_def)


end
