(* ===== verification/UserWrite.thy ===== *)
theory UserWrite
  imports UserRead
begin

text \<open>
  A write from end to end: a program calls \<^verbatim>\<open>sys_write_file\<close> of \<^verbatim>\<open>init/sys.c\<close> with the handle of
  \<^verbatim>\<open>/devices/screen\<close>, the kernel copies the bytes from the segment of the program and the driver of
  \<^verbatim>\<open>char/screen.c\<close> puts them into the memory of the screen.
\<close>

unbundle bit_operations_syntax

section \<open>The screen and nothing else\<close>

text \<open>What the driver of the screen works on, apart from the ports of the cursor.\<close>

definition screen_view :: "'z console_scheme \<Rightarrow> u16 \<times> u16 \<times> u8 \<times> (u16 \<Rightarrow> u8)" where
  "screen_view s = (scr_col s, scr_row s, scr_attr s, \<lambda>off. mem s (linear 0xb800 off))"

lemma screen_view_eq:
  "screen_view s = screen_view s' \<longleftrightarrow> scr_col s = scr_col s' \<and> scr_row s = scr_row s' \<and> scr_attr s = scr_attr s'
    \<and> (\<forall>off. mem s (linear 0xb800 off) = mem s' (linear 0xb800 off))"
  by (auto simp: screen_view_def fun_eq_iff)

lemma screen_view_cell: "screen_view s = screen_view s' \<Longrightarrow> cell s row col = cell s' row col"
  by (simp add: screen_view_eq cell_def)

lemma scroll_view: "screen_view s = screen_view s' \<Longrightarrow> screen_view (scroll s) = screen_view (scroll s')"
  by (simp add: screen_view_eq scroll_mem)

lemma newline_view: "screen_view s = screen_view s' \<Longrightarrow> screen_view (newline s) = screen_view (newline s')"
  using scroll_view [of s s'] by (simp add: newline_def screen_view_eq)

lemma poke_view: "screen_view s = screen_view s' \<Longrightarrow> screen_view (poke 0xb800 i c s) = screen_view (poke 0xb800 i c s')"
  by (simp add: screen_view_eq poke_def)

lemma col_view: "screen_view s = screen_view s' \<Longrightarrow> screen_view (s\<lparr>scr_col := x\<rparr>) = screen_view (s'\<lparr>scr_col := x\<rparr>)"
  by (simp add: screen_view_eq)

lemma if_view:
  "screen_view x = screen_view x' \<Longrightarrow> screen_view y = screen_view y'
    \<Longrightarrow> screen_view (if b then x else y) = screen_view (if b then x' else y')"
  by simp

lemmas view_rules = if_view newline_view col_view poke_view

lemma screen_putch_view:
  fixes s s' :: "'z console_scheme"
  assumes "screen_view s = screen_view s'"
  shows "screen_view (screen_putch c s) = screen_view (screen_putch c s')"
proof -
  define body where "body = (\<lambda>t :: 'z console_scheme. if c = 0x0a then newline t else if c = 0x09 then tab t
    else if c = 0x08 then backspace t
    else let p = poke 0xb800 ((scr_row t * SCREEN_WIDTH + scr_col t) * 2) c t; x = scr_col t + 1
      in if x = SCREEN_WIDTH then newline (p\<lparr>scr_col := x\<rparr>) else p\<lparr>scr_col := x\<rparr>)"
  have putch: "screen_view (screen_putch c t) = screen_view (body t)" for t :: "'z console_scheme"
    by (simp add: screen_putch_def body_def Let_def screen_view_eq)
  have pos: "scr_col s = scr_col s'" "scr_row s = scr_row s'" using assms by (simp_all add: screen_view_eq)
  have stop: "tab t = (let x = (scr_col t + 8) AND NOT (8 - 1) in
      if x = SCREEN_WIDTH then newline (t\<lparr>scr_col := x\<rparr>) else t\<lparr>scr_col := x\<rparr>)" for t :: "'z console_scheme"
    unfolding tab_def Let_def by simp
  have tab: "screen_view (tab s) = screen_view (tab s')"
    unfolding stop [of s] stop [of s'] pos Let_def by (intro view_rules assms)
  have bsp: "screen_view (backspace s) = screen_view (backspace s')"
    unfolding backspace_def Let_def by (auto simp: pos assms intro!: poke_view col_view)
  show ?thesis
    unfolding putch body_def Let_def pos
    by (intro tab bsp view_rules assms)
qed

lemma screen_write_view:
  fixes s s' :: "'z console_scheme"
  shows "screen_view s = screen_view s' \<Longrightarrow> screen_view (snd (screen_write cs s)) = screen_view (snd (screen_write cs s'))"
  unfolding screen_write_state snd_conv
proof (induction cs arbitrary: s s')
  case (Cons c cs)
  show ?case using Cons.IH [OF screen_putch_view [OF Cons.prems]] by (simp only: fold_simps)
qed simp

lemma screen_putch_frame:
  "\<exists>m x y p. screen_putch c s = s\<lparr>mem := m, scr_col := x, scr_row := y, port_out := p\<rparr>
    \<and> (\<forall>a. (\<forall>off. a \<noteq> linear 0xb800 off) \<longrightarrow> m a = mem s a)"
proof -
  define u where "u = screen_putch c s"
  have "u = s\<lparr>mem := mem u, scr_col := scr_col u, scr_row := scr_row u, port_out := port_out u\<rparr>"
    by (rule console.equality)
      (simp_all add: u_def screen_putch_def Let_def set_cursor_def outb_def newline_def tab_def backspace_def scroll_def
        farmemsetw_def farmemcpy_def poke_def)
  moreover have "mem u a = mem s a" if "\<forall>off. a \<noteq> linear 0xb800 off" for a
    using that stosw_outside [of a "0xb800"] movsb_other [of _ a "0xb800"]
    by (simp add: u_def screen_putch_def Let_def set_cursor_def outb_def newline_def tab_def backspace_def scroll_def
        farmemsetw_def farmemcpy_def poke_def)
  ultimately show ?thesis unfolding u_def by blast
qed

lemma screen_write_frame:
  "\<exists>m x y p. snd (screen_write cs s) = s\<lparr>mem := m, scr_col := x, scr_row := y, port_out := p\<rparr>
    \<and> (\<forall>a. (\<forall>off. a \<noteq> linear 0xb800 off) \<longrightarrow> m a = mem s a)"
  unfolding screen_write_state snd_conv
proof (induction cs rule: rev_induct)
  case Nil
  show ?case by (rule exI [of _ "mem s"], rule exI [of _ "scr_col s"], rule exI [of _ "scr_row s"], rule exI [of _ "port_out s"]) simp
next
  case (snoc c cs)
  then obtain m x y p where u: "fold screen_putch cs s = s\<lparr>mem := m, scr_col := x, scr_row := y, port_out := p\<rparr>"
    and m: "\<forall>a. (\<forall>off. a \<noteq> linear 0xb800 off) \<longrightarrow> m a = mem s a" by blast
  obtain m' x' y' p' where v: "screen_putch c (fold screen_putch cs s) = (fold screen_putch cs s)\<lparr>mem := m', scr_col := x', scr_row := y', port_out := p'\<rparr>"
    and m': "\<forall>a. (\<forall>off. a \<noteq> linear 0xb800 off) \<longrightarrow> m' a = mem (fold screen_putch cs s) a"
    using screen_putch_frame [of c "fold screen_putch cs s"] by blast
  have "fold screen_putch (cs @ [c]) s = s\<lparr>mem := m', scr_col := x', scr_row := y', port_out := p'\<rparr>"
    using v by (simp add: u)
  then show ?case using m m' by (intro exI [of _ m'] exI [of _ x'] exI [of _ y'] exI [of _ p']) (simp add: u)
qed

text \<open>The memory of the screen is behind all segments.\<close>

lemma screen_apart: "linear 0xb800 off \<noteq> linear 0x0050 a" "i < 8 \<Longrightarrow> linear 0xb800 off \<noteq> linear (segment_of i) a"
  using unat_lt_65536 [of a] by (simp_all add: linear_segment_of) (simp_all add: linear_def)

section \<open>The write, in the kernel\<close>

lemma screen_file_write:
  assumes "handle_at s h = Some \<lparr>h_flags = FILE OR HANDLE_WRITE, h_node = nd\<rparr>" and "file_at s nd = Some (Some screen_ops)"
    and "\<forall>h b n. c_file_write c Screen_write h b n = screen_write_file b n"
  shows "file_write c h b n s = Inr (n, snd (screen_write (bytes_at 0x0050 b (unat n) (mem s)) s))"
proof -
  have flags: "c_bool (TYPE_MASK = FILE) = 0" "c_bool (ATTRIBUTE_MASK = HANDLE_WRITE) = 0 \<or> (FILE OR HANDLE_WRITE) AND 1 = (0 :: u16)"
    by (simp_all add: c_bool_def TYPE_MASK_def FILE_def ATTRIBUTE_MASK_def HANDLE_WRITE_def)
  then have "file_write c h b n s = screen_write_file b n s"
    using assms by (simp add: file_write_def kernel_simps get_file_def c_bool_def screen_ops_def ATTRIBUTE_MASK_def HANDLE_WRITE_def)
  also have "\<dots> = Inr (screen_write (bytes_at 0x0050 b (unat n) (mem s)) s)" by (simp add: screen_write_file_def)
  finally show ?thesis by (simp add: screen_write_state)
qed

text \<open>What a write to the screen leaves alone, apart from memory.\<close>

definition same_kernel :: "'z fs_scheme \<Rightarrow> 'z fs_scheme \<Rightarrow> bool" where
  "same_kernel s s' \<longleftrightarrow> current_task s' = current_task s \<and> task_at s' = task_at s \<and> func_table s' = func_table s
     \<and> handle_at s' = handle_at s \<and> file_at s' = file_at s \<and> zones s' = zones s \<and> pool_start s' = pool_start s
     \<and> live s' = live s"

text \<open>The bytes are copied from the task into a buffer of the kernel and written from there.\<close>

lemma screen_copied:
  fixes s :: "'z fs_scheme"
  assumes seg: "segments s p = Some (segment_of i)" "i < 8"
    and h: "handle_at s h = Some \<lparr>h_flags = FILE OR HANDLE_WRITE, h_node = nd\<rparr>" "file_at s nd = Some (Some screen_ops)"
    and writer: "\<forall>h b n. c_file_write c Screen_write h b n = screen_write_file b n"
  shows "\<exists>s2 s3. task_get_memory p addr b count s = Inr ((), s2) \<and> file_write c h b count s2 = Inr (count, s3)
    \<and> screen_view s3 = screen_view (snd (screen_write (bytes_at (segment_of i) addr (unat count) (mem s)) s))
    \<and> same_kernel s s3 \<and> heap_inv s3 = heap_inv s
    \<and> (\<forall>a. (\<forall>j < unat count. a \<noteq> linear 0x0050 (b + of_nat j)) \<longrightarrow> (\<forall>off. a \<noteq> linear 0xb800 off) \<longrightarrow> mem s3 a = mem s a)"
proof -
  obtain t where t: "task_at s p = Some t" "t_segment t = segment_of i" using seg(1) by (auto simp: segments_def)
  let ?D = "bytes_at (segment_of i) addr (unat count) (mem s)"
  define s2 where "s2 = farmemcpy b addr count 0x0050 (segment_of i) s"
  have m2: "bytes_at 0x0050 b (unat count) (mem s2) = ?D" "\<And>a. (\<forall>j < unat count. a \<noteq> linear 0x0050 (b + of_nat j)) \<Longrightarrow> mem s2 a = mem s a"
    using farmemcpy_copies [of count "0x0050" b "segment_of i" addr s] kernel_segment_apart [OF seg(2), symmetric]
    by (simp_all add: s2_def)
  have same: "handle_at s2 = handle_at s" "file_at s2 = file_at s" "scr_col s2 = scr_col s" "scr_row s2 = scr_row s" "scr_attr s2 = scr_attr s"
    by (simp_all add: s2_def farmemcpy_def)
  have get: "task_get_memory p addr b count s = Inr ((), s2)"
    using t by (simp add: task_get_memory_def get_task_def kernel_simps s2_def)
  define s3 where "s3 = snd (screen_write ?D s2)"
  obtain m3 x y po where s3: "s3 = s2\<lparr>mem := m3, scr_col := x, scr_row := y, port_out := po\<rparr>"
    and m3: "\<And>a. (\<forall>off. a \<noteq> linear 0xb800 off) \<Longrightarrow> m3 a = mem s2 a"
    using screen_write_frame [of ?D s2] unfolding s3_def by blast
  have written: "file_write c h b count s2 = Inr (count, s3)"
    using screen_file_write [of s2 h nd c b count] h writer m2(1) by (simp add: same s3_def)
  have "screen_view s2 = screen_view s"
    unfolding screen_view_eq using m2(2) screen_apart(1) by (simp add: same)
  then have "screen_view s3 = screen_view (snd (screen_write ?D s))" unfolding s3_def by (rule screen_write_view)
  moreover have "same_kernel s s3" "heap_inv s3 = heap_inv s"
    by (simp_all add: s3 same_kernel_def s2_def farmemcpy_def heap_inv_def live_def block_addr_def)
  ultimately show ?thesis
    using get written m2(2) m3 by (intro exI [of _ s2] exI [of _ s3]) (simp add: s3)
qed

lemma sys_write_file_screen:
  fixes k :: "'z fs_scheme"
  assumes heap: "heap_inv k" and seg: "segments k p = Some (segment_of i)" "i < 8"
    and regs: "has_register k p BX num" "has_register k p CX addr" "has_register k p DX count"
    and h: "task_get_handle p num k = Inr (h, k)" "h \<noteq> 0"
      "handle_at k h = Some \<lparr>h_flags = FILE OR HANDLE_WRITE, h_node = nd\<rparr>" "file_at k nd = Some (Some screen_ops)"
    and writer: "\<forall>h b n. c_file_write c Screen_write h b n = screen_write_file b n"
  shows "sys_write_file c p k = Inl (Panic ''out of mem'')
    \<or> (\<exists>w. sys_write_file c p k = Inr (count, w)
        \<and> screen_view w = screen_view (snd (screen_write (bytes_at (segment_of i) addr (unat count) (mem k)) k))
        \<and> same_kernel k w \<and> heap_inv w
        \<and> (\<forall>a. outside_kernel a \<longrightarrow> (\<forall>off. a \<noteq> linear 0xb800 off) \<longrightarrow> mem w a = mem k a)
        \<and> (\<forall>a n. (\<forall>j < n. reserved k (unat (a + of_nat j))) \<longrightarrow> bytes_at 0x0050 a n (mem w) = bytes_at 0x0050 a n (mem k)))"
proof (cases "malloc count k")
  case (Inl e)
  then show ?thesis
    using malloc_panic [OF heap Inl] regs [THEN has_register_get] by (simp add: sys_write_file_def h kernel_simps)
next
  case (Inr v)
  then obtain b s1 where m: "malloc count k = Inr (b, s1)" by (cases v) auto
  obtain bm us where s1: "s1 = k\<lparr>bitmap := bm, used_bytes := us\<rparr>" using malloc_frame [OF m] by blast
  obtain K where K: "unat count \<le> K" "live s1 = insert (unat b, K) (live k)" "(unat b, K) \<notin> live k"
    and heap1: "heap_inv s1" and b: "b \<noteq> 0"
    using heap_alloc.alloc_fresh [OF heap m] by blast
  let ?D = "bytes_at (segment_of i) addr (unat count) (mem k)"
  obtain s2 s3 where s3: "task_get_memory p addr b count s1 = Inr ((), s2)" "file_write c h b count s2 = Inr (count, s3)"
      "screen_view s3 = screen_view (snd (screen_write ?D s1))" "same_kernel s1 s3" "heap_inv s3"
      "\<And>a. \<forall>j < unat count. a \<noteq> linear 0x0050 (b + of_nat j) \<Longrightarrow> \<forall>off. a \<noteq> linear 0xb800 off \<Longrightarrow> mem s3 a = mem k a"
    using screen_copied [of s1 p i h nd c addr b count] seg h(3,4) writer heap1 by (auto simp: s1 segments_def)
  have live: "live s3 = insert (unat b, K) (live k)" using s3(4) K(2) by (simp add: same_kernel_def)
  then obtain w where w: "free b s3 = Inr ((), w)" "heap_inv w" "live w = live k"
    using heap_alloc.release_range [OF s3(5), of b K] K(3) by auto
  obtain bm' us' where w': "w = s3\<lparr>bitmap := bm', used_bytes := us'\<rparr>" using free_frame [OF w(1)] by blast
  have run: "sys_write_file c p k = Inr (count, w)"
    using regs [THEN has_register_get] by (simp add: sys_write_file_def h m b s3(1,2) w(1) kernel_simps)
  have "screen_view w = screen_view s3" "screen_view s1 = screen_view k" by (simp_all add: w' s1 screen_view_eq)
  then have "screen_view w = screen_view (snd (screen_write ?D k))" using s3(3) screen_write_view [of s1 k ?D] by simp
  moreover have "same_kernel k w" using s3(4) w(3) by (simp add: same_kernel_def w' s1)
  moreover have "mem w a = mem k a" if "outside_kernel a" "\<forall>off. a \<noteq> linear 0xb800 off" for a
    using s3(6) [OF _ that(2)] that(1) by (simp add: w' outside_kernel_def)
  moreover have "bytes_at 0x0050 a n (mem w) = bytes_at 0x0050 a n (mem k)" if r: "\<forall>j < n. reserved k (unat (a + of_nat j))" for a n
  proof -
    have "far a n b (unat count)"
      by (rule far_less [OF buffer_far_fresh [OF heap m K(2)] K(1)]) (use r in blast)
    then have "mem w (linear 0x0050 (a + of_nat j)) = mem k (linear 0x0050 (a + of_nat j))" if "j < n" for j
      using s3(6) that screen_apart(1) [symmetric] by (simp add: w' far_def linear_inject)
    then show ?thesis by (simp add: bytes_at_def)
  qed
  ultimately show ?thesis using run w(2) by blast
qed

section \<open>The write of a program\<close>

text \<open>
  The running task has the segment \<open>i\<close>, a kernel stack in order, a handler of system calls at \<open>f\<close>, and
  the screen open for writing under the number \<open>num\<close>.
\<close>

definition screen_ready :: "'z fs_scheme \<Rightarrow> nat \<Rightarrow> u16 \<Rightarrow> u16 \<Rightarrow> bool" where
  "screen_ready s i num f \<longleftrightarrow> i < 8 \<and> heap_inv s \<and> func_table s ! 24 = f \<and> f \<noteq> 0
     \<and> (\<exists>t nd. task_at s (current_task s) = Some t \<and> t_segment t = segment_of i
          \<and> peekw 0x0050 (t_stack t) s = KERNEL_STACK_GUARD \<and> (\<forall>j < 2. reserved s (unat (t_stack t + of_nat j)))
          \<and> num - 1 < ucast (t_handle_count t) \<and> (\<forall>j < 2. reserved s (unat (slot_addr (t_handles t) (num - 1) + of_nat j)))
          \<and> slot s (t_handles t) (num - 1) \<noteq> 0
          \<and> handle_at s (slot s (t_handles t) (num - 1)) = Some \<lparr>h_flags = FILE OR HANDLE_WRITE, h_node = nd\<rparr>
          \<and> file_at s nd = Some (Some screen_ops))"

lemma word_from_bytes: "bytes_at 0x0050 a 2 (mem s') = bytes_at 0x0050 a 2 (mem s) \<Longrightarrow> peekw 0x0050 a s' = peekw 0x0050 a s"
  by (simp add: peekw_def bytes_at_def numeral_2_eq_2)

lemma live_tasks [simp]: "live (s\<lparr>task_at := x\<rparr>) = live s" "live (s\<lparr>mem := m\<rparr>) = live s"
  by (simp_all add: live_def block_addr_def)

text \<open>It stays so when the tables and the reserved memory of the kernel stay.\<close>

lemma screen_ready_keep:
  assumes "screen_ready s i num f" and same: "same_kernel (s\<lparr>task_at := task_at s'\<rparr>) s'" and "heap_inv s'"
    and task: "\<And>t. task_at s (current_task s) = Some t \<Longrightarrow> \<exists>x. task_at s' (current_task s) = Some (t\<lparr>t_user_sp := x\<rparr>)"
    and bytes: "\<And>a. \<forall>j < 2. reserved s (unat (a + of_nat j)) \<Longrightarrow> bytes_at 0x0050 a 2 (mem s') = bytes_at 0x0050 a 2 (mem s)"
  shows "screen_ready s' i num f"
proof -
  from assms(1) obtain t nd where t: "task_at s (current_task s) = Some t" "t_segment t = segment_of i"
      "peekw 0x0050 (t_stack t) s = KERNEL_STACK_GUARD" "\<forall>j < 2. reserved s (unat (t_stack t + of_nat j))"
      "num - 1 < ucast (t_handle_count t)" "\<forall>j < 2. reserved s (unat (slot_addr (t_handles t) (num - 1) + of_nat j))"
      "slot s (t_handles t) (num - 1) \<noteq> 0"
      "handle_at s (slot s (t_handles t) (num - 1)) = Some \<lparr>h_flags = FILE OR HANDLE_WRITE, h_node = nd\<rparr>"
      "file_at s nd = Some (Some screen_ops)"
    and s: "i < 8" "func_table s ! 24 = f" "f \<noteq> 0"
    unfolding screen_ready_def by blast
  obtain x where x: "task_at s' (current_task s) = Some (t\<lparr>t_user_sp := x\<rparr>)" using task [OF t(1)] by blast
  have kept: "current_task s' = current_task s" "func_table s' = func_table s" "handle_at s' = handle_at s" "file_at s' = file_at s"
    "reserved s' a = reserved s a" for a
    using same by (simp_all add: same_kernel_def reserved_def)
  have words: "peekw 0x0050 (t_stack t) s' = peekw 0x0050 (t_stack t) s"
    "slot s' (t_handles t) (num - 1) = slot s (t_handles t) (num - 1)"
    using word_from_bytes [OF bytes [OF t(4)]] word_from_bytes [OF bytes [OF t(6)]] by (simp_all add: slot_def)
  show ?thesis
    unfolding screen_ready_def kept
    using s assms(3) x t(2-) words by (intro conjI exI [of _ "t\<lparr>t_user_sp := x\<rparr>"] exI [of _ nd]) simp_all
qed

text \<open>The call, in the state that the stubs and the gate have brought about.\<close>

lemma in_kernel_ready:
  fixes buffer count :: u16 and c :: cpu
  assumes "screen_ready s i num f" and t: "task_at s (current_task s) = Some t" and seg: "t_segment t = segment_of i"
    and pushed: "length pushed = 4"
  defines "k \<equiv> in_kernel pushed 4 [num, buffer, count] c t s"
  shows "screen_ready k i num f" and "current_task k = current_task s" and "screen_view k = screen_view s"
    and "bytes_at 0x0050 a n (mem k) = bytes_at 0x0050 a n (mem s)" and "same_kernel (s\<lparr>task_at := task_at k\<rparr>) k"
    and "\<exists>x. task_at k (current_task s) = Some (t\<lparr>t_user_sp := x\<rparr>)"
proof -
  have i: "i < 8" and heap: "heap_inv s" using assms(1) by (simp_all add: screen_ready_def)
  obtain m sp where k: "k = s\<lparr>mem := m, task_at := (task_at s)(current_task s \<mapsto> t\<lparr>t_user_sp := sp\<rparr>), cpu_sp := t_stack_top t\<rparr>"
      "\<And>a. (\<forall>off. a \<noteq> linear (t_segment t) off) \<Longrightarrow> m a = mem s a"
    using in_kernel_frame [of pushed 4 "[num, buffer, count]" c t s] unfolding k_def by blast
  show kernel: "bytes_at 0x0050 a n (mem k) = bytes_at 0x0050 a n (mem s)" for a n
    by (rule bytes_at_kernel [OF _ i]) (use k seg in simp)
  show "current_task k = current_task s" by (simp add: k(1))
  show same: "same_kernel (s\<lparr>task_at := task_at k\<rparr>) k" by (simp add: same_kernel_def k(1) live_def block_addr_def)
  show task: "\<exists>x. task_at k (current_task s) = Some (t\<lparr>t_user_sp := x\<rparr>)" by (auto simp: k(1))
  show "screen_view k = screen_view s" using screen_apart(2) [OF i] k(2) seg by (simp add: screen_view_eq k(1))
  have "heap_inv k" using heap by (simp add: k(1) heap_inv_def)
  then show "screen_ready k i num f" using t task kernel by (intro screen_ready_keep [OF assms(1) same]) auto
qed

lemma screen_ready_task:
  assumes "screen_ready s i num f"
  obtains t h nd where "task_at s (current_task s) = Some t" "t_segment t = segment_of i" "i < 8" "heap_inv s"
    "peekw 0x0050 (t_stack t) s = KERNEL_STACK_GUARD" "\<forall>j < 2. reserved s (unat (t_stack t + of_nat j))"
    "func_table s ! 24 = f" "f \<noteq> 0" "task_get_handle (current_task s) num s = Inr (h, s)" "h \<noteq> 0"
    "handle_at s h = Some \<lparr>h_flags = FILE OR HANDLE_WRITE, h_node = nd\<rparr>" "file_at s nd = Some (Some screen_ops)"
  using assms unfolding screen_ready_def by (auto simp: task_get_handle_def kernel_simps)

text \<open>The bytes that a call pushes are neither in the kernel nor on the screen.\<close>

lemma call_stack_outside:
  assumes "i < 8" and "a \<in> call_stack n (segment_of i) sp"
  shows "outside_kernel a \<and> (\<forall>off. a \<noteq> linear 0xb800 off)"
  using assms(2) kernel_segment_apart [OF assms(1)] screen_apart(2) [OF assms(1), symmetric]
  by (auto simp: call_stack_def outside_kernel_def)

lemma sys_write_served:
  fixes s :: "'z fs_scheme" and buffer count :: u16 and c :: cpu
  assumes ready: "screen_ready s i num f" and t: "task_at s (current_task s) = Some t" "t_segment t = segment_of i" "i < 8"
    and pushed: "length pushed = 4" and writer: "\<forall>h b n. c_file_write fc Screen_write h b n = screen_write_file b n"
    and apart: "\<forall>j < unat count. linear (segment_of i) (buffer + of_nat j) \<notin> call_stack 3 (segment_of i) (r_sp c)"
  defines "k \<equiv> in_kernel pushed 4 [num, buffer, count] c t s"
  shows "sys_write_file fc (current_task s) k = Inl (Panic ''out of mem'')
    \<or> (\<exists>w. sys_write_file fc (current_task s) k = Inr (count, w)
        \<and> screen_view w = screen_view (snd (screen_write (bytes_at (segment_of i) buffer (unat count) (mem s)) s))
        \<and> same_kernel k w \<and> same_kernel (s\<lparr>task_at := task_at w\<rparr>) w \<and> heap_inv w
        \<and> (\<forall>a. outside_kernel a \<longrightarrow> (\<forall>off. a \<noteq> linear 0xb800 off) \<longrightarrow> mem w a = mem k a)
        \<and> (\<forall>a. (\<forall>j < 2. reserved s (unat (a + of_nat j))) \<longrightarrow> bytes_at 0x0050 a 2 (mem w) = bytes_at 0x0050 a 2 (mem s)))"
proof -
  let ?args = "[num, buffer, count]" and ?p = "current_task s"
  note k = in_kernel_ready [OF ready t(1,2) pushed, where buffer = buffer and count = count and c = c, folded k_def]
  have len3: "length ?args \<le> 3" by simp
  from screen_ready_task [OF k(1)] obtain tk h nd where tk: "task_at k ?p = Some tk" "t_segment tk = segment_of i" "heap_inv k"
      "task_get_handle ?p num k = Inr (h, k)" "h \<noteq> 0" "handle_at k h = Some \<lparr>h_flags = FILE OR HANDLE_WRITE, h_node = nd\<rparr>"
      "file_at k nd = Some (Some screen_ops)"
    unfolding k(2) by metis
  have regs: "has_register k ?p BX num" "has_register k ?p CX buffer" "has_register k ?p DX count"
    using call_registers [OF len3 pushed, of 4 c t s, folded k_def] by (auto simp: nth_Cons')
  have data: "bytes_at (segment_of i) buffer (unat count) (mem k) = bytes_at (segment_of i) buffer (unat count) (mem s)"
    unfolding bytes_at_def k_def
    using in_kernel_memory [OF len3 pushed, of _ t c 4 s] apart t(2) by (intro map_cong refl) (simp add: numeral_3_eq_3)
  have "segments k ?p = Some (segment_of i)" using tk(1,2) by (simp add: segments_def)
  from sys_write_file_screen [OF tk(3) this t(3) regs tk(4-7) writer, unfolded data]
  consider (oom) "sys_write_file fc ?p k = Inl (Panic ''out of mem'')"
    | (written) w where "sys_write_file fc ?p k = Inr (count, w)"
        "screen_view w = screen_view (snd (screen_write (bytes_at (segment_of i) buffer (unat count) (mem s)) k))"
        "same_kernel k w" "heap_inv w"
        "\<forall>a. outside_kernel a \<longrightarrow> (\<forall>off. a \<noteq> linear 0xb800 off) \<longrightarrow> mem w a = mem k a"
        "\<forall>a n. (\<forall>j < n. reserved k (unat (a + of_nat j))) \<longrightarrow> bytes_at 0x0050 a n (mem w) = bytes_at 0x0050 a n (mem k)"
    by blast
  then show ?thesis
  proof cases
    case written
    have "reserved k a = reserved s a" for a using k(5) by (simp add: same_kernel_def reserved_def)
    then have bytes: "\<forall>a. (\<forall>j < 2. reserved s (unat (a + of_nat j))) \<longrightarrow> bytes_at 0x0050 a 2 (mem w) = bytes_at 0x0050 a 2 (mem s)"
      using written(6) k(4) by simp
    have "same_kernel (s\<lparr>task_at := task_at w\<rparr>) w" using k(5) written(3) by (simp add: same_kernel_def)
    then show ?thesis
      using written(1-5) bytes screen_write_view [OF k(3)] by (intro disjI2 exI [of _ w]) simp
  qed simp
qed

text \<open>
  A program that writes to the screen with the library function gets, unless memory runs out in the
  kernel, the number of bytes in \<open>ax\<close>; the cursor and the memory of the screen are as the driver
  makes them from these bytes, and the screen is ready for the next call.  The other registers of the
  program are as they were, and so is all memory outside the kernel but for the screen and the 30 bytes below the
  stack pointer.
\<close>

theorem user_write_screen:
  fixes s :: "'z fs_scheme" and c :: cpu
  assumes ready: "screen_ready s i num f"
    and call: "call f 24 = syscall_call table" "length pushed = 4" "table ! 4 = sys_write_file fc"
    and writer: "\<forall>h b n. c_file_write fc Screen_write h b n = screen_write_file b n"
    and apart: "\<forall>j < unat count. linear (segment_of i) (buffer + of_nat j) \<notin> call_stack 3 (segment_of i) (r_sp c)"
  shows "user_sys_write_file num buffer count call pushed c s = Inl (Panic ''out of mem'')
    \<or> (\<exists>u. user_sys_write_file num buffer count call pushed c s = Inr (c\<lparr>r_ax := count\<rparr>, u)
        \<and> screen_view u = screen_view (snd (screen_write (bytes_at (segment_of i) buffer (unat count) (mem s)) s))
        \<and> screen_ready u i num f
        \<and> (\<forall>a. outside_kernel a \<longrightarrow> (\<forall>off. a \<noteq> linear 0xb800 off)
             \<longrightarrow> a \<notin> call_stack 3 (segment_of i) (r_sp c) \<longrightarrow> mem u a = mem s a))"
proof -
  from screen_ready_task [OF ready] obtain t h nd where t: "task_at s (current_task s) = Some t" "t_segment t = segment_of i" "i < 8"
    and guard: "peekw 0x0050 (t_stack t) s = KERNEL_STACK_GUARD" "\<forall>j < 2. reserved s (unat (t_stack t + of_nat j))"
    and func: "func_table s ! 24 = f" "f \<noteq> 0" by metis
  let ?args = "[num, buffer, count]" and ?p = "current_task s" and ?S = "call_stack 3 (segment_of i) (r_sp c)"
  define k where "k = in_kernel pushed 4 ?args c t s"
  note k = in_kernel_ready [OF ready t(1,2) call(2), where buffer = buffer and count = count and c = c, folded k_def]
  have len3: "length ?args \<le> 3" "length ?args = 3" "4 < NUM_SYSCALLS" "table ! unat (4 :: u16) = sys_write_file fc"
    using call(3) by (simp_all add: NUM_SYSCALLS_def)
  note stack = call_stack_outside [OF t(3), of _ 3 "r_sp c"]
  have mem_k: "mem k a = mem s a" if "a \<notin> ?S" for a
    using that in_kernel_memory [OF len3(1) call(2), of a t c 4 s] t(2) by (simp add: k_def numeral_3_eq_3)
  from sys_write_served [OF ready t call(2) writer apart, folded k_def]
  consider (oom) "sys_write_file fc ?p k = Inl (Panic ''out of mem'')"
    | (written) w where "sys_write_file fc ?p k = Inr (count, w)"
        "screen_view w = screen_view (snd (screen_write (bytes_at (segment_of i) buffer (unat count) (mem s)) s))"
        "same_kernel k w" "same_kernel (s\<lparr>task_at := task_at w\<rparr>) w" "heap_inv w"
        "\<And>a. outside_kernel a \<Longrightarrow> \<forall>off. a \<noteq> linear 0xb800 off \<Longrightarrow> mem w a = mem k a"
        "\<And>a. \<forall>j < 2. reserved s (unat (a + of_nat j)) \<Longrightarrow> bytes_at 0x0050 a 2 (mem w) = bytes_at 0x0050 a 2 (mem s)"
    by blast
  then show ?thesis
  proof cases
    case oom
    then show ?thesis
      unfolding user_sys_write_file_def k_def
      by (intro disjI1 user_call_panics [where call = call and f = f, OF len3(1) call(2) t guard(1) func call(1) len3(3)]) (simp only: len3(4))
  next
    case written
    have same: "current_task w = ?p" "task_at w = task_at k" "task_view w = task_view k"
      using written(3) k(2) by (simp_all add: same_kernel_def task_view_def fun_eq_iff)
    with user_call_served [where call = call and f = f, OF len3(1) call(2) t guard(1) func call(1) len3(3), of c count w,
        unfolded len3(2,4) t(2), folded k_def] written(7) [OF guard(2)]
    obtain m where run: "user_sys_write_file num buffer count call pushed c s = Inr (c\<lparr>r_ax := count\<rparr>, w\<lparr>mem := m\<rparr>)"
      and m: "\<And>a. a \<notin> ?S \<Longrightarrow> m a = mem w a"
      using written(1,6) stack unfolding user_sys_write_file_def by blast
    have view: "screen_view (w\<lparr>mem := m\<rparr>) = screen_view w" using m stack by (fastforce simp: screen_view_eq)
    have "m (linear 0x0050 b) = mem w (linear 0x0050 b)" for b using stack by (intro m) (auto simp: outside_kernel_def)
    then have "screen_ready (w\<lparr>mem := m\<rparr>) i num f"
      using written(4,5,7) k(6) same(2) t(1)
      by (intro screen_ready_keep [OF ready]) (simp_all add: same_kernel_def bytes_at_def heap_inv_def)
    moreover have "m a = mem s a" if "outside_kernel a" "\<forall>off. a \<noteq> linear 0xb800 off" "a \<notin> ?S" for a
      using m [OF that(3)] written(6) [OF that(1,2)] mem_k [OF that(3)] by simp
    ultimately show ?thesis using run view written(2) by (intro disjI2 exI [of _ "w\<lparr>mem := m\<rparr>"]) simp
  qed
qed

section \<open>Witness\<close>

text \<open>The program of \<open>guarded_program\<close>, with the screen open for writing, writes one character.\<close>

definition screen_program :: fs where
  "screen_program = poke 0x1050 0x2000 0x41 (guarded_program
     \<lparr>handle_at := (handle_at guarded_program)(0x840 \<mapsto> \<lparr>h_flags = FILE OR HANDLE_WRITE, h_node = 0x580\<rparr>),
      file_at := (file_at guarded_program)(0x580 \<mapsto> Some screen_ops), scr_col := 0, scr_row := 0\<rparr>)"

lemma screen_program_kernel: "mem screen_program (linear 0x0050 a) = mem guarded_program (linear 0x0050 a)"
  using kernel_segment_apart [of 0 "0x2000" a] by (simp add: screen_program_def poke_def segment_of_0)

lemma screen_program:
  "heap_inv screen_program" "reserved screen_program a = reserved guarded_program a"
  "task_at screen_program = task_at guarded_program" "current_task screen_program = current_task guarded_program"
  "func_table screen_program = func_table guarded_program" "peekw 0x0050 b screen_program = peekw 0x0050 b guarded_program"
  using guarded_ready(1) screen_program_kernel
  by (simp_all add: block_ready_def peekw_def) (simp_all add: screen_program_def poke_def heap_inv_def reserved_def live_def block_addr_def)

lemma screen_program_ready: "screen_ready screen_program 0 1 0x1234"
proof -
  let ?t = "hello_task\<lparr>t_stack := 0xd00\<rparr>"
  have task: "task_at screen_program (current_task screen_program) = Some ?t" using guarded_program by (simp add: screen_program)
  have free: "reserved screen_program (unat (a + of_nat j))" if "unat a + 2 \<le> 0x1000" "j < 2" for a :: u16 and j
    using guarded_ready(2) [of a 2] that by (simp add: buffer_ok_def screen_program)
  have handle: "slot guarded_program 0xc00 0 = 0x840"
    using guarded_handle guarded_program(1,2) by (simp add: task_get_handle_def kernel_simps hello_task_def)
  then have "slot screen_program 0xc00 0 = 0x840" by (simp add: slot_def screen_program)
  moreover have "handle_at screen_program 0x840 = Some \<lparr>h_flags = FILE OR HANDLE_WRITE, h_node = 0x580\<rparr>"
    "file_at screen_program 0x580 = Some (Some screen_ops)"
    by (simp_all add: screen_program_def poke_def)
  moreover have "peekw 0x0050 0xd00 screen_program = KERNEL_STACK_GUARD" "func_table screen_program ! 24 = 0x1234"
    using guarded_program by (simp_all add: screen_program)
  ultimately show ?thesis
    unfolding screen_ready_def using task screen_program(1) free [of "0xd00"] free [of "0xc00"]
    by (intro conjI exI [of _ ?t] exI [of _ "0x580"]) (simp_all add: hello_task_def slot_addr_def)
qed

theorem user_write_screen_witness:
  "\<forall>env r. user_sys_write_file 1 0x2000 1 (\<lambda>f num. syscall_func 1 env r) [0x202, 0x1050, 0x99, 0x77] hello_cpu screen_program
      = Inl (Panic ''out of mem'')
    \<or> (\<exists>u. user_sys_write_file 1 0x2000 1 (\<lambda>f num. syscall_func 1 env r) [0x202, 0x1050, 0x99, 0x77] hello_cpu screen_program
        = Inr (hello_cpu\<lparr>r_ax := 1\<rparr>, u) \<and> fst (cell u 0 0) = 0x41 \<and> scr_col u = 1)"
proof (intro allI)
  fix env :: "fs environment" and r
  let ?call = "\<lambda>f num :: u16. syscall_func 1 env r" and ?pushed = "[0x202, 0x1050, 0x99, 0x77] :: u16 list"
  have shown: "screen_view u = screen_view (snd (screen_write [0x41] screen_program)) \<Longrightarrow> fst (cell u 0 0) = 0x41 \<and> scr_col u = 1"
    for u :: fs
    by (simp add: screen_view_eq cell_def cell_off_def)
      (simp add: screen_putch_def Let_def screen_program_def SCREEN_WIDTH_def poke_def set_cursor_def outb_def)
  have table: "?call 0x1234 24 = syscall_call (syscall_table 1 env r)" "syscall_table 1 env r ! 4 = sys_write_file (calls 1 env)"
    unfolding syscall_func_def syscall_table_def Let_def by simp_all
  have writer: "\<forall>h b n. c_file_write (calls 1 env) Screen_write h b n = screen_write_file b n" by simp
  have apart: "\<forall>j < unat (1 :: u16). linear (segment_of 0) (0x2000 + of_nat j) \<notin> call_stack 3 (segment_of 0) (r_sp hello_cpu)"
    using hello_stack_apart [of 0] by (simp add: segment_of_0 hello_cpu_def)
  from user_write_screen [where call = ?call and pushed = ?pushed, OF screen_program_ready table(1) _ table(2) writer apart]
  have "user_sys_write_file 1 0x2000 1 ?call ?pushed hello_cpu screen_program = Inl (Panic ''out of mem'')
    \<or> (\<exists>u. user_sys_write_file 1 0x2000 1 ?call ?pushed hello_cpu screen_program = Inr (hello_cpu\<lparr>r_ax := 1\<rparr>, u)
        \<and> screen_view u = screen_view (snd (screen_write (bytes_at (segment_of 0) 0x2000 (unat (1 :: u16)) (mem screen_program)) screen_program)))"
    by auto
  moreover have "bytes_at (segment_of 0) 0x2000 (unat (1 :: u16)) (mem screen_program) = [0x41]"
    by (simp add: bytes_at_def screen_program_def poke_def segment_of_0)
  ultimately show "user_sys_write_file 1 0x2000 1 ?call ?pushed hello_cpu screen_program = Inl (Panic ''out of mem'')
    \<or> (\<exists>u. user_sys_write_file 1 0x2000 1 ?call ?pushed hello_cpu screen_program
        = Inr (hello_cpu\<lparr>r_ax := 1\<rparr>, u) \<and> fst (cell u 0 0) = 0x41 \<and> scr_col u = 1)"
    using shown by (auto simp only:)
qed

end
