(* ===== verification/UserPrint.thy ===== *)
theory UserPrint
  imports UserLib UserWrite
begin

text \<open>
  Formatted output from end to end: \<open>printf\<close> of a program puts its characters, one system call for
  each, on the screen.
\<close>

text \<open>One character: it is stored in the stack of the program and written from there.\<close>

lemma poke_ready:
  fixes s :: "'z fs_scheme"
  assumes ready: "screen_ready s i num f"
  shows "screen_ready (poke (segment_of i) at c s) i num f" and "screen_view (poke (segment_of i) at c s) = screen_view s"
proof -
  have i: "i < 8" and heap: "heap_inv s" using ready by (simp_all add: screen_ready_def)
  let ?s = "poke (segment_of i) at c s"
  have kernel: "mem ?s (linear 0x0050 a) = mem s (linear 0x0050 a)" for a
    using kernel_segment_apart [OF i, of at a] by (simp add: poke_def)
  have task: "\<exists>x. task_at ?s (current_task s) = Some (t\<lparr>t_user_sp := x\<rparr>)" if "task_at s (current_task s) = Some t" for t
    using that by (intro exI [of _ "t_user_sp t"]) (simp add: poke_def)
  have "same_kernel (s\<lparr>task_at := task_at ?s\<rparr>) ?s" "heap_inv ?s"
    using heap by (simp_all add: same_kernel_def poke_def heap_inv_def)
  then show "screen_ready ?s i num f"
    using kernel task by (intro screen_ready_keep [OF ready]) (simp_all add: bytes_at_def)
  show "screen_view ?s = screen_view s"
    using screen_apart(2) [OF i, of _ at] by (simp add: screen_view_eq) (simp add: poke_def)
qed

lemma putch_screen:
  fixes p :: "('z fs_scheme) program"
  assumes ready: "screen_ready (p_kernel p) i num f"
    and out: "p_output p \<noteq> 0" "p_files p (p_output p) = Some num"
    and call: "call f 24 = syscall_call table" "length (pushed 4) = 4" "table ! 4 = sys_write_file fc"
    and writer: "\<forall>h b n. c_file_write fc Screen_write h b n = screen_write_file b n"
    and apart: "linear (segment_of i) at \<notin> call_stack 3 (segment_of i) (r_sp (p_cpu p))"
  shows "user_putch call pushed (segment_of i) at c p = Inl (Panic ''out of mem'')
    \<or> (\<exists>k. user_putch call pushed (segment_of i) at c p = Inr ((), p\<lparr>p_cpu := (p_cpu p)\<lparr>r_ax := 1\<rparr>, p_kernel := k\<rparr>)
        \<and> screen_ready k i num f \<and> screen_view k = screen_view (screen_putch c (p_kernel p)))"
proof -
  let ?s = "poke (segment_of i) at c (p_kernel p)"
  have "bytes_at (segment_of i) at (unat (1 :: u16)) (mem ?s) = [c]" by (simp add: bytes_at_def poke_def)
  moreover have "\<forall>j < unat (1 :: u16). linear (segment_of i) (at + of_nat j) \<notin> call_stack 3 (segment_of i) (r_sp (p_cpu p))"
    using apart by simp
  note user_write_screen [where call = call and pushed = "pushed 4", OF poke_ready(1) [OF ready, of at c] call writer this]
  moreover have "screen_view (snd (screen_write [c] ?s)) = screen_view (screen_putch c (p_kernel p))"
    using screen_putch_view [OF poke_ready(2) [OF ready, of at c]] by simp
  ultimately show ?thesis
    using out by (auto simp: user_putch_def writeFile_def kernel_simps usys_def)
qed

text \<open>All characters.\<close>

lemma put_all_screen:
  fixes p :: "('z fs_scheme) program"
  assumes "screen_ready (p_kernel p) i num f" and "p_output p \<noteq> 0" and "p_files p (p_output p) = Some num"
    and call: "call f 24 = syscall_call table" "length (pushed 4) = 4" "table ! 4 = sys_write_file fc"
    and writer: "\<forall>h b n. c_file_write fc Screen_write h b n = screen_write_file b n"
    and "linear (segment_of i) at \<notin> call_stack 3 (segment_of i) (r_sp (p_cpu p))"
  shows "put_all (user_putch call pushed (segment_of i) at) cs p = Inl (Panic ''out of mem'')
    \<or> (\<exists>c k. put_all (user_putch call pushed (segment_of i) at) cs p = Inr ((), p\<lparr>p_cpu := c, p_kernel := k\<rparr>)
        \<and> c\<lparr>r_ax := 0\<rparr> = (p_cpu p)\<lparr>r_ax := 0\<rparr> \<and> screen_ready k i num f
        \<and> screen_view k = screen_view (snd (screen_write cs (p_kernel p))))"
  using assms(1-3,8)
proof (induction cs arbitrary: p)
  case Nil
  then show ?case by (intro disjI2 exI [of _ "p_cpu p"] exI [of _ "p_kernel p"]) (simp add: kernel_simps)
next
  case (Cons b cs)
  let ?put = "user_putch call pushed (segment_of i) at"
  from putch_screen [where call = call and f = f and pushed = pushed, OF Cons.prems(1-3) call writer Cons.prems(4), of b]
  consider (oom) "?put b p = Inl (Panic ''out of mem'')"
    | (put) k where "?put b p = Inr ((), p\<lparr>p_cpu := (p_cpu p)\<lparr>r_ax := 1\<rparr>, p_kernel := k\<rparr>)"
        "screen_ready k i num f" "screen_view k = screen_view (screen_putch b (p_kernel p))" by blast
  then show ?case
  proof cases
    case oom
    then show ?thesis by (simp add: kernel_simps)
  next
    case put
    let ?p = "p\<lparr>p_cpu := (p_cpu p)\<lparr>r_ax := 1\<rparr>, p_kernel := k\<rparr>"
    have step: "put_all ?put (b # cs) p = put_all ?put cs ?p" using put(1) by (simp add: kernel_simps)
    have view: "screen_view (snd (screen_write cs k)) = screen_view (snd (screen_write (b # cs) (p_kernel p)))"
      using screen_write_view [OF put(3), of cs] by (simp add: screen_write_state)
    have "screen_ready (p_kernel ?p) i num f" "p_output ?p \<noteq> 0" "p_files ?p (p_output ?p) = Some num"
      "linear (segment_of i) at \<notin> call_stack 3 (segment_of i) (r_sp (p_cpu ?p))"
      using put(2) Cons.prems(2-4) by simp_all
    from Cons.IH [OF this] show ?thesis unfolding step view [symmetric] by auto
  qed
qed

text \<open>
  C29: \<open>printf\<close> of a program whose output is the screen leaves on the screen exactly what the driver makes
  of the formatted characters, in their order, unless memory runs out in the kernel; the registers of
  the program are as they were, apart from \<open>ax\<close>, and so are its files and its pool.
\<close>

theorem printf_screen:
  fixes p :: "('z fs_scheme) program"
  assumes "screen_ready (p_kernel p) i num f" and "p_output p \<noteq> 0" and "p_files p (p_output p) = Some num"
    and "call f 24 = syscall_call table" and "length (pushed 4) = 4" and "table ! 4 = sys_write_file fc"
    and "\<forall>h b n. c_file_write fc Screen_write h b n = screen_write_file b n"
    and "linear (segment_of i) at \<notin> call_stack 3 (segment_of i) (r_sp (p_cpu p))"
  shows "user_printf call pushed (segment_of i) at str_at args ap fmt p = Inl (Panic ''out of mem'')
    \<or> (\<exists>c k. user_printf call pushed (segment_of i) at str_at args ap fmt p = Inr ((), p\<lparr>p_cpu := c, p_kernel := k\<rparr>)
        \<and> c\<lparr>r_ax := 0\<rparr> = (p_cpu p)\<lparr>r_ax := 0\<rparr> \<and> screen_ready k i num f
        \<and> screen_view k = screen_view (snd (screen_write (vprintf str_at args ap fmt) (p_kernel p))))"
  unfolding user_printf_def by (rule put_all_screen [where call = call and f = f and pushed = pushed, OF assms])

section \<open>Witness\<close>

text \<open>The program of \<open>screen_program\<close> prints the number 42.\<close>

definition printing :: "fs program" where
  "printing = \<lparr>p_cpu = hello_cpu, p_pool = small_pool, p_files = [0x106 \<mapsto> 1], p_input = 0, p_output = 0x106,
     p_kernel = screen_program\<rparr>"

theorem printf_screen_witness:
  "\<forall>env r. let out = user_printf (\<lambda>f num. syscall_func 1 env r) (\<lambda>_. [0x202, 0x1050, 0x99, 0x77]) (segment_of 0) 0x2000
      (\<lambda>_. []) (\<lambda>k. if k = 0 then 42 else 0) 0 [0x25, 0x64] printing
    in out = Inl (Panic ''out of mem'') \<or> (\<exists>p. out = Inr ((), p) \<and> fst (cell (p_kernel p) 0 0) = 0x34 \<and> fst (cell (p_kernel p) 0 1) = 0x32)"
proof (intro allI)
  fix env :: "fs environment" and r
  let ?call = "\<lambda>f num :: u16. syscall_func 1 env r"
  let ?cs = "vprintf (\<lambda>_. []) (\<lambda>k. if k = 0 then 42 else 0) 0 [0x25, 0x64]"
  have digits: "?cs = [0x34, 0x32]"
    by (simp add: conversion_def va_int_def ch_def word_of_bytes_def putuint.simps digits_def)
  have shown: "screen_view u = screen_view (snd (screen_write [0x34, 0x32] screen_program))
      \<Longrightarrow> fst (cell u 0 0) = 0x34 \<and> fst (cell u 0 1) = 0x32" for u :: fs
    by (simp add: screen_view_eq cell_def cell_off_def)
      (simp add: screen_putch_def Let_def screen_program_def SCREEN_WIDTH_def poke_def set_cursor_def outb_def linear_inject)
  have table: "?call 0x1234 24 = syscall_call (syscall_table 1 env r)" "syscall_table 1 env r ! 4 = sys_write_file (calls 1 env)"
    unfolding syscall_func_def syscall_table_def Let_def by simp_all
  have writer: "\<forall>h b n. c_file_write (calls 1 env) Screen_write h b n = screen_write_file b n" by simp
  have apart: "linear (segment_of 0) 0x2000 \<notin> call_stack 3 (segment_of 0) (r_sp (p_cpu printing))"
    using hello_stack_apart [of 0] by (simp add: segment_of_0 printing_def hello_cpu_def)
  have "screen_ready (p_kernel printing) 0 1 0x1234" "p_output printing \<noteq> 0" "p_files printing (p_output printing) = Some 1"
    using screen_program_ready by (simp_all add: printing_def)
  from printf_screen [where call = ?call and pushed = "\<lambda>_. [0x202, 0x1050, 0x99, 0x77]", OF this table(1) _ table(2) writer apart,
      of "\<lambda>_. []" "\<lambda>k. if k = 0 then 42 else 0" 0 "[0x25, 0x64]"] digits shown
  show "let out = user_printf ?call (\<lambda>_. [0x202, 0x1050, 0x99, 0x77]) (segment_of 0) 0x2000
      (\<lambda>_. []) (\<lambda>k. if k = 0 then 42 else 0) 0 [0x25, 0x64] printing
    in out = Inl (Panic ''out of mem'') \<or> (\<exists>p. out = Inr ((), p) \<and> fst (cell (p_kernel p) 0 0) = 0x34 \<and> fst (cell (p_kernel p) 0 1) = 0x32)"
    by (auto simp: Let_def printing_def)
qed

end
