(* ===== verification/UserInt.thy ===== *)
theory UserInt
  imports UInt64
begin

text \<open>
  The 64-bit integers of the user programs, \<^verbatim>\<open>init/uint64.c\<close>: an older copy of the kernel's.
  \<open>init64\<close>, the comparisons, \<open>inc64\<close>, \<open>set64\<close> and the additions are the same functions; the four
  here differ.
\<close>

unbundle bit_operations_syntax

fun user_dec64_loop :: "u16 \<Rightarrow> u16 list \<Rightarrow> u16 list" where
  "user_dec64_loop carry [] = []"
| "user_dec64_loop carry (a # as) =
     (let a' = a - carry in a' # user_dec64_loop (if a' > carry then 1 else 0) as)"

definition user_dec64 :: "Uint64 \<Rightarrow> Uint64" where
  "user_dec64 a = of_limbs (user_dec64_loop 1 (limbs a))"

fun user_sub64_loop :: "u16 \<Rightarrow> u16 list \<Rightarrow> u16 list \<Rightarrow> u16 list" where
  "user_sub64_loop carry (a # as) (b # bs) =
     (let t = NOT b + 1 + carry; a' = a + t in a' # user_sub64_loop (if a' < t then 1 else 0) as bs)"
| "user_sub64_loop carry _ _ = []"

definition user_sub64 :: "Uint64 \<Rightarrow> Uint64 \<Rightarrow> Uint64" where
  "user_sub64 a b = of_limbs (user_sub64_loop 0 (limbs a) (limbs b))"

text \<open>Whole words are moved first; the last one that leaves is kept for the result.\<close>

function user_shr64_words :: "Uint64 \<Rightarrow> u16 \<Rightarrow> u16 \<Rightarrow> Uint64 \<times> u16 \<times> u16" where
  "user_shr64_words p n shifted =
     (if n > 16 then user_shr64_words (U64 (i1 p) (i2 p) (i3 p) 0) (n - 16) (i0 p) else (p, n, shifted))"
  by pat_completeness auto
termination
  by (relation "measure (\<lambda>(p, n, _). unat n)") (auto simp: nat_of_word unat_sub16_le)

declare user_shr64_words.simps [simp del]

definition user_shr64 :: "Uint64 \<Rightarrow> u16 \<Rightarrow> Uint64 \<times> u16" where
  "user_shr64 p n =
     (let (p, n, shifted) = user_shr64_words p n 0; k = unat n;
          shifted = drop_bit k shifted OR push_bit k (i0 p);
          p0 = drop_bit k (i0 p) OR push_bit k (i1 p);
          p1 = drop_bit k (i1 p) OR push_bit k (i2 p);
          p2 = drop_bit k (i2 p) OR push_bit k (i3 p);
          p3 = drop_bit k (i3 p)
      in (U64 p0 p1 p2 p3, shifted))"

definition user_shl64 :: "Uint64 \<Rightarrow> u16 \<Rightarrow> Uint64" where
  "user_shl64 p n =
     (let (p, n) = shl64_words p n; k = unat n;
          p3 = push_bit k (i3 p) OR drop_bit k (i2 p);
          p2 = push_bit k (i2 p) OR drop_bit k (i1 p);
          p1 = push_bit k (i1 p) OR drop_bit k (i0 p);
          p0 = push_bit k (i0 p)
      in U64 p0 p1 p2 p3)"

section \<open>Where they agree with the kernel's\<close>

text \<open>Both shifts move bits between limbs by the count itself instead of what is left of a limb.\<close>

lemma shl64_words_rest: "unat n mod 16 = 8 \<Longrightarrow> snd (shl64_words p n) = 8"
proof (induction p n rule: shl64_words.induct)
  case (1 p n)
  show ?case
  proof (cases "n > 16")
    case True
    then have big: "16 < unat n" by (simp add: less16_iff)
    then have "unat (n - 16) = unat n - 16" by (simp add: unat_sub16_le)
    then have "unat (n - 16) mod 16 = 8" using 1(2) big by (simp add: le_mod_geq [symmetric])
    then show ?thesis using 1(1) True by (subst shl64_words.simps) simp
  next
    case False
    then have "unat n \<le> 16" by (simp add: not_less le16_iff)
    then have "unat n = 8" using 1(2) by (cases "unat n = 16") auto
    then have "n = 8" by (simp add: word_unat_eq_iff)
    then show ?thesis by (subst shl64_words.simps) simp
  qed
qed

text \<open>
  The user programs' shift to the left is that of the kernel, a multiplication by \<open>2 ^ n\<close>, for
  counts of 8 and 8 more than a multiple of 16, where a count and what is left of a limb are equal.
\<close>

theorem user_shl64_by_bytes:
  assumes "unat n mod 16 = 8"
  shows "val64 (user_shl64 p n) = (val64 p * 2 ^ unat n) mod 2 ^ 64"
proof -
  have "user_shl64 p n = shl64 p n"
    using shl64_words_rest [OF assms, of p]
    by (cases "shl64_words p n") (simp add: user_shl64_def shl64_def)
  then show ?thesis by (simp add: shl64_correct)
qed

theorem user_shl64_by_bytes_witness: "val64 (user_shl64 (U64 0x1234 0 0 0) 24) = (0x1234 * 2 ^ 24) mod 2 ^ 64"
  using user_shl64_by_bytes [of 24 "U64 0x1234 0 0 0"] by (simp add: val64_expand)

text \<open>For other counts bits are lost or come in at the wrong place.\<close>

lemma user_shl64_by_one: "user_shl64 (U64 0x8000 0 0 0) 1 = U64 0 0x4000 0 0"
  by (subst user_shl64_def, subst shl64_words.simps) simp

lemma user_shr64_by_one: "fst (user_shr64 (U64 0 1 0 0) 1) = U64 2 0 0 0"
  by (subst user_shr64_def, subst user_shr64_words.simps) simp

text \<open>The borrow is taken where there is none, and the other way round.\<close>

lemma user_dec64_borrows: "user_dec64 (U64 5 0 0 0) = U64 4 0xffff 0xffff 0xffff"
  by (simp add: user_dec64_def limbs_def of_limbs_def Let_def less16_iff)

lemma user_sub64_carries: "user_sub64 (U64 5 0 0 0) (U64 3 0 0 0) = U64 2 1 0 0"
  by (simp add: user_sub64_def limbs_def of_limbs_def)

end
