(* ===== verification/Runtime.thy ===== *)
theory Runtime
  imports Machine "HOL-Library.Signed_Division"
begin

text \<open>
  The run-time library of the compiler, \<^verbatim>\<open>bcc/bcc_long.c\<close>, \<^verbatim>\<open>bcc/ldivmod.c\<close> and
  \<^verbatim>\<open>bcc/bcc_int.c\<close> of the kernel (\<^verbatim>\<open>init\<close> has the same files): assembly routines that the
  compiled code calls for 32-bit numbers.  They are modelled on the registers and the flags they
  test; a long number is the pair of its high and its low word.
\<close>

unbundle bit_operations_syntax

section \<open>Registers and instructions\<close>

record regs =
  ax :: u16
  bx :: u16
  cx :: u16
  dx :: u16
  si :: u16
  di :: u16

type_synonym u32 = "32 word"

definition long :: "u16 \<Rightarrow> u16 \<Rightarrow> u32" where
  "long hi lo = word_cat hi lo"

abbreviation bxax :: "regs \<Rightarrow> u32" where "bxax r \<equiv> long (bx r) (ax r)"
abbreviation dicx :: "regs \<Rightarrow> u32" where "dicx r \<equiv> long (di r) (cx r)"
abbreviation sidx :: "regs \<Rightarrow> u32" where "sidx r \<equiv> long (si r) (dx r)"

text \<open>The long number behind a pointer.\<close>

definition lo_word :: "u16 \<Rightarrow> u16 \<Rightarrow> 'z machine_scheme \<Rightarrow> u16" where
  "lo_word ds p s = peekw ds p s"

definition hi_word :: "u16 \<Rightarrow> u16 \<Rightarrow> 'z machine_scheme \<Rightarrow> u16" where
  "hi_word ds p s = peekw ds (p + 2) s"

definition long_at :: "u16 \<Rightarrow> u16 \<Rightarrow> 'z machine_scheme \<Rightarrow> u32" where
  "long_at ds p s = long (hi_word ds p s) (lo_word ds p s)"

text \<open>Instructions that read or set the carry flag return it beside their result.\<close>

definition add16 :: "bool \<Rightarrow> u16 \<Rightarrow> u16 \<Rightarrow> u16 \<times> bool" where
  "add16 c a b = (a + b + of_bool c, 65536 \<le> unat a + unat b + of_bool c)"

definition sub16 :: "bool \<Rightarrow> u16 \<Rightarrow> u16 \<Rightarrow> u16 \<times> bool" where
  "sub16 c a b = (a - b - of_bool c, unat a < unat b + of_bool c)"

definition rcl1 :: "bool \<Rightarrow> u16 \<Rightarrow> u16 \<times> bool" where
  "rcl1 c x = (push_bit 1 x OR of_bool c, bit x 15)"

definition rcr1 :: "bool \<Rightarrow> u16 \<Rightarrow> u16 \<times> bool" where
  "rcr1 c x = (drop_bit 1 x OR push_bit 15 (of_bool c), bit x 0)"

definition sar1 :: "u16 \<Rightarrow> u16 \<times> bool" where
  "sar1 x = (signed_drop_bit 1 x, bit x 0)"

text \<open>\<open>mul\<close>: the high and the low word of the product.\<close>

definition mul16 :: "u16 \<Rightarrow> u16 \<Rightarrow> u16 \<times> u16" where
  "mul16 a b = (let p = unat a * unat b in (of_nat (p div 65536), of_nat p))"

section \<open>Long numbers\<close>

lemma unat_long: "unat (long hi lo) = 65536 * unat hi + unat lo"
proof -
  have "unat (long hi lo) = unat (push_bit 16 (ucast hi :: u32) + ucast lo)" by (simp add: long_def word_cat_eq)
  also have "\<dots> = 65536 * unat hi + unat lo"
    using unat_lt_65536 [of hi] unat_lt_65536 [of lo]
    by (simp add: unat_word_ariths push_bit_eq_mult unsigned_ucast_eq take_bit_nat_eq_self)
  finally show ?thesis .
qed

lemma long_eq_iff: "long a b = w \<longleftrightarrow> 65536 * unat a + unat b = unat w"
  by (simp add: word_unat_eq_iff unat_long)

lemma bit_long: "bit (long hi lo) n \<longleftrightarrow> n < 32 \<and> (if n < 16 then bit lo n else bit hi (n - 16))"
  by (simp add: long_def bit_word_cat_iff)

lemma long_0 [simp]: "long 0 0 = 0"
  by (simp add: long_eq_iff)

lemma long_parts: "unat (long hi lo) mod 65536 = unat lo" "unat (long hi lo) div 65536 = unat hi"
  using unat_lt_65536 [of lo] by (simp_all add: unat_long)

lemma long_inject: "long a b = long c d \<longleftrightarrow> a = c \<and> b = d"
  by (metis long_parts word_unat_eq_iff)

lemma carry_add16: "unat (fst (add16 c a b)) + 65536 * of_bool (snd (add16 c a b)) = unat a + unat b + of_bool c"
  using unat_lt_65536 [of a] unat_lt_65536 [of b]
  by (cases c) (auto simp: add16_def unat_word_ariths mod_if)

lemma borrow_sub16: "unat (fst (sub16 c a b)) + unat b + of_bool c = unat a + 65536 * of_bool (snd (sub16 c a b))"
  using unat_lt_65536 [of a] unat_lt_65536 [of b]
  by (cases c) (auto simp: sub16_def unat_word_ariths mod_if unat_sub_if_size word_size)

lemma two_to_32: "(4294967296 :: u32) = 0"
  by (rule word_unat_eq_iff [THEN iffD2]) simp

lemma two_to_16: "(65536 :: u16) = 0"
  by (rule word_unat_eq_iff [THEN iffD2]) simp

text \<open>The carry takes a pair of instructions through both words.\<close>

lemma long_add:
  assumes "add16 False (ax r) lo = (l, c)" and "add16 c (bx r) hi = (h, d)"
  shows "long h l = bxax r + long hi lo"
proof -
  have "unat h * 65536 + unat l + 4294967296 * of_bool d = unat (bxax r) + unat (long hi lo)"
    using carry_add16 [of False "ax r" lo] carry_add16 [of c "bx r" hi] assms by (simp add: unat_long)
  then have "unat (long h l) + 4294967296 * of_bool d = unat (bxax r) + unat (long hi lo)" by (simp add: unat_long)
  from arg_cong [OF this, of "of_nat :: nat \<Rightarrow> u32"] show ?thesis by (cases d) (simp_all add: two_to_32)
qed

lemma long_sub:
  assumes "sub16 False (ax r) lo = (l, c)" and "sub16 c (bx r) hi = (h, d)"
  shows "long h l = bxax r - long hi lo"
proof -
  have "unat h * 65536 + unat l + unat (long hi lo) = unat (bxax r) + 4294967296 * of_bool d"
    using borrow_sub16 [of False "ax r" lo] borrow_sub16 [of c "bx r" hi] assms by (simp add: unat_long)
  then have "unat (long h l) + unat (long hi lo) = unat (bxax r) + 4294967296 * of_bool d" by (simp add: unat_long)
  from arg_cong [OF this, of "of_nat :: nat \<Rightarrow> u32"] show ?thesis by (cases d) (simp_all add: eq_diff_eq two_to_32)
qed

lemma bit_rcl1:
  assumes "rcl1 c x = (y, d)"
  shows "bit y n \<longleftrightarrow> (if n = 0 then c else n < 16 \<and> bit x (n - 1))"
proof -
  have "y = push_bit 1 x OR of_bool c" using assms by (simp only: rcl1_def prod.inject)
  then have "bit y n \<longleftrightarrow> bit (push_bit 1 x) n \<or> bit (of_bool c :: u16) n" by (simp only: bit_or_iff)
  then show ?thesis unfolding bit_push_bit_iff bit_of_bool_iff by auto
qed

lemma bit_rcr1:
  assumes "rcr1 c x = (y, d)"
  shows "bit y n \<longleftrightarrow> (if n = 15 then c else bit x (Suc n))"
proof -
  have "y = drop_bit 1 x OR push_bit 15 (of_bool c)" using assms by (simp only: rcr1_def prod.inject)
  then have "bit y n \<longleftrightarrow> bit (drop_bit 1 x) n \<or> bit (push_bit 15 (of_bool c) :: u16) n" by (simp only: bit_or_iff)
  then show ?thesis unfolding bit_push_bit_iff bit_of_bool_iff bit_drop_bit_eq by (auto dest: bit_imp_le_length)
qed

lemma bit_sar1:
  assumes "sar1 x = (y, d)"
  shows "bit y n \<longleftrightarrow> (if n = 15 then bit x 15 else bit x (Suc n))"
  using assms by (auto simp: sar1_def bit_signed_drop_bit_iff split: if_splits dest: bit_imp_le_length)

lemma from_bit_16: "\<not> n < 16 \<Longrightarrow> Suc (n - 16) = n - 15"
  by arith

lemma long_shl:
  assumes "rcl1 False lo = (l, c)" and "rcl1 c hi = (h, d)"
  shows "long h l = push_bit 1 (long hi lo)" and "d = bit (long hi lo) 31"
proof -
  have c: "c = bit lo 15" and d: "d = bit hi 15" using assms by (auto simp: rcl1_def)
  show "long h l = push_bit 1 (long hi lo)"
    using bit_rcl1 [OF assms(1)] bit_rcl1 [OF assms(2)] c
    by (intro bit_word_eqI) (auto simp: bit_long bit_push_bit_iff simp del: One_nat_def)
  show "d = bit (long hi lo) 31" using d by (simp add: bit_long)
qed

lemma long_shr:
  assumes "rcr1 b hi = (h, c)" and "rcr1 c lo = (l, d)"
  shows "long h l = drop_bit 1 (long hi lo) OR push_bit 31 (of_bool b)"
proof -
  have "c = bit hi 0" using assms(1) by (simp add: rcr1_def)
  then show ?thesis using assms by (intro bit_word_eqI) (auto simp: bit_long bit_rcr1 bit_simps from_bit_16 not_less le_Suc_eq less_Suc_eq)
qed

lemma long_sar:
  assumes "sar1 hi = (h, c)" and "rcr1 c lo = (l, d)"
  shows "long h l = signed_drop_bit 1 (long hi lo)"
proof -
  have "c = bit hi 0" using assms(1) by (simp add: sar1_def)
  then show ?thesis using assms
    by (intro bit_word_eqI) (auto simp: bit_long bit_rcr1 bit_sar1 bit_simps from_bit_16 not_less le_Suc_eq less_Suc_eq)
qed

section \<open>Addition, complement and logic\<close>

definition laddl :: "u16 \<Rightarrow> 'z machine_scheme \<Rightarrow> regs \<Rightarrow> regs" where
  "laddl ds s r =
     (let (l, c) = add16 False (ax r) (lo_word ds (di r) s); (h, _) = add16 c (bx r) (hi_word ds (di r) s)
      in r\<lparr>ax := l, bx := h\<rparr>)"

definition lsubl :: "u16 \<Rightarrow> 'z machine_scheme \<Rightarrow> regs \<Rightarrow> regs" where
  "lsubl ds s r =
     (let (l, c) = sub16 False (ax r) (lo_word ds (di r) s); (h, _) = sub16 c (bx r) (hi_word ds (di r) s)
      in r\<lparr>ax := l, bx := h\<rparr>)"

definition landl :: "u16 \<Rightarrow> 'z machine_scheme \<Rightarrow> regs \<Rightarrow> regs" where
  "landl ds s r = r\<lparr>ax := ax r AND lo_word ds (di r) s, bx := bx r AND hi_word ds (di r) s\<rparr>"

definition lorl :: "u16 \<Rightarrow> 'z machine_scheme \<Rightarrow> regs \<Rightarrow> regs" where
  "lorl ds s r = r\<lparr>ax := ax r OR lo_word ds (di r) s, bx := bx r OR hi_word ds (di r) s\<rparr>"

definition leorl :: "u16 \<Rightarrow> 'z machine_scheme \<Rightarrow> regs \<Rightarrow> regs" where
  "leorl ds s r = r\<lparr>ax := ax r XOR lo_word ds (di r) s, bx := bx r XOR hi_word ds (di r) s\<rparr>"

definition lcoml :: "regs \<Rightarrow> regs" where
  "lcoml r = r\<lparr>ax := NOT (ax r), bx := NOT (bx r)\<rparr>"

definition lnegl :: "regs \<Rightarrow> regs" where
  "lnegl r =
     (let h = - bx r; (l, c) = sub16 False 0 (ax r); (h, _) = sub16 c h 0
      in r\<lparr>ax := l, bx := h\<rparr>)"

definition ldecl :: "u16 \<Rightarrow> regs \<Rightarrow> 'z machine_scheme \<Rightarrow> 'z machine_scheme" where
  "ldecl ds r s =
     (let s1 = pokew ds (bx r) (lo_word ds (bx r) s - 1) s
      in if lo_word ds (bx r) s = 0 then pokew ds (bx r + 2) (hi_word ds (bx r) s1 - 1) s1 else s1)"

definition lincl :: "u16 \<Rightarrow> regs \<Rightarrow> 'z machine_scheme \<Rightarrow> 'z machine_scheme" where
  "lincl ds r s =
     (let l = lo_word ds (bx r) s + 1; s1 = pokew ds (bx r) l s
      in if l = 0 then pokew ds (bx r + 2) (hi_word ds (bx r) s1 + 1) s1 else s1)"

text \<open>The parts of the product that fit: the product of the high words is never formed.\<close>

definition lmull :: "u16 \<Rightarrow> 'z machine_scheme \<Rightarrow> regs \<Rightarrow> regs" where
  "lmull ds s r =
     (let r = r\<lparr>cx := ax r\<rparr>;
          (d, a) = mul16 (ax r) (hi_word ds (di r) s);
          r = r\<lparr>ax := bx r, bx := a, dx := d\<rparr>;
          (d, a) = mul16 (ax r) (lo_word ds (di r) s);
          r = r\<lparr>dx := d, bx := bx r + a, ax := lo_word ds (di r) s\<rparr>;
          (d, a) = mul16 (ax r) (cx r)
      in r\<lparr>dx := d, ax := a, bx := bx r + d\<rparr>)"

text \<open>Each routine computes the operation of 32-bit words.\<close>

lemma laddl_correct: "bxax (laddl ds s r) = bxax r + long_at ds (di r) s"
  unfolding laddl_def long_at_def
  by (cases "add16 False (ax r) (lo_word ds (di r) s)")
    (auto simp: long_add split: prod.split intro: long_add)

lemma lsubl_correct: "bxax (lsubl ds s r) = bxax r - long_at ds (di r) s"
  unfolding lsubl_def long_at_def by (auto split: prod.split intro: long_sub)

lemma logic_correct:
  "bxax (landl ds s r) = bxax r AND long_at ds (di r) s" "bxax (lorl ds s r) = bxax r OR long_at ds (di r) s"
  "bxax (leorl ds s r) = bxax r XOR long_at ds (di r) s" "bxax (lcoml r) = NOT (bxax r)"
  unfolding landl_def lorl_def leorl_def lcoml_def long_at_def
  by (auto intro!: bit_word_eqI simp: bit_long bit_and_iff bit_or_iff bit_xor_iff bit_not_iff)

lemma lnegl_correct: "bxax (lnegl r) = - bxax r"
proof -
  obtain l c where l: "sub16 False 0 (ax r) = (l, c)" by fastforce
  obtain h d where h: "sub16 c (- bx r) 0 = (h, d)" by fastforce
  have "h = 0 - bx r - of_bool c" using h by (simp add: sub16_def)
  then have "sub16 c 0 (bx r) = (h, unat (0 :: u16) < unat (bx r) + of_bool c)" by (simp add: sub16_def)
  from long_sub [of "\<lparr>ax = 0, bx = 0, cx = 0, dx = 0, si = 0, di = 0\<rparr>", simplified, OF l this]
  show ?thesis using l h by (simp add: lnegl_def)
qed

lemma long_minus: "long h l - long h' l' = long (h - h' - of_bool (unat l < unat l')) (l - l')"
proof -
  have "sub16 False l l' = (l - l', unat l < unat l')" by (simp add: sub16_def)
  from long_sub [of "\<lparr>ax = l, bx = h, cx = 0, dx = 0, si = 0, di = 0\<rparr>", simplified, OF this, of h']
  show ?thesis by (simp add: sub16_def)
qed

lemma long_plus: "long h l + long h' l' = long (h + h' + of_bool (65536 \<le> unat l + unat l')) (l + l')"
proof -
  have "add16 False l l' = (l + l', 65536 \<le> unat l + unat l')" by (simp add: add16_def)
  from long_add [of "\<lparr>ax = l, bx = h, cx = 0, dx = 0, si = 0, di = 0\<rparr>", simplified, OF this, of h']
  show ?thesis by (simp add: add16_def)
qed

lemma long_1: "long 0 1 = 1"
  by (simp add: long_eq_iff)

lemma long_of_nat: "long (of_nat (n div 65536)) (of_nat n) = of_nat n"
proof -
  have "n mod (65536 * 65536) = 65536 * (n div 65536 mod 65536) + n mod 65536" by (rule mod_mult2_eq)
  then show ?thesis by (simp add: long_eq_iff unat_of_nat take_bit_eq_mod)
qed

lemma long_nat: "long h l = of_nat (65536 * unat h + unat l)"
proof -
  have "of_nat (unat (long h l)) = long h l" by simp
  then show ?thesis by (simp only: unat_long)
qed

lemma long_times: "long h l * long h' l' =
  long (h * l' + l * h' + of_nat (unat l * unat l' div 65536)) (of_nat (unat l * unat l'))"
proof -
  define x where "x = unat h * unat l' + unat l * unat h'"
  have "(65536 * unat h + unat l) * (65536 * unat h' + unat l')
      = 4294967296 * (unat h * unat h') + (65536 * x + unat l * unat l')"
    by (simp add: x_def algebra_simps)
  then have "long h l * long h' l' = of_nat (4294967296 * (unat h * unat h') + (65536 * x + unat l * unat l'))"
    by (simp only: long_nat of_nat_mult [symmetric])
  also have "\<dots> = of_nat (65536 * x + unat l * unat l')" by (simp add: two_to_32)
  also have "\<dots> = long (of_nat ((65536 * x + unat l * unat l') div 65536)) (of_nat (65536 * x + unat l * unat l'))"
    by (rule long_of_nat [symmetric])
  also have "\<dots> = long (of_nat x + of_nat (unat l * unat l' div 65536)) (of_nat (unat l * unat l'))"
    by (simp add: two_to_16)
  finally show ?thesis by (simp add: x_def)
qed

lemma ldecl_correct: "long_at ds (bx r) (ldecl ds r s) = long_at ds (bx r) s - 1"
proof -
  have "long h l - 1 = long (h - of_bool (l = 0)) (l - 1)" for h l
    unfolding long_1 [symmetric] long_minus by (simp add: word_unat_eq_iff)
  then show ?thesis
    by (simp add: ldecl_def long_at_def lo_word_def hi_word_def Let_def peekw_pokew peekw_pokew_other)
qed

lemma lincl_correct: "long_at ds (bx r) (lincl ds r s) = long_at ds (bx r) s + 1"
proof -
  have "65536 \<le> unat l + 1 \<longleftrightarrow> l + 1 = 0" for l :: u16
    using unat_lt_65536 [of l] by (auto simp: word_unat_eq_iff unat_word_ariths mod_if)
  then have "long h l + 1 = long (h + of_bool (l + 1 = 0)) (l + 1)" for h l
    unfolding long_1 [symmetric] long_plus by simp
  then show ?thesis
    by (simp add: lincl_def long_at_def lo_word_def hi_word_def Let_def peekw_pokew peekw_pokew_other)
qed

lemma lmull_correct: "bxax (lmull ds s r) = bxax r * long_at ds (di r) s"
  by (simp add: lmull_def mul16_def Let_def long_at_def long_times algebra_simps)

section \<open>Comparison\<close>

record cpu_flags =
  carry :: bool
  zero :: bool
  sign :: bool
  overflow :: bool

text \<open>The flags after \<open>cmp\<close> or \<open>sub\<close>, \<open>test x,x\<close>, \<open>inc\<close> and \<open>dec\<close>, which keep the carry.\<close>

definition cmp_flags :: "u16 \<Rightarrow> u16 \<Rightarrow> cpu_flags" where
  "cmp_flags a b = \<lparr>carry = a < b, zero = (a = b), sign = bit (a - b) 15, overflow = (sint (a - b) \<noteq> sint a - sint b)\<rparr>"

definition test_flags :: "u16 \<Rightarrow> cpu_flags" where
  "test_flags a = \<lparr>carry = False, zero = (a = 0), sign = bit a 15, overflow = False\<rparr>"

definition inc_flags :: "u16 \<Rightarrow> cpu_flags \<Rightarrow> cpu_flags" where
  "inc_flags a f = f\<lparr>zero := (a + 1 = 0), sign := bit (a + 1) 15, overflow := (a = 0x7fff)\<rparr>"

definition dec_flags :: "u16 \<Rightarrow> cpu_flags \<Rightarrow> cpu_flags" where
  "dec_flags a f = f\<lparr>zero := (a - 1 = 0), sign := bit (a - 1) 15, overflow := (a = 0x8000)\<rparr>"

text \<open>The conditions of the jumps \<open>jb\<close> and \<open>jl\<close>.\<close>

definition below :: "cpu_flags \<Rightarrow> bool" where "below f = carry f"
definition less_flags :: "cpu_flags \<Rightarrow> bool" where "less_flags f = (sign f \<noteq> overflow f)"

definition lcmpl :: "u16 \<Rightarrow> 'z machine_scheme \<Rightarrow> regs \<Rightarrow> regs \<times> cpu_flags" where
  "lcmpl ds s r =
     (let f = cmp_flags (bx r) (hi_word ds (di r) s); r = r\<lparr>bx := bx r - hi_word ds (di r) s\<rparr> in
      if \<not> zero f then (r, f)
      else let g = cmp_flags (ax r) (lo_word ds (di r) s) in
        if below g then (r\<lparr>bx := bx r - 1\<rparr>, dec_flags (bx r) g)
        else if \<not> less_flags g then (r, g)
        else (r\<lparr>bx := bx r + 1\<rparr>, inc_flags (bx r) g))"

definition ltstl :: "regs \<Rightarrow> regs \<times> cpu_flags" where
  "ltstl r =
     (let f = test_flags (bx r) in
      if \<not> zero f then (r, f)
      else let g = test_flags (ax r) in
        if sign g then (r\<lparr>bx := bx r + 1\<rparr>, inc_flags (bx r) g) else (r, g))"

lemma bit_15_sint: "bit (w :: u16) 15 \<longleftrightarrow> sint w < 0"
  using bit_last_iff [of w] by simp

lemma signed_less_int:
  fixes a b q m :: int
  assumes "- 32768 \<le> a" "a < 32768" "- 32768 \<le> b" "b < 32768" and "a - b + 32768 = 65536 * q + m" "0 \<le> m" "m < 65536"
  shows "((m - 32768 < 0) \<noteq> (m - 32768 \<noteq> a - b)) \<longleftrightarrow> a < b"
proof -
  have "q = -1 \<or> q = 0 \<or> q = 1" using assms by arith
  then show ?thesis using assms by (elim disjE) (simp_all, arith+)
qed

lemma less_by_parts:
  fixes a c x y :: int
  assumes "0 \<le> x" "x < 65536" "0 \<le> y" "y < 65536"
  shows "65536 * a + x < 65536 * c + y \<longleftrightarrow> a < c \<or> a = c \<and> x < y"
  using assms by arith

lemma less_cmp_flags: "less_flags (cmp_flags a b) \<longleftrightarrow> sint a < sint b"
proof -
  have "- 32768 \<le> sint a" "sint a < 32768" "- 32768 \<le> sint b" "sint b < 32768"
    using sint_range_size [of a] sint_range_size [of b] by (simp_all add: word_size)
  moreover have "sint (a - b) = (sint a - sint b + 32768) mod 65536 - 32768"
    by (simp add: sint_word_ariths signed_take_bit_eq_take_bit_shift take_bit_eq_mod)
  moreover have "sint a - sint b + 32768
      = 65536 * ((sint a - sint b + 32768) div 65536) + (sint a - sint b + 32768) mod 65536"
    "0 \<le> (sint a - sint b + 32768) mod 65536" "(sint a - sint b + 32768) mod 65536 < 65536" by simp_all
  ultimately show ?thesis
    unfolding less_flags_def cmp_flags_def bit_15_sint cpu_flags.simps by (simp only: signed_less_int)
qed

lemma cmp_flags_simps [simp]: "zero (cmp_flags a b) \<longleftrightarrow> a = b" "below (cmp_flags a b) \<longleftrightarrow> a < b"
  by (simp_all add: cmp_flags_def below_def)

lemma sint_16: "sint w = int (unat w) - 65536 * of_bool (bit w 15)" for w :: u16
proof -
  have "sint w = take_bit (Suc 15) (uint w) - 2 ^ Suc 15 * of_bool (bit (uint w) 15)"
    unfolding sint_uint signed_take_bit_eq_take_bit_minus by simp
  moreover have "take_bit (Suc 15) (uint w) = uint w" by (rule take_bit_int_eq_self) (use uint_bounded [of w] in simp_all)
  moreover have "bit (uint w) 15 = bit w 15" by (simp add: bit_uint_iff)
  ultimately show ?thesis by simp
qed

lemma sint_32: "sint w = int (unat w) - 4294967296 * of_bool (bit w 31)" for w :: u32
proof -
  have "sint w = take_bit (Suc 31) (uint w) - 2 ^ Suc 31 * of_bool (bit (uint w) 31)"
    unfolding sint_uint signed_take_bit_eq_take_bit_minus by simp
  moreover have "take_bit (Suc 31) (uint w) = uint w" by (rule take_bit_int_eq_self) (use uint_bounded [of w] in simp_all)
  moreover have "bit (uint w) 31 = bit w 31" by (simp add: bit_uint_iff)
  ultimately show ?thesis by simp
qed

lemma sint_long: "sint (long h l) = 65536 * sint h + uint l"
  by (simp add: sint_16 sint_32 unat_long bit_long)

lemma long_less_iff: "long a b < long c d \<longleftrightarrow> a < c \<or> a = c \<and> b < d"
  using unat_lt_65536 [of b] unat_lt_65536 [of d] unfolding word_less_nat_alt unat_long word_unat_eq_iff by arith

lemma long_sless_iff: "sint (long a b) < sint (long c d) \<longleftrightarrow> sint a < sint c \<or> a = c \<and> b < d"
proof -
  have "sint a = sint c \<longleftrightarrow> a = c" by (auto intro: signed_word_eqI)
  then show ?thesis
    unfolding sint_long word_less_def
    using less_by_parts [of "uint b" "uint d" "sint a" "sint c"] uint_bounded [of b] uint_bounded [of d] by simp
qed

text \<open>
  C35: after \<open>lcmpl\<close> the flags answer every comparison of the two long numbers, unsigned by the carry,
  signed by sign and overflow, and equality by zero, although only one word is compared at a time.
\<close>

theorem lcmpl_decides:
  "(below (snd (lcmpl ds s r)) \<longleftrightarrow> bxax r < long_at ds (di r) s)
    \<and> (zero (snd (lcmpl ds s r)) \<longleftrightarrow> bxax r = long_at ds (di r) s)
    \<and> (less_flags (snd (lcmpl ds s r)) \<longleftrightarrow> bxax r <s long_at ds (di r) s)"
proof -
  define h l where "h = hi_word ds (di r) s" and "l = lo_word ds (di r) s"
  have f: "snd (lcmpl ds s r) = (if bx r \<noteq> h then cmp_flags (bx r) h
      else if ax r < l then dec_flags 0 (cmp_flags (ax r) l)
      else if sint (ax r) < sint l then inc_flags 0 (cmp_flags (ax r) l) else cmp_flags (ax r) l)"
    by (auto simp: lcmpl_def Let_def h_def l_def less_cmp_flags)
  show ?thesis
    unfolding f long_at_def word_sless_alt long_sless_iff long_less_iff long_inject h_def [symmetric] l_def [symmetric]
    by (auto simp: less_cmp_flags) (auto simp: below_def cmp_flags_def dec_flags_def inc_flags_def less_flags_def)
qed

lemma ltstl_flags:
  assumes "ltstl r = (r', f)"
  shows "(zero f \<longleftrightarrow> bxax r = 0) \<and> (less_flags f \<longleftrightarrow> bxax r <s 0)"
proof -
  have "bxax r <s 0 \<longleftrightarrow> bit (bx r) 15" 
    using less_by_parts [of "uint (ax r)" 0 "sint (bx r)" 0] uint_bounded [of "ax r"] by (simp add: word_sless_alt sint_long bit_15_sint)
  moreover have "bxax r = 0 \<longleftrightarrow> bx r = 0 \<and> ax r = 0" using long_inject [of "bx r" "ax r" 0 0] by simp
  ultimately show ?thesis
    using assms by (auto simp: ltstl_def Let_def test_flags_def inc_flags_def less_flags_def split: if_splits)
qed

text \<open>
  C36: the routines for sums, differences, products and negation compute those of 32-bit words, with
  the carry taken from the low to the high word; the increment and the decrement do so in memory.
\<close>

theorem long_arithmetic:
  "bxax (laddl ds s r) = bxax r + long_at ds (di r) s \<and> bxax (lsubl ds s r) = bxax r - long_at ds (di r) s
    \<and> bxax (lmull ds s r) = bxax r * long_at ds (di r) s \<and> bxax (lnegl r) = - bxax r
    \<and> long_at ds (bx r) (lincl ds r s) = long_at ds (bx r) s + 1
    \<and> long_at ds (bx r) (ldecl ds r s) = long_at ds (bx r) s - 1"
  by (simp add: laddl_correct lsubl_correct lmull_correct lnegl_correct lincl_correct ldecl_correct)

section \<open>Shifts\<close>

text \<open>The loops, which \<open>loop\<close> runs as often as \<open>cx\<close> says.\<close>

fun lsl_loop :: "nat \<Rightarrow> regs \<Rightarrow> regs" where
  "lsl_loop 0 r = r"
| "lsl_loop (Suc n) r =
     (let (l, c) = rcl1 False (ax r); (h, _) = rcl1 c (bx r) in lsl_loop n (r\<lparr>ax := l, bx := h, cx := cx r - 1\<rparr>))"

fun lsr_loop :: "nat \<Rightarrow> regs \<Rightarrow> regs" where
  "lsr_loop 0 r = r"
| "lsr_loop (Suc n) r =
     (let (h, c) = sar1 (bx r); (l, _) = rcr1 c (ax r) in lsr_loop n (r\<lparr>ax := l, bx := h, cx := cx r - 1\<rparr>))"

fun lsru_loop :: "nat \<Rightarrow> regs \<Rightarrow> regs" where
  "lsru_loop 0 r = r"
| "lsru_loop (Suc n) r =
     (let (h, c) = rcr1 False (bx r); (l, _) = rcr1 c (ax r) in lsru_loop n (r\<lparr>ax := l, bx := h, cx := cx r - 1\<rparr>))"

definition lsll :: "regs \<Rightarrow> regs" where
  "lsll r = (let r = r\<lparr>cx := di r\<rparr> in
     if cx r \<ge> 32 then r\<lparr>ax := 0, bx := 0\<rparr> else lsl_loop (unat (cx r)) r)"

definition lsrl :: "regs \<Rightarrow> regs" where
  "lsrl r = (let r = r\<lparr>cx := di r\<rparr>; r = (if cx r \<ge> 32 then r\<lparr>cx := 32\<rparr> else r) in lsr_loop (unat (cx r)) r)"

definition lsrul :: "regs \<Rightarrow> regs" where
  "lsrul r = (let r = r\<lparr>cx := di r\<rparr> in
     if cx r \<ge> 32 then r\<lparr>ax := 0, bx := 0\<rparr> else lsru_loop (unat (cx r)) r)"

lemma lsl_loop_shifts: "bxax (lsl_loop n r) = push_bit n (bxax r)"
proof (induction n arbitrary: r)
  case (Suc n)
  obtain l c where l: "rcl1 False (ax r) = (l, c)" by fastforce
  obtain h d where h: "rcl1 c (bx r) = (h, d)" by fastforce
  have "long h l = push_bit 1 (bxax r)" by (rule long_shl [OF l h])
  then show ?case using Suc.IH [of "r\<lparr>ax := l, bx := h, cx := cx r - 1\<rparr>"] by (simp add: l h push_bit_push_bit del: push_bit_Suc)
qed simp

lemma lsr_loop_shifts: "bxax (lsr_loop n r) = signed_drop_bit n (bxax r)"
proof (induction n arbitrary: r)
  case (Suc n)
  obtain h c where h: "sar1 (bx r) = (h, c)" by fastforce
  obtain l d where l: "rcr1 c (ax r) = (l, d)" by fastforce
  have "long h l = signed_drop_bit 1 (bxax r)" by (rule long_sar [OF h l])
  then show ?case using Suc.IH [of "r\<lparr>ax := l, bx := h, cx := cx r - 1\<rparr>"] by (simp add: l h)
qed simp

lemma lsru_loop_shifts: "bxax (lsru_loop n r) = drop_bit n (bxax r)"
proof (induction n arbitrary: r)
  case (Suc n)
  obtain h c where h: "rcr1 False (bx r) = (h, c)" by fastforce
  obtain l d where l: "rcr1 c (ax r) = (l, d)" by fastforce
  have "long h l = drop_bit 1 (bxax r)" using long_shr [OF h l] by simp
  then show ?case using Suc.IH [of "r\<lparr>ax := l, bx := h, cx := cx r - 1\<rparr>"] by (simp add: l h drop_bit_drop_bit del: drop_bit_Suc)
qed simp

text \<open>
  The shifts of long numbers shift by the whole count in \<open>di\<close>, also when it is 32 or more, where
  the unsigned ones give 0 and the arithmetic shift to the right the sign.
\<close>

theorem long_shifts:
  "bxax (lsll r) = push_bit (unat (di r)) (bxax r) \<and> bxax (lsrul r) = drop_bit (unat (di r)) (bxax r)
    \<and> bxax (lsrl r) = signed_drop_bit (unat (di r)) (bxax r)"
proof -
  have ge: "32 \<le> unat (di r)" if "di r \<ge> 32" using that by (simp add: word_le_nat_alt)
  have "push_bit n w = 0" "drop_bit n w = 0" "signed_drop_bit n w = signed_drop_bit 32 w" if "32 \<le> n" for n and w :: u32
    using that by (auto intro!: bit_word_eqI simp: bit_push_bit_iff bit_drop_bit_eq bit_signed_drop_bit_iff dest: bit_imp_le_length)
  from this [OF ge, of "bxax r"] show ?thesis
    by (simp add: lsll_def lsrul_def lsrl_def Let_def lsl_loop_shifts lsru_loop_shifts lsr_loop_shifts)
qed

section \<open>16-bit arithmetic\<close>

text \<open>
  \<open>idiv\<close> and \<open>div\<close> raise a divide error, here \<open>None\<close>, when the divisor is 0 or the quotient does
  not fit; shift counts are taken modulo 32.
\<close>

definition idiv_regs :: "regs \<Rightarrow> regs option" where
  "idiv_regs r =
     (let n = sint (long (dx r) (ax r)); d = sint (bx r); q = n sdiv d in
      if d = 0 \<or> q < - 32768 \<or> 32767 < q then None
      else Some (r\<lparr>ax := word_of_int q, dx := word_of_int (n smod d)\<rparr>))"

definition div_regs :: "regs \<Rightarrow> regs option" where
  "div_regs r =
     (let n = unat (long (dx r) (ax r)); d = unat (bx r) in
      if d = 0 \<or> 65535 < n div d then None
      else Some (r\<lparr>ax := of_nat (n div d), dx := of_nat (n mod d)\<rparr>))"

definition cwd :: "regs \<Rightarrow> regs" where
  "cwd r = r\<lparr>dx := if bit (ax r) 15 then - 1 else 0\<rparr>"

definition idiv :: "regs \<Rightarrow> regs option" where "idiv r = idiv_regs (cwd r)"
definition idivu :: "regs \<Rightarrow> regs option" where "idivu r = div_regs (r\<lparr>dx := 0\<rparr>)"
definition imod :: "regs \<Rightarrow> regs option" where "imod r = map_option (\<lambda>r. r\<lparr>ax := dx r\<rparr>) (idiv_regs (cwd r))"
definition imodu :: "regs \<Rightarrow> regs option" where "imodu r = map_option (\<lambda>r. r\<lparr>ax := dx r\<rparr>) (div_regs (r\<lparr>dx := 0\<rparr>))"

definition imul :: "regs \<Rightarrow> regs" where
  "imul r = (let p = sint (ax r) * sint (bx r) in r\<lparr>ax := word_of_int p, dx := word_of_int (p div 65536)\<rparr>)"

definition isl :: "regs \<Rightarrow> regs" where
  "isl r = (let r = r\<lparr>cx := (cx r AND 0xff00) OR (bx r AND 0x00ff)\<rparr> in r\<lparr>ax := push_bit (unat (cx r AND 31)) (ax r)\<rparr>)"

definition isr :: "regs \<Rightarrow> regs" where
  "isr r = (let r = r\<lparr>cx := (cx r AND 0xff00) OR (bx r AND 0x00ff)\<rparr> in r\<lparr>ax := signed_drop_bit (unat (cx r AND 31)) (ax r)\<rparr>)"

definition isru :: "regs \<Rightarrow> regs" where
  "isru r = (let r = r\<lparr>cx := (cx r AND 0xff00) OR (bx r AND 0x00ff)\<rparr> in r\<lparr>ax := drop_bit (unat (cx r AND 31)) (ax r)\<rparr>)"

lemma unsigned_division_correct:
  assumes "bx r \<noteq> 0"
  shows "\<exists>r'. idivu r = Some r' \<and> ax r' = ax r div bx r \<and> dx r' = ax r mod bx r"
    "\<exists>r'. imodu r = Some r' \<and> ax r' = ax r mod bx r"
proof -
  have "unat (bx r) \<noteq> 0" using assms by (simp add: unat_eq_0)
  moreover have "unat (ax r) mod unat (bx r) < 65536"
    using mod_less_eq_dividend [of "unat (ax r)" "unat (bx r)"] unat_lt_65536 [of "ax r"] by linarith
  moreover have "unat (ax r) div unat (bx r) \<le> 65535"
    using div_le_dividend [of "unat (ax r)" "unat (bx r)"] unat_lt_65536 [of "ax r"] by linarith
  ultimately show "\<exists>r'. idivu r = Some r' \<and> ax r' = ax r div bx r \<and> dx r' = ax r mod bx r"
    "\<exists>r'. imodu r = Some r' \<and> ax r' = ax r mod bx r"
    by (simp_all add: idivu_def imodu_def div_regs_def Let_def unat_long word_unat_eq_iff unat_of_nat take_bit_eq_mod
        unat_div_distrib unat_mod_distrib mod_less)
qed

lemma sint_of_int_16: "- 32768 \<le> q \<Longrightarrow> q < 32768 \<Longrightarrow> sint (word_of_int q :: u16) = q"
  by (simp add: signed_of_int signed_take_bit_int_eq_self)

lemma sdiv_bounds:
  fixes a b :: int
  assumes "- 32768 \<le> a" "a < 32768" "b \<noteq> 0" "a \<noteq> - 32768 \<or> b \<noteq> - 1"
  shows "- 32768 \<le> a sdiv b" "a sdiv b < 32768"
proof -
  have "- 32768 \<le> a sdiv b \<and> a sdiv b < 32768"
  proof (cases "b = 1 \<or> b = - 1")
    case False
    then have b: "2 \<le> \<bar>b\<bar>" using assms(3) by linarith
    have "\<bar>a\<bar> div \<bar>b\<bar> * \<bar>b\<bar> \<le> \<bar>a\<bar>"
      using b pos_mod_sign [of "\<bar>b\<bar>" "\<bar>a\<bar>"] by (simp add: minus_mod_eq_div_mult [symmetric])
    moreover have "\<bar>a\<bar> div \<bar>b\<bar> * 2 \<le> \<bar>a\<bar> div \<bar>b\<bar> * \<bar>b\<bar>" using b by (intro mult_left_mono pos_imp_zdiv_nonneg_iff [THEN iffD2]) simp_all
    ultimately have x: "\<bar>a\<bar> div \<bar>b\<bar> \<le> 16384" using assms(1,2) by linarith
    moreover have "0 \<le> \<bar>a\<bar> div \<bar>b\<bar>" using b by (intro pos_imp_zdiv_nonneg_iff [THEN iffD2]) simp_all
    moreover have "a sdiv b \<in> {\<bar>a\<bar> div \<bar>b\<bar>, - (\<bar>a\<bar> div \<bar>b\<bar>), 0}"
      unfolding signed_divide_int_def by (cases a "0 :: int" rule: linorder_cases; cases b "0 :: int" rule: linorder_cases) simp_all
    ultimately show ?thesis by auto
  qed (use assms in auto)
  then show "- 32768 \<le> a sdiv b" "a sdiv b < 32768" by simp_all
qed

lemma smod_bounds:
  fixes a b :: int
  assumes "- 32768 \<le> b" "b < 32768" "b \<noteq> 0"
  shows "- 32768 \<le> a smod b" "a smod b < 32768"
proof -
  have "\<bar>b\<bar> \<le> 32768" "0 < \<bar>b\<bar>" using assms by auto
  then have "\<bar>a\<bar> mod \<bar>b\<bar> < 32768" "0 \<le> \<bar>a\<bar> mod \<bar>b\<bar>"
    using pos_mod_bound [of "\<bar>b\<bar>" "\<bar>a\<bar>"] pos_mod_sign [of "\<bar>b\<bar>" "\<bar>a\<bar>"] by linarith+
  moreover have "a smod b \<in> {\<bar>a\<bar> mod \<bar>b\<bar>, - (\<bar>a\<bar> mod \<bar>b\<bar>), 0}"
    unfolding signed_modulo_int_def by (cases a "0 :: int" rule: linorder_cases) simp_all
  ultimately show "- 32768 \<le> a smod b" "a smod b < 32768" by (elim insertE emptyE; linarith)+
qed

lemma signed_division_correct:
  assumes "bx r \<noteq> 0" and "ax r \<noteq> 0x8000 \<or> bx r \<noteq> - 1"
  shows "\<exists>r'. idiv r = Some r' \<and> sint (ax r') = sint (ax r) sdiv sint (bx r) \<and> sint (dx r') = sint (ax r) smod sint (bx r)"
proof -
  have n: "sint (long (dx (cwd r)) (ax (cwd r))) = sint (ax r)"
    by (simp add: cwd_def sint_long) (simp add: sint_16)
  have eq: "sint v = sint w \<longleftrightarrow> v = w" for v w :: u16 by (auto intro: signed_word_eqI)
  have nz: "sint (bx r) \<noteq> 0" using assms(1) eq [of "bx r" 0] by simp
  have range: "- 32768 \<le> sint w" "sint w < 32768" for w :: u16
    using sint_range_size [of w] by (simp_all add: word_size)
  have "sint (ax r) \<noteq> - 32768 \<or> sint (bx r) \<noteq> - 1"
    using assms(2) eq [of "ax r" "0x8000"] eq [of "bx r" "- 1"] by simp
  note q = sdiv_bounds [OF range nz this] smod_bounds [OF range nz, of "sint (ax r)"]
  have "idiv r = Some (cwd r\<lparr>ax := word_of_int (sint (ax r) sdiv sint (bx r)), dx := word_of_int (sint (ax r) smod sint (bx r))\<rparr>)"
    unfolding idiv_def idiv_regs_def Let_def n using q nz by (simp add: cwd_def)
  then show ?thesis using q by (simp add: sint_of_int_16)
qed

lemma imul_correct: "ax (imul r) = ax r * bx r"
  by (simp add: imul_def)

end
