(* ===== verification/Ldivmod.thy ===== *)
theory Ldivmod
  imports Runtime
begin

text \<open>
  The division of long numbers, \<^verbatim>\<open>bcc/ldivmod.c\<close>, and the routines of \<^verbatim>\<open>bcc/bcc_long.c\<close> that use
  it: a shift-and-subtract division on 16-bit registers, and what it computes.
\<close>

unbundle bit_operations_syntax

section \<open>Division of long numbers\<close>

text \<open>
  \<open>loop1\<close> doubles the divisor in \<open>si:dx\<close> until it exceeds the rest in \<open>bx:ax\<close>, or its carry is lost,
  and takes the last step back; \<open>loop2\<close> subtracts and halves until it is below the divisor again.
  Both are modelled with \<open>None\<close> for a loop that does not end.
\<close>

definition halve :: "bool \<Rightarrow> regs \<Rightarrow> regs" where
  "halve c r = (let (h, c) = rcr1 c (si r); (l, _) = rcr1 c (dx r) in r\<lparr>dx := l, si := h\<rparr>)"

definition pair_le :: "u16 \<Rightarrow> u16 \<Rightarrow> u16 \<Rightarrow> u16 \<Rightarrow> bool" where
  "pair_le h l h' l' \<longleftrightarrow> h < h' \<or> h = h' \<and> l \<le> l'"

partial_function (option) loop1 :: "regs \<Rightarrow> regs option" where
  "loop1 r =
     (let (l, c) = rcl1 False (dx r); (h, c) = rcl1 c (si r); r = r\<lparr>dx := l, si := h\<rparr> in
      if c then Some (halve True r)
      else if pair_le (si r) (dx r) (bx r) (ax r) then loop1 r
      else Some (halve False r))"

definition subtract :: "regs \<Rightarrow> regs" where
  "subtract r =
     (let (q, c) = add16 False (cx r) 1; (q', _) = add16 c (di r) 0;
          (l, c) = sub16 False (ax r) (dx r); (h, _) = sub16 c (bx r) (si r)
      in r\<lparr>cx := q, di := q', ax := l, bx := h\<rparr>)"

definition loop2_step :: "regs \<Rightarrow> regs" where
  "loop2_step r =
     (let (l, c) = rcl1 False (cx r); (h, _) = rcl1 c (di r); r = r\<lparr>cx := l, di := h\<rparr>;
          r = (if pair_le (si r) (dx r) (bx r) (ax r) then subtract r else r)
      in halve False r)"

partial_function (option) loop2 :: "u16 \<Rightarrow> u16 \<Rightarrow> regs \<Rightarrow> regs option" where
  "loop2 b16 b0 r =
     (let r = loop2_step r in
      if pair_le b16 b0 (si r) (dx r) then loop2 b16 b0 r else Some r)"

text \<open>The signs of divisor and dividend, which the assembly keeps in \<open>dh\<close> and \<open>dl\<close>, are arguments.\<close>

definition negr :: "regs \<Rightarrow> regs" where
  "negr r = lnegl r"

definition negq :: "regs \<Rightarrow> regs" where
  "negq r = (let h = - di r; (l, c) = sub16 False 0 (cx r); (h, _) = sub16 c h 0 in r\<lparr>cx := l, di := h\<rparr>)"

definition less_divisor :: "u16 \<Rightarrow> u16 \<Rightarrow> regs \<Rightarrow> regs" where
  "less_divisor b16 b0 r =
     (let (l, c) = sub16 False (ax r) b0; (h, _) = sub16 c (bx r) b16
      in r\<lparr>ax := l, bx := h, cx := NOT (cx r), di := NOT (di r)\<rparr>)"

definition zdivu1 :: "bool \<Rightarrow> bool \<Rightarrow> u16 \<Rightarrow> u16 \<Rightarrow> regs \<Rightarrow> regs" where
  "zdivu1 bneg aneg b16 b0 r =
     (if bneg then
        (if aneg then negr r
         else if ax r OR bx r = 0 then negq r else less_divisor b16 b0 r)
      else if \<not> aneg then r
      else if ax r OR bx r = 0 then negq r else negr (less_divisor b16 b0 r))"

definition divlarge :: "regs \<Rightarrow> regs option" where
  "divlarge r =
     (let b16 = di r; b0 = cx r; r = r\<lparr>si := b16, dx := b0, cx := 0, di := 0\<rparr> in
      if \<not> pair_le (si r) (dx r) (bx r) (ax r) then Some r
      else case loop1 r of None \<Rightarrow> None | Some r \<Rightarrow> loop2 b16 b0 r)"

text \<open>At the end \<open>si\<close> is restored; what is left in \<open>dx\<close> is not modelled, no caller relies on it.\<close>

definition got_signs :: "bool \<Rightarrow> bool \<Rightarrow> regs \<Rightarrow> regs option" where
  "got_signs bneg aneg r =
     (if di r = 0 \<and> cx r = 0 then Some (if aneg then negr r else r)
      else if di r = 0 \<and> bx r < cx r then
        (case div_regs (r\<lparr>dx := bx r, bx := cx r\<rparr>) of
           None \<Rightarrow> None
         | Some q \<Rightarrow> Some (zdivu1 bneg aneg (di r) (cx r) (r\<lparr>cx := ax q, ax := dx q, bx := di r\<rparr>)))
      else map_option (\<lambda>q. zdivu1 bneg aneg (di r) (cx r) q\<lparr>si := si r\<rparr>) (divlarge r))"

definition ludivmod :: "regs \<Rightarrow> regs option" where
  "ludivmod r = got_signs False False r"

definition ldivmod :: "regs \<Rightarrow> regs option" where
  "ldivmod r =
     (let bneg = bit (di r) 15; aneg = bit (bx r) 15;
          r = (if bneg then negq r else r);
          r = (if aneg then negr r else r)
      in got_signs bneg aneg r)"

lemma pair_le_iff: "pair_le h l h' l' \<longleftrightarrow> unat (long h l) \<le> unat (long h' l')"
  using long_less_iff [of h' l' h l] by (auto simp: pair_le_def not_less word_less_nat_alt [symmetric] word_le_nat_alt [symmetric])

lemma halve_frame: "\<exists>h l. halve c r = r\<lparr>dx := l, si := h\<rparr>"
  by (auto simp: halve_def split: prod.split)

lemma sidx_halve: "sidx (halve c r) = drop_bit 1 (sidx r) OR push_bit 31 (of_bool c)"
  by (auto simp: halve_def long_shr split: prod.split)

lemma half_of_double: "drop_bit 1 (push_bit 1 w) OR push_bit 31 (of_bool (bit w 31)) = (w :: u32)"
proof (rule bit_word_eqI)
  fix n assume "n < LENGTH(32)"
  then have "n = 31 \<or> n < 31" by auto
  then show "bit (drop_bit 1 (push_bit 1 w) OR push_bit 31 (of_bool (bit w 31))) n \<longleftrightarrow> bit w n"
    unfolding bit_or_iff bit_drop_bit_eq bit_push_bit_iff bit_of_bool_iff by auto
qed

lemma bit_31_iff: "bit w 31 \<longleftrightarrow> 2147483648 \<le> unat w" for w :: u32
proof -
  have *: "b \<longleftrightarrow> 2147483648 \<le> n" if "i = int n - 4294967296 * of_bool b" "- 2147483648 \<le> i" "i < 2147483648" "n < 4294967296" for b n i
    using that by (cases b) auto
  show ?thesis
    by (rule * [OF sint_32]) (use sint_range_size [of w] unsigned_less [of w, where ?'a = nat] in \<open>simp_all add: word_size\<close>)
qed

lemma unat_double: "unat (push_bit 1 (w :: u32)) = (if bit w 31 then 2 * unat w - 4294967296 else 2 * unat w)"
proof -
  have "unat w < 4294967296" using unsigned_less [of w, where ?'a = nat] by simp
  moreover have "unat (push_bit 1 w) = 2 * unat w mod 4294967296" by (simp add: unat_word_ariths mult.commute)
  ultimately show ?thesis by (simp add: bit_31_iff mod_if)
qed

lemma unat_half: "unat (drop_bit 1 (w :: u32)) = unat w div 2"
  by (simp add: drop_bit_Suc unat_div_distrib)

lemma doubled_closer: "0 < w \<Longrightarrow> 2 * w \<le> r \<Longrightarrow> r - 2 * w < r - (w :: nat)"
  by arith

lemma loop1_finds:
  assumes "0 < unat (sidx r)" and "unat (sidx r) \<le> unat (bxax r)"
  shows "\<exists>h l k. loop1 r = Some (r\<lparr>dx := l, si := h\<rparr>) \<and> unat (long h l) = unat (sidx r) * 2 ^ k
    \<and> unat (long h l) \<le> unat (bxax r) \<and> unat (bxax r) < 2 * unat (long h l)"
  using assms
proof (induction "unat (bxax r) - unat (sidx r)" arbitrary: r rule: less_induct)
  case less
  obtain l c where l: "rcl1 False (dx r) = (l, c)" by fastforce
  obtain h d where h: "rcl1 c (si r) = (h, d)" by fastforce
  define r1 where "r1 = r\<lparr>dx := l, si := h\<rparr>"
  have w: "sidx r1 = push_bit 1 (sidx r)" "d = bit (sidx r) 31" using long_shl [OF l h] by (simp_all add: r1_def)
  have same: "bxax r1 = bxax r" by (simp add: r1_def)
  have step: "loop1 r = (if d then Some (halve True r1)
      else if unat (sidx r1) \<le> unat (bxax r) then loop1 r1 else Some (halve False r1))"
    by (subst loop1.simps) (simp add: l h r1_def pair_le_iff)
  have max: "unat (bxax r) < 4294967296" using unsigned_less [of "bxax r", where ?'a = nat] by simp
  show ?case
  proof (cases "\<not> d \<and> unat (sidx r1) \<le> unat (bxax r)")
    case True
    then have two: "unat (sidx r1) = 2 * unat (sidx r)" using w unat_double [of "sidx r"] by simp
    then have "unat (bxax r1) - unat (sidx r1) < unat (bxax r) - unat (sidx r)"
      unfolding same using less.prems True by (simp only: two doubled_closer)
    from less.hyps [OF this] obtain h' l' k where k: "loop1 r1 = Some (r1\<lparr>dx := l', si := h'\<rparr>)"
        "unat (long h' l') = unat (sidx r1) * 2 ^ k" "unat (long h' l') \<le> unat (bxax r)" "unat (bxax r) < 2 * unat (long h' l')"
      using two less.prems True same by auto
    then have "loop1 r = Some (r\<lparr>dx := l', si := h'\<rparr>)" "unat (long h' l') = unat (sidx r) * 2 ^ Suc k"
      using True two by (simp_all add: step) (simp add: r1_def)
    then show ?thesis using k(3,4) by blast
  next
    case False
    then have r: "loop1 r = Some (halve d r1)" using step by auto
    obtain h' l' where h': "halve d r1 = r\<lparr>dx := l', si := h'\<rparr>" using halve_frame [of d r1] by (auto simp: r1_def)
    have "long h' l' = sidx r"
      using sidx_halve [of d r1] half_of_double [of "sidx r"] w h' by simp
    moreover have "unat (bxax r) < 2 * unat (sidx r)"
      using False w unat_double [of "sidx r"] max by (auto simp: bit_31_iff split: if_splits)
    ultimately show ?thesis using r h' less.prems by (intro exI [of _ h'] exI [of _ l'] exI [of _ 0]) simp
  qed
qed

lemma subtract_step:
  assumes "unat (sidx r) \<le> unat (bxax r)" and "unat (dicx r) + 1 < 4294967296"
  shows "unat (bxax (subtract r)) = unat (bxax r) - unat (sidx r) \<and> unat (dicx (subtract r)) = unat (dicx r) + 1
    \<and> si (subtract r) = si r \<and> dx (subtract r) = dx r"
proof -
  have "bxax (subtract r) = bxax r - sidx r" by (simp add: subtract_def add16_def sub16_def long_minus)
  moreover have "dicx (subtract r) = dicx r + 1"
    using long_plus [of "di r" "cx r" 0 1] by (simp add: subtract_def add16_def sub16_def long_1)
  moreover have "si (subtract r) = si r" "dx (subtract r) = dx r" by (simp_all add: subtract_def add16_def sub16_def)
  ultimately show ?thesis using assms by (simp add: unat_sub word_le_nat_alt unat_word_ariths)
qed

lemma loop2_step_correct:
  assumes "2 * unat (dicx r) + 1 < 4294967296"
  shows "unat (sidx (loop2_step r)) = unat (sidx r) div 2
    \<and> unat (dicx (loop2_step r)) = 2 * unat (dicx r) + of_bool (unat (sidx r) \<le> unat (bxax r))
    \<and> unat (bxax (loop2_step r)) = (if unat (sidx r) \<le> unat (bxax r) then unat (bxax r) - unat (sidx r) else unat (bxax r))"
proof -
  obtain l c where l: "rcl1 False (cx r) = (l, c)" by fastforce
  obtain h d where h: "rcl1 c (di r) = (h, d)" by fastforce
  define r1 where "r1 = r\<lparr>cx := l, di := h\<rparr>"
  define r2 where "r2 = (if unat (sidx r) \<le> unat (bxax r) then subtract r1 else r1)"
  have "\<not> bit (dicx r) 31" using assms by (simp add: bit_31_iff)
  then have r1: "unat (dicx r1) = 2 * unat (dicx r)" "bxax r1 = bxax r" "si r1 = si r" "dx r1 = dx r"
    using long_shl(1) [OF l h] unat_double [of "dicx r"] by (simp_all add: r1_def)
  have step: "loop2_step r = halve False r2" by (simp add: loop2_step_def l h r1_def r2_def pair_le_iff)
  obtain h' l' where "halve False r2 = r2\<lparr>dx := l', si := h'\<rparr>" using halve_frame by blast
  then have same: "dicx (halve False r2) = dicx r2" "bxax (halve False r2) = bxax r2" by simp_all
  have "sidx r2 = sidx r" "unat (dicx r2) = 2 * unat (dicx r) + of_bool (unat (sidx r) \<le> unat (bxax r))"
    "unat (bxax r2) = (if unat (sidx r) \<le> unat (bxax r) then unat (bxax r) - unat (sidx r) else unat (bxax r))"
    using subtract_step [of r1] r1 assms by (simp_all add: r2_def)
  then show ?thesis using sidx_halve [of False r2] unat_half [of "sidx r"] by (simp add: step same)
qed

lemma loop2_counts:
  assumes "unat (dicx r) * (2 * unat (sidx r)) + unat (bxax r) = a" and "a < 4294967296" and "unat (bxax r) < 2 * unat (sidx r)"
  shows "unat (dicx (loop2_step r)) * unat (sidx r) + unat (bxax (loop2_step r)) = a"
    "unat (bxax (loop2_step r)) < unat (sidx r)" "unat (sidx (loop2_step r)) = unat (sidx r) div 2"
proof -
  have "0 < unat (sidx r)" using assms(3) by simp
  then have "2 * unat (dicx r) * 1 \<le> 2 * unat (dicx r) * unat (sidx r)" by (intro mult_le_mono) simp_all
  also have "\<dots> = unat (dicx r) * (2 * unat (sidx r))" by (simp only: mult.commute mult.left_commute)
  finally have "2 * unat (dicx r) \<le> a" using assms(1) by linarith
  then have small: "2 * unat (dicx r) + 1 < 4294967296" using assms(2) by arith
  note step = loop2_step_correct [OF small]
  show "unat (sidx (loop2_step r)) = unat (sidx r) div 2" using step by blast
  show "unat (dicx (loop2_step r)) * unat (sidx r) + unat (bxax (loop2_step r)) = a"
    using step assms(1) by (cases "unat (sidx r) \<le> unat (bxax r)") (simp_all add: algebra_simps)
  show "unat (bxax (loop2_step r)) < unat (sidx r)"
    using step assms(3) by (cases "unat (sidx r) \<le> unat (bxax r)") simp_all
qed

lemma loop2_divides:
  assumes "unat (sidx r) = unat (long b16 b0) * 2 ^ k" and "0 < unat (long b16 b0)"
    and "unat (dicx r) * (2 * unat (sidx r)) + unat (bxax r) = a" and "a < 4294967296" and "unat (bxax r) < 2 * unat (sidx r)"
  shows "\<exists>r'. loop2 b16 b0 r = Some r' \<and> unat (dicx r') * unat (long b16 b0) + unat (bxax r') = a
    \<and> unat (bxax r') < unat (long b16 b0)"
  using assms
proof (induction k arbitrary: r)
  case (0 r)
  note c = loop2_counts [OF 0(3,4,5)]
  have "\<not> pair_le b16 b0 (si (loop2_step r)) (dx (loop2_step r))"
    using c(3) 0(1,2) by (simp add: pair_le_iff)
  then have "loop2 b16 b0 r = Some (loop2_step r)" by (subst loop2.simps) (simp add: Let_def)
  then show ?case using c(1,2) 0(1) by (intro exI [of _ "loop2_step r"]) simp
next
  case (Suc k r)
  note c = loop2_counts [OF Suc.prems(3,4,5)]
  have half: "unat (sidx (loop2_step r)) = unat (long b16 b0) * 2 ^ k" using c(3) Suc.prems(1) by simp
  then have "pair_le b16 b0 (si (loop2_step r)) (dx (loop2_step r))" by (simp add: pair_le_iff)
  then have "loop2 b16 b0 r = loop2 b16 b0 (loop2_step r)" by (subst loop2.simps) (simp add: Let_def)
  moreover have "2 * unat (sidx (loop2_step r)) = unat (sidx r)" using half Suc.prems(1) by simp
  ultimately show ?case
    using Suc.IH [OF half Suc.prems(2) _ Suc.prems(4)] c(1,2) by simp
qed

lemma divlarge_divides:
  assumes "0 < unat (dicx r)"
  shows "\<exists>r'. divlarge r = Some r' \<and> unat (dicx r') = unat (bxax r) div unat (dicx r)
    \<and> unat (bxax r') = unat (bxax r) mod unat (dicx r)"
proof -
  define r1 where "r1 = r\<lparr>si := di r, dx := cx r, cx := 0, di := 0\<rparr>"
  have r1: "sidx r1 = dicx r" "bxax r1 = bxax r" "dicx r1 = 0" by (simp_all add: r1_def)
  have step: "divlarge r = (if \<not> unat (dicx r) \<le> unat (bxax r) then Some r1
      else case loop1 r1 of None \<Rightarrow> None | Some r2 \<Rightarrow> loop2 (di r) (cx r) r2)"
    by (simp add: divlarge_def r1_def pair_le_iff Let_def)
  show ?thesis
  proof (cases "unat (dicx r) \<le> unat (bxax r)")
    case False
    then show ?thesis using r1 step by simp
  next
    case True
    obtain h l k where w: "loop1 r1 = Some (r1\<lparr>dx := l, si := h\<rparr>)" "unat (long h l) = unat (dicx r) * 2 ^ k"
        "unat (bxax r) < 2 * unat (long h l)"
      using loop1_finds [of r1] r1 assms True by auto
    define r2 where "r2 = r1\<lparr>dx := l, si := h\<rparr>"
    have r2: "sidx r2 = long h l" "bxax r2 = bxax r" "dicx r2 = 0" using r1 by (simp_all add: r2_def)
    have "unat (bxax r) < 4294967296" using unsigned_less [of "bxax r", where ?'a = nat] by simp
    then obtain r3 where r3: "loop2 (di r) (cx r) r2 = Some r3" "unat (dicx r3) * unat (dicx r) + unat (bxax r3) = unat (bxax r)"
        "unat (bxax r3) < unat (dicx r)"
      using loop2_divides [of r2 "di r" "cx r" k "unat (bxax r)"] w(2,3) assms by (auto simp: r2)
    have "unat (dicx r3) = unat (bxax r) div unat (dicx r)"
      by (subst r3(2) [symmetric]) (use r3(3) in simp)
    moreover have "unat (bxax r3) = unat (bxax r) mod unat (dicx r)"
      by (subst r3(2) [symmetric]) (use r3(3) in simp)
    ultimately show ?thesis using True w(1) r3(1) step by (simp add: r2_def)
  qed
qed

text \<open>The signs.\<close>

lemma negr_bxax: "bxax (negr r) = - bxax r"
  by (simp add: negr_def lnegl_correct)

lemma negq_dicx: "dicx (negq r) = - dicx r" "bxax (negq r) = bxax r"
proof -
  show "dicx (negq r) = - dicx r"
    using lnegl_correct [of "\<lparr>ax = cx r, bx = di r, cx = 0, dx = 0, si = 0, di = 0\<rparr>"]
    by (simp add: negq_def lnegl_def split: prod.splits)
  show "bxax (negq r) = bxax r" by (simp add: negq_def split: prod.splits)
qed

lemma negr_dicx: "dicx (negr r) = dicx r"
  by (simp add: negr_def lnegl_def split: prod.splits)

lemma less_divisor_pair: "bxax (less_divisor b16 b0 r) = bxax r - long b16 b0" "dicx (less_divisor b16 b0 r) = NOT (dicx r)"
proof -
  show "bxax (less_divisor b16 b0 r) = bxax r - long b16 b0"
    by (auto simp: less_divisor_def long_sub split: prod.splits)
  show "dicx (less_divisor b16 b0 r) = NOT (dicx r)"
    by (auto simp: less_divisor_def bit_long bit_not_iff intro!: bit_word_eqI split: prod.splits)
qed

lemma zero_pair: "l OR h = 0 \<longleftrightarrow> long h l = 0"
  using long_inject [of h l 0 0] by (auto simp: or_eq_0_iff)

text \<open>Quotient and remainder of the absolute values, turned into those of the numbers.\<close>

lemma zdivu1_pair:
  "bxax (zdivu1 bneg aneg b16 b0 r) =
     (if bneg then if aneg then - bxax r else if bxax r = 0 then bxax r else bxax r - long b16 b0
      else if \<not> aneg then bxax r else if bxax r = 0 then bxax r else long b16 b0 - bxax r)"
  "dicx (zdivu1 bneg aneg b16 b0 r) =
     (if bneg = aneg then dicx r else if bxax r = 0 then - dicx r else NOT (dicx r))"
  by (auto simp: zdivu1_def zero_pair negr_bxax negr_dicx negq_dicx less_divisor_pair)

lemma got_signs_divides:
  assumes "0 < unat (dicx r)"
  shows "\<exists>q r'. unat (dicx q) = unat (bxax r) div unat (dicx r) \<and> unat (bxax q) = unat (bxax r) mod unat (dicx r)
    \<and> got_signs bneg aneg r = Some r' \<and> bxax r' = bxax (zdivu1 bneg aneg (di r) (cx r) q)
    \<and> dicx r' = dicx (zdivu1 bneg aneg (di r) (cx r) q)"
proof -
  have nz: "\<not> (di r = 0 \<and> cx r = 0)" using assms by auto
  show ?thesis
  proof (cases "di r = 0 \<and> bx r < cx r")
    case True
    then have c: "unat (dicx r) = unat (cx r)" "0 < unat (cx r)" using assms by (simp_all add: unat_long)
    have fits: "unat (bxax r) div unat (cx r) < 65536"
    proof -
      have "unat (bx r) + 1 \<le> unat (cx r)" using True by (simp add: word_less_nat_alt)
      then have "65536 * (unat (bx r) + 1) \<le> 65536 * unat (cx r)" by (rule mult_le_mono2)
      then have "unat (bxax r) < 65536 * unat (cx r)" using unat_lt_65536 [of "ax r"] by (simp add: unat_long)
      then show ?thesis using c(2) by (simp add: less_mult_imp_div_less)
    qed
    have rest: "unat (bxax r) mod unat (cx r) < 65536"
      using mod_less_divisor [OF c(2)] unat_lt_65536 [of "cx r"] by (rule less_trans)
    define q where "q = r\<lparr>cx := of_nat (unat (bxax r) div unat (cx r)), ax := of_nat (unat (bxax r) mod unat (cx r)), bx := di r\<rparr>"
    have "got_signs bneg aneg r = Some (zdivu1 bneg aneg (di r) (cx r) q)"
      using True nz fits c(2) by (simp add: got_signs_def div_regs_def Let_def q_def)
    moreover have "unat (dicx q) = unat (bxax r) div unat (dicx r)" "unat (bxax q) = unat (bxax r) mod unat (dicx r)"
      using True fits rest c(1) by (simp_all add: q_def unat_long unat_of_nat take_bit_eq_mod)
    ultimately show ?thesis by blast
  next
    case False
    obtain q where "divlarge r = Some q" "unat (dicx q) = unat (bxax r) div unat (dicx r)"
        "unat (bxax q) = unat (bxax r) mod unat (dicx r)"
      using divlarge_divides [OF assms] by blast
    moreover from this(1) False nz have "got_signs bneg aneg r = Some (zdivu1 bneg aneg (di r) (cx r) q\<lparr>si := si r\<rparr>)"
      by (auto simp: got_signs_def)
    ultimately show ?thesis by force
  qed
qed

text \<open>
  \<open>ludivmod\<close> leaves the quotient in \<open>di:cx\<close> and the remainder in \<open>bx:ax\<close>.
\<close>

lemma ludivmod_correct:
  "\<exists>r'. ludivmod r = Some r' \<and> dicx r' = bxax r div dicx r \<and> bxax r' = bxax r mod dicx r"
proof (cases "di r = 0 \<and> cx r = 0")
  case True
  then show ?thesis by (simp add: ludivmod_def got_signs_def)
next
  case False
  then have "0 < unat (dicx r)" using long_inject [of "di r" "cx r" 0 0] by (simp add: unat_gt_0)
  from got_signs_divides [OF this, of False False] show ?thesis
    by (auto simp: ludivmod_def zdivu1_pair word_unat_eq_iff unat_div_distrib unat_mod_distrib)
qed

lemma unat_abs: "int (unat (if bit w 31 then - w else w)) = \<bar>sint w\<bar>" for w :: u32
proof (cases "bit w 31")
  case True
  then have "2147483648 \<le> unat w" by (simp add: bit_31_iff)
  moreover have "unat w < 4294967296" using unsigned_less [of w, where ?'a = nat] by simp
  moreover have "unat (- w) = unat (0 - w)" by simp
  ultimately have "unat (- w) = 4294967296 - unat w"
    by (simp only: unat_sub_if_size) (simp add: word_size)
  then show ?thesis using True sint_32 [of w] uint_bounded [of w] \<open>unat w < 4294967296\<close> by (simp add: abs_if)
qed (simp add: sint_32)

lemma sint_neg_iff: "bit w 31 \<longleftrightarrow> sint w < 0" for w :: u32
  using bit_last_iff [of w] by simp

text \<open>Quotient and remainder of the absolute values and those of the numbers.\<close>

lemma floor_signs:
  fixes s t :: int
  assumes "t \<noteq> 0"
  shows "s div t = (if (t < 0) = (s < 0) then \<bar>s\<bar> div \<bar>t\<bar>
      else if \<bar>s\<bar> mod \<bar>t\<bar> = 0 then - (\<bar>s\<bar> div \<bar>t\<bar>) else - (\<bar>s\<bar> div \<bar>t\<bar>) - 1)"
    "s mod t = (if t < 0 then if s < 0 then - (\<bar>s\<bar> mod \<bar>t\<bar>) else if \<bar>s\<bar> mod \<bar>t\<bar> = 0 then 0 else \<bar>s\<bar> mod \<bar>t\<bar> - \<bar>t\<bar>
      else if s < 0 then if \<bar>s\<bar> mod \<bar>t\<bar> = 0 then 0 else \<bar>t\<bar> - \<bar>s\<bar> mod \<bar>t\<bar> else \<bar>s\<bar> mod \<bar>t\<bar>)"
  using zdiv_zminus1_eq_if [of t "- s"] zdiv_zminus2_eq_if [of "- t" s] zmod_zminus1_eq_if [of "- s" t] zmod_zminus2_eq_if [of s "- t"] assms
  by auto

lemma quotient_words:
  assumes "int (unat (w :: u32)) = x" and "int (unat (v :: u32)) = y"
    and "unat (q :: u32) = unat w div unat v" and "unat (m :: u32) = unat w mod unat v"
  shows "q = word_of_int (x div y)" "m = word_of_int (x mod y)" "v = word_of_int y" "m = 0 \<longleftrightarrow> x mod y = 0"
proof -
  have q: "int (unat q) = x div y" "int (unat m) = x mod y" using assms by (simp_all add: zdiv_int zmod_int)
  show "q = word_of_int (x div y)" unfolding q(1) [symmetric] by simp
  show "m = word_of_int (x mod y)" unfolding q(2) [symmetric] by simp
  show "v = word_of_int y" unfolding assms(2) [symmetric] by simp
  show "m = 0 \<longleftrightarrow> x mod y = 0" using q(2) by (metis of_nat_eq_0_iff unat_eq_zero)
qed

lemma ldivmod_correct:
  "\<exists>r'. ldivmod r = Some r' \<and> dicx r' = word_of_int (sint (bxax r) div sint (dicx r))
     \<and> bxax r' = word_of_int (sint (bxax r) mod sint (dicx r))"
proof -
  define bneg aneg where "bneg = bit (di r) 15" and "aneg = bit (bx r) 15"
  define r1 where "r1 = (let r = (if bneg then negq r else r) in if aneg then negr r else r)"
  have signs: "bneg \<longleftrightarrow> bit (dicx r) 31" "aneg \<longleftrightarrow> bit (bxax r) 31" by (simp_all add: bneg_def aneg_def bit_long)
  have step: "ldivmod r = got_signs bneg aneg r1"
  proof -
    have "bx (negq r) = bx r" by (simp add: negq_def split: prod.splits)
    then show ?thesis by (simp add: ldivmod_def r1_def bneg_def aneg_def Let_def)
  qed
  have parts: "bxax r1 = (if bit (bxax r) 31 then - bxax r else bxax r)" "dicx r1 = (if bit (dicx r) 31 then - dicx r else dicx r)"
    unfolding r1_def Let_def signs by (simp_all add: negq_dicx negr_dicx negr_bxax)
  define s t where "s = sint (bxax r)" and "t = sint (dicx r)"
  have abs: "int (unat (bxax r1)) = \<bar>s\<bar>" "int (unat (dicx r1)) = \<bar>t\<bar>"
    unfolding parts s_def t_def by (rule unat_abs)+
  have neg: "bneg \<longleftrightarrow> t < 0" "aneg \<longleftrightarrow> s < 0" unfolding signs s_def t_def by (rule sint_neg_iff)+
  show ?thesis
  proof (cases "t = 0")
    case True
    then have "unat (dicx r1) = 0" using abs(2) by (simp only: abs_zero of_nat_eq_0_iff)
    then have zero: "dicx r1 = 0" by (simp only: unat_eq_0)
    then have "di r1 = 0" "cx r1 = 0" using long_inject [of "di r1" "cx r1" 0 0] by simp_all
    then have "ldivmod r = Some (if aneg then negr r1 else r1)" by (simp add: step got_signs_def)
    moreover have "bxax (if aneg then negr r1 else r1) = bxax r" "dicx (if aneg then negr r1 else r1) = 0"
      using zero parts signs by (simp_all add: negr_bxax negr_dicx)
    ultimately show ?thesis using True by (simp add: s_def [symmetric] t_def [symmetric]) (simp add: s_def)
  next
    case False
    then have "0 < unat (dicx r1)" using abs(2) by linarith
    from got_signs_divides [OF this, of bneg aneg] obtain q r' where q: "unat (dicx q) = unat (bxax r1) div unat (dicx r1)"
        "unat (bxax q) = unat (bxax r1) mod unat (dicx r1)" "ldivmod r = Some r'"
        "bxax r' = bxax (zdivu1 bneg aneg (di r1) (cx r1) q)" "dicx r' = dicx (zdivu1 bneg aneg (di r1) (cx r1) q)"
      unfolding step by blast
    note words = quotient_words [OF abs q(1,2)]
    have "dicx r' = word_of_int (s div t)"
      unfolding q(5) zdivu1_pair words(4)
      unfolding neg floor_signs(1) [OF False] words(1,2) by (simp add: not_eq_complement)
    moreover have "bxax r' = word_of_int (s mod t)"
      unfolding q(4) zdivu1_pair words(4)
      unfolding neg floor_signs(2) [OF False] words(2,3) by simp
    ultimately show ?thesis using q(3) by (simp add: s_def t_def)
  qed
qed

section \<open>The callers\<close>

definition load_divisor :: "u16 \<Rightarrow> 'z machine_scheme \<Rightarrow> regs \<Rightarrow> regs" where
  "load_divisor ds s r = r\<lparr>cx := lo_word ds (di r) s, di := hi_word ds (di r) s\<rparr>"

definition xchg_pairs :: "regs \<Rightarrow> regs" where
  "xchg_pairs r = r\<lparr>ax := cx r, cx := ax r, bx := di r, di := bx r\<rparr>"

definition ldivl :: "u16 \<Rightarrow> 'z machine_scheme \<Rightarrow> regs \<Rightarrow> regs option" where
  "ldivl ds s r = map_option xchg_pairs (ldivmod (load_divisor ds s r))"

definition ldivul :: "u16 \<Rightarrow> 'z machine_scheme \<Rightarrow> regs \<Rightarrow> regs option" where
  "ldivul ds s r = map_option xchg_pairs (ludivmod (load_divisor ds s r))"

definition lmodl :: "u16 \<Rightarrow> 'z machine_scheme \<Rightarrow> regs \<Rightarrow> regs option" where
  "lmodl ds s r = ldivmod (load_divisor ds s r)"

definition lmodul :: "u16 \<Rightarrow> 'z machine_scheme \<Rightarrow> regs \<Rightarrow> regs option" where
  "lmodul ds s r = ludivmod (load_divisor ds s r)"

lemma xchg_pairs_simps: "bxax (xchg_pairs r) = dicx r" "dicx (xchg_pairs r) = bxax r"
  by (simp_all add: xchg_pairs_def)

lemma load_divisor_simps: "bxax (load_divisor ds s r) = bxax r" "dicx (load_divisor ds s r) = long_at ds (di r) s"
  by (simp_all add: load_divisor_def long_at_def)

text \<open>
  C37: the routines for unsigned long division return, for all numbers, the quotient of 32-bit words
  and its remainder; they end also for a divisor 0, with the quotient 0 and the dividend as remainder.
\<close>

theorem unsigned_long_division:
  "\<exists>q m. ldivul ds s r = Some q \<and> bxax q = bxax r div long_at ds (di r) s \<and> dicx q = bxax r mod long_at ds (di r) s
    \<and> lmodul ds s r = Some m \<and> bxax m = bxax r mod long_at ds (di r) s \<and> dicx m = bxax r div long_at ds (di r) s"
  using ludivmod_correct [of "load_divisor ds s r"]
  by (auto simp: ldivul_def lmodul_def load_divisor_simps xchg_pairs_simps)

text \<open>
  C38: the routines for signed long division return, for all numbers, the quotient rounded towards
  minus infinity, so that the remainder has the sign of the divisor, both modulo \<open>2 ^ 32\<close>.
\<close>

theorem signed_long_division:
  "\<exists>q m. ldivl ds s r = Some q \<and> lmodl ds s r = Some m
    \<and> bxax q = word_of_int (sint (bxax r) div sint (long_at ds (di r) s))
    \<and> dicx q = word_of_int (sint (bxax r) mod sint (long_at ds (di r) s))
    \<and> bxax m = dicx q \<and> dicx m = bxax q"
  using ldivmod_correct [of "load_divisor ds s r"]
  by (auto simp: ldivl_def lmodl_def load_divisor_simps xchg_pairs_simps)

text \<open>
  The quotient is not the one of the language, which rounds towards zero, and the 16-bit division
  does: \<open>-7 / 2\<close> is \<open>-3\<close> for integers and \<open>-4\<close> for long integers.
\<close>

lemma division_conventions_differ:
  "\<exists>q. idiv \<lparr>ax = - 7, bx = 2, cx = 0, dx = 0, si = 0, di = 0\<rparr> = Some q \<and> sint (ax q) = - 3"
  "\<exists>q. ldivmod \<lparr>ax = - 7, bx = - 1, cx = 2, dx = 0, si = 0, di = 0\<rparr> = Some q \<and> sint (dicx q) = - 4"
proof -
  show "\<exists>q. idiv \<lparr>ax = - 7, bx = 2, cx = 0, dx = 0, si = 0, di = 0\<rparr> = Some q \<and> sint (ax q) = - 3"
    using signed_division_correct [of "\<lparr>ax = - 7, bx = 2, cx = 0, dx = 0, si = 0, di = 0\<rparr>"] by (auto simp: signed_divide_int_def)
  have "long (- 1) (- 7) = - 7" "long 0 2 = 2" by (simp_all add: long_eq_iff)
  then show "\<exists>q. ldivmod \<lparr>ax = - 7, bx = - 1, cx = 2, dx = 0, si = 0, di = 0\<rparr> = Some q \<and> sint (dicx q) = - 4"
    using ldivmod_correct [of "\<lparr>ax = - 7, bx = - 1, cx = 2, dx = 0, si = 0, di = 0\<rparr>"] by auto
qed

end
