(* ===== verification/Spec2Isabelle.thy ===== *)
theory Spec2Isabelle
  imports Mutex Panic Start Gate UserPrint UserInt Ldivmod
begin

text \<open>
  A model of the kernel of RMMTOS, a multitasking kernel for real-mode x86 compiled with
  \<^verbatim>\<open>bcc\<close>, of the system call library and some programs of its user space, and the theorems
  that make its parts correct.

  \<^bold>\<open>The program.\<close>  The kernel (\<^verbatim>\<open>kernel/\<close>) lives in segment \<^verbatim>\<open>0x50\<close>, every task in one of eight segments
  behind it.  A program raises interrupt \<^verbatim>\<open>0x80\<close>; \<^verbatim>\<open>gate.s\<close> saves its registers on its own stack and
  \<^verbatim>\<open>int_disp.c\<close> dispatches to \<^verbatim>\<open>syscall.c\<close>, which works on the handle table of the task
  (\<^verbatim>\<open>task.c\<close>) and on the file layer (\<^verbatim>\<open>fs/\<close>): paths are resolved over directories, files are those
  of a file system (FAT, RAM, devices) or block devices behind a cache.  Interrupts of the devices
  wake the tasks that wait for them.  \<^verbatim>\<open>init/\<close> holds the user programs.

  \<^bold>\<open>Conventions.\<close>  An \<open>int\<close> of the compiler has 16 bits and is a \<open>u16\<close>, so that it wraps as in the code;
  pointers are offsets in the segment of the kernel.  Operations that change state are functions
  from a state to an error or a result and a new state (\<open>kmon\<close> of theory Prelude); \<open>Panic\<close> is a
  call of \<^verbatim>\<open>panic\<close>, \<open>BadPtr\<close> the use of an address at which the model has no object of the type that
  the code expects, \<open>Hang\<close> a loop that does not end.  Loops that may not end are
  \<open>partial_function\<close>s, and theorems about them say that they do.  The states are records, extended
  from theory to theory in the order in which the code builds on itself: \<open>machine\<close> (memory, ports),
  \<open>heap\<close>, \<open>tasks\<close>, \<open>irqs\<close>, the drivers, \<open>fs\<close>.  The bytes of memory hold strings, buffers, saved
  registers and tables; structures of the file layer are kept in maps from their addresses, whose
  memory the heap reserves.  Messages that are printed are left out.

  \<^bold>\<open>The kernel, theory by theory.\<close>

  \<^item> Machine (\<^verbatim>\<open>mem.c\<close>, \<^verbatim>\<open>io.c\<close>, \<^verbatim>\<open>serial.c\<close>, copying of \<^verbatim>\<open>string.c\<close>): segmented memory; UInt64
    (\<^verbatim>\<open>uint64.c\<close>): the numbers of four limbs with the conditions under which sums, differences and
    shifts are right; CString (\<^verbatim>\<open>string.c\<close>); Printf (\<^verbatim>\<open>printf.c\<close>), with \<open>atoi\<close> as its inverse;
    Panic (\<^verbatim>\<open>panic.c\<close>).
  \<^item> Malloc (\<^verbatim>\<open>malloc.c\<close>): zones and bitmap.  \<open>heap_inv\<close> is the invariant; blocks are found by first fit,
    are apart, and allocation and release are inverse.  Locale \<open>allocator\<close> is what the other components rely on.
  \<^item> Task, Handles, Fork (\<^verbatim>\<open>task.c\<close>): segments, round-robin scheduling, sleeping and waking, the context
    switch on the kernel stacks, handle tables (locale \<open>handle_table\<close>), \<open>fork\<close> and \<open>exec\<close> with the
    memory and the first switch of the child.
  \<^item> Irq (\<^verbatim>\<open>int_disp.c\<close>): the dispatcher, waiting tasks and acknowledgement; Mutex (\<^verbatim>\<open>mutex.c\<close>): all
    interleavings of tasks on one lock; Clock (\<^verbatim>\<open>clock.c\<close>): the queue of alarms as a list of deltas.
  \<^item> Screen, Keyb, Floppy (\<^verbatim>\<open>char/\<close>, \<^verbatim>\<open>block/\<close>): drivers; what ports return is a parameter.
  \<^item> Node, File, Directory, Vfs (\<^verbatim>\<open>fs/\<close>): reference counts, reader and writer counts (locale \<open>rw_lock\<close>
    on files and directories), types of handles, lists of children, and path resolution as a walk
    through the parts of the path, interleaved with opening directories.
  \<^item> Block, Image, Fat, FatRead (\<^verbatim>\<open>block.c\<close>, \<^verbatim>\<open>fat.c\<close>): a cached block file shows the image of its
    device (locale \<open>image_file\<close>, interpreted on \<open>blockfile_read\<close>), and reading a FAT file through it
    returns the bytes of its cluster chain.  The driver is a parameter with the contract \<open>delivers\<close>:
    it writes the block it was asked for into the buffer and nothing else.
  \<^item> Devices, Syscall, SyscallRead, Start (\<^verbatim>\<open>ramfs.c\<close>, \<^verbatim>\<open>devfs.c\<close>, \<^verbatim>\<open>syscall.c\<close>, \<^verbatim>\<open>start.c\<close>): the tables of
    operations, all system calls and the order of initialisation.  \<open>calls n\<close> ties the
    function pointers of the objects to the operations, with \<open>n\<close> levels of calls of one file system by another; reading a
    file of a mounted volume takes three (FAT, block file, driver), a write to the screen one.  A read of a
    program is followed down to the bytes of the volume.

  \<^bold>\<open>The compiler's library and the user space.\<close>

  \<^item> Runtime, Ldivmod (\<^verbatim>\<open>bcc/\<close>): the routines that compiled code calls for long numbers, on 16-bit
    registers and flags; they compute the operations of 32-bit words, and the division loop ends
    for all numbers.
  \<^item> UserCall (\<^verbatim>\<open>init/sys.c\<close>, \<^verbatim>\<open>kernel/gate.s\<close>): the stubs, the way through the gate and back on the stack
    of the program; the arguments arrive and the registers come back.  UserRead puts the parts together: a
    program that reads a file of a mounted volume finds the bytes of the volume in its buffer, and
    nothing else of its memory and registers has changed apart from its stack and the result.
    UserWrite does the same for a write to the screen, and UserPrint for \<open>printf\<close>: the screen holds what the
    driver makes of the formatted characters.
  \<^item> Gate (\<^verbatim>\<open>kernel/int_stub.s\<close>, \<^verbatim>\<open>gate.s\<close>): interrupts that are taken in a program or in the kernel; a key
    is put into the queue of the keyboard, and what was interrupted goes on with its registers.
  \<^item> UserHeap (\<^verbatim>\<open>init/memory.c\<close>): the list of blocks in the pool refines first fit and merging on a
    list of sizes; UserInt (\<^verbatim>\<open>init/uint64.c\<close>): the functions that differ from the kernel's.
  \<^item> UserShell (\<^verbatim>\<open>init/shell.c\<close>, \<^verbatim>\<open>type.c\<close>): from keys to a line to a command, and the copying loop;
    UserPresent (\<^verbatim>\<open>present.c\<close>): the rows of a presentation, its keys and its commands.
  \<^item> UserLib (\<^verbatim>\<open>init/io.c\<close>, \<^verbatim>\<open>string.c\<close>, \<^verbatim>\<open>printf.c\<close>, \<^verbatim>\<open>crt0.c\<close>, \<^verbatim>\<open>init.c\<close> and the small programs): files
    over the system calls and the pool; \<open>io_run\<close> are the states that a program with files can reach, and
    \<open>io_inv\<close> is their invariant: files and blocks are apart, and closing and freeing all of them leaves one free block.

  \<^bold>\<open>Bounds.\<close>  \<open>tree\<close> and \<open>print_cached_nodes\<close>, which only print, take a bound on their recursion
  and are \<open>Hang\<close> beyond it.  The specification of path resolution follows at most 65536 children of a
  directory; there are no more addresses, and lemma \<open>child_list_length\<close> shows that a list of children is never
  longer.  Sizes of heap zones, tables and caches are those of the code.

  \<^bold>\<open>Not modelled.\<close>  Messages and debug output, apart from what \<open>printf\<close> and \<open>panic\<close> write; the boot sector and
  \<^verbatim>\<open>stack.s\<close>; the stack that compiled functions use for their own variables; interrupts that come while an operation of the kernel is under
  way, apart from the interleavings of the mutex, the clock and the sleeping tasks and from what Gate shows of
  their way in and out.  The copies of files of the kernel
  in \<^verbatim>\<open>init/bcc\<close>, and the functions of \<^verbatim>\<open>init/string.c\<close>, \<^verbatim>\<open>init/printf.c\<close> and \<^verbatim>\<open>init/uint64.c\<close> that are the same as
  the kernel's, have no definitions of their own.
\<close>

end
